(* ===== verification/Prelude.thy ===== *)
theory Prelude
  imports Main "HOL-Library.Word"
begin

text \<open>
  Shared vocabulary of the development: machine integers as words, C pointers and failing
  operations as values, and the collections of facts the component theories use.
  A failed \<^verbatim>\<open>ASSERT\<close> (panglos/debug.h) calls \<^verbatim>\<open>Error_Handler()\<close>; the model stops there with
  \<open>Inl AssertFailed\<close>. Undefined behaviour of C++ that an operation can reach (a read outside
  the buffer, a null dereference) is a failure of its own, never a silently chosen value.
\<close>

unbundle bit_operations_syntax

type_synonym u8 = "8 word"
type_synonym u16 = "16 word"
type_synonym u32 = "32 word"
type_synonym u64 = "64 word"

datatype error = AssertFailed | OutOfBounds | NullDeref

type_synonym 'a result = "error + 'a"

text \<open>Sequencing of operations that can fail.\<close>

fun rbind :: "'a result \<Rightarrow> ('a \<Rightarrow> 'b result) \<Rightarrow> 'b result" where
  "rbind (Inl e) f = Inl e"
| "rbind (Inr a) f = f a"

lemma rbind_Inr_conv: "rbind m f = Inr b \<longleftrightarrow> (\<exists>a. m = Inr a \<and> f a = Inr b)"
  by (cases m) auto

lemma rbind_assoc: "rbind (rbind m f) g = rbind m (\<lambda>x. rbind (f x) g)"
  by (cases m) auto

lemma rbind_cong [fundef_cong]:
  "m = m' \<Longrightarrow> (\<And>a. m' = Inr a \<Longrightarrow> f a = g a) \<Longrightarrow> rbind m f = rbind m' g"
  by (cases m') auto

text \<open>The same where the first operation may also run out of fuel or not return.\<close>

fun obind :: "'a result option \<Rightarrow> ('a \<Rightarrow> 'b result option) \<Rightarrow> 'b result option" where
  "obind None f = None"
| "obind (Some (Inl e)) f = Some (Inl e)"
| "obind (Some (Inr a)) f = f a"

lemma obind_cong [fundef_cong]:
  "m = m' \<Longrightarrow> (\<And>a. m' = Some (Inr a) \<Longrightarrow> f a = g a) \<Longrightarrow> obind m f = obind m' g"
  by (cases "(m', f)" rule: obind.cases) auto

lemma obind_Some_conv:
  "obind m f = Some r \<longleftrightarrow>
     (\<exists>e. m = Some (Inl e) \<and> r = Inl e) \<or> (\<exists>a. m = Some (Inr a) \<and> f a = Some r)"
  by (cases "(m, f)" rule: obind.cases) auto

lemma obind_None_conv: "obind m f = None \<longleftrightarrow> m = None \<or> (\<exists>a. m = Some (Inr a) \<and> f a = None)"
  by (cases "(m, f)" rule: obind.cases) auto

text \<open>
  Weakest preconditions of such an operation: \<open>Q\<close> of its result where it returns one, \<open>N\<close> where it
  has none, \<open>E\<close> where it fails.
\<close>

definition wp :: "bool \<Rightarrow> bool \<Rightarrow> ('a \<Rightarrow> bool) \<Rightarrow> 'a result option \<Rightarrow> bool" where
  "wp N E Q m \<longleftrightarrow> (case m of None \<Rightarrow> N | Some (Inl e) \<Rightarrow> E | Some (Inr a) \<Rightarrow> Q a)"

lemma wp_simps [simp]:
  "wp N E Q None = N"
  "wp N E Q (Some (Inl e)) = E"
  "wp N E Q (Some (Inr a)) = Q a"
  by (simp_all add: wp_def)

lemma wp_obind: "wp N E Q (obind m f) = wp N E (\<lambda>a. wp N E Q (f a)) m"
  by (cases "(m, f)" rule: obind.cases) auto

lemma wp_conseq: "wp N E R m \<Longrightarrow> (\<And>a. R a \<Longrightarrow> Q a) \<Longrightarrow> wp N E Q m"
  by (auto simp: wp_def split: option.splits sum.splits)

lemma wp_seq: "wp N E R m \<Longrightarrow> (\<And>a. R a \<Longrightarrow> wp N E Q (f a)) \<Longrightarrow> wp N E Q (obind m f)"
  by (auto simp: wp_obind intro: wp_conseq)

lemma wp_TrueI: "(\<And>a. m = Some (Inr a) \<Longrightarrow> Q a) \<Longrightarrow> wp True True Q m"
  by (auto simp: wp_def split: option.splits sum.splits)

lemma wpD: "wp N E Q m \<Longrightarrow> m = Some (Inr a) \<Longrightarrow> Q a"
  by simp

text \<open>Boolean results of C functions that return \<^verbatim>\<open>bool\<close> as an int.\<close>

definition c_bool :: "bool \<Rightarrow> nat" where
  "c_bool b = (if b then 1 else 0)"

text \<open>
  Facts about the sequence a data structure stands for (\<open>abs_simps\<close>), and facts that an
  operation keeps a component's invariant (\<open>inv_intros\<close>).
\<close>

named_theorems abs_simps "what an operation does to the abstract value"
named_theorems inv_intros "an operation keeps the invariant"

text \<open>Lists.\<close>

lemma takeWhile_dropWhile_insert_set:
  "set (takeWhile P xs @ w # dropWhile P xs) = insert w (set xs)"
  by (metis list.set(2) set_append sup_commute Un_insert_left takeWhile_dropWhile_id)

lemma length_takeWhile_dropWhile_insert:
  "length (takeWhile P xs @ w # dropWhile P xs) = Suc (length xs)"
  by (metis add_Suc_right length_append list.size(4) takeWhile_dropWhile_id One_nat_def add.right_neutral)

lemma remove1_split: "w \<notin> set xs \<Longrightarrow> remove1 w (xs @ w # ys) = xs @ ys"
  by (simp add: remove1_append)

lemma take_update_nth: "n < length xs \<Longrightarrow> take (Suc n) (xs[n := x]) = take n xs @ [x]"
  by (simp add: take_Suc_conv_app_nth)

lemma take_drop_update:
  "i \<le> n \<Longrightarrow> n < length xs \<Longrightarrow> take (Suc n - i) (drop i (xs[n := x])) = take (n - i) (drop i xs) @ [x]"
  by (simp add: Suc_diff_le drop_update_swap take_update_nth)

subsection \<open>Running a script of operations\<close>

text \<open>
  An implementation step may not return (\<open>None\<close>), may fail (\<open>Some (Inl e)\<close>), or returns a result
  and a new state. A specification step is total. \<open>run_impl\<close> stops at the first step that does
  not return or fails.
\<close>

fun run_impl ::
    "('op \<Rightarrow> 's \<Rightarrow> ('r \<times> 's) result option) \<Rightarrow> 'op list \<Rightarrow> 's \<Rightarrow> ('r list \<times> 's) result option" where
  "run_impl step [] s = Some (Inr ([], s))"
| "run_impl step (c # cs) s =
     (case step c s of
        None \<Rightarrow> None
      | Some (Inl e) \<Rightarrow> Some (Inl e)
      | Some (Inr (r, s')) \<Rightarrow>
          (case run_impl step cs s' of
             None \<Rightarrow> None
           | Some (Inl e) \<Rightarrow> Some (Inl e)
           | Some (Inr (rs, s'')) \<Rightarrow> Some (Inr (r # rs, s''))))"

fun run_spec :: "('op \<Rightarrow> 'b \<Rightarrow> 'r \<times> 'b) \<Rightarrow> 'op list \<Rightarrow> 'b \<Rightarrow> 'r list \<times> 'b" where
  "run_spec spec [] a = ([], a)"
| "run_spec spec (c # cs) a =
     (let (r, a') = spec c a; (rs, a'') = run_spec spec cs a' in (r # rs, a''))"

fun run_ok :: "('op \<Rightarrow> 'b \<Rightarrow> 'r \<times> 'b) \<Rightarrow> ('op \<Rightarrow> 'b \<Rightarrow> bool) \<Rightarrow> 'op list \<Rightarrow> 'b \<Rightarrow> bool" where
  "run_ok spec ok [] a \<longleftrightarrow> True"
| "run_ok spec ok (c # cs) a \<longleftrightarrow> ok c a \<and> run_ok spec ok cs (snd (spec c a))"

text \<open>
  The contract of a data structure: each step, where its precondition holds of the abstract
  value, returns without failing, gives the specified result and re-establishes the
  representation.
\<close>

locale simulation =
  fixes rep :: "'s \<Rightarrow> 'b \<Rightarrow> bool"
    and step :: "'op \<Rightarrow> 's \<Rightarrow> ('r \<times> 's) result option"
    and spec :: "'op \<Rightarrow> 'b \<Rightarrow> 'r \<times> 'b"
    and ok :: "'op \<Rightarrow> 'b \<Rightarrow> bool"
  assumes step_sim: "rep s a \<Longrightarrow> ok c a \<Longrightarrow>
    \<exists>s'. step c s = Some (Inr (fst (spec c a), s')) \<and> rep s' (snd (spec c a))"
begin

lemma run_sim:
  "rep s a \<Longrightarrow> run_ok spec ok cs a \<Longrightarrow>
   \<exists>s'. run_impl step cs s = Some (Inr (fst (run_spec spec cs a), s')) \<and>
        rep s' (snd (run_spec spec cs a))"
proof (induction cs arbitrary: s a)
  case Nil
  then show ?case by simp
next
  case (Cons c cs)
  from Cons.prems obtain s1 where
    s1: "step c s = Some (Inr (fst (spec c a), s1))" "rep s1 (snd (spec c a))"
    using step_sim [of s a c] by auto
  from Cons.IH [OF s1(2)] Cons.prems obtain s2 where
    "run_impl step cs s1 = Some (Inr (fst (run_spec spec cs (snd (spec c a))), s2))"
    "rep s2 (snd (run_spec spec cs (snd (spec c a))))"
    by auto
  with s1 show ?case by (simp add: split_beta Let_def)
qed

end

end
