(* ===== verification/QueueSpec.thy ===== *)
theory QueueSpec
  imports Prelude "HOL-Library.Sublist"
begin

text \<open>
  The contract the bounded queues of panglos share (the two ring buffers, the Linux message
  queue): a first-in first-out sequence with a capacity. A queue refuses an element when it is
  full and yields nothing when it is empty.
\<close>

datatype 'a queue_op = Put 'a | Get

text \<open>
  A script of puts and gets: the elements that were accepted, the elements that came out, and
  the queue that is left.
\<close>

fun queue_run ::
    "('a \<Rightarrow> 'q \<Rightarrow> (bool \<times> 'q) result) \<Rightarrow> ('q \<Rightarrow> ('a option \<times> 'q) result) \<Rightarrow>
     'a queue_op list \<Rightarrow> 'q \<Rightarrow> ('a list \<times> 'a list \<times> 'q) result" where
  "queue_run enq deq [] q = Inr ([], [], q)"
| "queue_run enq deq (Put x # ops) q =
     rbind (enq x q) (\<lambda>(ok, q'). rbind (queue_run enq deq ops q') (\<lambda>(acc, out, q'').
       Inr (if ok then x # acc else acc, out, q'')))"
| "queue_run enq deq (Get # ops) q =
     rbind (deq q) (\<lambda>(r, q'). rbind (queue_run enq deq ops q') (\<lambda>(acc, out, q'').
       Inr (acc, case r of None \<Rightarrow> out | Some x \<Rightarrow> x # out, q'')))"

fun offered :: "'a queue_op list \<Rightarrow> 'a list" where
  "offered [] = []"
| "offered (Put x # ops) = x # offered ops"
| "offered (Get # ops) = offered ops"

locale bounded_fifo =
  fixes contents :: "'q \<Rightarrow> 'a list"
    and invar :: "'q \<Rightarrow> bool"
    and capacity :: "'q \<Rightarrow> nat"
    and enq :: "'a \<Rightarrow> 'q \<Rightarrow> (bool \<times> 'q) result"
    and deq :: "'q \<Rightarrow> ('a option \<times> 'q) result"
  assumes enq_law: "invar q \<Longrightarrow>
      \<exists>q'. enq x q = Inr (length (contents q) < capacity q, q') \<and> invar q' \<and> capacity q' = capacity q \<and>
           contents q' = (if length (contents q) < capacity q then contents q @ [x] else contents q)"
    and deq_law: "invar q \<Longrightarrow>
      \<exists>q'. deq q = Inr (case contents q of [] \<Rightarrow> None | x # _ \<Rightarrow> Some x, q') \<and> invar q' \<and>
           capacity q' = capacity q \<and> contents q' = tl (contents q)"
    and within: "invar q \<Longrightarrow> length (contents q) \<le> capacity q"
begin

text \<open>
  Every script succeeds. What was accepted, after what was there, is what came out followed by
  what is still there: nothing is lost, duplicated or reordered.
\<close>

lemma conservation:
  "invar q \<Longrightarrow>
   \<exists>acc out q'. queue_run enq deq ops q = Inr (acc, out, q') \<and> invar q' \<and> capacity q' = capacity q \<and>
     contents q @ acc = out @ contents q' \<and> subseq acc (offered ops) \<and>
     length (contents q') \<le> capacity q"
proof (induction ops arbitrary: q)
  case Nil
  then show ?case using within by simp
next
  case (Cons c ops)
  show ?case
  proof (cases c)
    case (Put x)
    from enq_law [OF Cons.prems, of x] obtain q1 where
      q1: "enq x q = Inr (length (contents q) < capacity q, q1)" "invar q1" "capacity q1 = capacity q"
        "contents q1 = (if length (contents q) < capacity q then contents q @ [x] else contents q)"
      by blast
    from Cons.IH [OF q1(2)] obtain acc out q' where
      "queue_run enq deq ops q1 = Inr (acc, out, q')" "invar q'" "capacity q' = capacity q1"
      "contents q1 @ acc = out @ contents q'" "subseq acc (offered ops)"
      "length (contents q') \<le> capacity q1"
      by blast
    with q1 Put show ?thesis
      by (cases "length (contents q) < capacity q") auto
  next
    case Get
    from deq_law [OF Cons.prems] obtain q1 where
      q1: "deq q = Inr (case contents q of [] \<Rightarrow> None | x # _ \<Rightarrow> Some x, q1)" "invar q1"
        "capacity q1 = capacity q" "contents q1 = tl (contents q)"
      by blast
    from Cons.IH [OF q1(2)] obtain acc out q' where
      "queue_run enq deq ops q1 = Inr (acc, out, q')" "invar q'" "capacity q' = capacity q1"
      "contents q1 @ acc = out @ contents q'" "subseq acc (offered ops)"
      "length (contents q') \<le> capacity q1"
      by blast
    with q1 Get show ?thesis by (cases "contents q") auto
  qed
qed

text \<open>While there is room for everything that is offered, nothing is refused.\<close>

lemma all_accepted:
  "invar q \<Longrightarrow> length (contents q) + length (offered ops) \<le> capacity q \<Longrightarrow>
   queue_run enq deq ops q = Inr (acc, out, q') \<Longrightarrow> acc = offered ops"
proof (induction ops arbitrary: q acc out q')
  case Nil
  then show ?case by simp
next
  case (Cons c ops)
  show ?case
  proof (cases c)
    case (Put x)
    from enq_law [OF Cons.prems(1), of x] obtain q1 where
      q1: "enq x q = Inr (length (contents q) < capacity q, q1)" "invar q1" "capacity q1 = capacity q"
        "contents q1 = (if length (contents q) < capacity q then contents q @ [x] else contents q)"
      by blast
    with Cons.prems(2,3) Put obtain acc1 where
      "queue_run enq deq ops q1 = Inr (acc1, out, q')" and "acc = x # acc1"
      by (auto simp: rbind_Inr_conv)
    with Cons.IH [OF q1(2)] Cons.prems(2) q1 Put show ?thesis by auto
  next
    case Get
    from deq_law [OF Cons.prems(1)] obtain q1 where
      q1: "deq q = Inr (case contents q of [] \<Rightarrow> None | x # _ \<Rightarrow> Some x, q1)" "invar q1"
        "capacity q1 = capacity q" "contents q1 = tl (contents q)"
      by blast
    with Cons.prems(3) Get obtain out1 where
      "queue_run enq deq ops q1 = Inr (acc, out1, q')"
      by (auto simp: rbind_Inr_conv)
    with Cons.IH [OF q1(2)] Cons.prems(2) q1 Get show ?thesis by auto
  qed
qed

end

end
