(* ===== verification/RingBuffers.thy ===== *)
theory RingBuffers
  imports QueueSpec
begin

text \<open>
  Two ring buffers. \<open>ring\<close> is \<^verbatim>\<open>RingBuffer\<close> of buffer.h: it keeps one element of the array
  unused to tell full from empty, and may own a semaphore that readers wait on. \<open>mring\<close> is
  \<^verbatim>\<open>RingBuffer\<close> of ring_buffer.h: its read and write counters run freely as 32-bit unsigned
  numbers and are masked only when they index the array.
  The mutex is not modelled: each operation holds it from start to end, so it is one step.
\<close>

subsection \<open>RingBuffer of buffer.h\<close>

record 'a ring =
  rdata :: "'a list"           \<comment> \<open>the malloc'ed array: \<open>rsize\<close> elements, uninitialised at first\<close>
  rin :: nat
  rout :: nat
  rsize :: nat
  rsem :: "nat option"         \<comment> \<open>posts on the semaphore, \<open>None\<close> where the pointer is null\<close>

definition ring_next :: "nat \<Rightarrow> 'a ring \<Rightarrow> nat" where
  "ring_next i r = (let next = i + 1 in if next \<ge> rsize r then 0 else next)"

definition ring_init :: "'a list \<Rightarrow> nat option \<Rightarrow> 'a ring" where
  "ring_init junk sem = \<lparr>rdata = junk, rin = 0, rout = 0, rsize = length junk, rsem = sem\<rparr>"

definition ring_post :: "'a ring \<Rightarrow> 'a ring" where
  "ring_post r = r\<lparr>rsem := map_option Suc (rsem r)\<rparr>"

text \<open>\<^verbatim>\<open>_add\<close>: 0 when full, else store and advance.\<close>

definition ring_put :: "'a \<Rightarrow> 'a ring \<Rightarrow> (bool \<times> 'a ring) result" where
  "ring_put c r =
     (let next = ring_next (rin r) r
      in if next = rout r then Inr (False, r)
         else if rin r < length (rdata r)
         then Inr (True, r\<lparr>rdata := (rdata r)[rin r := c], rin := next\<rparr>)
         else Inl OutOfBounds)"

text \<open>\<^verbatim>\<open>add(T c)\<close> posts the semaphore whether or not there was room.\<close>

definition ring_add :: "'a \<Rightarrow> 'a ring \<Rightarrow> (nat \<times> 'a ring) result" where
  "ring_add c r = rbind (ring_put c r) (\<lambda>(n, r'). Inr (c_bool n, ring_post r'))"

text \<open>\<^verbatim>\<open>add(const T *s, int n)\<close>: on the first element that does not fit it returns at once.\<close>

fun ring_add_loop :: "'a list \<Rightarrow> nat \<Rightarrow> 'a ring \<Rightarrow> (nat \<times> 'a ring) result" where
  "ring_add_loop [] count r = Inr (count, ring_post r)"
| "ring_add_loop (c # cs) count r =
     rbind (ring_put c r) (\<lambda>(ok, r').
       if \<not> ok then Inr (count, r') else ring_add_loop cs (count + 1) r')"

definition ring_add_block :: "'a list \<Rightarrow> 'a ring \<Rightarrow> (nat \<times> 'a ring) result" where
  "ring_add_block s r = ring_add_loop s 0 r"

definition ring_empty :: "'a ring \<Rightarrow> bool" where
  "ring_empty r \<longleftrightarrow> rin r = rout r"

definition ring_full :: "'a ring \<Rightarrow> bool" where
  "ring_full r \<longleftrightarrow> ring_next (rin r) r = rout r"

text \<open>One round of the loop of \<^verbatim>\<open>get(T *s, int n)\<close>, and the loop.\<close>

definition ring_get1 :: "'a ring \<Rightarrow> ('a option \<times> 'a ring) result" where
  "ring_get1 r =
     (if rin r = rout r then Inr (None, r)
      else if rout r < length (rdata r)
      then Inr (Some (rdata r ! rout r), r\<lparr>rout := ring_next (rout r) r\<rparr>)
      else Inl OutOfBounds)"

fun ring_get :: "nat \<Rightarrow> 'a ring \<Rightarrow> ('a list \<times> 'a ring) result" where
  "ring_get 0 r = Inr ([], r)"
| "ring_get (Suc n) r =
     rbind (ring_get1 r) (\<lambda>(x, r').
       case x of
         None \<Rightarrow> Inr ([], r')
       | Some c \<Rightarrow> rbind (ring_get n r') (\<lambda>(cs, r''). Inr (c # cs, r'')))"

definition ring_reset :: "'a ring \<Rightarrow> 'a ring" where
  "ring_reset r = r\<lparr>rin := rout r\<rparr>"

text \<open>\<^verbatim>\<open>remain\<close>: how many elements may be written from \<open>data[in]\<close> on, without wrapping.\<close>

definition ring_remain :: "'a ring \<Rightarrow> int" where
  "ring_remain r =
     (if rout r < rin r then int (rsize r) - int (rin r)
      else if rout r = rin r
      then (if rin r \<noteq> 0 then int (rsize r) - int (rin r) else int (rsize r) - 1)
      else int (rout r) - int (rin r))"

subsubsection \<open>What it holds\<close>

definition ring_inv :: "'a ring \<Rightarrow> bool" where
  "ring_inv r \<longleftrightarrow> rin r < rsize r \<and> rout r < rsize r \<and> length (rdata r) = rsize r"

definition ring_count :: "'a ring \<Rightarrow> nat" where
  "ring_count r = (if rout r \<le> rin r then rin r - rout r else rin r + rsize r - rout r)"

definition ring_contents :: "'a ring \<Rightarrow> 'a list" where
  "ring_contents r =
     (if rout r \<le> rin r then take (rin r - rout r) (drop (rout r) (rdata r))
      else drop (rout r) (rdata r) @ take (rin r) (rdata r))"

definition ring_capacity :: "'a ring \<Rightarrow> nat" where
  "ring_capacity r = rsize r - 1"

lemma length_ring_contents: "ring_inv r \<Longrightarrow> length (ring_contents r) = ring_count r"
  by (auto simp: ring_inv_def ring_contents_def ring_count_def)

lemma ring_full_iff: "ring_inv r \<Longrightarrow> ring_full r \<longleftrightarrow> length (ring_contents r) = ring_capacity r"
  unfolding length_ring_contents
  by (auto simp: ring_inv_def ring_full_def ring_next_def ring_count_def ring_capacity_def Let_def)

lemma ring_put_ok:
  assumes inv: "ring_inv r" and room: "\<not> ring_full r"
  shows "\<exists>r'. ring_put x r = Inr (True, r') \<and> ring_inv r' \<and> rsize r' = rsize r \<and>
              ring_contents r' = ring_contents r @ [x]"
proof (cases "rout r \<le> rin r")
  case True
  show ?thesis
  proof (cases "Suc (rin r) < rsize r")
    case small: True
    with inv room True show ?thesis
      by (simp add: ring_put_def ring_full_def ring_next_def Let_def ring_inv_def ring_contents_def
          take_drop_update Suc_diff_le [symmetric] le_SucI)
  next
    case False
    with inv have "Suc (rin r) = rsize r" by (simp add: ring_inv_def)
    moreover have "take (Suc (rin r) - rout r) (drop (rout r) ((rdata r)[rin r := x])) =
        take (rin r - rout r) (drop (rout r) (rdata r)) @ [x]"
      using inv True by (intro take_drop_update) (auto simp: ring_inv_def)
    ultimately show ?thesis
      using inv room False True
      by (auto simp: ring_put_def ring_full_def ring_next_def Let_def ring_inv_def ring_contents_def)
  qed
next
  case False
  with inv room show ?thesis
    by (auto simp: ring_put_def ring_full_def ring_next_def Let_def ring_inv_def ring_contents_def
        take_update_nth)
qed

lemma ring_get1_ok:
  assumes inv: "ring_inv r"
  shows "\<exists>r'. ring_get1 r = Inr (case ring_contents r of [] \<Rightarrow> None | x # _ \<Rightarrow> Some x, r') \<and>
              ring_inv r' \<and> rsize r' = rsize r \<and> ring_contents r' = tl (ring_contents r)"
proof -
  have len: "length (rdata r) = rsize r" "rout r < rsize r" "rin r < rsize r"
    using inv by (auto simp: ring_inv_def)
  then have dr: "drop (rout r) (rdata r) = rdata r ! rout r # drop (Suc (rout r)) (rdata r)"
    by (simp add: Cons_nth_drop_Suc)
  consider "rin r = rout r" | "rout r < rin r" | "rin r < rout r" by linarith
  then show ?thesis
  proof cases
    case 1
    with inv show ?thesis by (simp add: ring_get1_def ring_contents_def)
  next
    case 2
    then obtain k where k: "rin r - rout r = Suc k" and "rin r - Suc (rout r) = k"
      by (metis Suc_diff_Suc)
    with 2 len dr show ?thesis
      by (auto simp: ring_get1_def ring_contents_def ring_inv_def ring_next_def Let_def)
  next
    case 3
    with len dr show ?thesis
      by (auto simp: ring_get1_def ring_contents_def ring_inv_def ring_next_def Let_def)
  qed
qed

interpretation ring: bounded_fifo ring_contents ring_inv ring_capacity ring_put ring_get1
proof
  fix q :: "'a ring" and x
  assume inv: "ring_inv q"
  show le: "length (ring_contents q) \<le> ring_capacity q"
    using inv unfolding length_ring_contents [OF inv]
    by (auto simp: ring_inv_def ring_count_def ring_capacity_def)
  show "\<exists>q'. ring_put x q = Inr (length (ring_contents q) < ring_capacity q, q') \<and> ring_inv q' \<and>
      ring_capacity q' = ring_capacity q \<and>
      ring_contents q' = (if length (ring_contents q) < ring_capacity q
                          then ring_contents q @ [x] else ring_contents q)"
  proof (cases "ring_full q")
    case True
    moreover have "ring_put x q = Inr (False, q)"
      using True by (simp add: ring_put_def ring_full_def Let_def)
    ultimately show ?thesis using ring_full_iff [OF inv] inv by simp
  next
    case False
    then obtain q' where "ring_put x q = Inr (True, q')" "ring_inv q'" "rsize q' = rsize q"
        "ring_contents q' = ring_contents q @ [x]"
      using ring_put_ok [OF inv] by blast
    moreover have "length (ring_contents q) < ring_capacity q"
      using False ring_full_iff [OF inv] le by simp
    ultimately show ?thesis by (simp add: ring_capacity_def)
  qed
  show "\<exists>q'. ring_get1 q = Inr (case ring_contents q of [] \<Rightarrow> None | x # _ \<Rightarrow> Some x, q') \<and> ring_inv q' \<and>
      ring_capacity q' = ring_capacity q \<and> ring_contents q' = tl (ring_contents q)"
    using ring_get1_ok [OF inv] by (auto simp: ring_capacity_def)
qed

text \<open>Reading a block is reading its elements one by one.\<close>

lemma ring_get_ok:
  "ring_inv r \<Longrightarrow>
   \<exists>r'. ring_get n r = Inr (take n (ring_contents r), r') \<and> ring_inv r' \<and>
        ring_contents r' = drop n (ring_contents r)"
proof (induction n arbitrary: r)
  case 0
  then show ?case by simp
next
  case (Suc n)
  from ring_get1_ok [OF Suc.prems] obtain r1 where
    r1: "ring_get1 r = Inr (case ring_contents r of [] \<Rightarrow> None | x # _ \<Rightarrow> Some x, r1)"
      "ring_inv r1" "ring_contents r1 = tl (ring_contents r)" by blast
  with Suc.IH [OF r1(2)] show ?case by (cases "ring_contents r") auto
qed

lemma ring_add_loop_ok:
  "ring_inv r \<Longrightarrow> k = ring_capacity r - length (ring_contents r) \<Longrightarrow>
   \<exists>r'. ring_add_loop xs n r = Inr (n + min k (length xs), r') \<and> ring_inv r' \<and>
        ring_contents r' = ring_contents r @ take k xs \<and>
        rsem r' = (if length xs \<le> k then map_option Suc (rsem r) else rsem r)"
proof (induction xs arbitrary: n r k)
  case Nil
  then show ?case
    by (simp add: ring_post_def ring_inv_def ring_contents_def)
next
  case (Cons x xs)
  show ?case
  proof (cases "ring_full r")
    case True
    with Cons.prems ring_full_iff [of r] show ?thesis
      by (simp add: ring_put_def ring_full_def Let_def)
  next
    case False
    from ring_put_ok [OF Cons.prems(1) False] obtain r1 where
      r1: "ring_put x r = Inr (True, r1)" "ring_inv r1" "rsize r1 = rsize r"
        "ring_contents r1 = ring_contents r @ [x]" by blast
    have sem: "rsem r1 = rsem r"
      using r1(1) by (auto simp: ring_put_def Let_def split: if_splits)
    have "length (ring_contents r) \<noteq> ring_capacity r" using False ring_full_iff Cons.prems(1) by blast
    moreover have "length (ring_contents r) \<le> ring_capacity r" using ring.within Cons.prems(1) by blast
    ultimately obtain j where k: "k = Suc j" and j: "j = ring_capacity r1 - length (ring_contents r1)"
      using Cons.prems(2) r1(3,4) by (cases k) (auto simp: ring_capacity_def)
    from Cons.IH [OF r1(2) j, of "Suc n"] r1 sem k show ?thesis by auto
  qed
qed

subsection \<open>RingBuffer of ring_buffer.h\<close>

record 'a mring =
  mdata :: "'a list"
  mrd :: u32
  mwr :: u32
  msize :: u32
  mmask :: u32

definition mring_mask :: "'a mring \<Rightarrow> u32 \<Rightarrow> nat" where
  "mring_mask r idx = unat (idx AND mmask r)"

text \<open>The constructor asserts that the size is a power of two.\<close>

definition mring_init :: "(nat \<Rightarrow> 'a list) \<Rightarrow> u32 \<Rightarrow> 'a mring result" where
  "mring_init new n =
     (if n \<noteq> 0 \<and> (n AND (- n)) = n
      then Inr \<lparr>mdata = new (unat n), mrd = 0, mwr = 0, msize = n, mmask = n - 1\<rparr>
      else Inl AssertFailed)"

definition mring_count :: "'a mring \<Rightarrow> u32" where
  "mring_count r = mwr r - mrd r"

definition mring_empty :: "'a mring \<Rightarrow> bool" where
  "mring_empty r \<longleftrightarrow> mrd r = mwr r"

definition mring_full :: "'a mring \<Rightarrow> bool" where
  "mring_full r \<longleftrightarrow> mring_count r = msize r"

text \<open>\<^verbatim>\<open>push\<close> and \<^verbatim>\<open>pop\<close> do not check: the caller asks \<^verbatim>\<open>full\<close> and \<^verbatim>\<open>empty\<close> first.\<close>

definition mring_push :: "'a \<Rightarrow> 'a mring \<Rightarrow> 'a mring result" where
  "mring_push val r =
     (let i = mring_mask r (mwr r)
      in if i < length (mdata r) then Inr (r\<lparr>mdata := (mdata r)[i := val], mwr := mwr r + 1\<rparr>)
         else Inl OutOfBounds)"

definition mring_pop :: "'a mring \<Rightarrow> ('a \<times> 'a mring) result" where
  "mring_pop r =
     (let i = mring_mask r (mrd r)
      in if i < length (mdata r) then Inr (mdata r ! i, r\<lparr>mrd := mrd r + 1\<rparr>) else Inl OutOfBounds)"

text \<open>The calling convention: push unless full, pop unless empty.\<close>

definition mring_put :: "'a \<Rightarrow> 'a mring \<Rightarrow> (bool \<times> 'a mring) result" where
  "mring_put x r =
     (if mring_full r then Inr (False, r) else rbind (mring_push x r) (\<lambda>r'. Inr (True, r')))"

definition mring_get :: "'a mring \<Rightarrow> ('a option \<times> 'a mring) result" where
  "mring_get r =
     (if mring_empty r then Inr (None, r) else rbind (mring_pop r) (\<lambda>(x, r'). Inr (Some x, r')))"

subsubsection \<open>What it holds\<close>

definition mring_inv :: "'a mring \<Rightarrow> bool" where
  "mring_inv r \<longleftrightarrow>
     (\<exists>k < 32. unat (msize r) = 2 ^ k) \<and> mmask r = msize r - 1 \<and>
     length (mdata r) = unat (msize r) \<and> unat (mring_count r) \<le> unat (msize r)"

definition mring_contents :: "'a mring \<Rightarrow> 'a list" where
  "mring_contents r =
     map (\<lambda>i. mdata r ! ((unat (mrd r) + i) mod unat (msize r))) [0..<unat (mring_count r)]"

definition mring_capacity :: "'a mring \<Rightarrow> nat" where
  "mring_capacity r = unat (msize r)"

text \<open>Masking an index reads it modulo the size: the size is a power of two.\<close>

lemma mring_mask_mod:
  assumes "mring_inv r"
  shows "mring_mask r idx = unat idx mod unat (msize r)"
proof -
  from assms obtain k where k: "k < 32" "unat (msize r) = 2 ^ k" and m: "mmask r = msize r - 1"
    by (auto simp: mring_inv_def)
  have "msize r = of_nat (2 ^ k)" using k(2) by (metis of_nat_unat ucast_id)
  then have "mmask r = mask k" using m by (simp add: mask_eq_decr_exp)
  then have "idx AND mmask r = take_bit k idx" by (simp add: take_bit_eq_mask)
  then have "mring_mask r idx = unat (take_bit k idx)" by (simp only: mring_mask_def)
  also have "\<dots> = take_bit k (unat idx)" by (rule unsigned_take_bit_eq)
  also have "\<dots> = unat idx mod 2 ^ k" by (rule take_bit_eq_mod)
  finally show ?thesis by (simp only: k(2))
qed

text \<open>A counter that wraps at \<open>2^32\<close> keeps its value modulo the size.\<close>

lemma unat_add_mod_pow2:
  assumes "k < 32"
  shows "unat (a + b :: u32) mod 2 ^ k = (unat a + unat b) mod 2 ^ k"
proof -
  have "(2::nat) ^ k dvd 2 ^ 32" using assms by (intro le_imp_power_dvd) simp
  then show ?thesis by (simp add: unat_word_ariths mod_mod_cancel)
qed

lemma mring_count_Suc:
  assumes "mring_inv r" and "\<not> mring_full r"
  shows "unat (mwr r + 1 - mrd r) = Suc (unat (mring_count r))"
    and "unat (mring_count r) < unat (msize r)"
proof -
  show lt: "unat (mring_count r) < unat (msize r)"
    using assms by (auto simp: mring_inv_def mring_full_def le_less word_unat_eq_iff)
  have "unat (msize r) < 2 ^ 32" using unsigned_less [of "msize r", where ?'a = nat] by simp
  with lt have "unat (mring_count r) + 1 < 2 ^ 32" by linarith
  then have "unat (mring_count r + 1) = Suc (unat (mring_count r))"
    by (simp add: unat_word_ariths)
  moreover have "mwr r + 1 - mrd r = mring_count r + 1" by (simp add: mring_count_def)
  ultimately show "unat (mwr r + 1 - mrd r) = Suc (unat (mring_count r))" by (simp only:)
qed

lemma unat_wr: "mwr r = mrd r + mring_count r"
  by (simp add: mring_count_def)

lemma mring_put_ok:
  assumes inv: "mring_inv r" and room: "\<not> mring_full r"
  shows "\<exists>r'. mring_put x r = Inr (True, r') \<and> mring_inv r' \<and> msize r' = msize r \<and>
              mring_contents r' = mring_contents r @ [x]"
proof -
  let ?s = "unat (msize r)" and ?n = "unat (mring_count r)"
  from inv obtain k where k: "k < 32" "?s = 2 ^ k" by (auto simp: mring_inv_def)
  have len: "length (mdata r) = ?s" using inv by (simp add: mring_inv_def)
  have i: "mring_mask r (mwr r) = (unat (mrd r) + ?n) mod ?s"
    using unat_add_mod_pow2 [OF k(1), of "mrd r" "mring_count r"] k(2) mring_mask_mod [OF inv, of "mwr r"]
    by (simp add: unat_wr [symmetric])
  have lt: "?n < ?s" and cnt: "unat (mwr r + 1 - mrd r) = Suc ?n"
    using mring_count_Suc [OF inv room] by auto
  let ?i = "(unat (mrd r) + ?n) mod ?s"
  let ?r = "r\<lparr>mdata := (mdata r)[?i := x], mwr := mwr r + 1\<rparr>"
  have bound: "?i < length (mdata r)" using len lt by simp
  then have put: "mring_put x r = Inr (True, ?r)"
    using room by (simp add: mring_put_def mring_push_def i Let_def)
  have inv': "mring_inv ?r"
    using inv cnt lt by (auto simp: mring_inv_def mring_count_def)
  have ne: "(unat (mrd r) + j) mod ?s \<noteq> ?i" if "j < ?n" for j
  proof
    assume "(unat (mrd r) + j) mod ?s = ?i"
    then have "?s dvd (unat (mrd r) + ?n) - (unat (mrd r) + j)"
      using that by (metis mod_eq_dvd_iff_nat add_le_cancel_left less_imp_le_nat)
    then have "?s dvd ?n - j" by simp
    with that lt show False by (auto dest: dvd_imp_le)
  qed
  have "mring_contents ?r = map (\<lambda>j. (mdata r)[?i := x] ! ((unat (mrd r) + j) mod ?s)) [0..<Suc ?n]"
    using cnt by (simp add: mring_contents_def mring_count_def)
  also have "\<dots> = mring_contents r @ [x]"
    using bound not_sym [OF ne] by (simp add: mring_contents_def)
  finally show ?thesis using put inv' by auto
qed

lemma mring_get_ok:
  assumes inv: "mring_inv r"
  shows "\<exists>r'. mring_get r = Inr (case mring_contents r of [] \<Rightarrow> None | x # _ \<Rightarrow> Some x, r') \<and>
              mring_inv r' \<and> msize r' = msize r \<and> mring_contents r' = tl (mring_contents r)"
proof (cases "mring_count r = 0")
  case True
  then have "mring_empty r" by (simp add: mring_empty_def mring_count_def)
  with True inv show ?thesis by (simp add: mring_get_def mring_contents_def)
next
  case False
  let ?s = "unat (msize r)" and ?n = "unat (mring_count r)"
  from inv obtain k where k: "k < 32" "?s = 2 ^ k" by (auto simp: mring_inv_def)
  have len: "length (mdata r) = ?s" using inv by (simp add: mring_inv_def)
  have "\<not> mring_empty r" using False by (simp add: mring_empty_def mring_count_def)
  moreover have i: "mring_mask r (mrd r) = unat (mrd r) mod ?s" by (rule mring_mask_mod [OF inv])
  moreover have "unat (mrd r) mod ?s < length (mdata r)" using len k(2) by simp
  ultimately have get: "mring_get r = Inr (Some (mdata r ! (unat (mrd r) mod ?s)), r\<lparr>mrd := mrd r + 1\<rparr>)"
    by (simp add: mring_get_def mring_pop_def Let_def)
  have n: "?n = Suc (?n - 1)" using False by (simp add: unat_gt_0)
  have c: "mwr r - (mrd r + 1) = mring_count r - 1" by (simp add: mring_count_def)
  have cnt: "unat (mwr r - (mrd r + 1)) = ?n - 1"
    unfolding c using False by (simp add: unat_minus_one)
  have rd: "(unat (mrd r + 1) + j) mod ?s = (unat (mrd r) + Suc j) mod ?s" for j
  proof -
    have "unat (mrd r + 1) mod ?s = (unat (mrd r) + 1) mod ?s"
      using unat_add_mod_pow2 [OF k(1), of "mrd r" 1] k(2) by simp
    then have "(unat (mrd r + 1) + j) mod ?s = (unat (mrd r) + 1 + j) mod ?s"
      by (rule mod_add_cong) simp
    then show ?thesis by simp
  qed
  have "mring_contents r = map (\<lambda>i. mdata r ! ((unat (mrd r) + i) mod ?s)) (0 # [1..<Suc (?n - 1)])"
    unfolding mring_contents_def using n by (metis upt_conv_Cons zero_less_Suc One_nat_def)
  also have "\<dots> = mdata r ! (unat (mrd r) mod ?s) #
      map (\<lambda>i. mdata r ! ((unat (mrd r) + Suc i) mod ?s)) [0..<?n - 1]"
    by (simp add: map_Suc_upt [symmetric] comp_def del: upt_Suc)
  also have "map (\<lambda>i. mdata r ! ((unat (mrd r) + Suc i) mod ?s)) [0..<?n - 1] =
      mring_contents (r\<lparr>mrd := mrd r + 1\<rparr>)"
    by (simp add: mring_contents_def mring_count_def cnt rd)
  finally have "mring_contents r =
      mdata r ! (unat (mrd r) mod ?s) # mring_contents (r\<lparr>mrd := mrd r + 1\<rparr>)" .
  moreover have "mring_inv (r\<lparr>mrd := mrd r + 1\<rparr>)"
    using inv cnt by (auto simp: mring_inv_def mring_count_def)
  ultimately show ?thesis using get by simp
qed

interpretation mring: bounded_fifo mring_contents mring_inv mring_capacity mring_put mring_get
proof
  fix q :: "'a mring" and x
  assume inv: "mring_inv q"
  have len: "length (mring_contents q) = unat (mring_count q)" by (simp add: mring_contents_def)
  show le: "length (mring_contents q) \<le> mring_capacity q"
    using inv by (simp add: len mring_inv_def mring_capacity_def)
  show "\<exists>q'. mring_put x q = Inr (length (mring_contents q) < mring_capacity q, q') \<and> mring_inv q' \<and>
      mring_capacity q' = mring_capacity q \<and>
      mring_contents q' = (if length (mring_contents q) < mring_capacity q
                           then mring_contents q @ [x] else mring_contents q)"
  proof (cases "mring_full q")
    case True
    with inv show ?thesis
      by (simp add: mring_put_def mring_full_def len mring_capacity_def)
  next
    case False
    with mring_put_ok [OF inv False, of x] mring_count_Suc(2) [OF inv False] show ?thesis
      by (auto simp: len mring_capacity_def)
  qed
  show "\<exists>q'. mring_get q = Inr (case mring_contents q of [] \<Rightarrow> None | x # _ \<Rightarrow> Some x, q') \<and> mring_inv q' \<and>
      mring_capacity q' = mring_capacity q \<and> mring_contents q' = tl (mring_contents q)"
    using mring_get_ok [OF inv] by (auto simp: mring_capacity_def)
qed

subsection \<open>Properties\<close>

text \<open>
  C21: buffer.h's RingBuffer is a lossless first-in first-out queue of capacity \<open>size - 1\<close>: over
  any script of single puts and gets from an empty buffer, nothing is read or written outside
  the array, what came out followed by what is stored is exactly what was accepted, and at most
  \<open>size - 1\<close> elements are ever stored.
\<close>

theorem ring_fifo:
  assumes "junk \<noteq> []"
  shows "\<exists>acc out r'. queue_run ring_put ring_get1 ops (ring_init junk sem) = Inr (acc, out, r') \<and>
           acc = out @ ring_contents r' \<and> subseq acc (offered ops) \<and>
           length (ring_contents r') \<le> length junk - 1"
proof -
  have inv: "ring_inv (ring_init junk sem)" using assms by (simp add: ring_inv_def ring_init_def)
  have e: "ring_contents (ring_init junk sem) = []" "ring_capacity (ring_init junk sem) = length junk - 1"
    by (simp_all add: ring_contents_def ring_init_def ring_capacity_def)
  from ring.conservation [OF inv, of ops] show ?thesis unfolding e by auto
qed

theorem ring_fifo_witness:
  "\<exists>acc out r'. queue_run ring_put ring_get1 [Put 1, Put 2, Put 3, Get, Put (4::int)]
       (ring_init [0, 0, 0] None) = Inr (acc, out, r') \<and> acc = out @ ring_contents r' \<and>
     subseq acc [1, 2, 3, 4] \<and> length (ring_contents r') \<le> 2 \<and> acc = [1, 2, 4] \<and> out = [1]"
  using ring_fifo [of "[0, 0, 0]" "[Put 1, Put 2, Put 3, Get, Put (4::int)]" None]
  by (simp add: ring_init_def ring_put_def ring_get1_def ring_next_def Let_def)

text \<open>
  reading a block of \<open>n\<close> elements from buffer.h's RingBuffer returns the oldest \<open>n\<close> in order
  (all of them when there are fewer) and leaves the rest; writing a block stores its longest
  prefix that fits. The semaphore is posted exactly when the whole block fitted: a partial
  write stores data and wakes nobody.
\<close>

theorem ring_block_transfer:
  assumes "ring_inv r" and "room = ring_capacity r - length (ring_contents r)"
  shows "(\<exists>r'. ring_get n r = Inr (take n (ring_contents r), r') \<and> ring_inv r' \<and>
              ring_contents r' = drop n (ring_contents r)) \<and>
         (\<exists>r'. ring_add_block xs r = Inr (min room (length xs), r') \<and> ring_inv r' \<and>
              ring_contents r' = ring_contents r @ take room xs \<and>
              rsem r' = (if length xs \<le> room then map_option Suc (rsem r) else rsem r))"
  using ring_get_ok [OF assms(1)] ring_add_loop_ok [OF assms, of xs 0]
  by (auto simp: ring_add_block_def)

theorem ring_block_transfer_witness:
  "\<exists>r'. ring_add_block [1, 2, 3 :: int] (ring_init [0, 0, 0] (Some 0)) = Inr (2, r') \<and> ring_inv r' \<and>
        ring_contents r' = [1, 2] \<and> rsem r' = Some 0"
proof -
  let ?r = "ring_init [0, 0, 0 :: int] (Some 0)"
  have inv: "ring_inv ?r" by (simp add: ring_init_def ring_inv_def)
  have c: "ring_contents ?r = []" and room: "2 = ring_capacity ?r - length (ring_contents ?r)"
    and sem: "rsem ?r = Some 0"
    by (simp_all add: ring_init_def ring_capacity_def ring_contents_def)
  show ?thesis using conjunct2 [OF ring_block_transfer [OF inv room, of 0 "[1, 2, 3]"]]
    unfolding c sem by (simp add: numeral_2_eq_2)
qed

text \<open>
  ring_buffer.h's RingBuffer, used as its comments ask (push unless full, pop unless empty),
  is a lossless first-in first-out queue that uses its whole array, for every power of two
  below \<open>2^32\<close> and from any starting value of the free-running counters, so also across the
  wrap of the 32-bit counters.
\<close>

theorem mring_fifo:
  assumes "unat n = 2 ^ k" and "k < 32" and "length d = unat n"
    and "r = \<lparr>mdata = d, mrd = c, mwr = c, msize = n, mmask = n - 1\<rparr>"
  shows "\<exists>acc out r'. queue_run mring_put mring_get ops r = Inr (acc, out, r') \<and>
           acc = out @ mring_contents r' \<and> subseq acc (offered ops) \<and>
           length (mring_contents r') \<le> unat n \<and>
           (length (offered ops) \<le> unat n \<longrightarrow> acc = offered ops)"
proof -
  have inv: "mring_inv r" and e: "mring_contents r = []" "mring_capacity r = unat n"
    using assms by (auto simp: mring_inv_def mring_count_def mring_contents_def mring_capacity_def)
  from mring.conservation [OF inv, of ops] mring.all_accepted [OF inv, of ops] e
  show ?thesis by fastforce
qed

theorem mring_fifo_witness:
  "\<exists>acc out r'. queue_run mring_put mring_get [Put 1, Put 2, Get, Put (3::int)]
       \<lparr>mdata = [0, 0, 0, 0], mrd = 0xFFFFFFFF, mwr = 0xFFFFFFFF, msize = 4, mmask = 3\<rparr> = Inr (acc, out, r') \<and>
     acc = out @ mring_contents r' \<and> acc = [1, 2, 3]"
  using mring_fifo [of 4 2 "[0, 0, 0, 0 :: int]"
      "\<lparr>mdata = [0, 0, 0, 0], mrd = 0xFFFFFFFF, mwr = 0xFFFFFFFF, msize = 4, mmask = 3\<rparr>" "0xFFFFFFFF"
      "[Put 1, Put 2, Get, Put 3]"] by auto

text \<open>
  \<^verbatim>\<open>push\<close> of ring_buffer.h does not check for room: on a full buffer it overwrites the oldest
  element and leaves a counter difference of \<open>size + 1\<close>, so \<^verbatim>\<open>full()\<close> then answers false.
\<close>

theorem mring_push_when_full:
  assumes "mring_inv r" and "mring_full r" and "unat (msize r) < 2 ^ 32 - 1"
  shows "\<exists>r'. mring_push x r = Inr r' \<and> \<not> mring_full r' \<and> mring_count r' = msize r + 1 \<and>
              mdata r' = (mdata r)[unat (mrd r) mod unat (msize r) := x]"
proof -
  from assms obtain k where k: "k < 32" "unat (msize r) = 2 ^ k" by (auto simp: mring_inv_def)
  have wr: "mwr r = mrd r + msize r" using assms(2) unat_wr [of r] by (simp add: mring_full_def)
  have i: "mring_mask r (mwr r) = unat (mrd r) mod unat (msize r)"
    using unat_add_mod_pow2 [OF k(1), of "mrd r" "msize r"] k(2)
    by (simp add: mring_mask_mod [OF assms(1)] wr)
  moreover have "unat (mrd r) mod unat (msize r) < length (mdata r)"
    using assms(1) k(2) by (simp add: mring_inv_def)
  moreover have "msize r + 1 \<noteq> msize r" by simp
  ultimately show ?thesis
    using wr by (simp add: mring_push_def Let_def mring_full_def mring_count_def)
qed

theorem mring_push_when_full_witness:
  "\<exists>r'. mring_push (9::int) \<lparr>mdata = [5, 6], mrd = 0, mwr = 2, msize = 2, mmask = 1\<rparr> = Inr r' \<and>
        \<not> mring_full r' \<and> mring_count r' = 3 \<and> mdata r' = [9, 6]"
proof -
  let ?r = "\<lparr>mdata = [5, 6 :: int], mrd = 0, mwr = 2, msize = 2, mmask = 1\<rparr>"
  have "unat (msize ?r) = 2 ^ 1" by simp
  then have "mring_inv ?r"
    unfolding mring_inv_def by (intro conjI exI [of _ 1]) (auto simp: mring_count_def)
  from mring_push_when_full [OF this, of 9] show ?thesis
    by (simp add: mring_full_def mring_count_def)
qed

end
