(* ===== verification/LinuxQueue.thy ===== *)
theory LinuxQueue
  imports RingBuffers
begin

text \<open>
  The message queue of linux/queue.cpp: an array of \<open>num\<close> message slots used as a ring, with one
  semaphore on which \<^verbatim>\<open>get\<close> waits and one on which \<^verbatim>\<open>put\<close> waits. A semaphore is its count; the
  mutex is held over each attempt, so an attempt is one step. A call that waits on a semaphore
  with count 0 blocks: it changes nothing until another thread posts.
\<close>

record 'm lqueue =
  lq_data :: "'m list"
  lq_in :: nat
  lq_out :: nat
  lq_num :: nat
  lq_count :: nat
  sem_get :: nat
  sem_put :: nat

text \<open>\<^verbatim>\<open>round\<close>: the message size rounded up to a multiple of the pointer size \<open>w\<close>.\<close>

definition lq_round :: "nat \<Rightarrow> nat \<Rightarrow> nat" where
  "lq_round w n = w * ((n + (w - 1)) div w)"

text \<open>The constructor posts \<open>sem_put\<close> \<open>size - 1\<close> times, \<open>size\<close> being the rounded message size.\<close>

definition lq_init :: "nat \<Rightarrow> nat \<Rightarrow> 'm list \<Rightarrow> 'm lqueue result" where
  "lq_init w raw_size junk =
     (let size = lq_round w raw_size
      in if size = 0 \<or> junk = [] then Inl AssertFailed
         else Inr \<lparr>lq_data = junk, lq_in = 0, lq_out = 0, lq_num = length junk, lq_count = 0,
                   sem_get = 0, sem_put = size - 1\<rparr>)"

definition lq_try_put :: "'m \<Rightarrow> 'm lqueue \<Rightarrow> (bool \<times> 'm lqueue) result" where
  "lq_try_put msg q =
     (let next = (lq_in q + 1) mod lq_num q
      in if next \<noteq> lq_out q
         then (if lq_in q < lq_num q
               then Inr (True, q\<lparr>lq_data := (lq_data q)[lq_in q := msg], lq_in := next,
                                 lq_count := lq_count q + 1, sem_get := sem_get q + 1\<rparr>)
               else Inl AssertFailed)
         else Inr (False, q))"

text \<open>
  \<^verbatim>\<open>put\<close>: try, and while the queue is full wait on \<open>sem_put\<close> and try again. The result is
  \<open>False\<close> when the call is left blocked in the wait.
\<close>

function lq_put :: "'m \<Rightarrow> 'm lqueue \<Rightarrow> (bool \<times> 'm lqueue) result" where
  "lq_put msg q =
     (case lq_try_put msg q of
        Inl e \<Rightarrow> Inl e
      | Inr (True, q') \<Rightarrow> Inr (True, q')
      | Inr (False, q') \<Rightarrow>
          if sem_put q = 0 then Inr (False, q)
          else lq_put msg (q\<lparr>sem_put := sem_put q - 1\<rparr>))"
  by pat_completeness auto
termination
  by (relation "measure (\<lambda>(_, q). sem_put q)") auto

declare lq_put.simps [simp del]

datatype 'm got = Blocked | NoMessage | Message 'm

definition lq_get :: "'m lqueue \<Rightarrow> ('m got \<times> 'm lqueue) result" where
  "lq_get q =
     (if sem_get q = 0 then Inr (Blocked, q)
      else
        (let q1 = q\<lparr>sem_get := sem_get q - 1\<rparr>
         in if lq_in q1 = lq_out q1 then Inr (NoMessage, q1)
            else if lq_out q1 < lq_num q1
            then Inr (Message (lq_data q1 ! lq_out q1),
                      q1\<lparr>lq_out := (lq_out q1 + 1) mod lq_num q1, lq_count := lq_count q1 - 1,
                         sem_put := sem_put q1 + 1\<rparr>)
            else Inl AssertFailed))"

definition lq_queued :: "'m lqueue \<Rightarrow> nat" where
  "lq_queued q = lq_count q"

text \<open>A get as the queue contract sees it: blocked and empty-handed are both "nothing".\<close>

definition lq_poll :: "'m lqueue \<Rightarrow> ('m option \<times> 'm lqueue) result" where
  "lq_poll q = rbind (lq_get q) (\<lambda>(r, q'). Inr (case r of Message m \<Rightarrow> Some m | _ \<Rightarrow> None, q'))"

subsection \<open>What it holds\<close>

text \<open>The array part is a ring buffer in the sense of the previous theory.\<close>

definition lq_ring :: "'m lqueue \<Rightarrow> 'm ring" where
  "lq_ring q = \<lparr>rdata = lq_data q, rin = lq_in q, rout = lq_out q, rsize = lq_num q, rsem = None\<rparr>"

definition lq_contents :: "'m lqueue \<Rightarrow> 'm list" where
  "lq_contents q = ring_contents (lq_ring q)"

definition lq_inv :: "'m lqueue \<Rightarrow> bool" where
  "lq_inv q \<longleftrightarrow> ring_inv (lq_ring q) \<and> lq_count q = length (lq_contents q) \<and>
               sem_get q = length (lq_contents q)"

definition lq_capacity :: "'m lqueue \<Rightarrow> nat" where
  "lq_capacity q = lq_num q - 1"

lemma mod_next: "i < n \<Longrightarrow> (i + 1) mod n = (if i + 1 \<ge> n then 0 else i + 1)" for i n :: nat
  by (auto simp: mod_Suc)

lemma lq_try_put_ring:
  assumes "ring_inv (lq_ring q)"
  shows "lq_try_put m q =
    (if ring_full (lq_ring q) then Inr (False, q)
     else Inr (True, q\<lparr>lq_data := (lq_data q)[lq_in q := m],
       lq_in := ring_next (lq_in q) (lq_ring q), lq_count := lq_count q + 1, sem_get := sem_get q + 1\<rparr>))"
proof -
  have "lq_in q < lq_num q" using assms by (simp add: ring_inv_def lq_ring_def)
  then show ?thesis
    by (simp add: lq_try_put_def Let_def mod_next [simplified] ring_full_def ring_next_def lq_ring_def)
qed

lemma lq_put_law:
  "lq_inv q \<Longrightarrow>
   \<exists>q'. lq_put x q = Inr (length (lq_contents q) < lq_capacity q, q') \<and> lq_inv q' \<and>
        lq_capacity q' = lq_capacity q \<and>
        lq_contents q' = (if length (lq_contents q) < lq_capacity q
                          then lq_contents q @ [x] else lq_contents q)"
proof (induction x q rule: lq_put.induct)
  case (1 x q)
  let ?r = "lq_ring q"
  have inv: "ring_inv ?r" using 1(2) by (simp add: lq_inv_def)
  have cap: "lq_capacity q = ring_capacity ?r" by (simp add: lq_capacity_def ring_capacity_def lq_ring_def)
  show ?case
  proof (cases "ring_full ?r")
    case False
    from ring_put_ok [OF inv False, of x] obtain r' where
      r': "ring_put x ?r = Inr (True, r')" "ring_inv r'" "rsize r' = rsize ?r"
        "ring_contents r' = ring_contents ?r @ [x]" by blast
    let ?q = "q\<lparr>lq_data := (lq_data q)[lq_in q := x], lq_in := ring_next (lq_in q) ?r,
                lq_count := lq_count q + 1, sem_get := sem_get q + 1\<rparr>"
    have "lq_ring ?q = r'"
      using r'(1) False
      by (auto simp: ring_put_def lq_ring_def ring_full_def Let_def split: if_splits)
    moreover have "length (lq_contents q) < lq_capacity q"
      using ring.within [OF inv] ring_full_iff [OF inv] False cap by (auto simp: lq_contents_def)
    ultimately show ?thesis
      using r' 1(2) False
      by (subst lq_put.simps)
         (auto simp: lq_try_put_ring [OF inv] lq_inv_def lq_contents_def lq_capacity_def)
  next
    case True
    then have full: "\<not> length (lq_contents q) < lq_capacity q"
      using ring_full_iff [OF inv] cap by (simp add: lq_contents_def)
    have full_try: "lq_try_put x q = Inr (False, q)" using True by (simp add: lq_try_put_ring [OF inv])
    show ?thesis
    proof (cases "sem_put q = 0")
      case True
      with full full_try 1(2) show ?thesis by (subst lq_put.simps) simp
    next
      case False
      let ?q = "q\<lparr>sem_put := sem_put q - 1\<rparr>"
      have same: "lq_ring ?q = ?r" by (simp add: lq_ring_def)
      then have "lq_inv ?q" using 1(2) by (simp add: lq_inv_def lq_contents_def)
      from 1(1) [OF full_try refl _ False this] full same show ?thesis
        using full_try False by (subst lq_put.simps) (simp add: lq_contents_def lq_capacity_def)
    qed
  qed
qed

lemma lq_get_law:
  assumes "lq_inv q"
  shows "\<exists>q'. lq_get q = Inr (case lq_contents q of [] \<Rightarrow> Blocked | x # _ \<Rightarrow> Message x, q') \<and>
              lq_inv q' \<and> lq_capacity q' = lq_capacity q \<and> lq_contents q' = tl (lq_contents q)"
proof (cases "lq_contents q")
  case Nil
  with assms show ?thesis by (simp add: lq_get_def lq_inv_def)
next
  case (Cons x xs)
  have inv: "ring_inv (lq_ring q)" using assms by (simp add: lq_inv_def)
  from ring_get1_ok [OF inv] Cons obtain r' where
    r': "ring_get1 (lq_ring q) = Inr (Some x, r')" "ring_inv r'" "ring_contents r' = xs"
      "rsize r' = rsize (lq_ring q)"
    by (auto simp: lq_contents_def)
  let ?q = "q\<lparr>sem_get := sem_get q - 1, lq_out := (lq_out q + 1) mod lq_num q,
              lq_count := lq_count q - 1, sem_put := sem_put q + 1\<rparr>"
  have len: "lq_out q < lq_num q" "length (lq_data q) = lq_num q"
    using inv by (simp_all add: ring_inv_def lq_ring_def)
  have ne: "lq_in q \<noteq> lq_out q" and x: "x = lq_data q ! lq_out q" and "r' = lq_ring ?q"
    using r'(1) len mod_next [OF len(1)]
    by (auto simp: ring_get1_def lq_ring_def ring_next_def Let_def split: if_splits)
  with r' have "lq_inv ?q" "lq_contents ?q = xs"
    using assms Cons by (auto simp: lq_inv_def lq_contents_def)
  moreover have "lq_get q = Inr (Message x, ?q)"
    using assms Cons ne x len by (auto simp: lq_get_def lq_inv_def Let_def)
  ultimately show ?thesis using Cons by (simp add: lq_capacity_def)
qed

interpretation linux_queue: bounded_fifo lq_contents lq_inv lq_capacity lq_put lq_poll
proof
  fix q :: "'m lqueue" and x
  assume inv: "lq_inv q"
  show "length (lq_contents q) \<le> lq_capacity q"
    using inv ring.within [of "lq_ring q"]
    by (simp add: lq_inv_def lq_contents_def lq_capacity_def ring_capacity_def lq_ring_def)
  show "\<exists>q'. lq_put x q = Inr (length (lq_contents q) < lq_capacity q, q') \<and> lq_inv q' \<and>
      lq_capacity q' = lq_capacity q \<and>
      lq_contents q' = (if length (lq_contents q) < lq_capacity q
                        then lq_contents q @ [x] else lq_contents q)"
    by (rule lq_put_law [OF inv])
  show "\<exists>q'. lq_poll q = Inr (case lq_contents q of [] \<Rightarrow> None | x # _ \<Rightarrow> Some x, q') \<and> lq_inv q' \<and>
      lq_capacity q' = lq_capacity q \<and> lq_contents q' = tl (lq_contents q)"
    using lq_get_law [OF inv] by (cases "lq_contents q") (auto simp: lq_poll_def)
qed

subsection \<open>Properties\<close>

text \<open>
  C16: the Linux queue is a lossless first-in first-out queue of \<open>num - 1\<close> messages: over any
  script of puts and gets no assertion fails, messages come out in the order they were accepted,
  the count \<^verbatim>\<open>queued()\<close> reports and the count of the semaphore that \<^verbatim>\<open>get\<close> waits on both equal
  the number of stored messages (so a \<^verbatim>\<open>get\<close> whose wait succeeds always finds a message).
\<close>

theorem linux_queue_fifo:
  assumes "lq_init w raw_size junk = Inr q"
  shows "\<exists>acc out q'. queue_run lq_put lq_poll ops q = Inr (acc, out, q') \<and>
           acc = out @ lq_contents q' \<and> subseq acc (offered ops) \<and>
           lq_queued q' = length (lq_contents q') \<and> sem_get q' = length (lq_contents q') \<and>
           length (lq_contents q') \<le> length junk - 1"
proof -
  have inv: "lq_inv q" and e: "lq_contents q = []" "lq_capacity q = length junk - 1"
    using assms
    by (auto simp: lq_init_def Let_def lq_inv_def lq_contents_def ring_inv_def ring_contents_def
        lq_ring_def lq_capacity_def split: if_splits)
  from linux_queue.conservation [OF inv, of ops] e show ?thesis
    by (auto simp: lq_inv_def lq_queued_def)
qed

theorem linux_queue_fifo_witness:
  "\<exists>q acc out q'. lq_init 8 16 [0, 0, 0 :: int] = Inr q \<and>
     queue_run lq_put lq_poll [Put 1, Put 2, Get] q = Inr (acc, out, q') \<and>
     acc = out @ lq_contents q' \<and> sem_get q' = length (lq_contents q')"
proof -
  obtain q where q: "lq_init 8 16 [0, 0, 0 :: int] = Inr q"
    by (simp add: lq_init_def lq_round_def Let_def)
  from linux_queue_fifo [OF q, of "[Put 1, Put 2, Get]"] q show ?thesis by blast
qed

end
