(* ===== verification/IntrusiveList.thy ===== *)
theory IntrusiveList
  imports Prelude
begin

text \<open>
  The intrusive singly linked list of list.cpp. Items carry their own link, and every
  operation gets a pointer to the pointer that holds the first item and a function \<^verbatim>\<open>next_fn\<close>
  from an item to the address of its link.

  The store: a \<open>slot\<close> is the address of a pointer variable (a \<^verbatim>\<open>pList*\<close>), either the head
  variable of a list or the link inside an item, so \<^verbatim>\<open>next_fn(w)\<close> is \<open>Next w\<close>. The store maps
  each slot to the item it points to, \<open>None\<close> for the null pointer. Several lists may share
  the items of one store (device.cpp moves items between two lists).

  The loops \<^verbatim>\<open>for (; *head; head = next_fn(*head))\<close> do not return on a cyclic list: they are
  partial functions, and \<open>None\<close> is "does not return". Null item arguments fail the \<^verbatim>\<open>ASSERT\<close>.
\<close>

datatype ('h, 'a) slot = Head 'h | Next 'a

type_synonym ('h, 'a) store = "('h, 'a) slot \<Rightarrow> 'a option"

subsection \<open>The operations of list.cpp\<close>

text \<open>\<^verbatim>\<open>_list_insert\<close>: link \<open>w\<close> (whose link is at \<open>next\<close>) in front of what \<open>head\<close> points to.\<close>

definition list_insert :: "('h, 'a) store \<Rightarrow> ('h, 'a) slot \<Rightarrow> 'a \<Rightarrow> ('h, 'a) slot \<Rightarrow> ('h, 'a) store" where
  "list_insert \<sigma> head w next =
     (let \<sigma>1 = \<sigma>(next := \<sigma> head) in \<sigma>1(head := Some w))"

partial_function (option) list_size_loop ::
    "('h, 'a) store \<Rightarrow> ('h, 'a) slot \<Rightarrow> nat \<Rightarrow> nat option" where
  "list_size_loop \<sigma> head count =
     (case \<sigma> head of
        None \<Rightarrow> Some count
      | Some x \<Rightarrow> list_size_loop \<sigma> (Next x) (count + 1))"

definition list_size :: "('h, 'a) store \<Rightarrow> ('h, 'a) slot \<Rightarrow> nat option" where
  "list_size \<sigma> head = list_size_loop \<sigma> head 0"

definition list_push ::
    "('h, 'a) store \<Rightarrow> ('h, 'a) slot \<Rightarrow> 'a option \<Rightarrow> ('h, 'a) store result" where
  "list_push \<sigma> head w =
     (case w of None \<Rightarrow> Inl AssertFailed
      | Some w \<Rightarrow> Inr (list_insert \<sigma> head w (Next w)))"

text \<open>
  The loop the other operations share: follow the links until the slot holds null, or an item
  for which the loop body breaks. It returns the slot where it stopped.
\<close>

partial_function (option) list_walk ::
    "('a \<Rightarrow> bool) \<Rightarrow> ('h, 'a) store \<Rightarrow> ('h, 'a) slot \<Rightarrow> ('h, 'a) slot option" where
  "list_walk stop \<sigma> head =
     (case \<sigma> head of
        None \<Rightarrow> Some head
      | Some x \<Rightarrow> if stop x then Some head else list_walk stop \<sigma> (Next x))"

definition list_append ::
    "('h, 'a) store \<Rightarrow> ('h, 'a) slot \<Rightarrow> 'a option \<Rightarrow> ('h, 'a) store result option" where
  "list_append \<sigma> head w =
     (case w of None \<Rightarrow> Some (Inl AssertFailed)
      | Some w \<Rightarrow>
          map_option (\<lambda>p. Inr (list_insert \<sigma> p w (Next w))) (list_walk (\<lambda>_. False) \<sigma> head))"

definition list_add_sorted ::
    "('a \<Rightarrow> 'a \<Rightarrow> int) \<Rightarrow> ('h, 'a) store \<Rightarrow> ('h, 'a) slot \<Rightarrow> 'a option \<Rightarrow>
     ('h, 'a) store result option" where
  "list_add_sorted cmp \<sigma> head w =
     (case w of None \<Rightarrow> Some (Inl AssertFailed)
      | Some w \<Rightarrow>
          map_option (\<lambda>p. Inr (list_insert \<sigma> p w (Next w))) (list_walk (\<lambda>x. cmp w x \<ge> 0) \<sigma> head))"

definition list_pop :: "('h, 'a) store \<Rightarrow> ('h, 'a) slot \<Rightarrow> 'a option \<times> ('h, 'a) store" where
  "list_pop \<sigma> head =
     (case \<sigma> head of
        None \<Rightarrow> (None, \<sigma>)
      | Some w \<Rightarrow>
          (let next = Next w;
               \<sigma>1 = \<sigma>(head := \<sigma> next);
               \<sigma>2 = \<sigma>1(next := None)
           in (Some w, \<sigma>2)))"

definition list_remove ::
    "('h, 'a) store \<Rightarrow> ('h, 'a) slot \<Rightarrow> 'a option \<Rightarrow> (bool \<times> ('h, 'a) store) result option" where
  "list_remove \<sigma> head w =
     (case w of None \<Rightarrow> Some (Inl AssertFailed)
      | Some w \<Rightarrow>
          map_option
            (\<lambda>p. case \<sigma> p of
                   None \<Rightarrow> Inr (False, \<sigma>)
                 | Some _ \<Rightarrow> Inr (True, snd (list_pop \<sigma> p)))
            (list_walk (\<lambda>x. w = x) \<sigma> head))"

definition list_has ::
    "('h, 'a) store \<Rightarrow> ('h, 'a) slot \<Rightarrow> 'a option \<Rightarrow> bool result option" where
  "list_has \<sigma> head w =
     (case w of None \<Rightarrow> Some (Inl AssertFailed)
      | Some w \<Rightarrow> map_option (\<lambda>p. Inr (\<sigma> p \<noteq> None)) (list_walk (\<lambda>x. w = x) \<sigma> head))"

text \<open>
  \<^verbatim>\<open>list_find\<close> calls the visitor on each item until it returns non-zero. The visitor may update
  what its \<^verbatim>\<open>arg\<close> points to: it takes and returns a state. It does not relink items.
\<close>

partial_function (option) list_find ::
    "('a \<Rightarrow> 's \<Rightarrow> bool \<times> 's) \<Rightarrow> ('h, 'a) store \<Rightarrow> ('h, 'a) slot \<Rightarrow> 's \<Rightarrow> ('a option \<times> 's) option" where
  "list_find fn \<sigma> head arg =
     (case \<sigma> head of
        None \<Rightarrow> Some (None, arg)
      | Some x \<Rightarrow>
          (let r = fn x arg
           in if fst r then Some (Some x, snd r) else list_find fn \<sigma> (Next x) (snd r)))"

definition list_visit ::
    "('a \<Rightarrow> 's \<Rightarrow> bool \<times> 's) \<Rightarrow> ('h, 'a) store \<Rightarrow> ('h, 'a) slot \<Rightarrow> 's \<Rightarrow> 's option" where
  "list_visit fn \<sigma> head arg = map_option snd (list_find fn \<sigma> head arg)"

subsection \<open>The sequence a list stands for\<close>

text \<open>\<open>chain \<sigma> p xs\<close>: starting from the slot \<open>p\<close>, the links run through exactly \<open>xs\<close> to null.\<close>

fun chain :: "('h, 'a) store \<Rightarrow> ('h, 'a) slot \<Rightarrow> 'a list \<Rightarrow> bool" where
  "chain \<sigma> p [] \<longleftrightarrow> \<sigma> p = None"
| "chain \<sigma> p (x # xs) \<longleftrightarrow> \<sigma> p = Some x \<and> chain \<sigma> (Next x) xs"

fun segment :: "('h, 'a) store \<Rightarrow> ('h, 'a) slot \<Rightarrow> 'a list \<Rightarrow> bool" where
  "segment \<sigma> p [] \<longleftrightarrow> True"
| "segment \<sigma> p (x # xs) \<longleftrightarrow> \<sigma> p = Some x \<and> segment \<sigma> (Next x) xs"

fun slot_after :: "('h, 'a) slot \<Rightarrow> 'a list \<Rightarrow> ('h, 'a) slot" where
  "slot_after p [] = p"
| "slot_after p (x # xs) = slot_after (Next x) xs"

lemma slot_after_eq: "slot_after p xs = (if xs = [] then p else Next (last xs))"
  by (induction xs arbitrary: p) auto

lemma chain_append: "chain \<sigma> p (xs @ ys) \<longleftrightarrow> segment \<sigma> p xs \<and> chain \<sigma> (slot_after p xs) ys"
  by (induction xs arbitrary: p) auto

lemma chain_None [simp]: "\<sigma> p = None \<Longrightarrow> chain \<sigma> p xs \<longleftrightarrow> xs = []"
  by (cases xs) auto

lemma chain_unique: "chain \<sigma> p xs \<Longrightarrow> chain \<sigma> p ys \<Longrightarrow> xs = ys"
proof (induction xs arbitrary: p ys)
  case Nil
  then show ?case by simp
next
  case (Cons x xs)
  then show ?case by (cases ys) auto
qed

lemma chain_not_in_tail: "chain \<sigma> (Next x) xs \<Longrightarrow> x \<notin> set xs"
proof
  assume c: "chain \<sigma> (Next x) xs" and "x \<in> set xs"
  then obtain ys zs where xs: "xs = ys @ x # zs" by (meson split_list)
  with c have "chain \<sigma> (Next x) zs" by (auto simp: chain_append)
  with c have "xs = zs" by (rule chain_unique)
  with xs show False by simp
qed

lemma chain_distinct: "chain \<sigma> p xs \<Longrightarrow> distinct xs"
  by (induction xs arbitrary: p) (auto dest: chain_not_in_tail)

lemma segment_upd:
  "q \<noteq> p \<Longrightarrow> q \<notin> Next ` set (butlast xs) \<Longrightarrow> segment (\<sigma>(q := v)) p xs = segment \<sigma> p xs"
proof (induction xs arbitrary: p)
  case (Cons x xs)
  then show ?case by (cases xs) auto
qed simp

lemma chain_upd:
  "q \<noteq> p \<Longrightarrow> q \<notin> Next ` set xs \<Longrightarrow> chain (\<sigma>(q := v)) p xs = chain \<sigma> p xs"
  by (induction xs arbitrary: p) auto

lemma slot_after_fresh: "distinct (xs @ ys) \<Longrightarrow> slot_after (Head h) xs \<notin> Next ` set ys"
  by (cases xs rule: rev_cases) (auto simp: slot_after_eq)

lemma slot_after_notin_butlast:
  "distinct xs \<Longrightarrow> p \<notin> Next ` set xs \<Longrightarrow> slot_after p xs \<notin> Next ` set (butlast xs)"
proof (cases xs rule: rev_cases)
  case (snoc ys y)
  moreover assume "distinct xs" and "p \<notin> Next ` set xs"
  ultimately show ?thesis by (auto simp: slot_after_eq)
qed simp

lemma segment_upd_end:
  assumes "distinct xs" and "xs = [] \<or> slot_after p xs \<noteq> p"
  shows "segment (\<sigma>(slot_after p xs := v)) p xs = segment \<sigma> p xs"
proof (cases xs rule: rev_cases)
  case Nil
  then show ?thesis by simp
next
  case (snoc ys y)
  with assms show ?thesis
    by (intro segment_upd) (auto simp: slot_after_eq)
qed

text \<open>Linking an item in at the end of a segment: the only two slots written are its end and \<open>Next w\<close>.\<close>

lemma chain_list_insert:
  assumes c: "chain \<sigma> (Head h) (xs @ ys)" and w: "w \<notin> set (xs @ ys)"
  shows "chain (list_insert \<sigma> (slot_after (Head h) xs) w (Next w)) (Head h) (xs @ w # ys)"
proof -
  let ?q = "slot_after (Head h) xs"
  let ?s1 = "\<sigma>(Next w := \<sigma> ?q)"
  let ?s2 = "?s1(?q := Some w)"
  have d: "distinct (xs @ ys)" using c by (rule chain_distinct)
  have q: "?q \<noteq> Next w" using w by (auto simp: slot_after_eq)
  have seg: "segment \<sigma> (Head h) xs" and tl: "chain \<sigma> ?q ys"
    using c by (auto simp: chain_append)
  have "segment ?s1 (Head h) xs"
    using seg w by (subst segment_upd) (auto dest: in_set_butlastD)
  then have "segment ?s2 (Head h) xs"
    using d by (subst segment_upd_end) (auto simp: slot_after_eq)
  moreover have "chain ?s2 (Next w) ys"
  proof (cases ys)
    case Nil
    with tl q show ?thesis by simp
  next
    case (Cons y zs)
    have "?q \<notin> Next ` set ys" using d by (rule slot_after_fresh)
    moreover from tl Cons have "chain \<sigma> (Next y) zs" by simp
    ultimately show ?thesis using tl Cons w q
      by (simp add: chain_upd) (subst chain_upd; auto)+
  qed
  ultimately show ?thesis
    by (simp add: list_insert_def Let_def chain_append)
qed

text \<open>Unlinking the item a slot points to.\<close>

lemma chain_list_pop:
  assumes c: "chain \<sigma> (Head h) (xs @ w # ys)"
  shows "chain (snd (list_pop \<sigma> (slot_after (Head h) xs))) (Head h) (xs @ ys)"
    and "fst (list_pop \<sigma> (slot_after (Head h) xs)) = Some w"
    and "snd (list_pop \<sigma> (slot_after (Head h) xs)) (Next w) = None"
proof -
  let ?q = "slot_after (Head h) xs"
  let ?s1 = "\<sigma>(?q := \<sigma> (Next w))"
  let ?s2 = "?s1(Next w := None)"
  have d: "distinct (xs @ w # ys)" using c by (rule chain_distinct)
  then have q: "?q \<noteq> Next w" by (auto simp: slot_after_eq)
  have seg: "segment \<sigma> (Head h) xs" and hd: "\<sigma> ?q = Some w" and tl: "chain \<sigma> (Next w) ys"
    using c by (auto simp: chain_append)
  have pop: "list_pop \<sigma> ?q = (Some w, ?s2)"
    by (simp add: list_pop_def hd Let_def)
  have "segment ?s1 (Head h) xs"
    using seg d by (subst segment_upd_end) (auto simp: slot_after_eq)
  then have "segment ?s2 (Head h) xs"
    using d by (subst segment_upd) (auto dest: in_set_butlastD)
  moreover have "chain ?s2 ?q ys"
  proof (cases ys)
    case Nil
    with tl q show ?thesis by simp
  next
    case (Cons y zs)
    have "?q \<notin> Next ` set ys" using d by (intro slot_after_fresh) auto
    with tl Cons d q show ?thesis
      by simp (subst chain_upd; auto)+
  qed
  ultimately show "chain (snd (list_pop \<sigma> ?q)) (Head h) (xs @ ys)"
    by (simp add: pop chain_append)
  show "fst (list_pop \<sigma> ?q) = Some w" and "snd (list_pop \<sigma> ?q) (Next w) = None"
    by (simp_all add: pop)
qed

text \<open>Other lists of the same store are not touched, if they share no item with this one.\<close>

lemma chain_list_insert_other:
  assumes "chain \<sigma> (Head k) ys" and "k \<noteq> h" and "w \<notin> set ys" and "set xs \<inter> set ys = {}"
  shows "chain (list_insert \<sigma> (slot_after (Head h) xs) w (Next w)) (Head k) ys"
proof -
  have q: "slot_after (Head h) xs \<noteq> Head k" "slot_after (Head h) xs \<notin> Next ` set ys"
    using assms by (cases xs rule: rev_cases; auto simp: slot_after_eq)+
  have "chain (\<sigma>(Next w := v)) (Head k) ys" for v
    using assms by (subst chain_upd) auto
  then show ?thesis
    using q by (simp add: list_insert_def Let_def chain_upd)
qed

lemma chain_list_pop_other:
  assumes c: "chain \<sigma> (Head h) (xs @ w # zs)"
    and "chain \<sigma> (Head k) ys" and "k \<noteq> h" and "set (xs @ w # zs) \<inter> set ys = {}"
  shows "chain (snd (list_pop \<sigma> (slot_after (Head h) xs))) (Head k) ys"
proof -
  have hd: "\<sigma> (slot_after (Head h) xs) = Some w"
    using c by (simp add: chain_append)
  have q: "slot_after (Head h) xs \<noteq> Head k" "slot_after (Head h) xs \<notin> Next ` set ys"
    using assms by (cases xs rule: rev_cases; auto simp: slot_after_eq)+
  have "chain (\<sigma>(slot_after (Head h) xs := v)) (Head k) ys" for v
    using assms(2) q by (simp add: chain_upd)
  then show ?thesis
    using assms(4) by (simp add: list_pop_def hd Let_def) (subst chain_upd; auto)
qed

subsection \<open>The loops, on a list that ends\<close>

lemma list_walk_chain:
  "chain \<sigma> p xs \<Longrightarrow> list_walk stop \<sigma> p = Some (slot_after p (takeWhile (\<lambda>x. \<not> stop x) xs))"
  by (induction xs arbitrary: p) (simp_all add: list_walk.simps)

lemma list_size_loop_chain: "chain \<sigma> p xs \<Longrightarrow> list_size_loop \<sigma> p n = Some (n + length xs)"
  by (induction xs arbitrary: p n) (simp_all add: list_size_loop.simps)

fun seq_find :: "('a \<Rightarrow> 's \<Rightarrow> bool \<times> 's) \<Rightarrow> 'a list \<Rightarrow> 's \<Rightarrow> 'a option \<times> 's" where
  "seq_find fn [] arg = (None, arg)"
| "seq_find fn (x # xs) arg =
     (let r = fn x arg in if fst r then (Some x, snd r) else seq_find fn xs (snd r))"

lemma list_find_chain: "chain \<sigma> p xs \<Longrightarrow> list_find fn \<sigma> p arg = Some (seq_find fn xs arg)"
  by (induction xs arbitrary: p arg) (simp_all add: list_find.simps Let_def)

text \<open>Without a visitor that updates its argument, finding is \<^const>\<open>find\<close> on the sequence.\<close>

lemma seq_find_pure: "seq_find (\<lambda>x s. (P x, s)) xs arg = (find P xs, arg)"
  by (induction xs) (simp_all add: Let_def)

subsection \<open>The list operations on sequences\<close>

text \<open>What the template class \<open>List<T>\<close> of list.h promises, on the sequence it stands for.\<close>

definition seq_add_sorted :: "('a \<Rightarrow> 'a \<Rightarrow> int) \<Rightarrow> 'a \<Rightarrow> 'a list \<Rightarrow> 'a list" where
  "seq_add_sorted cmp w xs =
     takeWhile (\<lambda>x. \<not> cmp w x \<ge> 0) xs @ w # dropWhile (\<lambda>x. \<not> cmp w x \<ge> 0) xs"

lemma set_seq_add_sorted [simp]: "set (seq_add_sorted cmp w xs) = insert w (set xs)"
  unfolding seq_add_sorted_def by (rule takeWhile_dropWhile_insert_set)

datatype 'a list_op = Push 'a | Append 'a | AddSorted 'a | Pop | Remove 'a | Has 'a | Size

datatype 'a list_res = RUnit | RItem "'a option" | RFlag bool | RCount nat

fun seq_step :: "('a \<Rightarrow> 'a \<Rightarrow> int) \<Rightarrow> 'a list_op \<Rightarrow> 'a list \<Rightarrow> 'a list_res \<times> 'a list" where
  "seq_step cmp (Push w) xs = (RUnit, w # xs)"
| "seq_step cmp (Append w) xs = (RUnit, xs @ [w])"
| "seq_step cmp (AddSorted w) xs = (RUnit, seq_add_sorted cmp w xs)"
| "seq_step cmp Pop xs = (case xs of [] \<Rightarrow> (RItem None, []) | x # ys \<Rightarrow> (RItem (Some x), ys))"
| "seq_step cmp (Remove w) xs = (RFlag (w \<in> set xs), remove1 w xs)"
| "seq_step cmp (Has w) xs = (RFlag (w \<in> set xs), xs)"
| "seq_step cmp Size xs = (RCount (length xs), xs)"

text \<open>The same operations on the store, for the list whose head variable is \<open>h\<close>.\<close>

fun heap_step ::
    "('a \<Rightarrow> 'a \<Rightarrow> int) \<Rightarrow> 'h \<times> 'a list_op \<Rightarrow> ('h, 'a) store \<Rightarrow>
     ('a list_res \<times> ('h, 'a) store) result option" where
  "heap_step cmp (h, Push w) \<sigma> = Some (map_sum id (Pair RUnit) (list_push \<sigma> (Head h) (Some w)))"
| "heap_step cmp (h, Append w) \<sigma> =
     map_option (map_sum id (Pair RUnit)) (list_append \<sigma> (Head h) (Some w))"
| "heap_step cmp (h, AddSorted w) \<sigma> =
     map_option (map_sum id (Pair RUnit)) (list_add_sorted cmp \<sigma> (Head h) (Some w))"
| "heap_step cmp (h, Pop) \<sigma> = Some (Inr (map_prod RItem id (list_pop \<sigma> (Head h))))"
| "heap_step cmp (h, Remove w) \<sigma> =
     map_option (map_sum id (map_prod RFlag id)) (list_remove \<sigma> (Head h) (Some w))"
| "heap_step cmp (h, Has w) \<sigma> =
     map_option (map_sum id (\<lambda>b. (RFlag b, \<sigma>))) (list_has \<sigma> (Head h) (Some w))"
| "heap_step cmp (h, Size) \<sigma> = map_option (\<lambda>n. Inr (RCount n, \<sigma>)) (list_size \<sigma> (Head h))"

text \<open>A family of lists over one store: no two lists share an item.\<close>

definition lists_rep :: "('h, 'a) store \<Rightarrow> ('h \<Rightarrow> 'a list) \<Rightarrow> bool" where
  "lists_rep \<sigma> L \<longleftrightarrow>
     (\<forall>h. chain \<sigma> (Head h) (L h)) \<and> (\<forall>h k. h \<noteq> k \<longrightarrow> set (L h) \<inter> set (L k) = {})"

fun family_step ::
    "('a \<Rightarrow> 'a \<Rightarrow> int) \<Rightarrow> 'h \<times> 'a list_op \<Rightarrow> ('h \<Rightarrow> 'a list) \<Rightarrow> 'a list_res \<times> ('h \<Rightarrow> 'a list)" where
  "family_step cmp (h, c) L = (let (r, xs) = seq_step cmp c (L h) in (r, L(h := xs)))"

text \<open>An item may only be linked in while it is on no list: it has one link.\<close>

fun unlinked :: "'h \<times> 'a list_op \<Rightarrow> ('h \<Rightarrow> 'a list) \<Rightarrow> bool" where
  "unlinked (h, Push w) L \<longleftrightarrow> (\<forall>k. w \<notin> set (L k))"
| "unlinked (h, Append w) L \<longleftrightarrow> (\<forall>k. w \<notin> set (L k))"
| "unlinked (h, AddSorted w) L \<longleftrightarrow> (\<forall>k. w \<notin> set (L k))"
| "unlinked (h, _) L \<longleftrightarrow> True"

lemma lists_rep_insert:
  assumes rep: "lists_rep \<sigma> L" and fresh: "\<forall>k. w \<notin> set (L k)" and L: "L h = xs @ ys"
  shows "lists_rep (list_insert \<sigma> (slot_after (Head h) xs) w (Next w)) (L(h := xs @ w # ys))"
proof -
  have "chain (list_insert \<sigma> (slot_after (Head h) xs) w (Next w)) (Head k) ((L(h := xs @ w # ys)) k)" for k
  proof (cases "k = h")
    case True
    have "chain \<sigma> (Head h) (xs @ ys)" using rep L by (metis lists_rep_def)
    moreover have "w \<notin> set (xs @ ys)" using fresh L by metis
    ultimately show ?thesis using True by (simp add: chain_list_insert)
  next
    case False
    with rep fresh L show ?thesis
      by (simp add: lists_rep_def) (rule chain_list_insert_other; fastforce)
  qed
  moreover have "set (L k) \<inter> set (L j) = {}" if "k \<noteq> j" for k j
    using rep that by (simp add: lists_rep_def)
  ultimately show ?thesis
    using fresh L by (auto simp: lists_rep_def disjoint_iff) (metis UnI1 UnI2 set_append)+
qed

lemma lists_rep_pop:
  assumes rep: "lists_rep \<sigma> L" and L: "L h = xs @ w # ys"
  shows "lists_rep (snd (list_pop \<sigma> (slot_after (Head h) xs))) (L(h := xs @ ys))"
proof -
  have c: "chain \<sigma> (Head h) (xs @ w # ys)" using rep L by (metis lists_rep_def)
  have dis: "set (L k) \<inter> set (L j) = {}" if "k \<noteq> j" for k j
    using rep that by (simp add: lists_rep_def)
  have "chain (snd (list_pop \<sigma> (slot_after (Head h) xs))) (Head k) ((L(h := xs @ ys)) k)" for k
  proof (cases "k = h")
    case True
    with chain_list_pop(1) [OF c] show ?thesis by simp
  next
    case False
    moreover from rep have "chain \<sigma> (Head k) (L k)" by (simp add: lists_rep_def)
    moreover have "set (xs @ w # ys) \<inter> set (L k) = {}" using dis [of h k] False L by auto
    ultimately show ?thesis using chain_list_pop_other [OF c] by simp
  qed
  then show ?thesis
    using dis L by (auto simp: lists_rep_def disjoint_iff) (metis UnI1 UnI2 list.set_intros(2) set_append)+
qed

lemma heap_step_sim:
  assumes rep: "lists_rep \<sigma> L" and ok: "unlinked c L"
  shows "\<exists>\<sigma>'. heap_step cmp c \<sigma> = Some (Inr (fst (family_step cmp c L), \<sigma>')) \<and>
              lists_rep \<sigma>' (snd (family_step cmp c L))"
proof -
  obtain h p where c: "c = (h, p)" by (cases c)
  have ch: "chain \<sigma> (Head h) (L h)" using rep by (simp add: lists_rep_def)
  show ?thesis
  proof (cases p)
    case (Push w)
    with rep ok c show ?thesis
      using lists_rep_insert [of \<sigma> L w h "[]" "L h"] by (simp add: list_push_def)
  next
    case (Append w)
    with rep ok c ch show ?thesis
      using lists_rep_insert [of \<sigma> L w h "L h" "[]"]
      by (simp add: list_append_def list_walk_chain takeWhile_eq_all_conv [THEN iffD2])
  next
    case (AddSorted w)
    with rep ok c ch show ?thesis
      using lists_rep_insert [of \<sigma> L w h]
      by (simp add: list_add_sorted_def list_walk_chain seq_add_sorted_def)
  next
    case Pop
    with rep ok c ch show ?thesis
      using lists_rep_pop [of \<sigma> L h "[]"] chain_list_pop(2) [of \<sigma> h "[]"]
      by (cases "L h") (auto simp: list_pop_def Let_def map_prod_def fun_upd_idem split_beta)
  next
    case (Remove w)
    show ?thesis
    proof (cases "w \<in> set (L h)")
      case True
      then obtain ys zs where L: "L h = ys @ w # zs" and w: "w \<notin> set ys"
        by (meson split_list_first)
      then have "takeWhile (\<lambda>x. w \<noteq> x) (L h) = ys" by (auto simp: takeWhile_append)
      moreover have "\<sigma> (slot_after (Head h) ys) = Some w" using ch L by (simp add: chain_append)
      moreover have "remove1 w (L h) = ys @ zs" using L w by (simp add: remove1_split)
      ultimately show ?thesis
        using Remove c ch True lists_rep_pop [OF rep L] by (simp add: list_remove_def list_walk_chain)
    next
      case False
      then have "takeWhile (\<lambda>x. w \<noteq> x) (L h) = L h" by (auto simp: takeWhile_eq_all_conv)
      then have "list_walk (\<lambda>x. w = x) \<sigma> (Head h) = Some (slot_after (Head h) (L h))"
        using list_walk_chain [OF ch, of "\<lambda>x. w = x"] by metis
      moreover have "\<sigma> (slot_after (Head h) (L h)) = None" using ch chain_append [of \<sigma> "Head h" "L h" "[]"] by simp
      ultimately show ?thesis
        using Remove c rep False by (simp add: list_remove_def remove1_idem fun_upd_idem)
    qed
  next
    case (Has w)
    have "\<sigma> (slot_after (Head h) (takeWhile (\<lambda>x. w \<noteq> x) (L h))) \<noteq> None \<longleftrightarrow> w \<in> set (L h)"
    proof (cases "dropWhile (\<lambda>x. w \<noteq> x) (L h)")
      case Nil
      then have tw: "takeWhile (\<lambda>x. w \<noteq> x) (L h) = L h" and w: "w \<notin> set (L h)"
        by (auto simp: dropWhile_eq_Nil_conv takeWhile_eq_all_conv)
      have "\<sigma> (slot_after (Head h) (L h)) = None"
        using ch chain_append [of \<sigma> "Head h" "L h" "[]"] by simp
      then show ?thesis unfolding tw using w by simp
    next
      case (Cons x zs)
      have "w \<in> set (L h)"
      proof (rule ccontr)
        assume "w \<notin> set (L h)"
        then have "dropWhile (\<lambda>x. w \<noteq> x) (L h) = []" by (auto simp: dropWhile_eq_Nil_conv)
        with Cons show False by simp
      qed
      moreover have "\<sigma> (slot_after (Head h) (takeWhile (\<lambda>x. w \<noteq> x) (L h))) = Some x"
      proof -
        have "chain \<sigma> (Head h) (takeWhile (\<lambda>x. w \<noteq> x) (L h) @ dropWhile (\<lambda>x. w \<noteq> x) (L h))"
          using ch by simp
        then show ?thesis unfolding Cons chain_append by simp
      qed
      ultimately show ?thesis by simp
    qed
    with Has c ch rep show ?thesis by (simp add: list_has_def list_walk_chain fun_upd_idem)
  next
    case Size
    with c ch rep show ?thesis by (simp add: list_size_def list_size_loop_chain fun_upd_idem)
  qed
qed

interpretation heap_lists: simulation lists_rep "heap_step cmp" "family_step cmp" unlinked
  for cmp :: "'a \<Rightarrow> 'a \<Rightarrow> int"
  by unfold_locales (rule heap_step_sim)

subsection \<open>Properties\<close>

text \<open>
  C5: any script of list.cpp operations on any number of lists that share one store (every item
  linked in while it is on no list) returns, never fails, gives the results the sequence
  operations give, and leaves the store representing the resulting sequences.
\<close>

theorem list_scripts_refine_sequences:
  fixes cmp :: "'a \<Rightarrow> 'a \<Rightarrow> int"
  assumes "lists_rep \<sigma> L" and "run_ok (family_step cmp) unlinked cs L"
  shows "\<exists>\<sigma>'. run_impl (heap_step cmp) cs \<sigma> = Some (Inr (fst (run_spec (family_step cmp) cs L), \<sigma>')) \<and>
              lists_rep \<sigma>' (snd (run_spec (family_step cmp) cs L))"
  using assms by (rule heap_lists.run_sim)

theorem list_scripts_refine_sequences_witness:
  "\<exists>\<sigma>'. run_impl (heap_step (\<lambda>w x. x - w))
           [(True, Append 5), (True, AddSorted 3), (False, Push 7), (True, Remove 5), (False, Pop)]
           (\<lambda>_. None) =
         Some (Inr ([RUnit, RUnit, RUnit, RFlag True, RItem (Some (7::int))], \<sigma>')) \<and>
        lists_rep \<sigma>' (\<lambda>b. if b then [3] else [])"
proof -
  let ?cs = "[(True, Append 5), (True, AddSorted 3), (False, Push 7), (True, Remove 5), (False, Pop)]
    :: (bool \<times> int list_op) list"
  let ?cmp = "\<lambda>w x. x - w :: int"
  have rep: "lists_rep (\<lambda>_. None :: int option) (\<lambda>_ :: bool. [])" by (simp add: lists_rep_def)
  have ok: "run_ok (family_step ?cmp) unlinked ?cs (\<lambda>_. [])"
    by (simp add: seq_add_sorted_def)
  have spec: "run_spec (family_step ?cmp) ?cs (\<lambda>_. []) =
      ([RUnit, RUnit, RUnit, RFlag True, RItem (Some 7)], (\<lambda>b. if b then [3] else []))"
    by (auto simp: seq_add_sorted_def fun_eq_iff)
  show ?thesis
    using list_scripts_refine_sequences [OF rep ok] unfolding spec by simp
qed

text \<open>
  counting (and with it every unconditional walk of list.cpp) returns exactly on the slots
  from which the links end in null, and then with the number of items; on a cyclic list the
  loop does not return.
\<close>

theorem list_size_returns_iff_acyclic:
  "list_size \<sigma> p = Some n \<longleftrightarrow> (\<exists>xs. chain \<sigma> p xs \<and> n = length xs)"
proof
  assume "list_size \<sigma> p = Some n"
  then have ret: "list_size_loop \<sigma> p 0 = Some n" by (simp add: list_size_def)
  have "\<exists>xs. chain \<sigma> p xs \<and> n = 0 + length xs"
  proof (rule list_size_loop.raw_induct
      [where P = "\<lambda>\<sigma> p c n. \<exists>xs. chain \<sigma> p xs \<and> n = c + length xs", OF _ ret])
    fix f :: "('c, 'b) store \<Rightarrow> ('c, 'b) slot \<Rightarrow> nat \<Rightarrow> nat option" and \<sigma> p c n
    assume IH: "\<And>\<sigma> p c n. f \<sigma> p c = Some n \<Longrightarrow> \<exists>xs. chain \<sigma> p xs \<and> n = c + length xs"
      and eq: "(case \<sigma> p of None \<Rightarrow> Some c | Some x \<Rightarrow> f \<sigma> (Next x) (c + 1)) = Some n"
    show "\<exists>xs. chain \<sigma> p xs \<and> n = c + length xs"
    proof (cases "\<sigma> p")
      case None
      with eq show ?thesis by (intro exI [of _ "[]"]) simp
    next
      case (Some x)
      with eq IH [of \<sigma> "Next x" "c + 1" n] obtain xs where
        "chain \<sigma> (Next x) xs" "n = c + 1 + length xs" by auto
      with Some show ?thesis by (intro exI [of _ "x # xs"]) simp
    qed
  qed
  then show "\<exists>xs. chain \<sigma> p xs \<and> n = length xs" by simp
next
  assume "\<exists>xs. chain \<sigma> p xs \<and> n = length xs"
  then show "list_size \<sigma> p = Some n"
    by (auto simp: list_size_def list_size_loop_chain)
qed

end
