(* ===== verification/DequeModel.thy ===== *)
theory DequeModel
  imports IntrusiveList
begin

text \<open>
  The doubly ended queue of deque.h: the intrusive list of list.cpp with an extra pointer to the
  last item, so that \<^verbatim>\<open>push_tail\<close> does not walk the list. The operations are written against the
  same store; \<open>deque_rep\<close> says what sequence a deque stands for.
\<close>

record 'a deque =
  links :: "(unit, 'a) store"  \<comment> \<open>\<open>Head ()\<close> is the member \<^verbatim>\<open>head\<close>\<close>
  tail :: "'a option"

definition deque_init :: "'a deque" where
  "deque_init = \<lparr>links = (\<lambda>_. None), tail = None\<rparr>"

definition head_of :: "'a deque \<Rightarrow> 'a option" where
  "head_of d = links d (Head ())"

definition push_head :: "'a option \<Rightarrow> 'a deque \<Rightarrow> 'a deque result" where
  "push_head w d =
     (let d1 = (if tail d = None then d\<lparr>tail := w\<rparr> else d)
      in case w of
           None \<Rightarrow> Inl NullDeref
         | Some i \<Rightarrow>
             Inr (d1\<lparr>links := (links d1)(Next i := head_of d1, Head () := w)\<rparr>))"

definition push_tail :: "'a option \<Rightarrow> 'a deque \<Rightarrow> 'a deque result" where
  "push_tail w d =
     (case w of
        None \<Rightarrow> Inl NullDeref
      | Some i \<Rightarrow>
          (let d1 = d\<lparr>links := (links d)(Next i := None)\<rparr>
           in if head_of d1 = None
              then Inr (d1\<lparr>links := (links d1)(Head () := w), tail := w\<rparr>)
              else (case tail d1 of
                      None \<Rightarrow> Inl NullDeref
                    | Some prev \<Rightarrow>
                        Inr (d1\<lparr>links := (links d1)(Next prev := w), tail := w\<rparr>))))"

definition pop_head :: "'a deque \<Rightarrow> 'a option \<times> 'a deque" where
  "pop_head d =
     (case head_of d of
        None \<Rightarrow> (None, d)
      | Some item \<Rightarrow>
          if tail d = Some item
          then (Some item, d\<lparr>links := (links d)(Head () := None), tail := None\<rparr>)
          else (Some item, d\<lparr>links := (links d)(Head () := links d (Next item))\<rparr>))"

definition deque_find :: "'a \<Rightarrow> 'a deque \<Rightarrow> bool option" where
  "deque_find w d = map_option (\<lambda>p. links d p \<noteq> None) (list_walk (\<lambda>x. w = x) (links d) (Head ()))"

definition deque_visit :: "('a \<Rightarrow> 's \<Rightarrow> bool \<times> 's) \<Rightarrow> 'a deque \<Rightarrow> 's \<Rightarrow> 's option" where
  "deque_visit fn d arg = map_option snd (list_find fn (links d) (Head ()) arg)"

definition deque_size :: "'a deque \<Rightarrow> nat option" where
  "deque_size d = list_size_loop (links d) (Head ()) 0"

definition deque_empty :: "'a deque \<Rightarrow> bool" where
  "deque_empty d \<longleftrightarrow> head_of d = None"

subsection \<open>The sequence a deque stands for\<close>

definition deque_rep :: "'a deque \<Rightarrow> 'a list \<Rightarrow> bool" where
  "deque_rep d xs \<longleftrightarrow>
     chain (links d) (Head ()) xs \<and> tail d = (if xs = [] then None else Some (last xs))"

datatype 'a deque_op = PushHead 'a | PushTail 'a | PopHead | DFind 'a | DSize | DEmpty

fun deque_step :: "'a deque_op \<Rightarrow> 'a deque \<Rightarrow> ('a list_res \<times> 'a deque) result option" where
  "deque_step (PushHead w) d = Some (map_sum id (Pair RUnit) (push_head (Some w) d))"
| "deque_step (PushTail w) d = Some (map_sum id (Pair RUnit) (push_tail (Some w) d))"
| "deque_step PopHead d = Some (Inr (map_prod RItem id (pop_head d)))"
| "deque_step (DFind w) d = map_option (\<lambda>b. Inr (RFlag b, d)) (deque_find w d)"
| "deque_step DSize d = map_option (\<lambda>n. Inr (RCount n, d)) (deque_size d)"
| "deque_step DEmpty d = Some (Inr (RFlag (deque_empty d), d))"

fun deque_spec :: "'a deque_op \<Rightarrow> 'a list \<Rightarrow> 'a list_res \<times> 'a list" where
  "deque_spec (PushHead w) xs = (RUnit, w # xs)"
| "deque_spec (PushTail w) xs = (RUnit, xs @ [w])"
| "deque_spec PopHead xs = (case xs of [] \<Rightarrow> (RItem None, []) | x # ys \<Rightarrow> (RItem (Some x), ys))"
| "deque_spec (DFind w) xs = (RFlag (w \<in> set xs), xs)"
| "deque_spec DSize xs = (RCount (length xs), xs)"
| "deque_spec DEmpty xs = (RFlag (xs = []), xs)"

fun deque_ok :: "'a deque_op \<Rightarrow> 'a list \<Rightarrow> bool" where
  "deque_ok (PushHead w) xs \<longleftrightarrow> w \<notin> set xs"
| "deque_ok (PushTail w) xs \<longleftrightarrow> w \<notin> set xs"
| "deque_ok _ xs \<longleftrightarrow> True"

lemma deque_rep_init: "deque_rep deque_init []"
  by (simp add: deque_rep_def deque_init_def)

lemma push_head_rep:
  assumes "deque_rep d xs" and "w \<notin> set xs"
  shows "\<exists>d'. push_head (Some w) d = Inr d' \<and> deque_rep d' (w # xs)"
proof -
  have c: "chain (links d) (Head ()) xs" using assms by (simp add: deque_rep_def)
  from chain_list_insert [of "links d" "()" "[]" xs w] c assms
  have "chain ((links d)(Next w := links d (Head ()), Head () := Some w)) (Head ()) (w # xs)"
    by (simp add: list_insert_def Let_def)
  then show ?thesis
    using assms by (auto simp: push_head_def deque_rep_def head_of_def Let_def)
qed

lemma push_tail_rep:
  assumes "deque_rep d xs" and w: "w \<notin> set xs"
  shows "\<exists>d'. push_tail (Some w) d = Inr d' \<and> deque_rep d' (xs @ [w])"
proof (cases xs rule: rev_cases)
  case Nil
  with assms show ?thesis
    by (auto simp: push_tail_def deque_rep_def head_of_def Let_def)
next
  case (snoc ys y)
  have c: "chain (links d) (Head ()) (xs @ [])" using assms by (simp add: deque_rep_def)
  have n: "links d (slot_after (Head ()) xs) = None" using c by (simp only: chain_append) simp
  have y: "slot_after (Head ()) xs = Next y" using snoc by (simp add: slot_after_eq)
  have hd: "links d (Head ()) \<noteq> None"
  proof
    assume "links d (Head ()) = None"
    with c snoc show False by simp
  qed
  have "chain ((links d)(Next w := None, Next y := Some w)) (Head ()) (xs @ [w])"
    using chain_list_insert [OF c] w n y by (simp add: list_insert_def Let_def)
  then show ?thesis
    using assms snoc hd by (auto simp: push_tail_def deque_rep_def head_of_def Let_def)
qed

lemma pop_head_rep:
  assumes "deque_rep d xs"
  shows "fst (pop_head d) = (case xs of [] \<Rightarrow> None | x # ys \<Rightarrow> Some x)"
    and "deque_rep (snd (pop_head d)) (case xs of [] \<Rightarrow> [] | x # ys \<Rightarrow> ys)"
proof -
  have c: "chain (links d) (Head ()) xs" and dist: "distinct xs"
    using assms chain_distinct by (auto simp: deque_rep_def)
  show "fst (pop_head d) = (case xs of [] \<Rightarrow> None | x # ys \<Rightarrow> Some x)"
    using c by (cases xs) (auto simp: pop_head_def head_of_def)
  show "deque_rep (snd (pop_head d)) (case xs of [] \<Rightarrow> [] | x # ys \<Rightarrow> ys)"
  proof (cases xs)
    case Nil
    with assms show ?thesis by (auto simp: pop_head_def head_of_def deque_rep_def)
  next
    case (Cons x ys)
    have "tail d = Some x \<longleftrightarrow> ys = []"
      using assms Cons dist by (auto simp: deque_rep_def dest: last_in_set)
    moreover have "chain ((links d)(Head () := links d (Next x))) (Head ()) ys"
      using c Cons by (cases ys) (auto simp: chain_upd image_iff)
    ultimately show ?thesis
      using assms Cons by (auto simp: pop_head_def head_of_def deque_rep_def)
  qed
qed

lemma deque_find_rep: "deque_rep d xs \<Longrightarrow> deque_find w d = Some (w \<in> set xs)"
proof -
  assume "deque_rep d xs"
  then have rep: "lists_rep (links d) (\<lambda>_ :: unit. xs)"
    by (simp add: deque_rep_def lists_rep_def)
  show ?thesis
    using heap_step_sim [OF rep, of "((), Has w)" "\<lambda>_ _. 0"]
    by (auto simp: list_has_def deque_find_def)
qed

lemma deque_step_sim:
  assumes "deque_rep d xs" and "deque_ok c xs"
  shows "\<exists>d'. deque_step c d = Some (Inr (fst (deque_spec c xs), d')) \<and>
              deque_rep d' (snd (deque_spec c xs))"
proof (cases c)
  case (PushHead w)
  with assms push_head_rep show ?thesis by fastforce
next
  case (PushTail w)
  with assms push_tail_rep show ?thesis by fastforce
next
  case PopHead
  with pop_head_rep [OF assms(1)] show ?thesis by (cases xs) (auto simp: map_prod_def split_beta)
next
  case (DFind w)
  with assms show ?thesis by (simp add: deque_find_rep)
next
  case DSize
  moreover have "deque_size d = Some (length xs)"
    using assms(1) list_size_loop_chain [of "links d" "Head ()" xs 0]
    by (simp add: deque_size_def deque_rep_def)
  ultimately show ?thesis using assms by simp
next
  case DEmpty
  with assms show ?thesis by (cases xs) (auto simp: deque_empty_def head_of_def deque_rep_def)
qed

interpretation deques: simulation deque_rep deque_step deque_spec deque_ok
  by unfold_locales (rule deque_step_sim)

subsection \<open>Properties\<close>

text \<open>
  C6: from the empty deque, any script of pushes at either end (of items not already queued),
  pops, searches and counts returns, never fails, and answers as the sequence does; in
  particular the cached tail pointer never goes stale.
\<close>

theorem deque_scripts_refine_sequences:
  assumes "run_ok deque_spec deque_ok cs []"
  shows "\<exists>d'. run_impl deque_step cs deque_init = Some (Inr (fst (run_spec deque_spec cs []), d')) \<and>
              deque_rep d' (snd (run_spec deque_spec cs []))"
  using deque_rep_init assms by (rule deques.run_sim)

theorem deque_scripts_refine_sequences_witness:
  "\<exists>d'. run_impl deque_step [PushTail (1::nat), PushHead 2, PopHead, PushTail 3, PopHead, DSize] deque_init =
         Some (Inr ([RUnit, RUnit, RItem (Some 2), RUnit, RItem (Some 1), RCount 1], d')) \<and>
        deque_rep d' [3]"
  using deque_scripts_refine_sequences
    [of "[PushTail (1::nat), PushHead 2, PopHead, PushTail 3, PopHead, DSize]"] by simp

end
