(* ===== verification/Dispatcher.thy ===== *)
theory Dispatcher
  imports DequeModel
begin

text \<open>
  The dispatcher of dispatch.cpp: interrupt handlers and threads \<^verbatim>\<open>put\<close> callbacks on a deque and
  post a semaphore; one thread runs the loop that waits on the semaphore, pops one callback and
  executes it. A step is one atomic action of one party. \<^verbatim>\<open>put\<close> is two actions, linking the
  callback (under the mutex) and posting, and so is \<^verbatim>\<open>kill\<close>; between them other parties run.
  \<open>owed\<close> counts the posts still to come from calls in progress.

  The semaphore comes from the platform. \<open>post\<close> is what posting does to its count: \<open>Suc\<close> for the
  POSIX semaphore of linux/semaphore.cpp, and \<open>\<lambda>_. 1\<close> for the FreeRTOS binary semaphore that
  \<^verbatim>\<open>Semaphore::create()\<close> makes in freertos/semaphore.cpp. The deque is that of \<open>DequeModel\<close>, with the links in the
  callbacks.
\<close>

datatype 'c loop_pc = AtTest | AtWait | AtPop | Execute 'c | Left

record 'c dispatch =
  deque :: "'c deque"
  sem :: nat
  dead :: bool
  owed :: nat
  pc :: "'c loop_pc"
  put_log :: "'c list"     \<comment> \<open>the callbacks handed to \<^verbatim>\<open>put\<close>, in the order they were linked\<close>
  run_log :: "'c list"     \<comment> \<open>the callbacks executed, in order\<close>

definition dispatch_init :: "'c dispatch" where
  "dispatch_init = \<lparr>deque = deque_init, sem = 0, dead = False, owed = 0, pc = AtTest, put_log = [], run_log = []\<rparr>"

datatype 'c dispatch_event = PutLink 'c | Kill | PostSem | Loop

text \<open>
  One action; \<open>None\<close> when it is not possible in this state (the loop waits, or has left), and an error when it would
  dereference a null pointer.
\<close>

fun dispatch_step :: "(nat \<Rightarrow> nat) \<Rightarrow> 'c dispatch_event \<Rightarrow> 'c dispatch \<Rightarrow> 'c dispatch result option" where
  "dispatch_step post (PutLink cb) d =
     Some (rbind (push_tail (Some cb) (deque d))
             (\<lambda>q. Inr (d\<lparr>deque := q, put_log := put_log d @ [cb], owed := owed d + 1\<rparr>)))"
| "dispatch_step post Kill d = Some (Inr (d\<lparr>dead := True, owed := owed d + 1\<rparr>))"
| "dispatch_step post PostSem d =
     (if owed d = 0 then None else Some (Inr (d\<lparr>owed := owed d - 1, sem := post (sem d)\<rparr>)))"
| "dispatch_step post Loop d =
     (case pc d of
        AtTest \<Rightarrow> Some (Inr (d\<lparr>pc := if dead d then Left else AtWait\<rparr>))
      | AtWait \<Rightarrow> if sem d = 0 then None else Some (Inr (d\<lparr>sem := sem d - 1, pc := AtPop\<rparr>))
      | AtPop \<Rightarrow>
          (case pop_head (deque d) of
             (None, q) \<Rightarrow> Some (Inr (d\<lparr>deque := q, pc := AtTest\<rparr>))
           | (Some cb, q) \<Rightarrow> Some (Inr (d\<lparr>deque := q, pc := Execute cb\<rparr>)))
      | Execute cb \<Rightarrow> Some (Inr (d\<lparr>run_log := run_log d @ [cb], pc := AtTest\<rparr>))
      | Left \<Rightarrow> None)"

text \<open>
  A callback carries its own link, so it can be in the queue once only: the callers must not put one that is still
  queued (one that is being executed may be put again). \<open>reput_loses_callbacks\<close> below shows what happens otherwise.
\<close>

fun put_ok :: "'c dispatch_event \<Rightarrow> 'c dispatch \<Rightarrow> bool" where
  "put_ok (PutLink cb) d \<longleftrightarrow> deque_find cb (deque d) = Some False"
| "put_ok _ d \<longleftrightarrow> True"

inductive dispatch_reach :: "(nat \<Rightarrow> nat) \<Rightarrow> 'c dispatch \<Rightarrow> bool" for post where
  start: "dispatch_reach post dispatch_init"
| step: "dispatch_reach post d \<Longrightarrow> put_ok e d \<Longrightarrow> dispatch_step post e d = Some (Inr d') \<Longrightarrow> dispatch_reach post d'"

fun dispatch_run :: "(nat \<Rightarrow> nat) \<Rightarrow> 'c dispatch_event list \<Rightarrow> 'c dispatch \<Rightarrow> 'c dispatch option" where
  "dispatch_run post [] d = Some d"
| "dispatch_run post (e # es) d =
     (case dispatch_step post e d of Some (Inr d') \<Rightarrow> dispatch_run post es d' | _ \<Rightarrow> None)"

text \<open>A script that puts no callback twice puts none that is queued.\<close>

fun puts :: "'c dispatch_event list \<Rightarrow> 'c list" where
  "puts [] = []"
| "puts (PutLink cb # es) = cb # puts es"
| "puts (_ # es) = puts es"

fun in_hand :: "'c loop_pc \<Rightarrow> 'c list" where
  "in_hand (Execute cb) = [cb]"
| "in_hand _ = []"

subsection \<open>The invariant\<close>

text \<open>\<open>q\<close> is the sequence the deque stands for.\<close>

definition fifo_inv :: "'c list \<Rightarrow> 'c dispatch \<Rightarrow> bool" where
  "fifo_inv q d \<longleftrightarrow> deque_rep (deque d) q \<and> put_log d = run_log d @ in_hand (pc d) @ q"

definition wake_inv :: "'c list \<Rightarrow> 'c dispatch \<Rightarrow> bool" where
  "wake_inv q d \<longleftrightarrow> length q \<le> sem d + owed d + (if pc d = AtPop then 1 else 0)"

lemma dispatch_step_inv [inv_intros]:
  assumes "fifo_inv q d" "put_ok e d" "dispatch_step post e d = Some r"
  shows "\<exists>d' q'. r = Inr d' \<and> fifo_inv q' d' \<and> (post = Suc \<and> wake_inv q d \<longrightarrow> wake_inv q' d')"
proof (cases e)
  case (PutLink cb)
  have rep: "deque_rep (deque d) q" using assms(1) by (simp add: fifo_inv_def)
  with assms(2) PutLink have "cb \<notin> set q" by (simp add: deque_find_rep)
  from push_tail_rep [OF rep this] obtain q' where q': "push_tail (Some cb) (deque d) = Inr q'" "deque_rep q' (q @ [cb])"
    by blast
  let ?d = "d\<lparr>deque := q', put_log := put_log d @ [cb], owed := owed d + 1\<rparr>"
  have "r = Inr ?d" using assms(3) PutLink q'(1) by simp
  with assms(1) q'(2) show ?thesis
    by (intro exI [of _ ?d] exI [of _ "q @ [cb]"]) (simp add: fifo_inv_def wake_inv_def)
next
  case Loop
  have rep: "deque_rep (deque d) q" using assms(1) by (simp add: fifo_inv_def)
  show ?thesis
  proof (cases "pc d = AtPop")
    case True
    show ?thesis
    proof (cases q)
      case Nil
      with pop_head_rep [OF rep] obtain dq where dq: "pop_head (deque d) = (None, dq)" "deque_rep dq []"
        by (cases "pop_head (deque d)") auto
      with assms(3) Loop True have "r = Inr (d\<lparr>deque := dq, pc := AtTest\<rparr>)" by simp
      with assms(1) dq(2) True Nil show ?thesis
        by (intro exI [of _ "d\<lparr>deque := dq, pc := AtTest\<rparr>"] exI [of _ "[]"]) (simp add: fifo_inv_def wake_inv_def)
    next
      case (Cons x xs)
      with pop_head_rep [OF rep] obtain dq where dq: "pop_head (deque d) = (Some x, dq)" "deque_rep dq xs"
        by (cases "pop_head (deque d)") auto
      with assms(3) Loop True have "r = Inr (d\<lparr>deque := dq, pc := Execute x\<rparr>)" by simp
      with assms(1) dq(2) True Cons show ?thesis
        by (intro exI [of _ "d\<lparr>deque := dq, pc := Execute x\<rparr>"] exI [of _ xs]) (simp add: fifo_inv_def wake_inv_def)
    qed
  next
    case False
    with assms(3) Loop obtain d' where d': "r = Inr d'" "deque d' = deque d" "put_log d' = put_log d" "owed d' = owed d"
      "run_log d' @ in_hand (pc d') = run_log d @ in_hand (pc d)" "sem d \<le> sem d' + (if pc d' = AtPop then 1 else 0)"
      by (auto split: loop_pc.splits if_splits)
    have "put_log d' = run_log d' @ in_hand (pc d') @ q"
      using assms(1) d'(3,5) by (metis append.assoc fifo_inv_def)
    moreover have "wake_inv q d \<longrightarrow> wake_inv q d'" using d'(4,6) False by (simp add: wake_inv_def)
    ultimately show ?thesis using rep d'(1,2) by (auto simp: fifo_inv_def)
  qed
next
  case Kill
  let ?d = "d\<lparr>dead := True, owed := owed d + 1\<rparr>"
  have "r = Inr ?d" using assms(3) Kill by simp
  with assms(1) show ?thesis by (intro exI [of _ ?d] exI [of _ q]) (simp add: fifo_inv_def wake_inv_def)
next
  case PostSem
  let ?d = "d\<lparr>owed := owed d - 1, sem := post (sem d)\<rparr>"
  have "r = Inr ?d" "owed d \<noteq> 0" using assms(3) PostSem by (simp_all split: if_splits)
  with assms(1) show ?thesis by (intro exI [of _ ?d] exI [of _ q]) (auto simp: fifo_inv_def wake_inv_def)
qed

lemma dispatch_reach_inv: "dispatch_reach post d \<Longrightarrow> \<exists>q. fifo_inv q d \<and> (post = Suc \<longrightarrow> wake_inv q d)"
proof (induction rule: dispatch_reach.induct)
  case start
  show ?case using deque_rep_init by (auto simp: fifo_inv_def wake_inv_def dispatch_init_def intro!: exI [of _ "[]"])
next
  case (step d e d')
  then obtain q where "fifo_inv q d" "post = Suc \<longrightarrow> wake_inv q d" by blast
  with dispatch_step_inv [OF this(1) step.hyps(2,3)] show ?case by auto
qed

lemma dispatch_run_reach:
  assumes "dispatch_reach post d" "dispatch_run post es d = Some d'" "distinct (put_log d @ puts es)"
  shows "dispatch_reach post d'"
  using assms
proof (induction es arbitrary: d)
  case (Cons e es)
  from Cons.prems(2) obtain v where v: "dispatch_step post e d = Some (Inr v)" "dispatch_run post es v = Some d'"
    by (auto split: option.splits sum.splits)
  from dispatch_reach_inv [OF Cons.prems(1)] obtain q where q: "fifo_inv q d" by blast
  then have "put_ok e d" using Cons.prems(3) by (cases e) (auto simp: fifo_inv_def deque_find_rep)
  then have "dispatch_reach post v" by (rule dispatch_reach.step [OF Cons.prems(1) _ v(1)])
  moreover have "distinct (put_log v @ puts es)" using v(1) Cons.prems(3)
    by (cases e) (auto simp: rbind_Inr_conv split: loop_pc.splits option.splits prod.splits if_splits)
  ultimately show ?case using Cons.IH v(2) by blast
qed simp

subsection \<open>Properties\<close>

text \<open>
  C14: when no callback is put that is still queued, then under every interleaving of the parties, and with either
  semaphore, callbacks execute in the order they were put and each as often as it was put: what was put is what was
  executed, the one in hand, and what is queued in the deque; and no action of any party fails.
\<close>

theorem dispatch_in_order:
  assumes "dispatch_reach post d"
  shows "\<exists>q. deque_rep (deque d) q \<and> put_log d = run_log d @ in_hand (pc d) @ q \<and>
    (\<forall>e r. put_ok e d \<and> dispatch_step post e d = Some r \<longrightarrow> \<not> isl r)"
proof -
  from dispatch_reach_inv [OF assms] obtain q where q: "fifo_inv q d" by blast
  have "\<not> isl r" if "put_ok e d" "dispatch_step post e d = Some r" for e r
    using dispatch_step_inv [OF q that] by auto
  with q show ?thesis by (auto simp: fifo_inv_def)
qed

theorem dispatch_in_order_witness:
  "\<exists>d q. dispatch_run Suc [PutLink (1::nat), PutLink 2, PostSem, Loop, Loop, Loop, Loop] dispatch_init = Some d \<and>
       put_log d = [1, 2] \<and> run_log d = [1] \<and> deque_rep (deque d) q \<and> put_log d = run_log d @ in_hand (pc d) @ q"
proof -
  let ?es = "[PutLink (1::nat), PutLink 2, PostSem, Loop, Loop, Loop, Loop]"
  obtain d where d: "dispatch_run Suc ?es dispatch_init = Some d" "put_log d = [1, 2]" "run_log d = [1]"
    by (simp add: dispatch_init_def deque_init_def push_tail_def pop_head_def head_of_def)
  have "dispatch_reach Suc d" by (rule dispatch_run_reach [OF dispatch_reach.start d(1)]) (simp add: dispatch_init_def)
  from dispatch_in_order [OF this] d show ?thesis by blast
qed

text \<open>
  C15: with the counting semaphore, and no callback put while it is still queued, no callback is stranded: when the
  loop is blocked in its wait and no call is still to post, the deque is empty and every callback put was executed.
\<close>

theorem dispatch_counting_never_strands:
  assumes "dispatch_reach Suc d" and "pc d = AtWait" and "dispatch_step Suc Loop d = None" and "owed d = 0"
  shows "deque_empty (deque d) \<and> run_log d = put_log d"
proof -
  from dispatch_reach_inv [OF assms(1)] obtain q where q: "fifo_inv q d" "wake_inv q d" by blast
  with assms(2-4) have "q = []" by (auto simp: wake_inv_def split: if_splits)
  with q(1) assms(2) show ?thesis by (simp add: fifo_inv_def deque_rep_def deque_empty_def head_of_def)
qed

theorem dispatch_counting_never_strands_witness:
  "\<exists>d. dispatch_run Suc [PutLink (7::nat), PostSem, Loop, Loop, Loop, Loop, Loop] dispatch_init = Some d \<and>
       pc d = AtWait \<and> deque_empty (deque d) \<and> run_log d = put_log d"
proof -
  let ?es = "[PutLink (7::nat), PostSem, Loop, Loop, Loop, Loop, Loop]"
  obtain d where d: "dispatch_run Suc ?es dispatch_init = Some d" "pc d = AtWait"
      "dispatch_step Suc Loop d = None" "owed d = 0" "run_log d = [7]"
    by (simp add: dispatch_init_def deque_init_def push_tail_def pop_head_def head_of_def)
  have "dispatch_reach Suc d" by (rule dispatch_run_reach [OF dispatch_reach.start d(1)]) (simp add: dispatch_init_def)
  from dispatch_counting_never_strands [OF this d(2-4)] d show ?thesis by blast
qed

text \<open>
  with the binary semaphore that \<^verbatim>\<open>Semaphore::create()\<close> gives on FreeRTOS the guarantee fails:
  two callbacks put before the loop wakes leave one queued while the loop is blocked and nobody
  is going to post.
\<close>

theorem dispatch_binary_strands:
  "\<exists>d. dispatch_reach (\<lambda>_. 1) d \<and> pc d = AtWait \<and> dispatch_step (\<lambda>_. 1) Loop d = None \<and>
       owed d = 0 \<and> head_of (deque d) = Some (2 :: nat) \<and> run_log d = [1]"
proof -
  let ?es = "[PutLink (1::nat), PostSem, PutLink 2, PostSem, Loop, Loop, Loop, Loop, Loop]"
  obtain d where d: "dispatch_run (\<lambda>_. 1) ?es dispatch_init = Some d"
      "pc d = AtWait" "dispatch_step (\<lambda>_. 1) Loop d = None" "owed d = 0" "head_of (deque d) = Some 2" "run_log d = [1]"
    by (simp add: dispatch_init_def deque_init_def push_tail_def pop_head_def head_of_def)
  have "dispatch_reach (\<lambda>_. 1) d" by (rule dispatch_run_reach [OF dispatch_reach.start d(1)]) (simp add: dispatch_init_def)
  with d show ?thesis by blast
qed

text \<open>
  \<^verbatim>\<open>put\<close> does not test whether the callback is queued: putting the first of two queued callbacks again cuts the
  other off. It never runs, although the loop has nothing left to do.
\<close>

lemma reput_loses_callbacks:
  "\<exists>d. dispatch_run Suc ([PutLink (1::nat), PostSem, PutLink 2, PostSem, PutLink 1, PostSem] @ replicate 11 Loop) dispatch_init = Some d \<and>
     put_log d = [1, 2, 1] \<and> run_log d = [1] \<and> deque_empty (deque d) \<and> sem d = 0 \<and> pc d = AtWait"
  by (simp add: dispatch_init_def deque_init_def push_tail_def pop_head_def head_of_def deque_empty_def numeral_eq_Suc)

end
