(* ===== verification/Buffers.thy ===== *)
theory Buffers
  imports Prelude
begin

text \<open>
  The byte buffers of buffer.h. \<open>buffer\<close> is \<^verbatim>\<open>Buffer\<close>: an array filled once from the front and
  read once from the front. \<open>Buffers\<close> is a deque of them (as the sequence the deque stands for,
  head first): bytes are added to the last and read from the first, and a buffer that has been
  read to its end is deleted.
\<close>

subsection \<open>Buffer\<close>

record buffer =
  bsize :: nat
  bin :: nat
  bout :: nat
  bdata :: "u8 list"

text \<open>\<open>new n\<close> is the content of a fresh \<^verbatim>\<open>malloc(n)\<close> block.\<close>

definition buffer_new :: "(nat \<Rightarrow> u8 list) \<Rightarrow> nat \<Rightarrow> buffer" where
  "buffer_new new sz = \<lparr>bsize = sz, bin = 0, bout = 0, bdata = new sz\<rparr>"

definition buffer_reset :: "buffer \<Rightarrow> buffer" where
  "buffer_reset b = b\<lparr>bout := 0, bin := 0\<rparr>"

definition buffer_add :: "u8 \<Rightarrow> buffer \<Rightarrow> (bool \<times> buffer) result" where
  "buffer_add c b =
     (let next = bin b + 1
      in if next > bsize b then Inr (False, b)
         else if bin b < length (bdata b)
         then Inr (True, b\<lparr>bdata := (bdata b)[bin b := c], bin := next\<rparr>)
         else Inl OutOfBounds)"

text \<open>\<^verbatim>\<open>write\<close> returns how many bytes fitted.\<close>

fun buffer_write_loop :: "u8 list \<Rightarrow> nat \<Rightarrow> buffer \<Rightarrow> (nat \<times> buffer) result" where
  "buffer_write_loop [] i b = Inr (i, b)"
| "buffer_write_loop (c # cs) i b =
     rbind (buffer_add c b) (\<lambda>(ok, b'). if \<not> ok then Inr (i, b') else buffer_write_loop cs (i + 1) b')"

definition buffer_write :: "u8 list \<Rightarrow> buffer \<Rightarrow> (nat \<times> buffer) result" where
  "buffer_write cs b = buffer_write_loop cs 0 b"

text \<open>
  \<^verbatim>\<open>read(buffer, n)\<close>: the loop runs over the indices \<open>out .. in - 1\<close> and tests the count against
  \<open>n\<close> only after it has copied a byte. The result is the list of copied bytes.
\<close>

fun buffer_read_loop :: "nat list \<Rightarrow> int \<Rightarrow> int \<Rightarrow> buffer \<Rightarrow> (u8 list \<times> buffer) result" where
  "buffer_read_loop [] n count b = Inr ([], b)"
| "buffer_read_loop (i # is) n count b =
     (if i < length (bdata b)
      then
        (let c = bdata b ! i; b' = b\<lparr>bout := bout b + 1\<rparr>; count' = count + 1
         in if count' \<ge> n then Inr ([c], b')
            else rbind (buffer_read_loop is n count' b') (\<lambda>(cs, b''). Inr (c # cs, b'')))
      else Inl OutOfBounds)"

definition buffer_read :: "int \<Rightarrow> buffer \<Rightarrow> (u8 list \<times> buffer) result" where
  "buffer_read n b = buffer_read_loop [bout b..<bin b] n 0 b"

definition buffer_full :: "buffer \<Rightarrow> bool" where
  "buffer_full b \<longleftrightarrow> bin b = bsize b"

definition buffer_spent :: "buffer \<Rightarrow> bool" where
  "buffer_spent b \<longleftrightarrow> bout b = bsize b"

definition buffer_count :: "buffer \<Rightarrow> int" where
  "buffer_count b = int (bin b) - int (bout b)"

subsubsection \<open>What it holds\<close>

definition buffer_inv :: "buffer \<Rightarrow> bool" where
  "buffer_inv b \<longleftrightarrow> bout b \<le> bin b \<and> bin b \<le> bsize b \<and> length (bdata b) = bsize b"

definition buffer_bytes :: "buffer \<Rightarrow> u8 list" where
  "buffer_bytes b = take (bin b - bout b) (drop (bout b) (bdata b))"

lemma length_buffer_bytes: "buffer_inv b \<Longrightarrow> length (buffer_bytes b) = bin b - bout b"
  by (auto simp: buffer_inv_def buffer_bytes_def)

lemma buffer_new_inv [inv_intros]: "length (new n) = n \<Longrightarrow> buffer_inv (buffer_new new n)"
  by (simp add: buffer_inv_def buffer_new_def)

lemma buffer_add_law:
  assumes "buffer_inv b"
  shows "\<exists>b'. buffer_add c b = Inr (\<not> buffer_full b, b') \<and> buffer_inv b' \<and> bsize b' = bsize b \<and>
              bout b' = bout b \<and>
              buffer_bytes b' = (if buffer_full b then buffer_bytes b else buffer_bytes b @ [c])"
proof (cases "buffer_full b")
  case True
  with assms show ?thesis by (simp add: buffer_add_def buffer_full_def Let_def)
next
  case False
  with assms have "bin b < length (bdata b)" by (auto simp: buffer_inv_def buffer_full_def)
  moreover have "take (Suc (bin b) - bout b) (drop (bout b) ((bdata b)[bin b := c])) =
      take (bin b - bout b) (drop (bout b) (bdata b)) @ [c]"
    using assms calculation by (intro take_drop_update) (auto simp: buffer_inv_def)
  ultimately show ?thesis
    using assms False
    by (auto simp: buffer_add_def buffer_full_def buffer_inv_def buffer_bytes_def Let_def)
qed

text \<open>The read loop, from any intermediate count.\<close>

lemma buffer_read_loop_law:
  "bout b + m = bin b \<Longrightarrow> bin b \<le> length (bdata b) \<Longrightarrow> count < n \<Longrightarrow>
   buffer_read_loop [bout b..<bin b] n count b =
     (let k = min m (nat (n - count))
      in Inr (take k (drop (bout b) (bdata b)), b\<lparr>bout := bout b + k\<rparr>))"
proof (induction m arbitrary: b count)
  case 0
  then show ?case by simp
next
  case (Suc m)
  let ?b = "b\<lparr>bout := Suc (bout b)\<rparr>"
  have lt: "bout b < bin b" and idx: "[bout b..<bin b] = bout b # [bout ?b..<bin ?b]"
    using Suc.prems(1) by (simp_all add: upt_conv_Cons)
  have dr: "drop (bout b) (bdata b) = bdata b ! bout b # drop (Suc (bout b)) (bdata b)"
    using lt Suc.prems(2) by (simp add: Cons_nth_drop_Suc)
  show ?case
  proof (cases "count + 1 \<ge> n")
    case True
    then have "nat (n - count) = 1" using Suc.prems(3) by simp
    with True lt Suc.prems dr show ?thesis
      unfolding idx by (simp add: Let_def min_def)
  next
    case False
    then have "nat (n - count) = Suc (nat (n - (count + 1)))" using Suc.prems(3) by simp
    with False lt Suc.prems dr Suc.IH [of ?b "count + 1"] show ?thesis
      unfolding idx by (simp add: Let_def)
  qed
qed

lemma buffer_read_law:
  assumes "buffer_inv b" and "0 < n"
  shows "\<exists>b'. buffer_read n b = Inr (take (nat n) (buffer_bytes b), b') \<and> buffer_inv b' \<and>
              bsize b' = bsize b \<and> bin b' = bin b \<and> bdata b' = bdata b \<and>
              buffer_bytes b' = drop (nat n) (buffer_bytes b)"
proof -
  let ?k = "min (bin b - bout b) (nat n)"
  have read: "buffer_read n b = Inr (take ?k (drop (bout b) (bdata b)), b\<lparr>bout := bout b + ?k\<rparr>)"
    using assms buffer_read_loop_law [of b "bin b - bout b" 0 n]
    by (simp add: buffer_read_def buffer_inv_def Let_def)
  have inv: "buffer_inv (b\<lparr>bout := bout b + ?k\<rparr>)" using assms(1) by (auto simp: buffer_inv_def)
  have out: "take ?k (drop (bout b) (bdata b)) = take (nat n) (buffer_bytes b)"
    by (simp add: buffer_bytes_def min.commute)
  have left: "buffer_bytes (b\<lparr>bout := bout b + ?k\<rparr>) = drop (nat n) (buffer_bytes b)"
  proof (cases "nat n \<le> bin b - bout b")
    case True
    then have "?k = nat n" by simp
    then show ?thesis by (simp add: buffer_bytes_def drop_take add.commute)
  next
    case False
    then have "?k = bin b - bout b" by simp
    with False assms(1) show ?thesis by (simp add: buffer_bytes_def buffer_inv_def)
  qed
  show ?thesis using read inv out left by simp
qed

subsection \<open>Buffers\<close>

type_synonym buffers = "buffer list"

definition bufs_add_buffer :: "(nat \<Rightarrow> u8 list) \<Rightarrow> nat \<Rightarrow> buffers \<Rightarrow> buffers" where
  "bufs_add_buffer new sz bs = bs @ [buffer_new new sz]"

text \<open>
  \<^verbatim>\<open>add(c, force_add)\<close>: with no buffer at all and \<open>force \<noteq> 0\<close> it makes one and calls itself
  without forcing.
\<close>

definition bufs_add_last :: "u8 \<Rightarrow> buffers \<Rightarrow> (bool \<times> buffers) result" where
  "bufs_add_last c bs =
     (if bs = [] then Inr (False, bs)
      else rbind (buffer_add c (last bs)) (\<lambda>(ok, b'). Inr (ok, butlast bs @ [b'])))"

definition bufs_add :: "(nat \<Rightarrow> u8 list) \<Rightarrow> u8 \<Rightarrow> nat \<Rightarrow> buffers \<Rightarrow> (bool \<times> buffers) result" where
  "bufs_add new c force bs =
     (if bs = [] then
        (if force \<noteq> 0 then bufs_add_last c (bufs_add_buffer new force bs) else Inr (False, bs))
      else bufs_add_last c bs)"

definition bufs_full :: "buffers \<Rightarrow> bool" where
  "bufs_full bs = (if bs = [] then True else buffer_full (last bs))"

function bufs_read :: "nat \<Rightarrow> buffers \<Rightarrow> (u8 list \<times> buffers) result" where
  "bufs_read todo bs =
     (if todo = 0 then Inr ([], bs)
      else
        (case bs of
           [] \<Rightarrow> Inr ([], bs)
         | b # rest \<Rightarrow>
             (case buffer_read (int todo) b of
                Inl e \<Rightarrow> Inl e
              | Inr (cs, b') \<Rightarrow>
                  if length cs = 0 then Inr ([], b' # rest)
                  else
                    rbind (bufs_read (todo - length cs) (if buffer_spent b' then rest else b' # rest))
                      (\<lambda>(ds, bs'). Inr (cs @ ds, bs')))))"
  by pat_completeness auto
termination
  by (relation "measure fst") auto

declare bufs_read.simps [simp del]

definition bufs_get_size :: "buffers \<Rightarrow> nat" where
  "bufs_get_size bs = sum_list (map bsize bs)"

definition bufs_reset :: "buffers \<Rightarrow> buffers" where
  "bufs_reset bs = []"

subsubsection \<open>What they hold\<close>

definition bufs_inv :: "buffers \<Rightarrow> bool" where
  "bufs_inv bs \<longleftrightarrow> (\<forall>b \<in> set bs. buffer_inv b)"

definition bufs_bytes :: "buffers \<Rightarrow> u8 list" where
  "bufs_bytes bs = concat (map buffer_bytes bs)"

text \<open>The discipline of a writer that appends a buffer only when the last one is full.\<close>

definition packed :: "buffers \<Rightarrow> bool" where
  "packed bs \<longleftrightarrow> (\<forall>b \<in> set (butlast bs). buffer_full b)"

lemma bufs_add_law:
  assumes "bufs_inv bs" and new: "\<And>n. length (new n) = n"
  shows "\<exists>ok bs'. bufs_add new c force bs = Inr (ok, bs') \<and> bufs_inv bs' \<and>
           bufs_bytes bs' = (if ok then bufs_bytes bs @ [c] else bufs_bytes bs) \<and>
           ok = (if bs = [] then force \<noteq> 0 else \<not> buffer_full (last bs)) \<and>
           (packed bs \<longrightarrow> packed bs')"
proof (cases bs rule: rev_cases)
  case Nil
  have inv: "buffer_inv (buffer_new new force)" using new by (rule buffer_new_inv)
  from buffer_add_law [OF inv, of c] obtain b' where
    "buffer_add c (buffer_new new force) = Inr (\<not> buffer_full (buffer_new new force), b')"
    "buffer_inv b'" "buffer_bytes b' = (if buffer_full (buffer_new new force)
       then buffer_bytes (buffer_new new force) else buffer_bytes (buffer_new new force) @ [c])"
    by blast
  moreover have "buffer_bytes (buffer_new new force) = []" "buffer_full (buffer_new new force) \<longleftrightarrow> force = 0"
    by (auto simp: buffer_bytes_def buffer_new_def buffer_full_def)
  ultimately show ?thesis
    using Nil by (auto simp: bufs_add_def bufs_add_buffer_def bufs_add_last_def bufs_inv_def
        bufs_bytes_def packed_def)
next
  case (snoc as b)
  then have "buffer_inv b" using assms by (simp add: bufs_inv_def)
  from buffer_add_law [OF this, of c] snoc assms(1) show ?thesis
    by (auto simp: bufs_add_def bufs_add_last_def bufs_inv_def bufs_bytes_def packed_def)
qed

lemma bufs_read_law:
  "bufs_inv bs \<Longrightarrow>
   \<exists>out bs'. bufs_read n bs = Inr (out, bs') \<and> bufs_inv bs' \<and> out @ bufs_bytes bs' = bufs_bytes bs \<and>
     length out \<le> n \<and> (packed bs \<longrightarrow> packed bs') \<and>
     (packed bs \<longrightarrow> (\<forall>b \<in> set bs. bout b < bsize b) \<longrightarrow> out = take n (bufs_bytes bs))"
proof (induction n bs rule: bufs_read.induct)
  case (1 n bs)
  show ?case
  proof (cases "n = 0 \<or> bs = []")
    case True
    with 1(2) show ?thesis
      by (subst bufs_read.simps) (auto simp: bufs_bytes_def)
  next
    case False
    then obtain b rest where bs: "bs = b # rest" and n: "0 < n" by (cases bs) auto
    then have inv: "buffer_inv b" using 1(2) by (simp add: bufs_inv_def)
    from buffer_read_law [OF inv, of "int n"] n obtain b' where
      b': "buffer_read (int n) b = Inr (take n (buffer_bytes b), b')" "buffer_inv b'"
        "bsize b' = bsize b" "bin b' = bin b" "buffer_bytes b' = drop n (buffer_bytes b)" by auto
    let ?cs = "take n (buffer_bytes b)"
    have len: "length (buffer_bytes b) = bin b - bout b" by (rule length_buffer_bytes [OF inv])
    show ?thesis
    proof (cases "?cs = []")
      case True
      then have e: "buffer_bytes b = []" using n by simp
      then have eq: "bin b = bout b" using len inv by (simp add: buffer_inv_def)
      have full: "rest \<noteq> [] \<Longrightarrow> packed bs \<Longrightarrow> bin b = bsize b"
        using bs by (simp add: packed_def buffer_full_def)
      have "bufs_read n bs = Inr ([], b' # rest)"
        using b' bs n True by (subst bufs_read.simps) simp
      moreover have "packed bs \<longrightarrow> packed (b' # rest)"
        using b' bs by (auto simp: packed_def buffer_full_def)
      ultimately show ?thesis
        using b' bs 1(2) e eq full
        by (cases "rest = []") (auto simp: bufs_inv_def bufs_bytes_def)
    next
      case False
      let ?bs = "if buffer_spent b' then rest else b' # rest"
      have inv': "bufs_inv ?bs" using 1(2) b' bs by (auto simp: bufs_inv_def)
      from 1(1) [OF _ bs b'(1) refl _ inv'] n False obtain out bs' where
        IH: "bufs_read (n - length ?cs) ?bs = Inr (out, bs')" "bufs_inv bs'"
          "out @ bufs_bytes bs' = bufs_bytes ?bs" "length out \<le> n - length ?cs"
          "packed ?bs \<longrightarrow> packed bs'"
          "packed ?bs \<longrightarrow> (\<forall>b \<in> set ?bs. bout b < bsize b) \<longrightarrow> out = take (n - length ?cs) (bufs_bytes ?bs)"
        by auto
      have read: "bufs_read n bs = Inr (?cs @ out, bs')"
        using b'(1) bs n False IH(1) by (subst bufs_read.simps) simp
      have spent: "buffer_bytes b' = []" if "buffer_spent b'"
        using that b'(2) length_buffer_bytes [OF b'(2)] by (auto simp: buffer_spent_def buffer_inv_def)
      have bytes: "bufs_bytes bs = ?cs @ bufs_bytes ?bs"
        using b'(5) bs spent by (auto simp: bufs_bytes_def)
      have packed: "packed bs \<longrightarrow> packed ?bs"
        using b' bs by (cases rest) (auto simp: packed_def buffer_full_def)
      have out: "bout b' < bsize b'" if "\<not> buffer_spent b'"
        using that b'(2) by (auto simp: buffer_spent_def buffer_inv_def)
      show ?thesis
        using read IH bytes packed out bs by (auto simp: take_append)
    qed
  qed
qed

subsection \<open>Properties\<close>

text \<open>
  a chain of buffers is a first-in first-out byte stream: adding a byte appends it exactly
  when the call returns true (there is room in the last buffer, or no buffer and a forced
  allocation); reading returns a prefix of the stored bytes, at most as many as asked, and
  leaves exactly the rest. When every buffer but the last was filled before the next was
  appended, and none is read to its end, it returns all that was asked for or all there is.
\<close>

theorem buffers_byte_stream:
  assumes "bufs_inv bs" and "\<And>n. length (new n) = n"
  shows "(\<exists>ok bs'. bufs_add new c force bs = Inr (ok, bs') \<and> bufs_inv bs' \<and>
             bufs_bytes bs' = (if ok then bufs_bytes bs @ [c] else bufs_bytes bs) \<and>
             ok = (if bs = [] then force \<noteq> 0 else \<not> buffer_full (last bs))) \<and>
         (\<exists>out bs'. bufs_read n bs = Inr (out, bs') \<and> bufs_inv bs' \<and>
             out @ bufs_bytes bs' = bufs_bytes bs \<and> length out \<le> n \<and>
             (packed bs \<longrightarrow> (\<forall>b \<in> set bs. bout b < bsize b) \<longrightarrow> out = take n (bufs_bytes bs)))"
  using bufs_add_law [OF assms, of c force] bufs_read_law [OF assms(1), of n] by blast

theorem buffers_byte_stream_witness:
  "\<exists>out bs'. bufs_read 3 [\<lparr>bsize = 2, bin = 2, bout = 0, bdata = [1, 2]\<rparr>,
                          \<lparr>bsize = 4, bin = 2, bout = 0, bdata = [3, 4, 0, 0]\<rparr>] = Inr (out, bs') \<and>
     out = [1, 2, 3] \<and> out @ bufs_bytes bs' = [1, 2, 3, 4]"
proof -
  let ?bs = "[\<lparr>bsize = 2, bin = 2, bout = 0, bdata = [1, 2]\<rparr>,
              \<lparr>bsize = 4, bin = 2, bout = 0, bdata = [3, 4, 0, 0]\<rparr>] :: buffers"
  have inv: "bufs_inv ?bs" by (simp add: bufs_inv_def buffer_inv_def)
  have p: "packed ?bs" "\<forall>b \<in> set ?bs. bout b < bsize b" "bufs_bytes ?bs = [1, 2, 3, 4]"
    by (simp_all add: packed_def buffer_full_def bufs_bytes_def buffer_bytes_def)
  have new: "length (replicate n (0 :: u8)) = n" for n by simp
  from conjunct2 [OF buffers_byte_stream [OF inv new, of 0 0 3]] p show ?thesis by fastforce
qed

text \<open>
  \<^verbatim>\<open>Buffer::read\<close> tests its limit only after copying: asked for no bytes (or for a negative
  number) it still copies one into the caller's buffer when it holds any.
\<close>

theorem buffer_read_nothing_reads_one:
  assumes "buffer_inv b" and "bout b < bin b" and "n \<le> 0"
  shows "buffer_read n b = Inr ([bdata b ! bout b], b\<lparr>bout := bout b + 1\<rparr>)"
  using assms by (simp add: buffer_read_def upt_conv_Cons buffer_inv_def Let_def)

theorem buffer_read_nothing_reads_one_witness:
  "buffer_read 0 \<lparr>bsize = 2, bin = 2, bout = 0, bdata = [7, 8]\<rparr> =
     Inr ([7], \<lparr>bsize = 2, bin = 2, bout = 1, bdata = [7, 8]\<rparr>)"
  using buffer_read_nothing_reads_one [of "\<lparr>bsize = 2, bin = 2, bout = 0, bdata = [7, 8]\<rparr>" 0]
  by (simp add: buffer_inv_def)

end
