(* ===== verification/TimeEvents.thy ===== *)
theory TimeEvents
  imports IntrusiveList
begin

text \<open>
  Time keeping and the two event queues: \<^verbatim>\<open>Time::elapsed\<close> (time.cpp), the template \<^verbatim>\<open>_EvQueue\<close>
  with 32-bit ticks (event_queue.h, event_queue.cpp), and \<^verbatim>\<open>EventQueue\<close> (event.h, event.cpp).
  Time is a 32-bit counter that wraps. A queue holds its events as the sequence its intrusive
  list stands for (theory IntrusiveList); a clock reading is an argument.

  Comparisons subtract, so they order two times by the shorter way round the circle. They agree
  with the order of time for times in one half-circle: \<open>near b t\<close> says that \<open>t\<close> is less than
  \<open>2^31\<close> ticks after the base \<open>b\<close>, and \<open>after b t\<close> is how many.
\<close>

definition after :: "u32 \<Rightarrow> u32 \<Rightarrow> nat" where
  "after b t = unat (t - b)"

definition near :: "u32 \<Rightarrow> u32 \<Rightarrow> bool" where
  "near b t \<longleftrightarrow> after b t < 2 ^ 31"

lemma sint_diff_near:
  assumes "near b x" and "near b y"
  shows "sint (y - x) = int (after b y) - int (after b x)"
proof -
  let ?z = "int (after b y) - int (after b x)"
  have "y - x = word_of_int ?z"
    by (simp add: after_def wi_hom_sub [symmetric])
  then have s: "sint (y - x) = signed_take_bit 31 ?z"
    by (simp only: sint_sbintrunc') simp
  have "- (2 ^ 31) \<le> ?z" "?z < 2 ^ 31"
    using assms by (auto simp: near_def)
  then have "signed_take_bit 31 ?z = ?z"
    by (intro signed_take_bit_int_eq_self) simp_all
  with s show ?thesis by simp
qed

text \<open>Queues ordered by such a comparison: \<open>good\<close> are the events it orders, \<open>key\<close> when they are due.\<close>

locale timed_order =
  fixes cmp :: "'e \<Rightarrow> 'e \<Rightarrow> int"
    and key :: "'e \<Rightarrow> nat"
    and good :: "'e \<Rightarrow> bool"
  assumes cmp_key: "good x \<Longrightarrow> good y \<Longrightarrow> cmp x y = int (key y) - int (key x)"
begin

lemma add_sorted_keys:
  assumes "good w" and "\<forall>x \<in> set xs. good x"
  shows "seq_add_sorted cmp w xs = takeWhile (\<lambda>x. key x < key w) xs @ w # dropWhile (\<lambda>x. key x < key w) xs"
proof -
  have tw: "takeWhile (\<lambda>x. \<not> cmp w x \<ge> 0) xs = takeWhile (\<lambda>x. key x < key w) xs"
    using assms by (intro takeWhile_cong) (auto simp: cmp_key)
  have dw: "dropWhile (\<lambda>x. \<not> cmp w x \<ge> 0) xs = dropWhile (\<lambda>x. key x < key w) xs"
    using assms by (intro dropWhile_cong) (auto simp: cmp_key)
  show ?thesis unfolding seq_add_sorted_def tw dw ..
qed

lemma add_sorted_ordered:
  assumes w: "good w" and xs: "\<forall>x \<in> set xs. good x" and sorted: "sorted (map key xs)"
  shows "sorted (map key (seq_add_sorted cmp w xs))"
  unfolding add_sorted_keys [OF w xs] using sorted
proof (induction xs)
  case (Cons x xs)
  then show ?case
  proof (cases "key x < key w")
    case True
    with Cons show ?thesis
      by (auto dest: set_takeWhileD set_dropWhileD)
  next
    case False
    with Cons.prems show ?thesis by fastforce
  qed
qed simp

end

subsection \<open>Time::elapsed\<close>

definition time_elapsed :: "u32 \<Rightarrow> u32 \<Rightarrow> u32 \<Rightarrow> bool" where
  "time_elapsed now start period = (let elapsed = now - start in elapsed \<ge> period)"

text \<open>\<^verbatim>\<open>elapsed_update\<close>: the answer, and the new start.\<close>

definition time_elapsed_update :: "u32 \<Rightarrow> u32 \<Rightarrow> u32 \<Rightarrow> bool \<times> u32" where
  "time_elapsed_update now start period =
     (let diff = now - start; elapsed = diff \<ge> period
      in (elapsed, if elapsed then start + period else start))"

subsection \<open>_EvQueue\<close>

record 'e evqueue =
  evs :: "'e list"
  due_at :: "'e \<Rightarrow> u32"      \<comment> \<open>the member \<^verbatim>\<open>when\<close> of each event\<close>

definition cmp_t :: "u32 \<Rightarrow> u32 \<Rightarrow> int" where
  "cmp_t t1 t2 = sint (t2 - t1)"

definition ev_cmp :: "('e \<Rightarrow> u32) \<Rightarrow> 'e \<Rightarrow> 'e \<Rightarrow> int" where
  "ev_cmp w ev1 ev2 = cmp_t (w ev1) (w ev2)"

definition evq_add :: "'e \<Rightarrow> 'e evqueue \<Rightarrow> 'e evqueue" where
  "evq_add ev q = q\<lparr>evs := seq_add_sorted (ev_cmp (due_at q)) ev (evs q)\<rparr>"

definition evq_del :: "'e \<Rightarrow> 'e evqueue \<Rightarrow> bool \<times> 'e evqueue" where
  "evq_del ev q = (ev \<in> set (evs q), q\<lparr>evs := remove1 ev (evs q)\<rparr>)"

definition evq_reschedule :: "'e \<Rightarrow> u32 \<Rightarrow> 'e evqueue \<Rightarrow> 'e evqueue" where
  "evq_reschedule ev t q =
     (let q1 = snd (evq_del ev q);
          q2 = q1\<lparr>due_at := (due_at q1)(ev := t)\<rparr>
      in evq_add ev q2)"

definition evq_pop :: "u32 \<Rightarrow> 'e evqueue \<Rightarrow> 'e option \<times> 'e evqueue" where
  "evq_pop t q =
     (case evs q of
        [] \<Rightarrow> (None, q)
      | ev # rest \<Rightarrow>
          (let diff = cmp_t (due_at q ev) t
           in if diff < 0 then (None, q) else (Some ev, q\<lparr>evs := rest\<rparr>)))"

text \<open>
  \<^verbatim>\<open>run\<close> pops and runs events until none is due. \<open>act ev\<close> is what \<^verbatim>\<open>ev->run(this)\<close> does to the
  queue and to the rest of the program (\<open>'s\<close>); an event that keeps adding a due event to the
  queue keeps the loop from returning, hence the option.
\<close>

partial_function (option) evq_run ::
    "('e \<Rightarrow> 'e evqueue \<times> 's \<Rightarrow> 'e evqueue \<times> 's) \<Rightarrow> u32 \<Rightarrow> bool \<Rightarrow> 'e evqueue \<times> 's \<Rightarrow>
     (bool \<times> 'e evqueue \<times> 's) option" where
  "evq_run act t found qs =
     (let r = evq_pop t (fst qs)
      in case fst r of
           None \<Rightarrow> Some (found, snd r, snd qs)
         | Some ev \<Rightarrow> evq_run act t True (act ev (snd r, snd qs)))"

definition evq_inv :: "u32 \<Rightarrow> 'e evqueue \<Rightarrow> bool" where
  "evq_inv b q \<longleftrightarrow>
     (\<forall>e \<in> set (evs q). near b (due_at q e)) \<and> sorted (map (\<lambda>e. after b (due_at q e)) (evs q)) \<and>
     distinct (evs q)"

interpretation ev_order: timed_order "ev_cmp w" "\<lambda>e. after b (w e)" "\<lambda>e. near b (w e)"
  for w :: "'e \<Rightarrow> u32" and b
  by unfold_locales (simp add: ev_cmp_def cmp_t_def sint_diff_near)

lemma distinct_seq_add_sorted:
  assumes "distinct xs" and "w \<notin> set xs"
  shows "distinct (seq_add_sorted cmp w xs)"
proof -
  let ?P = "\<lambda>x. \<not> cmp w x \<ge> 0"
  obtain as bs where ab: "takeWhile ?P xs = as" "dropWhile ?P xs = bs" by simp
  then have "xs = as @ bs" by (metis takeWhile_dropWhile_id)
  with assms show ?thesis unfolding seq_add_sorted_def ab by auto
qed

lemma evq_add_inv [inv_intros]:
  "evq_inv b q \<Longrightarrow> near b (due_at q ev) \<Longrightarrow> ev \<notin> set (evs q) \<Longrightarrow> evq_inv b (evq_add ev q)"
  using ev_order.add_sorted_ordered [of b "due_at q" ev "evs q"]
  by (auto simp: evq_inv_def evq_add_def distinct_seq_add_sorted)

lemma evq_del_inv [inv_intros]: "evq_inv b q \<Longrightarrow> evq_inv b (snd (evq_del ev q))"
  by (auto simp: evq_inv_def evq_del_def sorted_map_remove1 dest: notin_set_remove1)

lemma evq_reschedule_inv [inv_intros]:
  assumes "evq_inv b q" and "near b t"
  shows "evq_inv b (evq_reschedule ev t q)"
proof -
  let ?q1 = "snd (evq_del ev q)"
  let ?q2 = "?q1\<lparr>due_at := (due_at ?q1)(ev := t)\<rparr>"
  have q1: "evq_inv b ?q1" using assms(1) by (rule evq_del_inv)
  have notin: "ev \<notin> set (evs ?q1)"
    using assms(1) by (simp add: evq_inv_def evq_del_def)
  then have "map (\<lambda>e. after b (due_at ?q2 e)) (evs ?q2) = map (\<lambda>e. after b (due_at ?q1 e)) (evs ?q1)"
    by auto
  with q1 notin have "evq_inv b ?q2"
    by (auto simp: evq_inv_def simp del: map_eq_conv)
  with notin assms(2) have "evq_inv b (evq_add ev ?q2)" by (intro evq_add_inv) auto
  then show ?thesis by (simp add: evq_reschedule_def Let_def)
qed

text \<open>Which events are due at \<open>t\<close>; in a sorted queue they come first.\<close>

definition due :: "u32 \<Rightarrow> 'e evqueue \<Rightarrow> 'e \<Rightarrow> bool" where
  "due t q e \<longleftrightarrow> cmp_t (due_at q e) t \<ge> 0"

lemma due_after: "near b t \<Longrightarrow> near b (due_at q e) \<Longrightarrow> due t q e \<longleftrightarrow> after b (due_at q e) \<le> after b t"
  by (simp add: due_def cmp_t_def sint_diff_near)

lemma evq_pop_due: "evq_inv b q \<Longrightarrow> near b t \<Longrightarrow>
  evq_pop t q =
    (case filter (due t q) (evs q) of
       [] \<Rightarrow> (None, q)
     | ev # _ \<Rightarrow> (Some ev, q\<lparr>evs := tl (evs q)\<rparr>))"
proof (cases "evs q")
  case (Cons ev rest)
  assume inv: "evq_inv b q" and t: "near b t"
  show ?thesis
  proof (cases "due t q ev")
    case True
    with Cons show ?thesis by (auto simp: evq_pop_def due_def Let_def)
  next
    case False
    then have "\<not> due t q e" if "e \<in> set rest" for e
      using that inv t Cons by (force simp: evq_inv_def due_after [of b])
    then have "filter (due t q) (evs q) = []" using False Cons by (simp add: filter_empty_conv)
    with False Cons show ?thesis by (auto simp: evq_pop_def due_def Let_def)
  qed
qed (simp add: evq_pop_def)

text \<open>Running events that do not touch the queue.\<close>

lemma evq_run_passive:
  "evq_inv b q \<Longrightarrow> near b t \<Longrightarrow>
   evq_run (\<lambda>ev (q, log). (q, log @ [ev])) t found (q, log) =
     Some (found \<or> filter (due t q) (evs q) \<noteq> [], q\<lparr>evs := filter (\<lambda>e. \<not> due t q e) (evs q)\<rparr>,
           log @ filter (due t q) (evs q))"
proof (induction "evs q" arbitrary: q found log)
  case Nil
  then show ?case by (subst evq_run.simps) (simp add: evq_pop_def Nil.hyps [symmetric] Let_def)
next
  case (Cons ev rest)
  let ?q = "q\<lparr>evs := rest\<rparr>"
  have evs: "evs q = ev # rest" using Cons.hyps(2) by simp
  have d: "due t ?q = due t q" by (simp add: due_def fun_eq_iff)
  have inv: "evq_inv b ?q" using Cons.prems(1) evs by (simp add: evq_inv_def)
  show ?case
  proof (cases "due t q ev")
    case True
    then have "evq_pop t q = (Some ev, ?q)" by (auto simp: evq_pop_def evs due_def Let_def)
    moreover have "evq_run (\<lambda>ev (q, log). (q, log @ [ev])) t True (?q, log @ [ev]) =
        Some (True, ?q\<lparr>evs := filter (\<lambda>e. \<not> due t q e) rest\<rparr>, log @ ev # filter (due t q) rest)"
      using Cons.hyps(1) [of ?q True "log @ [ev]"] inv Cons.prems(2) d by simp
    ultimately show ?thesis
      using True by (subst evq_run.simps) (simp add: evs Let_def)
  next
    case False
    then have "\<not> due t q e" if "e \<in> set rest" for e
      using that Cons.prems evs by (force simp: evq_inv_def due_after [of b])
    then have "filter (due t q) (evs q) = []" "filter (\<lambda>e. \<not> due t q e) (evs q) = evs q"
      using False evs by (auto simp: filter_empty_conv intro: filter_True)
    moreover have "evq_pop t q = (None, q)" using False by (auto simp: evq_pop_def evs due_def Let_def)
    ultimately show ?thesis by (subst evq_run.simps) (simp add: Let_def)
  qed
qed

subsection \<open>EventQueue\<close>

text \<open>
  \<^verbatim>\<open>timer_cmp\<close> subtracts two \<^verbatim>\<open>int32_t\<close>. The subtraction is read as wrapping at 32 bits, which is
  what the compilers for the targets produce; \<open>timer_diff\<close> is the difference before wrapping.
\<close>

definition timer_diff :: "u32 \<Rightarrow> u32 \<Rightarrow> int" where
  "timer_diff t1 t2 = (let s1 = sint t1; s2 = sint t2 in s2 - s1)"

definition timer_cmp :: "u32 \<Rightarrow> u32 \<Rightarrow> int" where
  "timer_cmp t1 t2 = sint (word_of_int (timer_diff t1 t2) :: u32)"

record ('e, 's) eventq =
  eq_events :: "'e list"
  eq_time :: "'e \<Rightarrow> u32"      \<comment> \<open>\<^verbatim>\<open>event->time\<close>\<close>
  eq_sem :: "'e \<Rightarrow> 's"        \<comment> \<open>\<^verbatim>\<open>event->semaphore\<close>\<close>
  eq_posts :: "'s list"        \<comment> \<open>the semaphores posted so far, in order\<close>

definition event_cmp :: "('e \<Rightarrow> u32) \<Rightarrow> 'e \<Rightarrow> 'e \<Rightarrow> int" where
  "event_cmp time event1 event2 = timer_cmp (time event1) (time event2)"

text \<open>\<^verbatim>\<open>add\<close> answers whether the new event is now the first.\<close>

definition eq_add :: "'e \<Rightarrow> ('e, 's) eventq \<Rightarrow> bool \<times> ('e, 's) eventq" where
  "eq_add ev q =
     (let es = seq_add_sorted (event_cmp (eq_time q)) ev (eq_events q)
      in (es \<noteq> [] \<and> ev = hd es, q\<lparr>eq_events := es\<rparr>))"

definition eq_remove :: "'e \<Rightarrow> ('e, 's) eventq \<Rightarrow> 'e option \<times> ('e, 's) eventq" where
  "eq_remove ev q =
     (if ev \<in> set (eq_events q) then Some ev else None, q\<lparr>eq_events := remove1 ev (eq_events q)\<rparr>)"

definition eq_waiting :: "'e \<Rightarrow> ('e, 's) eventq \<Rightarrow> bool" where
  "eq_waiting ev q \<longleftrightarrow> ev \<in> set (eq_events q)"

text \<open>\<^verbatim>\<open>check\<close>: post the semaphore of every event that is due; the time until the next, or 0.\<close>

function eq_check :: "u32 \<Rightarrow> ('e, 's) eventq \<Rightarrow> int \<times> ('e, 's) eventq" where
  "eq_check now q =
     (case eq_events q of
        [] \<Rightarrow> (0, q)
      | event # _ \<Rightarrow>
          (let diff = timer_cmp now (eq_time q event)
           in if diff > 0 then (diff, q)
              else
                (let semaphore = eq_sem q event;
                     q1 = snd (eq_remove event q);
                     q2 = q1\<lparr>eq_posts := eq_posts q1 @ [semaphore]\<rparr>
                 in eq_check now q2)))"
  by pat_completeness auto
termination
  by (relation "measure (\<lambda>(_, q). length (eq_events q))") (auto simp: eq_remove_def)

declare eq_check.simps [simp del]

text \<open>
  \<^verbatim>\<open>wait_absolute\<close> up to the point where it blocks on the semaphore: it returns at once
  (\<open>NoWait\<close>), or it has linked its event and, when that is now the first, asked the timer for a
  wake-up after \<open>dt\<close>. After the semaphore is signalled it unlinks the event.
\<close>

datatype wait_start = NoWait | Wait "int option"

definition eq_wait_absolute :: "u32 \<Rightarrow> 'e \<Rightarrow> 's \<Rightarrow> u32 \<Rightarrow> ('e, 's) eventq \<Rightarrow> wait_start \<times> ('e, 's) eventq" where
  "eq_wait_absolute now ev semaphore time q =
     (if now \<ge> time then (NoWait, q)
      else
        (let q1 = q\<lparr>eq_time := (eq_time q)(ev := time), eq_sem := (eq_sem q)(ev := semaphore)\<rparr>;
             (first, q2) = eq_add ev q1
         in (Wait (if first then Some (sint (time - now)) else None), q2)))"

definition eq_wait_done :: "'e \<Rightarrow> ('e, 's) eventq \<Rightarrow> ('e, 's) eventq" where
  "eq_wait_done ev q = snd (eq_remove ev q)"

text \<open>\<^verbatim>\<open>wait\<close> reads the clock (\<open>now\<close>), and \<^verbatim>\<open>wait_absolute\<close> reads it again (\<open>now2\<close>).\<close>

definition eq_wait :: "u32 \<Rightarrow> u32 \<Rightarrow> 'e \<Rightarrow> 's \<Rightarrow> u32 \<Rightarrow> ('e, 's) eventq \<Rightarrow> wait_start \<times> ('e, 's) eventq" where
  "eq_wait now now2 ev semaphore d_time q =
     (if d_time = 0 then (NoWait, q)
      else eq_wait_absolute now2 ev semaphore (now + d_time) q)"

lemma timer_cmp_wraps: "timer_cmp t1 t2 = sint (t2 - t1)"
  by (simp add: timer_cmp_def timer_diff_def Let_def wi_hom_sub [symmetric])

interpretation event_order: timed_order "event_cmp w" "\<lambda>e. after b (w e)" "\<lambda>e. near b (w e)"
  for w :: "'e \<Rightarrow> u32" and b
  by unfold_locales (simp add: event_cmp_def timer_cmp_wraps sint_diff_near)

definition eq_inv :: "u32 \<Rightarrow> ('e, 's) eventq \<Rightarrow> bool" where
  "eq_inv b q \<longleftrightarrow>
     (\<forall>e \<in> set (eq_events q). near b (eq_time q e)) \<and>
     sorted (map (\<lambda>e. after b (eq_time q e)) (eq_events q))"

lemma eq_add_inv [inv_intros]:
  "eq_inv b q \<Longrightarrow> near b (eq_time q ev) \<Longrightarrow> eq_inv b (snd (eq_add ev q))"
  using event_order.add_sorted_ordered [of b "eq_time q" ev "eq_events q"]
  by (auto simp: eq_inv_def eq_add_def Let_def)

lemma eq_remove_inv [inv_intros]: "eq_inv b q \<Longrightarrow> eq_inv b (snd (eq_remove ev q))"
  by (auto simp: eq_inv_def eq_remove_def sorted_map_remove1 dest: notin_set_remove1)

text \<open>What \<^verbatim>\<open>check\<close> does to a sorted queue.\<close>

definition eq_late :: "u32 \<Rightarrow> ('e, 's) eventq \<Rightarrow> 'e \<Rightarrow> bool" where
  "eq_late now q e \<longleftrightarrow> timer_cmp now (eq_time q e) > 0"

lemma eq_check_sorted:
  assumes "eq_inv b q" and "near b now"
  shows "eq_check now q =
    (case filter (eq_late now q) (eq_events q) of [] \<Rightarrow> 0 | e # _ \<Rightarrow> timer_cmp now (eq_time q e),
     q\<lparr>eq_events := filter (eq_late now q) (eq_events q),
       eq_posts := eq_posts q @ map (eq_sem q) (filter (\<lambda>e. \<not> eq_late now q e) (eq_events q))\<rparr>)"
  using assms
proof (induction "eq_events q" arbitrary: q)
  case Nil
  then show ?case by (subst eq_check.simps) (simp add: Nil.hyps [symmetric])
next
  case (Cons e es)
  have evs: "eq_events q = e # es" using Cons.hyps(2) by simp
  let ?q = "q\<lparr>eq_events := es, eq_posts := eq_posts q @ [eq_sem q e]\<rparr>"
  have late: "eq_late now ?q = eq_late now q" by (simp add: eq_late_def fun_eq_iff)
  show ?case
  proof (cases "eq_late now q e")
    case True
    have "eq_late now q x" if "x \<in> set es" for x
      using True that Cons.prems evs by (force simp: eq_inv_def eq_late_def timer_cmp_wraps sint_diff_near [of b])
    with True have "filter (eq_late now q) (eq_events q) = eq_events q"
      "filter (\<lambda>e. \<not> eq_late now q e) (eq_events q) = []"
      using evs by (auto simp: filter_empty_conv intro: filter_True)
    then show ?thesis
      using True by (subst eq_check.simps) (simp add: evs eq_late_def Let_def)
  next
    case False
    have "eq_inv b ?q" using Cons.prems(1) evs by (simp add: eq_inv_def)
    from Cons.hyps(1) [OF _ this Cons.prems(2)] late have
      "eq_check now ?q =
        (case filter (eq_late now q) es of [] \<Rightarrow> 0 | e # _ \<Rightarrow> timer_cmp now (eq_time q e),
         ?q\<lparr>eq_events := filter (eq_late now q) es,
            eq_posts := eq_posts q @ eq_sem q e # map (eq_sem q) (filter (\<lambda>e. \<not> eq_late now q e) es)\<rparr>)"
      by (simp cong: list.case_cong)
    moreover have "eq_check now q = eq_check now ?q"
      using False by (subst eq_check.simps) (simp add: evs eq_late_def eq_remove_def Let_def)
    ultimately show ?thesis using False by (simp add: evs)
  qed
qed

subsection \<open>Properties\<close>

text \<open>
  \<^verbatim>\<open>Time::elapsed\<close> is right across the wrap of the tick counter: for any start, when \<open>d\<close> ticks
  have passed (fewer than \<open>2^32\<close>) it answers whether \<open>d\<close> has reached the period, and
  \<^verbatim>\<open>elapsed_update\<close> then moves the start by exactly one period, so periods do not drift.
\<close>

theorem time_elapsed_wraps:
  assumes "d < 2 ^ 32"
  shows "(time_elapsed (start + of_nat d) start period \<longleftrightarrow> unat period \<le> d) \<and>
         time_elapsed_update (start + of_nat d) start period =
           (if unat period \<le> d then (True, start + period) else (False, start))"
proof -
  have "unat (of_nat d :: u32) = d" using assms by (simp add: unsigned_of_nat take_bit_nat_eq_self)
  then have "period \<le> (of_nat d :: u32) \<longleftrightarrow> unat period \<le> d" by (simp add: word_le_nat_alt)
  then show ?thesis by (auto simp: time_elapsed_def time_elapsed_update_def Let_def)
qed

theorem time_elapsed_wraps_witness:
  "time_elapsed (0xFFFFFFF0 + of_nat 32) 0xFFFFFFF0 32 \<and>
   time_elapsed_update (0xFFFFFFF0 + of_nat 32) 0xFFFFFFF0 32 = (True, 0x10)"
  using time_elapsed_wraps [of 32 "0xFFFFFFF0" 32] by simp

text \<open>
  C8: an \<^verbatim>\<open>_EvQueue\<close> whose events lie in one half-circle of the tick counter stays sorted by time
  under add, delete and reschedule, wherever the half-circle lies relative to the counter's wrap.
\<close>

theorem evq_operations_keep_order:
  assumes "evq_inv b q"
  shows "(near b (due_at q ev) \<longrightarrow> ev \<notin> set (evs q) \<longrightarrow> evq_inv b (evq_add ev q)) \<and>
         evq_inv b (snd (evq_del ev q)) \<and>
         (near b t \<longrightarrow> evq_inv b (evq_reschedule ev t q))"
  using assms by (auto intro: inv_intros)

theorem evq_operations_keep_order_witness:
  "evq_inv 0xFFFFFFF0 (evq_add 2 \<lparr>evs = [0, 1 :: nat], due_at = (\<lambda>e. [0xFFFFFFF8, 4, 0xFFFFFFFC] ! e)\<rparr>) \<and>
   evs (evq_add 2 \<lparr>evs = [0, 1 :: nat], due_at = (\<lambda>e. [0xFFFFFFF8, 4, 0xFFFFFFFC] ! e)\<rparr>) = [0, 2, 1]"
proof -
  let ?q = "\<lparr>evs = [0, 1 :: nat], due_at = (\<lambda>e. [0xFFFFFFF8, 4, 0xFFFFFFFC] ! e)\<rparr>"
  have "evq_inv 0xFFFFFFF0 ?q" by (simp add: evq_inv_def near_def after_def)
  from evq_operations_keep_order [OF this, of 2 0] show ?thesis
    by (simp add: near_def after_def evq_add_def seq_add_sorted_def ev_cmp_def cmp_t_def)
qed

text \<open>
  C9: \<^verbatim>\<open>run(t)\<close> on events that leave the queue alone returns; it runs exactly the events due at
  \<open>t\<close>, each once and in time order, keeps the others, and reports whether it ran any.
\<close>

theorem evq_run_exactly_due:
  assumes "evq_inv b q" and "near b t"
  shows "evq_run (\<lambda>ev (q, log). (q, log @ [ev])) t False (q, []) =
           Some (\<exists>e \<in> set (evs q). due t q e,
                 q\<lparr>evs := filter (\<lambda>e. \<not> due t q e) (evs q)\<rparr>, filter (due t q) (evs q)) \<and>
         (\<forall>e. near b (due_at q e) \<longrightarrow> (due t q e \<longleftrightarrow> after b (due_at q e) \<le> after b t))"
  using evq_run_passive [OF assms, of False "[]"] due_after [OF assms(2), of q]
  by (auto simp: filter_empty_conv)

theorem evq_run_exactly_due_witness:
  "evq_run (\<lambda>ev (q, log). (q, log @ [ev])) 2 False
      (\<lparr>evs = [0, 1 :: nat], due_at = (\<lambda>e. [0xFFFFFFF8, 4] ! e)\<rparr>, []) =
    Some (True, \<lparr>evs = [1], due_at = (\<lambda>e. [0xFFFFFFF8, 4] ! e)\<rparr>, [0])"
proof -
  let ?q = "\<lparr>evs = [0, 1 :: nat], due_at = (\<lambda>e. [0xFFFFFFF8, 4] ! e)\<rparr>"
  have inv: "evq_inv 0xFFFFFFF0 ?q" by (simp add: evq_inv_def near_def after_def)
  have near: "near 0xFFFFFFF0 2" by (simp add: near_def after_def)
  from evq_run_exactly_due [OF inv near] show ?thesis
    by (simp add: due_def cmp_t_def)
qed

text \<open>
  \<^verbatim>\<open>EventQueue::check\<close> on a queue in one half-circle posts exactly the semaphores of the events
  that are due, in time order, unlinks them, and returns the (positive) time to the first event
  that remains, or 0 when none does.
\<close>

theorem eq_check_posts_due:
  assumes "eq_inv b q" and "near b now" and "eq_check now q = (dt, q')"
  shows "eq_events q' = filter (\<lambda>e. after b now < after b (eq_time q e)) (eq_events q) \<and>
         eq_posts q' = eq_posts q @ map (eq_sem q) (filter (\<lambda>e. after b (eq_time q e) \<le> after b now) (eq_events q)) \<and>
         dt = (case eq_events q' of [] \<Rightarrow> 0 | e # _ \<Rightarrow> int (after b (eq_time q e)) - int (after b now))"
proof -
  have late: "eq_late now q e \<longleftrightarrow> after b now < after b (eq_time q e)"
    if "e \<in> set (eq_events q)" for e
    using that assms(1,2) by (simp add: eq_inv_def eq_late_def timer_cmp_wraps sint_diff_near)
  then have f: "filter (eq_late now q) (eq_events q) =
        filter (\<lambda>e. after b now < after b (eq_time q e)) (eq_events q)"
      "filter (\<lambda>e. \<not> eq_late now q e) (eq_events q) =
        filter (\<lambda>e. after b (eq_time q e) \<le> after b now) (eq_events q)"
    by (auto intro!: filter_cong)
  have dt: "timer_cmp now (eq_time q e) = int (after b (eq_time q e)) - int (after b now)"
    if "e \<in> set (eq_events q)" for e
    using that assms(1,2) by (simp add: eq_inv_def timer_cmp_wraps sint_diff_near)
  have hd: "e \<in> set (eq_events q)" if "filter P (eq_events q) = e # es" for P e es
    using that by (metis filter_is_subset in_mono list.set_intros(1))
  from assms(3) eq_check_sorted [OF assms(1,2)] f show ?thesis
    by (auto split: list.splits dest!: hd simp: dt)
qed

theorem eq_check_posts_due_witness:
  "eq_check 2 \<lparr>eq_events = [0, 1 :: nat], eq_time = (\<lambda>e. [0xFFFFFFF8, 4] ! e), eq_sem = id, eq_posts = []\<rparr> =
     (2, \<lparr>eq_events = [1], eq_time = (\<lambda>e. [0xFFFFFFF8, 4] ! e), eq_sem = id, eq_posts = [0]\<rparr>)"
proof -
  let ?q = "\<lparr>eq_events = [0, 1 :: nat], eq_time = (\<lambda>e. [0xFFFFFFF8, 4] ! e), eq_sem = id, eq_posts = []\<rparr>"
  obtain dt q' where c: "eq_check 2 ?q = (dt, q')" by (cases "eq_check 2 ?q") auto
  have inv: "eq_inv 0xFFFFFFF0 ?q" and near: "near 0xFFFFFFF0 2"
    by (simp_all add: eq_inv_def near_def after_def)
  have keep: "eq_time q' = eq_time ?q" "eq_sem q' = eq_sem ?q"
    using c eq_check_sorted [OF inv near] by auto
  from eq_check_posts_due [OF inv near c] keep c show ?thesis
    by (cases q') (simp add: after_def)
qed

text \<open>
  \<^verbatim>\<open>wait\<close> compares the clock with the deadline as unsigned numbers, so it is not safe at the
  wrap of the counter: it blocks when \<open>now + d\<close> does not wrap, and returns at once, without
  waiting, for every delay that reaches past the wrap.
\<close>

theorem eq_wait_blocks_iff_no_wrap:
  assumes "d \<noteq> 0"
  shows "fst (eq_wait now now ev s d q) = NoWait \<longleftrightarrow> unat now + unat d \<ge> 2 ^ 32"
proof -
  have d: "0 < unat d" using assms by (simp add: unat_gt_0)
  have lt: "unat now < 2 ^ 32" "unat d < 2 ^ 32"
    using unsigned_less [of now, where ?'a = nat] unsigned_less [of d, where ?'a = nat] by simp_all
  have "now \<ge> now + d \<longleftrightarrow> unat now + unat d \<ge> 2 ^ 32"
  proof (cases "unat now + unat d < 2 ^ 32")
    case True
    then have "unat (now + d) = unat now + unat d" by (simp add: unat_word_ariths)
    with d True show ?thesis by (simp add: word_le_nat_alt)
  next
    case False
    with lt have "unat (now + d) = unat now + unat d - 2 ^ 32"
      by (simp add: unat_word_ariths mod_if)
    with False lt show ?thesis by (simp add: word_le_nat_alt)
  qed
  then show ?thesis
    using assms by (simp add: eq_wait_def eq_wait_absolute_def Let_def split_beta)
qed

theorem eq_wait_blocks_iff_no_wrap_witness:
  "fst (eq_wait 0xFFFFFFF0 0xFFFFFFF0 (0::nat) (1::nat) 0x20
     \<lparr>eq_events = [], eq_time = (\<lambda>_. 0), eq_sem = (\<lambda>_. 1), eq_posts = []\<rparr>) = NoWait"
  using eq_wait_blocks_iff_no_wrap [of "0x20" "0xFFFFFFF0" "0 :: nat" "1 :: nat"] by simp

text \<open>
  \<^verbatim>\<open>timer_cmp\<close> computes in \<^verbatim>\<open>int32_t\<close>, and for two times less than \<open>2^31\<close> ticks apart the
  subtraction overflows exactly when they lie on different sides of \<open>0x80000000\<close> with the earlier
  one below it: the wrap its comment promises to allow is signed overflow there.
\<close>

theorem timer_cmp_overflows_at_sign_boundary:
  assumes "near t1 t2"
  shows "timer_diff t1 t2 \<noteq> timer_cmp t1 t2 \<longleftrightarrow> (0 \<le> sint t1 \<and> sint t2 < 0)"
proof -
  have c: "timer_cmp t1 t2 = int (after t1 t2)"
    using sint_diff_near [of t1 t1 t2] assms by (simp add: timer_cmp_wraps near_def after_def)
  have lt: "int (after t1 t2) < 2 ^ 31" using assms by (simp add: near_def)
  have range: "- (2 ^ 31) \<le> sint t1" "sint t1 < 2 ^ 31" "- (2 ^ 31) \<le> sint t2" "sint t2 < 2 ^ 31"
    using sint_greater_eq [of t1] sint_less [of t1] sint_greater_eq [of t2] sint_less [of t2] by simp_all
  obtain k m where k: "timer_diff t1 t2 + 2 ^ 31 = 2 ^ 32 * k + m"
      and m: "m = (timer_diff t1 t2 + 2 ^ 31) mod 2 ^ 32"
    by (metis mult_div_mod_eq)
  have "timer_cmp t1 t2 = m - 2 ^ 31"
    unfolding m by (simp add: timer_cmp_def int_word_sint)
  with k c have d: "timer_diff t1 t2 = int (after t1 t2) + 2 ^ 32 * k" by linarith
  have s: "timer_diff t1 t2 = sint t2 - sint t1" by (simp add: timer_diff_def Let_def)
  have "k = 0 \<or> k = - 1" using d s lt range by simp arith
  then show ?thesis
  proof
    assume "k = 0"
    then show ?thesis using c d s range by auto
  next
    assume "k = - 1"
    then show ?thesis using c d s lt range by auto
  qed
qed

theorem timer_cmp_overflows_at_sign_boundary_witness:
  "timer_diff 0x7FFFFFFF 0x80000001 \<noteq> timer_cmp 0x7FFFFFFF 0x80000001"
  using timer_cmp_overflows_at_sign_boundary [of "0x7FFFFFFF" "0x80000001"]
  by (simp add: near_def after_def)

end
