(* ===== verification/Json.thy ===== *)
theory Json
  imports Prelude
begin

text \<open>
  The JSON parser of json.h and json.cpp.

  Memory: the text is a C string. \<open>t\<close> holds its characters and is followed by the terminating
  NUL; a pointer into it is an index. Reading index \<open>length t\<close> gives NUL, reading anywhere else
  outside is \<open>Inl OutOfBounds\<close>. A \<^verbatim>\<open>Section\<close> is a slice given by pointers to its first and last
  character, either of which may be null.

  The parser calls a \<^verbatim>\<open>Handler\<close> of the caller (an abstract class): it is a record of functions over
  the handler's own state, each of which answers whether it returned \<^verbatim>\<open>OKAY\<close>, or fails.
  The methods recurse through \<^verbatim>\<open>value\<close>; the fuel counts calls of \<^verbatim>\<open>value\<close> and rounds of the loops
  of \<^verbatim>\<open>object\<close> and \<^verbatim>\<open>array\<close>, and \<open>None\<close> is "out of fuel". Logging is left out.
\<close>

subsection \<open>Text and sections\<close>

definition NUL :: char where
  "NUL = CHR 0x00"

definition rd :: "string \<Rightarrow> int \<Rightarrow> char result" where
  "rd t i =
     (if 0 \<le> i \<and> i < int (length t) then Inr (t ! nat i)
      else if i = int (length t) then Inr NUL
      else Inl OutOfBounds)"

text \<open>\<^verbatim>\<open>strchr(set, c) != 0\<close>: the search includes the terminating NUL of \<open>set\<close>.\<close>

definition c_strchr :: "string \<Rightarrow> char \<Rightarrow> bool" where
  "c_strchr cs c \<longleftrightarrow> c \<in> set cs \<or> c = NUL"

definition whitespace :: string where
  "whitespace = [CHR '' '', CHR 0x09, CHR 0x0D, CHR 0x0A]"

definition numeric :: string where
  "numeric = ''0123456789+-.eE''"

record sect =
  sbuf :: string
  ss :: "int option"
  se :: "int option"

text \<open>\<^verbatim>\<open>Section::skip(c)\<close> on the section from \<open>s\<close> to \<open>e\<close>: the answer and the new \<open>s\<close>.\<close>

function skip :: "char \<Rightarrow> string \<Rightarrow> int \<Rightarrow> int \<Rightarrow> (bool \<times> int) result" where
  "skip c t e s =
     (if s \<le> e
      then rbind (rd t s) (\<lambda>x.
        if c = x then Inr (True, s + 1)
        else if \<not> c_strchr whitespace x then Inr (False, s)
        else skip c t e (s + 1))
      else Inr (False, s))"
  by pat_completeness auto
termination
  by (relation "measure (\<lambda>(c, t, e, s). nat (e + 1 - s))") auto

text \<open>\<^verbatim>\<open>strncmp(m, p, strlen(m)) == 0\<close> for a literal \<open>m\<close>: it stops at the first difference.\<close>

fun strncmp_eq :: "string \<Rightarrow> string \<Rightarrow> int \<Rightarrow> bool result" where
  "strncmp_eq [] t i = Inr True"
| "strncmp_eq (c # cs) t i = rbind (rd t i) (\<lambda>x. if c \<noteq> x then Inr False else strncmp_eq cs t (i + 1))"

text \<open>
  \<^verbatim>\<open>Section::match\<close>. The length is computed by pointer arithmetic, \<open>1 + e - s\<close>, also on a cleared
  section, where both pointers are null and it is 1. Null and non-null pointers cannot be
  subtracted.
\<close>

definition section_match :: "sect \<Rightarrow> string option \<Rightarrow> bool result" where
  "section_match sec m =
     (case m of
        None \<Rightarrow> Inr False
      | Some m \<Rightarrow>
          (case (ss sec, se sec) of
             (Some s, Some e) \<Rightarrow>
               if int (length m) \<noteq> 1 + e - s then Inr False else strncmp_eq m (sbuf sec) s
           | (None, None) \<Rightarrow>
               if length m \<noteq> 1 then Inr False else Inl NullDeref
           | _ \<Rightarrow> Inl NullDeref))"

function find_loop :: "char \<Rightarrow> string \<Rightarrow> int \<Rightarrow> int \<Rightarrow> int option result" where
  "find_loop c t e i =
     (if i \<le> e
      then rbind (rd t i) (\<lambda>x. if c = x then Inr (Some i) else find_loop c t e (i + 1))
      else Inr None)"
  by pat_completeness auto
termination
  by (relation "measure (\<lambda>(c, t, e, s). nat (e + 1 - s))") auto

definition section_find :: "sect \<Rightarrow> char \<Rightarrow> int option result" where
  "section_find sec c =
     (case (ss sec, se sec) of
        (Some s, Some e) \<Rightarrow> find_loop c (sbuf sec) e s
      | _ \<Rightarrow> Inl NullDeref)"

text \<open>\<^verbatim>\<open>Section::split\<close>: the answer, the head section, and what remains of this one.\<close>

definition section_split :: "sect \<Rightarrow> char \<Rightarrow> (bool \<times> sect \<times> sect) result" where
  "section_split sec c =
     rbind (section_find sec c) (\<lambda>f.
       case f of
         Some f \<Rightarrow> Inr (True, sec\<lparr>se := Some (f - 1)\<rparr>, sec\<lparr>ss := Some (f + 1)\<rparr>)
       | None \<Rightarrow> Inr (False, sec, sec\<lparr>ss := None, se := None\<rparr>))"

definition section_empty :: "sect \<Rightarrow> bool" where
  "section_empty sec \<longleftrightarrow>
     (case (ss sec, se sec) of (Some s, Some e) \<Rightarrow> s > e | _ \<Rightarrow> True)"

definition section_to_bool :: "sect \<Rightarrow> (bool \<times> bool option) result" where
  "section_to_bool sec =
     rbind (section_match sec (Some ''true'')) (\<lambda>t.
       if t then Inr (True, Some True)
       else rbind (section_match sec (Some ''false'')) (\<lambda>f.
         if f then Inr (True, Some False) else Inr (False, None)))"

subsection \<open>The parser\<close>

datatype parser_error =
    P_OKAY | COLON_EXPECTED | KEY_EXPECTED | CLOSE_BRACE_EXPECTED | CLOSE_BRACKET_EXPECTED
  | UNTERMINATED_STRING | USER_ERROR

record 'h handler =
  on_object :: "bool \<Rightarrow> 'h \<Rightarrow> (bool \<times> 'h) result"
  on_array :: "bool \<Rightarrow> 'h \<Rightarrow> (bool \<times> 'h) result"
  on_number :: "sect \<Rightarrow> 'h \<Rightarrow> (bool \<times> 'h) result"
  on_string :: "sect \<Rightarrow> bool \<Rightarrow> 'h \<Rightarrow> (bool \<times> 'h) result"
  on_primitive :: "sect \<Rightarrow> 'h \<Rightarrow> (bool \<times> 'h) result"

record 'h parser =
  pos :: int                   \<comment> \<open>\<^verbatim>\<open>sec->s\<close>; \<^verbatim>\<open>sec->e\<close> does not change\<close>
  perr :: parser_error
  perr_pos :: "int option"     \<comment> \<open>\<^verbatim>\<open>err_sec.s\<close>\<close>
  hstate :: 'h

definition p_error :: "parser_error \<Rightarrow> 'h parser \<Rightarrow> (bool \<times> 'h parser) result" where
  "p_error er p = Inr (False, p\<lparr>perr := er, perr_pos := Some (pos p)\<rparr>)"

text \<open>Call the handler; \<^verbatim>\<open>error_check\<close> turns anything but \<^verbatim>\<open>OKAY\<close> into a user error.\<close>

definition p_call :: "('h \<Rightarrow> (bool \<times> 'h) result) \<Rightarrow> 'h parser \<Rightarrow> (bool \<times> 'h parser) result" where
  "p_call f p =
     rbind (f (hstate p)) (\<lambda>(ok, h).
       if ok then Inr (True, p\<lparr>hstate := h\<rparr>) else p_error USER_ERROR (p\<lparr>hstate := h\<rparr>))"

definition p_skip :: "char \<Rightarrow> string \<Rightarrow> int \<Rightarrow> 'h parser \<Rightarrow> (bool \<times> 'h parser) result" where
  "p_skip c t e p = rbind (skip c t e (pos p)) (\<lambda>(b, s). Inr (b, p\<lparr>pos := s\<rparr>))"

text \<open>
  The loop of \<^verbatim>\<open>number\<close>. Its condition compares \<^verbatim>\<open>sec->s\<close>, which it does not move, with
  \<^verbatim>\<open>sec->e\<close>; so once entered it ends only at a character outside \<open>numeric\<close>, and NUL counts as
  inside. The result: \<^verbatim>\<open>num.e\<close> and the final \<open>s\<close>.
\<close>

function number_loop :: "string \<Rightarrow> int \<Rightarrow> int option \<Rightarrow> (int option \<times> int) result" where
  "number_loop t s num_e =
     rbind (rd t s) (\<lambda>x.
       if \<not> c_strchr numeric x then Inr (num_e, s) else number_loop t (s + 1) (Some s))"
  by pat_completeness auto
termination
  by (relation "measure (\<lambda>(t, s, _). nat (int (length t) + 1 - s))") (auto simp: rd_def split: if_splits)

definition p_number :: "'h handler \<Rightarrow> string \<Rightarrow> int \<Rightarrow> 'h parser \<Rightarrow> (bool \<times> 'h parser) result" where
  "p_number H t e p =
     rbind (if pos p \<le> e then number_loop t (pos p) None else Inr (None, pos p)) (\<lambda>(num_e, s).
       p_call (on_number H \<lparr>sbuf = t, ss = Some (pos p), se = num_e\<rparr>) (p\<lparr>pos := s\<rparr>))"

text \<open>The loop of \<^verbatim>\<open>string\<close>: where the closing quote is.\<close>

function string_loop :: "string \<Rightarrow> int \<Rightarrow> int \<Rightarrow> bool \<Rightarrow> int option result" where
  "string_loop t e s escape =
     (if s \<le> e
      then rbind (rd t s) (\<lambda>x.
        if x = CHR 0x22 \<and> \<not> escape then Inr (Some s)
        else string_loop t e (s + 1) (if escape then False else x = CHR 0x5C))
      else Inr None)"
  by pat_completeness auto
termination
  by (relation "measure (\<lambda>(t, e, s, _). nat (e + 1 - s))") auto

declare skip.simps [simp del] find_loop.simps [simp del] number_loop.simps [simp del]
  string_loop.simps [simp del]

definition p_string :: "'h handler \<Rightarrow> string \<Rightarrow> int \<Rightarrow> bool \<Rightarrow> 'h parser \<Rightarrow> (bool \<times> 'h parser) result" where
  "p_string H t e key p =
     rbind (string_loop t e (pos p + 1) False) (\<lambda>q.
       case q of
         None \<Rightarrow> p_error UNTERMINATED_STRING p
       | Some s \<Rightarrow>
           p_call (on_string H \<lparr>sbuf = t, ss = Some (pos p + 1), se = Some (s - 1)\<rparr> key)
             (p\<lparr>pos := s + 1\<rparr>))"

fun p_primitive_loop :: "'h handler \<Rightarrow> string \<Rightarrow> string list \<Rightarrow> 'h parser \<Rightarrow> (bool \<times> 'h parser) result" where
  "p_primitive_loop H t [] p = Inr (False, p)"
| "p_primitive_loop H t (m # ms) p =
     rbind (strncmp_eq m t (pos p)) (\<lambda>same.
       if \<not> same then p_primitive_loop H t ms p
       else
         rbind (rd t (pos p + int (length m))) (\<lambda>x.
           if \<not> c_strchr (whitespace @ '',}]'') x then p_primitive_loop H t ms p
           else
             rbind (p_call (on_primitive H \<lparr>sbuf = m, ss = Some 0, se = Some (int (length m) - 1)\<rparr>) p)
               (\<lambda>(ok, p'). if ok then Inr (True, p'\<lparr>pos := pos p' + int (length m)\<rparr>) else Inr (False, p'))))"

definition p_primitive :: "'h handler \<Rightarrow> string \<Rightarrow> 'h parser \<Rightarrow> (bool \<times> 'h parser) result" where
  "p_primitive H t p = p_primitive_loop H t [''false'', ''true'', ''null''] p"

text \<open>The ends of \<^verbatim>\<open>object\<close> and \<^verbatim>\<open>array\<close>, after their loops.\<close>

definition p_close ::
    "('h \<Rightarrow> (bool \<times> 'h) result) \<Rightarrow> char \<Rightarrow> parser_error \<Rightarrow> string \<Rightarrow> int \<Rightarrow> 'h parser \<Rightarrow> (bool \<times> 'h parser) result" where
  "p_close f c er t e p =
     rbind (p_skip c t e p) (\<lambda>(b, p). if \<not> b then p_error er p else p_call f p)"

text \<open>Continue where the step answered true; otherwise return its false.\<close>

definition andthen ::
    "(bool \<times> 'h parser) result option \<Rightarrow> ('h parser \<Rightarrow> (bool \<times> 'h parser) result option) \<Rightarrow>
     (bool \<times> 'h parser) result option" where
  "andthen m f = obind m (\<lambda>(ok, p). if ok then f p else Some (Inr (False, p)))"

lemma andthen_cong [fundef_cong]:
  "m = m' \<Longrightarrow> (\<And>p. m' = Some (Inr (True, p)) \<Longrightarrow> f p = g p) \<Longrightarrow> andthen m f = andthen m' g"
  unfolding andthen_def by (rule obind_cong) auto

fun p_value :: "nat \<Rightarrow> 'h handler \<Rightarrow> string \<Rightarrow> int \<Rightarrow> 'h parser \<Rightarrow> (bool \<times> 'h parser) result option"
and p_object :: "nat \<Rightarrow> 'h handler \<Rightarrow> string \<Rightarrow> int \<Rightarrow> 'h parser \<Rightarrow> (bool \<times> 'h parser) result option"
and p_array :: "nat \<Rightarrow> 'h handler \<Rightarrow> string \<Rightarrow> int \<Rightarrow> 'h parser \<Rightarrow> (bool \<times> 'h parser) result option" where
  "p_value 0 H t e p = None"
| "p_value (Suc n) H t e p =
     obind (Some (p_skip NUL t e p)) (\<lambda>(_, p).
     obind (Some (rd t (pos p))) (\<lambda>x.
       if c_strchr numeric x then Some (p_number H t e p)
       else if x = CHR ''{'' then
         andthen (Some (p_call (on_object H True) (p\<lparr>pos := pos p + 1\<rparr>))) (p_object n H t e)
       else if x = CHR ''['' then
         andthen (Some (p_call (on_array H True) (p\<lparr>pos := pos p + 1\<rparr>))) (p_array n H t e)
       else if x = CHR 0x22 then Some (p_string H t e False p)
       else Some (p_primitive H t p)))"
| "p_object 0 H t e p = None"
| "p_object (Suc n) H t e p =
     (let close = p_close (on_object H False) (CHR ''}'') CLOSE_BRACE_EXPECTED t e
      in if pos p \<le> e then
           obind (Some (p_skip NUL t e p)) (\<lambda>(_, p).
           obind (Some (rd t (pos p))) (\<lambda>x.
             if x = CHR ''}'' then Some (close p)
             else if x \<noteq> CHR 0x22 then Some (p_error KEY_EXPECTED p)
             else
               andthen (Some (p_string H t e True p)) (\<lambda>p.
               obind (Some (p_skip (CHR '':'') t e p)) (\<lambda>(colon, p).
                 if \<not> colon then Some (p_error COLON_EXPECTED p)
                 else
                   andthen (p_value n H t e p) (\<lambda>p.
                   obind (Some (p_skip (CHR '','') t e p)) (\<lambda>(comma, p).
                     if \<not> comma then Some (close p) else p_object n H t e p))))))
         else Some (close p))"
| "p_array 0 H t e p = None"
| "p_array (Suc n) H t e p =
     (let close = p_close (on_array H False) (CHR '']'') CLOSE_BRACKET_EXPECTED t e
      in if pos p \<le> e then
           obind (Some (p_skip NUL t e p)) (\<lambda>(_, p).
           obind (Some (rd t (pos p))) (\<lambda>x.
             if x = CHR '']'' then Some (close p)
             else
               andthen (p_value n H t e p) (\<lambda>p.
               obind (Some (p_skip (CHR '','') t e p)) (\<lambda>(comma, p).
                 if \<not> comma then Some (close p) else p_array n H t e p))))
         else Some (close p))"

definition parse_fuel :: "string \<Rightarrow> nat" where
  "parse_fuel t = 2 * length t + 4"

text \<open>\<^verbatim>\<open>Parser::parse\<close> on the section of \<open>t\<close> from \<open>s\<close> to \<open>e\<close>, by a fresh parser.\<close>

definition parse :: "'h handler \<Rightarrow> string \<Rightarrow> int \<Rightarrow> int \<Rightarrow> 'h \<Rightarrow> (bool \<times> 'h parser) result option" where
  "parse H t s e h =
     p_value (parse_fuel t) H t e \<lparr>pos = s, perr = P_OKAY, perr_pos = None, hstate = h\<rparr>"

text \<open>\<^verbatim>\<open>Section(const char *)\<close> and then \<^verbatim>\<open>parse\<close>: the whole string.\<close>

definition parse_text :: "'h handler \<Rightarrow> string \<Rightarrow> 'h \<Rightarrow> (bool \<times> 'h parser) result option" where
  "parse_text H t h = parse H t 0 (int (length t) - 1) h"

subsection \<open>Positions, fuel and termination\<close>

lemma skip_mono: "skip c t e s = Inr (b, s') \<Longrightarrow> s \<le> s' \<and> (b \<longrightarrow> s < s')"
proof (induction c t e s rule: skip.induct)
  case (1 c t e s)
  from "1.prems" show ?case
    by (subst (asm) skip.simps) (auto simp: rbind_Inr_conv split: if_splits dest!: "1.IH")
qed

lemma p_skip_mono: "p_skip c t e p = Inr (b, p') \<Longrightarrow> pos p \<le> pos p' \<and> (b \<longrightarrow> pos p < pos p')"
  by (auto simp: p_skip_def rbind_Inr_conv dest: skip_mono)

lemma number_loop_mono: "number_loop t s ne = Inr (ne', s') \<Longrightarrow> s \<le> s'"
proof (induction t s ne rule: number_loop.induct)
  case (1 t s ne)
  from "1.prems" show ?case
    by (subst (asm) number_loop.simps) (auto simp: rbind_Inr_conv split: if_splits dest!: "1.IH")
qed

lemma string_loop_mono: "string_loop t e s b = Inr (Some s') \<Longrightarrow> s \<le> s'"
proof (induction t e s b rule: string_loop.induct)
  case (1 t e s b)
  from "1.prems" show ?case
    by (subst (asm) string_loop.simps) (auto simp: rbind_Inr_conv split: if_splits dest!: "1.IH")
qed

lemma p_call_mono: "p_call f p = Inr (b, p') \<Longrightarrow> pos p' = pos p"
  by (auto simp: p_call_def p_error_def rbind_Inr_conv split: if_splits)

lemma p_number_mono: "p_number H t e p = Inr (b, p') \<Longrightarrow> pos p \<le> pos p'"
  by (auto simp: p_number_def rbind_Inr_conv split: if_splits dest!: p_call_mono number_loop_mono)

lemma p_string_mono: "p_string H t e k p = Inr (b, p') \<Longrightarrow> pos p \<le> pos p'"
  by (auto simp: p_string_def rbind_Inr_conv p_error_def split: if_splits option.splits
      dest!: p_call_mono string_loop_mono)

lemma p_primitive_loop_mono: "p_primitive_loop H t ms p = Inr (b, p') \<Longrightarrow> pos p \<le> pos p'"
  by (induction ms) (auto simp: rbind_Inr_conv split: if_splits dest!: p_call_mono)

lemma p_primitive_mono: "p_primitive H t p = Inr (b, p') \<Longrightarrow> pos p \<le> pos p'"
  unfolding p_primitive_def by (rule p_primitive_loop_mono)

lemma p_close_mono: "p_close f c er t e p = Inr (b, p') \<Longrightarrow> pos p \<le> pos p'"
  by (auto simp: p_close_def rbind_Inr_conv p_error_def split: if_splits dest!: p_call_mono p_skip_mono)

lemma wp_andthen:
  "wp N E Q (andthen m f) = wp N E (\<lambda>(ok, p). if ok then wp N E Q (f p) else Q (False, p)) m"
  by (auto simp: andthen_def wp_obind wp_def split: option.splits sum.splits)

abbreviation adv :: "int \<Rightarrow> (bool \<times> 'h parser) result option \<Rightarrow> bool" where
  "adv q m \<equiv> wp True True (\<lambda>(b, p'). q \<le> pos p') m"

lemma adv_skip:
  "(\<And>b p'. pos p \<le> pos p' \<Longrightarrow> (b \<Longrightarrow> pos p < pos p') \<Longrightarrow> adv q (f (b, p'))) \<Longrightarrow>
   adv q (obind (Some (p_skip c t e p)) f)"
  by (rule wp_seq [OF wp_TrueI, where R = "\<lambda>(b, p'). pos p \<le> pos p' \<and> (b \<longrightarrow> pos p < pos p')"])
    (auto dest: p_skip_mono)

lemma adv_rd: "(\<And>x. adv q (f x)) \<Longrightarrow> adv q (obind (Some (rd t i)) f)"
  by (rule wp_seq [OF wp_TrueI, where R = "\<lambda>_. True"]) auto

lemma adv_andthen:
  "adv q m \<Longrightarrow> (\<And>p. q \<le> pos p \<Longrightarrow> adv q (f p)) \<Longrightarrow> adv q (andthen m f)"
  by (auto simp: wp_andthen elim!: wp_conseq)

lemma adv_basic:
  "q \<le> pos p \<Longrightarrow> adv q (Some (p_call f p))"
  "q \<le> pos p \<Longrightarrow> adv q (Some (p_error er p))"
  "q \<le> pos p \<Longrightarrow> adv q (Some (p_number H t e p))"
  "q \<le> pos p \<Longrightarrow> adv q (Some (p_string H t e k p))"
  "q \<le> pos p \<Longrightarrow> adv q (Some (p_primitive H t p))"
  "q \<le> pos p \<Longrightarrow> adv q (Some (p_close g c er t e p))"
  by (rule wp_TrueI;
      auto simp: p_error_def
        dest!: p_call_mono p_number_mono p_string_mono p_primitive_mono p_close_mono)+

lemma value_adv:
  "q \<le> pos p \<Longrightarrow> adv q (p_value n H t e p) \<and> adv q (p_object n H t e p) \<and> adv q (p_array n H t e p)"
proof (induction n arbitrary: p)
  case 0
  show ?case by simp
next
  case (Suc n)
  have v: "adv q (p_value n H t e p)" and o: "adv q (p_object n H t e p)"
    and a: "adv q (p_array n H t e p)" if "q \<le> pos p" for p
    using Suc.IH that by blast+
  have "adv q (p_value (Suc n) H t e p)"
    using Suc.prems by (auto intro!: adv_skip adv_rd adv_andthen adv_basic o a)
  moreover have "adv q (p_object (Suc n) H t e p)"
    using Suc.prems by (auto simp: Let_def intro!: adv_skip adv_rd adv_andthen adv_basic o v)
  moreover have "adv q (p_array (Suc n) H t e p)"
    using Suc.prems by (auto simp: Let_def intro!: adv_skip adv_rd adv_andthen adv_basic a v)
  ultimately show ?case by blast
qed

definition ends :: "(bool \<times> 'h parser) result option \<Rightarrow> bool" where
  "ends m \<longleftrightarrow> m \<noteq> None"

lemma ends_Some [simp]: "ends (Some r)"
  by (simp add: ends_def)

lemma andthen_None: "andthen m f = None \<longleftrightarrow> m = None \<or> (\<exists>p. m = Some (Inr (True, p)) \<and> f p = None)"
  by (auto simp: andthen_def obind_None_conv)

lemma ends_skip:
  "(\<And>b p'. pos p \<le> pos p' \<Longrightarrow> (b \<Longrightarrow> pos p < pos p') \<Longrightarrow> ends (f (b, p'))) \<Longrightarrow>
   ends (obind (Some (p_skip c t e p)) f)"
  by (cases "p_skip c t e p") (auto dest: p_skip_mono)

lemma rd_Inr: "rd t i = Inr x \<Longrightarrow> 0 \<le> i \<and> i \<le> int (length t) \<and> (x \<noteq> NUL \<longrightarrow> i < int (length t))"
  by (auto simp: rd_def split: if_splits)

lemma ends_rd:
  "(i \<le> int (length t) \<Longrightarrow> ends (f NUL)) \<Longrightarrow>
   (\<And>x. x \<noteq> NUL \<Longrightarrow> i < int (length t) \<Longrightarrow> ends (f x)) \<Longrightarrow>
   ends (obind (Some (rd t i)) f)"
  using rd_Inr [of t i] by (cases "rd t i") (auto, metis)

lemma ends_andthen:
  "ends m \<Longrightarrow> adv (pos q) m \<Longrightarrow> (\<And>p. pos q \<le> pos p \<Longrightarrow> ends (f p)) \<Longrightarrow> ends (andthen m f)"
  unfolding ends_def andthen_None by auto

lemma ends_andthen_Some:
  "adv (pos q) (Some r) \<Longrightarrow> (\<And>p. pos q \<le> pos p \<Longrightarrow> ends (f p)) \<Longrightarrow> ends (andthen (Some r) f)"
  by (rule ends_andthen) auto

lemma c_strchr_NUL [simp]: "c_strchr cs NUL"
  by (simp add: c_strchr_def)

lemma value_ends:
  fixes t :: string
  defines "L \<equiv> int (length t)"
  shows "(1 \<le> n \<longrightarrow> 2 * (L + 1 - pos p) + 1 \<le> int n \<longrightarrow> ends (p_value n H t e p)) \<and>
    (1 \<le> n \<longrightarrow> 2 * (L + 1 - pos p) + 2 \<le> int n \<longrightarrow>
       ends (p_object n H t e p) \<and> ends (p_array n H t e p))"
proof (induction n arbitrary: p)
  case 0
  show ?case by simp
next
  case (Suc n)
  have v: "ends (p_value n H t e p)" if "1 \<le> n" "2 * (L + 1 - pos p) + 1 \<le> int n" for p
    using Suc.IH that by blast
  have o: "ends (p_object n H t e p)" and a: "ends (p_array n H t e p)"
    if "1 \<le> n" "2 * (L + 1 - pos p) + 2 \<le> int n" for p
    using Suc.IH that by blast+
  have va: "adv (pos p) (p_value n H t e p)" for p
    by (simp add: value_adv)
  have V: "ends (p_value (Suc n) H t e p)" if "2 * (L + 1 - pos p) + 1 \<le> int (Suc n)"
    using that
    by (auto simp: L_def intro!: ends_skip ends_rd ends_andthen_Some [OF adv_basic(1), OF order_refl]
        o [unfolded L_def] a [unfolded L_def])
  have O: "ends (p_object (Suc n) H t e p)" if "2 * (L + 1 - pos p) + 2 \<le> int (Suc n)"
    using that
    by (auto simp: L_def Let_def intro!: ends_skip ends_rd ends_andthen_Some [OF adv_basic(4), OF order_refl]
        ends_andthen [OF _ va] o [unfolded L_def] v [unfolded L_def])
  have A: "ends (p_array (Suc n) H t e p)" if "2 * (L + 1 - pos p) + 2 \<le> int (Suc n)"
    using that
    by (auto simp: L_def Let_def intro!: ends_skip ends_rd
        ends_andthen [OF _ va] a [unfolded L_def] v [unfolded L_def])
  from V O A show ?case by blast
qed

text \<open>More fuel does not change a result.\<close>

definition fle :: "'a option \<Rightarrow> 'a option \<Rightarrow> bool" where
  "fle m m' \<longleftrightarrow> m = None \<or> m = m'"

lemma fle_refl [simp]: "fle m m"
  by (simp add: fle_def)

lemma fle_obind: "fle m m' \<Longrightarrow> (\<And>a. fle (f a) (g a)) \<Longrightarrow> fle (obind m f) (obind m' g)"
  unfolding fle_def by (cases "(m, f)" rule: obind.cases) (auto, metis)

lemma fle_andthen: "fle m m' \<Longrightarrow> (\<And>p. fle (f p) (g p)) \<Longrightarrow> fle (andthen m f) (andthen m' g)"
  unfolding andthen_def by (rule fle_obind) auto

lemma value_fuel_step:
  assumes v: "\<And>p. fle (p_value n H t e p) (p_value m H t e p)"
    and o: "\<And>p. fle (p_object n H t e p) (p_object m H t e p)"
    and a: "\<And>p. fle (p_array n H t e p) (p_array m H t e p)"
  shows "fle (p_value (Suc n) H t e p) (p_value (Suc m) H t e p)"
    and "fle (p_object (Suc n) H t e p) (p_object (Suc m) H t e p)"
    and "fle (p_array (Suc n) H t e p) (p_array (Suc m) H t e p)"
  by (auto simp: Let_def intro!: fle_obind fle_andthen v o a)

lemma value_fuel_Suc:
  "(\<forall>p. fle (p_value n H t e p) (p_value (Suc n) H t e p)) \<and>
   (\<forall>p. fle (p_object n H t e p) (p_object (Suc n) H t e p)) \<and>
   (\<forall>p. fle (p_array n H t e p) (p_array (Suc n) H t e p))"
proof (induction n)
  case 0
  show ?case by (simp add: fle_def)
next
  case (Suc n)
  then show ?case by (auto intro!: value_fuel_step simp del: p_value.simps p_object.simps p_array.simps)
qed

lemma value_fuel:
  assumes "p_value n H t e p = Some r" "n \<le> m"
  shows "p_value m H t e p = Some r"
  using assms(2,1)
proof (induction rule: dec_induct)
  case base
  then show ?case by simp
next
  case (step m)
  then show ?case using value_fuel_Suc [of m H t e] by (metis fle_def option.distinct(1))
qed

lemma object_fuel: "p_object n H t e p = Some r \<Longrightarrow> n \<le> m \<Longrightarrow> p_object m H t e p = Some r"
proof (induction m)
  case (Suc m)
  then show ?case using value_fuel_Suc [of m H t e] by (metis fle_def le_Suc_eq option.distinct(1))
qed simp

lemma array_fuel: "p_array n H t e p = Some r \<Longrightarrow> n \<le> m \<Longrightarrow> p_array m H t e p = Some r"
proof (induction m)
  case (Suc m)
  then show ?case using value_fuel_Suc [of m H t e] by (metis fle_def le_Suc_eq option.distinct(1))
qed simp

lemma json_parse_ends:
  assumes "0 \<le> s" "parse_fuel t \<le> n"
  shows "\<exists>r. parse H t s e h = Some r \<and>
    p_value n H t e \<lparr>pos = s, perr = P_OKAY, perr_pos = None, hstate = h\<rparr> = Some r"
proof -
  have "ends (parse H t s e h)"
    unfolding parse_def
    using assms by (intro mp [OF mp [OF conjunct1 [OF value_ends]]]) (auto simp: parse_fuel_def)
  then show ?thesis
    using assms(2) value_fuel unfolding parse_def ends_def by blast
qed

text \<open>
  C4: the parser returns. On every text, section, handler and starting state the fuel
  \<open>parse_fuel\<close> is enough (for a section that does not start before the text), and any more gives
  the same result.
\<close>

theorem json_parse_returns:
  assumes "0 \<le> s" "parse_fuel t \<le> n"
  shows "\<exists>r. parse H t s e h = Some r \<and>
    p_value n H t e \<lparr>pos = s, perr = P_OKAY, perr_pos = None, hstate = h\<rparr> = Some r"
  by (rule json_parse_ends [OF assms])

theorem json_parse_returns_witness:
  "\<exists>r. parse \<lparr>on_object = \<lambda>_ h. Inr (True, h), on_array = \<lambda>_ h. Inr (True, h),
       on_number = \<lambda>_ h. Inr (True, h), on_string = \<lambda>_ _ h. Inr (True, h),
       on_primitive = \<lambda>_ h. Inr (True, h)\<rparr> ''[{},[[{'' 0 6 () = Some r"
  using json_parse_returns [of 0 "''[{},[[{''" "parse_fuel ''[{},[[{''"] by fastforce

subsection \<open>The parser on the rest of the text\<close>

text \<open>
  For a text without NUL parsed as a whole, the operations on pointers act on what remains of
  the text from there.
\<close>

abbreviation len :: "'a list \<Rightarrow> int" where
  "len xs \<equiv> int (length xs)"

definition blank :: "string \<Rightarrow> bool" where
  "blank w \<longleftrightarrow> set w \<subseteq> set whitespace"

lemma blank_simps [simp]: "blank []" "blank (x # w) \<longleftrightarrow> x \<in> set whitespace \<and> blank w"
    "blank (v @ w) \<longleftrightarrow> blank v \<and> blank w"
  by (auto simp: blank_def)

definition first :: "string \<Rightarrow> char" where
  "first u = (case u of [] \<Rightarrow> NUL | x # _ \<Rightarrow> x)"

lemma first_simps [simp]: "first [] = NUL" "first (x # u) = x"
  by (simp_all add: first_def)

lemma rd_app [simp]: "rd (pre @ u) (len pre) = Inr (first u)"
  by (cases u) (auto simp: rd_def)

lemma set_numeric: "NUL \<notin> set numeric" "NUL \<notin> set whitespace" "set numeric \<inter> set whitespace = {}"
  by (simp_all add: numeric_def whitespace_def NUL_def)

lemma skip_run:
  "blank w \<Longrightarrow> c \<notin> set w \<Longrightarrow>
   skip c (pre @ w @ u) (len (pre @ w @ u) - 1) (len pre) =
   skip c (pre @ w @ u) (len (pre @ w @ u) - 1) (len (pre @ w))"
proof (induction w arbitrary: pre)
  case Nil
  then show ?case by simp
next
  case (Cons x w)
  have "rd (pre @ x # w @ u) (len pre) = Inr x"
    using rd_app [of pre "x # w @ u"] by simp
  with Cons.IH [of "pre @ [x]"] Cons.prems show ?case
    by (subst skip.simps) (auto simp: c_strchr_def algebra_simps)
qed

lemma blank_NUL: "blank w \<Longrightarrow> NUL \<notin> set w"
  using set_numeric(2) by (auto simp: blank_def)

lemma skip_char:
  assumes "blank w" "c \<notin> set w" "t = pre @ w @ c # u"
  shows "skip c t (len t - 1) (len pre) = Inr (True, len (pre @ w @ [c]))"
proof -
  have "rd t (len (pre @ w)) = Inr c"
    using rd_app [of "pre @ w" "c # u"] by (simp add: assms(3))
  with skip_run [OF assms(1,2), of pre "c # u"] show ?thesis
    unfolding assms(3) by (simp add: skip.simps [of _ _ _ "len (pre @ w)"] skip.simps [of _ _ _ "len pre + len w"])
qed

lemma skip_other:
  assumes "blank w" "c \<notin> set w" "u = [] \<or> first u \<noteq> NUL \<and> first u \<notin> set whitespace \<and> first u \<noteq> c" "t = pre @ w @ u"
  shows "skip c t (len t - 1) (len pre) = Inr (False, len (pre @ w))"
proof -
  have "rd t (len (pre @ w)) = Inr (first u)"
    using rd_app [of "pre @ w" u] by (simp add: assms(4))
  with skip_run [OF assms(1,2), of pre u] assms(3) show ?thesis
    unfolding assms(4)
    by (cases "u = []") (auto simp: skip.simps [of _ _ _ "len pre + len w"] c_strchr_def)
qed

lemmas skip_blank = skip_other [of _ NUL, OF _ blank_NUL]

lemma blank_split: "\<exists>w v. u = w @ v \<and> blank w \<and> (v = [] \<or> first v \<notin> set whitespace)"
proof (induction u)
  case Nil
  then show ?case by simp
next
  case (Cons x u)
  show ?case
  proof (cases "x \<in> set whitespace")
    case True
    from Cons.IH obtain w v where "u = w @ v" "blank w" "v = [] \<or> first v \<notin> set whitespace"
      by blast
    with True show ?thesis by (intro exI [of _ "x # w"] exI [of _ v]) simp
  next
    case False
    then show ?thesis by (intro exI [of _ "[]"] exI [of _ "x # u"]) simp
  qed
qed

text \<open>Strings: the closing quote is the first one that no backslash escapes.\<close>

fun str_body :: "string \<Rightarrow> bool \<Rightarrow> bool" where
  "str_body [] escape \<longleftrightarrow> \<not> escape"
| "str_body (x # xs) escape \<longleftrightarrow>
     (x = CHR 0x22 \<longrightarrow> escape) \<and> str_body xs (if escape then False else x = CHR 0x5C)"

lemma string_loop_body:
  "str_body b escape \<Longrightarrow>
   string_loop (pre @ b @ CHR 0x22 # u) (len (pre @ b @ CHR 0x22 # u) - 1) (len pre) escape
     = Inr (Some (len (pre @ b)))"
proof (induction b arbitrary: pre escape)
  case Nil
  then show ?case by (simp add: string_loop.simps)
next
  case (Cons x b)
  from Cons.IH [of "if escape then False else x = CHR 0x5C" "pre @ [x]"] Cons.prems show ?case
    by (subst string_loop.simps) (auto simp: algebra_simps)
qed

lemma string_loop_inv:
  "string_loop (pre @ u) (len (pre @ u) - 1) (len pre) escape = Inr (Some s) \<Longrightarrow>
   \<exists>b v. u = b @ CHR 0x22 # v \<and> str_body b escape \<and> s = len (pre @ b)"
proof (induction u arbitrary: pre escape)
  case Nil
  then show ?case by (simp add: string_loop.simps)
next
  case (Cons x u)
  show ?case
  proof (cases "x = CHR 0x22 \<and> \<not> escape")
    case True
    with Cons.prems have "s = len pre"
      by (subst (asm) string_loop.simps) (simp add: rd_app)
    with True show ?thesis by (intro exI [of _ "[]"] exI [of _ u]) auto
  next
    case False
    with Cons.prems have
      "string_loop ((pre @ [x]) @ u) (len ((pre @ [x]) @ u) - 1) (len (pre @ [x]))
         (if escape then False else x = CHR 0x5C) = Inr (Some s)"
      by (subst (asm) string_loop.simps) (auto simp: algebra_simps)
    from Cons.IH [OF this] obtain b v where
      "u = b @ CHR 0x22 # v" "str_body b (if escape then False else x = CHR 0x5C)" "s = len ((pre @ [x]) @ b)"
      by blast
    with False show ?thesis by (intro exI [of _ "x # b"] exI [of _ v]) auto
  qed
qed

lemma string_loop_returns: "\<exists>r. string_loop (pre @ u) (len (pre @ u) - 1) (len pre) escape = Inr r"
proof (induction u arbitrary: pre escape)
  case Nil
  then show ?case by (simp add: string_loop.simps)
next
  case (Cons x u)
  from Cons.IH [of "pre @ [x]" "if escape then False else x = CHR 0x5C"] show ?case
    by (subst string_loop.simps) (auto simp: algebra_simps)
qed

lemma number_loop_app:
  "set ds \<subseteq> set numeric \<Longrightarrow> first v \<notin> set numeric \<Longrightarrow> first v \<noteq> NUL \<Longrightarrow>
   number_loop (pre @ ds @ v) (len pre) ne =
     Inr (if ds = [] then ne else Some (len pre + len ds - 1), len (pre @ ds))"
proof (induction ds arbitrary: pre ne)
  case Nil
  then show ?case by (subst number_loop.simps) (simp add: c_strchr_def)
next
  case (Cons d ds)
  have "rd (pre @ d # ds @ v) (len pre) = Inr d"
    using rd_app [of pre "d # ds @ v"] by simp
  with Cons.IH [of "pre @ [d]" "Some (len pre)"] Cons.prems show ?case
    by (subst number_loop.simps) (auto simp: c_strchr_def algebra_simps)
qed

lemma strncmp_app: "NUL \<notin> set m \<Longrightarrow> strncmp_eq m (pre @ u) (len pre) = Inr (take (length m) u = m)"
proof (induction m arbitrary: pre u)
  case Nil
  then show ?case by simp
next
  case (Cons c m)
  then show ?case using Cons.IH [of "pre @ [c]" "tl u"] rd_app [of pre u]
    by (cases u) (auto simp: algebra_simps)
qed

text \<open>
  What a handler is told, and the handler that answers \<open>OKAY\<close> to everything and folds the events
  into its state with \<open>f\<close>.
\<close>

datatype event =
    EObject bool | EArray bool | ENumber string | EString string bool | EPrimitive string

definition slice :: "sect \<Rightarrow> string" where
  "slice sec =
     (case (ss sec, se sec) of
        (Some s, Some e) \<Rightarrow> take (nat (e + 1 - s)) (drop (nat s) (sbuf sec))
      | _ \<Rightarrow> [])"

definition total_handler :: "(event \<Rightarrow> 'h \<Rightarrow> 'h) \<Rightarrow> 'h handler" where
  "total_handler f =
     \<lparr>on_object = \<lambda>b h. Inr (True, f (EObject b) h),
      on_array = \<lambda>b h. Inr (True, f (EArray b) h),
      on_number = \<lambda>n h. Inr (True, f (ENumber (slice n)) h),
      on_string = \<lambda>x k h. Inr (True, f (EString (slice x) k) h),
      on_primitive = \<lambda>x h. Inr (True, f (EPrimitive (slice x)) h)\<rparr>"

lemma total_handler_simps [simp]:
  "on_object (total_handler f) b h = Inr (True, f (EObject b) h)"
  "on_array (total_handler f) b h = Inr (True, f (EArray b) h)"
  "on_number (total_handler f) n h = Inr (True, f (ENumber (slice n)) h)"
  "on_string (total_handler f) x k h = Inr (True, f (EString (slice x) k) h)"
  "on_primitive (total_handler f) x h = Inr (True, f (EPrimitive (slice x)) h)"
  by (simp_all add: total_handler_def)

lemma slice_app:
  "s = len pre \<Longrightarrow> e = len pre + len xs - 1 \<Longrightarrow> slice \<lparr>sbuf = pre @ xs @ u, ss = Some s, se = Some e\<rparr> = xs"
  by (simp add: slice_def)

lemma slice_whole: "slice \<lparr>sbuf = m, ss = Some 0, se = Some (len m - 1)\<rparr> = m"
  by (simp add: slice_def)

definition moved :: "string \<Rightarrow> 'h \<Rightarrow> 'h parser \<Rightarrow> 'h parser" where
  "moved pre h p = p\<lparr>pos := len pre, hstate := h\<rparr>"

lemma moved_simps [simp]:
  "pos (moved pre h p) = len pre" "hstate (moved pre h p) = h"
  "moved pre h (moved pre' h' p) = moved pre h p" "perr (moved pre h p) = perr p"
  "(moved pre h p)\<lparr>pos := len v\<rparr> = moved v h p" "(moved pre h p)\<lparr>hstate := h'\<rparr> = moved pre h' p"
  by (simp_all add: moved_def)

lemma p_call_total [simp]: "f (hstate p) = Inr (True, h) \<Longrightarrow> p_call f p = Inr (True, p\<lparr>hstate := h\<rparr>)"
  by (simp add: p_call_def)

lemma p_number_app:
  assumes "set ds \<subseteq> set numeric" "first v \<notin> set numeric" "first v \<noteq> NUL" "t = pre @ ds @ v"
  shows "p_number (total_handler f) t (len t - 1) (moved pre h p) =
    Inr (True, moved (pre @ ds) (f (ENumber ds) h) p)"
proof -
  have "slice \<lparr>sbuf = t, ss = Some (len pre), se = if ds = [] then None else Some (len pre + len ds - 1)\<rparr> = ds"
    by (auto simp: slice_app assms(4)) (simp add: slice_def)
  moreover have "v \<noteq> []"
    using assms(3) by auto
  ultimately show ?thesis
    using number_loop_app [OF assms(1-3), of pre None] assms(4)
    by (cases v) (auto simp: p_number_def moved_def)
qed

lemma p_number_empty:
  "p_number (total_handler f) t (len t - 1) (moved t h p) = Inr (True, moved t (f (ENumber []) h) p)"
  by (simp add: p_number_def slice_def moved_def)

lemma p_string_app:
  assumes "str_body b False" "t = pre @ CHR 0x22 # b @ CHR 0x22 # v"
  shows "p_string (total_handler f) t (len t - 1) k (moved pre h p) =
    Inr (True, moved (pre @ CHR 0x22 # b @ [CHR 0x22]) (f (EString b k) h) p)"
proof -
  have t: "t = (pre @ [CHR 0x22]) @ b @ CHR 0x22 # v"
    by (simp add: assms(2))
  have "string_loop t (len t - 1) (len pre + 1) False = Inr (Some (len pre + 1 + len b))"
    using string_loop_body [OF assms(1), of "pre @ [CHR 0x22]" v] unfolding t by (simp add: algebra_simps)
  moreover have "slice \<lparr>sbuf = t, ss = Some (len pre + 1), se = Some (len pre + len b)\<rparr> = b"
    unfolding t by (rule slice_app) simp_all
  ultimately show ?thesis
    by (simp add: p_string_def moved_def algebra_simps)
qed

lemma p_string_inv:
  assumes "p_string (total_handler f) t (len t - 1) k (moved pre h p) = Inr (True, p')"
    "t = pre @ CHR 0x22 # u"
  shows "\<exists>b v. u = b @ CHR 0x22 # v \<and> str_body b False"
proof -
  have t: "t = (pre @ [CHR 0x22]) @ u"
    by (simp add: assms(2))
  obtain s where "string_loop t (len t - 1) (len (pre @ [CHR 0x22])) False = Inr (Some s)"
    using assms(1)
    by (auto simp: p_string_def rbind_Inr_conv p_error_def algebra_simps split: option.splits)
  from string_loop_inv [OF this [unfolded t]] show ?thesis by blast
qed

definition prims :: "string list" where
  "prims = [''false'', ''true'', ''null'']"

definition after_prim :: string where
  "after_prim = whitespace @ '',}]''"

lemma p_primitive_loop_app:
  assumes "\<forall>m\<in>set ms. NUL \<notin> set m"
  shows "p_primitive_loop (total_handler f) (pre @ u) ms (moved pre h p) =
    (case find (\<lambda>m. take (length m) u = m \<and> c_strchr after_prim (first (drop (length m) u))) ms of
       None \<Rightarrow> Inr (False, moved pre h p)
     | Some m \<Rightarrow> Inr (True, moved (pre @ m) (f (EPrimitive m) h) p))"
  using assms
proof (induction ms)
  case Nil
  then show ?case by simp
next
  case (Cons m ms)
  have "rd (pre @ u) (len pre + len m) = Inr (first (drop (length m) u))" if "take (length m) u = m"
    using rd_app [of "pre @ m" "drop (length m) u"] that append_take_drop_id [of "length m" u] by simp
  with Cons show ?case
    by (auto simp: strncmp_app slice_whole moved_def after_prim_def)
qed

lemma p_primitive_app:
  assumes "m \<in> set prims" "c_strchr after_prim (first v)"
  shows "p_primitive (total_handler f) (pre @ m @ v) (moved pre h p) =
    Inr (True, moved (pre @ m) (f (EPrimitive m) h) p)"
  unfolding p_primitive_def
  using assms by (subst p_primitive_loop_app) (auto simp: prims_def NUL_def)

lemma p_primitive_inv:
  assumes "p_primitive (total_handler f) (pre @ u) (moved pre h p) = Inr (True, p')"
  shows "\<exists>m v. u = m @ v \<and> m \<in> set prims \<and> p' = moved (pre @ m) (f (EPrimitive m) h) p"
proof -
  have "\<forall>m\<in>set prims. NUL \<notin> set m"
    by (simp add: prims_def NUL_def)
  from assms[unfolded p_primitive_def, folded prims_def, unfolded p_primitive_loop_app [OF this]]
  obtain m where m: "find (\<lambda>m. take (length m) u = m \<and> c_strchr after_prim (first (drop (length m) u))) prims = Some m"
      "p' = moved (pre @ m) (f (EPrimitive m) h) p"
    by (auto split: option.splits)
  from m(1) have "m \<in> set prims" "take (length m) u = m"
    by (auto simp: find_Some_iff)
  with m(2) show ?thesis
    by (intro exI [of _ m] exI [of _ "drop (length m) u"]) (metis append_take_drop_id)
qed

subsection \<open>The language the parser accepts\<close>

text \<open>
  The grammar of the texts, with the events each stands for. A comma may stand before a closing
  bracket, numbers are any characters of \<open>numeric\<close>, and a value may follow white space. \<open>gmembers\<close>
  and \<open>gelems\<close> are what stands between the brackets.
\<close>

abbreviation quote :: char where
  "quote \<equiv> CHR 0x22"

inductive gvalue :: "string \<Rightarrow> event list \<Rightarrow> bool"
  and gmembers :: "string \<Rightarrow> event list \<Rightarrow> bool"
  and gelems :: "string \<Rightarrow> event list \<Rightarrow> bool" where
  g_number: "blank w \<Longrightarrow> ds \<noteq> [] \<Longrightarrow> set ds \<subseteq> set numeric \<Longrightarrow> gvalue (w @ ds) [ENumber ds]"
| g_string: "blank w \<Longrightarrow> str_body b False \<Longrightarrow> gvalue (w @ quote # b @ [quote]) [EString b False]"
| g_prim: "blank w \<Longrightarrow> m \<in> set prims \<Longrightarrow> gvalue (w @ m) [EPrimitive m]"
| g_object: "blank w \<Longrightarrow> gmembers x evs \<Longrightarrow>
    gvalue (w @ CHR ''{'' # x @ ''}'') (EObject True # evs @ [EObject False])"
| g_array: "blank w \<Longrightarrow> gelems x evs \<Longrightarrow>
    gvalue (w @ CHR ''['' # x @ '']'') (EArray True # evs @ [EArray False])"
| gm_nil: "blank w \<Longrightarrow> gmembers w []"
| gm_last: "blank w1 \<Longrightarrow> str_body b False \<Longrightarrow> blank w2 \<Longrightarrow> gvalue v evs \<Longrightarrow> blank w3 \<Longrightarrow>
    gmembers (w1 @ quote # b @ quote # w2 @ CHR '':'' # v @ w3) (EString b True # evs)"
| gm_more: "blank w1 \<Longrightarrow> str_body b False \<Longrightarrow> blank w2 \<Longrightarrow> gvalue v evs \<Longrightarrow> blank w3 \<Longrightarrow> gmembers x evs' \<Longrightarrow>
    gmembers (w1 @ quote # b @ quote # w2 @ CHR '':'' # v @ w3 @ CHR '','' # x) (EString b True # evs @ evs')"
| ge_nil: "blank w \<Longrightarrow> gelems w []"
| ge_last: "gvalue v evs \<Longrightarrow> blank w \<Longrightarrow> gelems (v @ w) evs"
| ge_more: "gvalue v evs \<Longrightarrow> blank w \<Longrightarrow> gelems x evs' \<Longrightarrow> gelems (v @ w @ CHR '','' # x) (evs @ evs')"

text \<open>What may follow a value so that the parser sees where it ends.\<close>

definition ended :: "string \<Rightarrow> string \<Rightarrow> bool" where
  "ended v rest \<longleftrightarrow> last v \<in> set (quote # ''}]'') \<or> first rest \<in> set after_prim"

lemma after_prim_facts: "NUL \<notin> set after_prim" "set after_prim \<inter> set numeric = {}"
    "set after_prim \<inter> set (quote # ''{['') = {}"
  by (simp_all add: after_prim_def whitespace_def numeric_def NUL_def)

lemma p_skip_blank:
  assumes "blank w" "NUL \<notin> set u" "u \<noteq> [] \<longrightarrow> first u \<notin> set whitespace" "t = pre @ w @ u"
  shows "p_skip NUL t (len t - 1) (moved pre h p) = Inr (False, moved (pre @ w) h p)"
proof -
  have "skip NUL t (len t - 1) (len pre) = Inr (False, len (pre @ w))"
    by (rule skip_blank [where u = u]) (use assms in \<open>cases u; auto\<close>)+
  then show ?thesis by (simp add: p_skip_def moved_def)
qed

lemma p_skip_char:
  assumes "blank w" "c \<notin> set whitespace" "t = pre @ w @ c # u"
  shows "p_skip c t (len t - 1) (moved pre h p) = Inr (True, moved (pre @ w @ [c]) h p)"
proof -
  have "skip c t (len t - 1) (len pre) = Inr (True, len (pre @ w @ [c]))"
    by (rule skip_char) (use assms in \<open>auto simp: blank_def\<close>)
  then show ?thesis by (simp add: p_skip_def moved_def)
qed

lemma p_skip_other:
  assumes "blank w" "c \<notin> set whitespace" "NUL \<notin> set u"
    "u \<noteq> [] \<longrightarrow> first u \<notin> set whitespace \<and> first u \<noteq> c" "t = pre @ w @ u"
  shows "p_skip c t (len t - 1) (moved pre h p) = Inr (False, moved (pre @ w) h p)"
proof -
  have "skip c t (len t - 1) (len pre) = Inr (False, len (pre @ w))"
    by (rule skip_other [where u = u]) (use assms in \<open>cases u; auto simp: blank_def\<close>)+
  then show ?thesis by (simp add: p_skip_def moved_def)
qed

lemma p_close_app:
  assumes "blank w" "c \<notin> set whitespace" "t = pre @ w @ c # u" "g h = Inr (True, h')"
  shows "p_close g c er t (len t - 1) (moved pre h p) = Inr (True, moved (pre @ w @ [c]) h' p)"
  using p_skip_char [OF assms(1-3), of h p] assms(4) by (simp add: p_close_def)

text \<open>How a value starts.\<close>

lemma gvalue_start:
  "gvalue v evs \<Longrightarrow> \<exists>w x u. v = w @ x # u \<and> blank w \<and> x \<notin> set whitespace \<and> x \<notin> set '',}]:'' \<and> x \<noteq> NUL"
proof (induction rule: gvalue.cases)
  case (g_number w ds)
  then obtain d ds' where "ds = d # ds'" "d \<in> set numeric"
    by (cases ds) auto
  with g_number show ?case
    by (intro exI [of _ w] exI [of _ d] exI [of _ ds']) (auto simp: numeric_def whitespace_def NUL_def)
next
  case (g_string w b)
  then show ?case
    by (intro exI [of _ w] exI [of _ quote] exI [of _ "b @ [quote]"]) (auto simp: whitespace_def NUL_def)
next
  case (g_prim w m)
  then show ?case
    by (intro exI [of _ w] exI [of _ "hd m"] exI [of _ "tl m"]) (auto simp: prims_def whitespace_def NUL_def)
next
  case (g_object w x evs)
  then show ?case
    by (intro exI [of _ w] exI [of _ "CHR ''{''"] exI [of _ "x @ ''}''"]) (auto simp: whitespace_def NUL_def)
next
  case (g_array w x evs)
  then show ?case
    by (intro exI [of _ w] exI [of _ "CHR ''[''"] exI [of _ "x @ '']''"]) (auto simp: whitespace_def NUL_def)
qed

lemma blank_start: "NUL \<notin> set u \<Longrightarrow> u \<noteq> [] \<Longrightarrow> first u \<noteq> NUL"
  by (cases u) auto

lemma value_at:
  assumes "blank w" "NUL \<notin> set u" "u \<noteq> [] \<longrightarrow> first u \<notin> set whitespace" "t = pre @ w @ u"
  shows "p_value (Suc n) H t (len t - 1) (moved pre h p) =
    (let x = first u; q = moved (pre @ w) h p
     in if x = NUL \<or> x \<in> set numeric then Some (p_number H t (len t - 1) q)
        else if x = CHR ''{'' then
          andthen (Some (p_call (on_object H True) (moved (pre @ w @ [x]) h p))) (p_object n H t (len t - 1))
        else if x = CHR ''['' then
          andthen (Some (p_call (on_array H True) (moved (pre @ w @ [x]) h p))) (p_array n H t (len t - 1))
        else if x = quote then Some (p_string H t (len t - 1) False q)
        else Some (p_primitive H t q))"
proof -
  have "rd t (len (pre @ w)) = Inr (first u)"
    using rd_app [of "pre @ w" u] by (simp add: assms(4))
  moreover have "(moved (pre @ w) h p)\<lparr>pos := len pre + len w + 1\<rparr> = moved (pre @ w @ [x]) h p" for x
    by (simp add: moved_def)
  ultimately show ?thesis
    by (simp add: p_skip_blank [OF assms] c_strchr_def Let_def)
qed

lemma object_at:
  assumes "blank w" "NUL \<notin> set u" "u \<noteq> [] \<longrightarrow> first u \<notin> set whitespace" "t = pre @ w @ u" "w @ u \<noteq> []"
  shows "p_object (Suc n) H t (len t - 1) (moved pre h p) =
    (let x = first u; q = moved (pre @ w) h p; e = len t - 1;
         close = p_close (on_object H False) (CHR ''}'') CLOSE_BRACE_EXPECTED t e
     in if x = CHR ''}'' then Some (close q)
        else if x \<noteq> quote then Some (p_error KEY_EXPECTED q)
        else
          andthen (Some (p_string H t e True q)) (\<lambda>p.
          obind (Some (p_skip (CHR '':'') t e p)) (\<lambda>(colon, p).
            if \<not> colon then Some (p_error COLON_EXPECTED p)
            else
              andthen (p_value n H t e p) (\<lambda>p.
              obind (Some (p_skip (CHR '','') t e p)) (\<lambda>(comma, p).
                if \<not> comma then Some (close p) else p_object n H t e p)))))"
proof -
  have "rd t (len (pre @ w)) = Inr (first u)"
    using rd_app [of "pre @ w" u] by (simp add: assms(4))
  moreover have "len pre \<le> len t - 1"
    using assms(5) by (cases w; cases u; simp add: assms(4))
  ultimately show ?thesis
    by (simp add: p_skip_blank [OF assms(1-4)] Let_def)
qed

lemma array_at:
  assumes "blank w" "NUL \<notin> set u" "u \<noteq> [] \<longrightarrow> first u \<notin> set whitespace" "t = pre @ w @ u" "w @ u \<noteq> []"
  shows "p_array (Suc n) H t (len t - 1) (moved pre h p) =
    (let x = first u; q = moved (pre @ w) h p; e = len t - 1;
         close = p_close (on_array H False) (CHR '']'') CLOSE_BRACKET_EXPECTED t e
     in if x = CHR '']'' then Some (close q)
        else
          andthen (p_value n H t e q) (\<lambda>p.
          obind (Some (p_skip (CHR '','') t e p)) (\<lambda>(comma, p).
            if \<not> comma then Some (close p) else p_array n H t e p)))"
proof -
  have "rd t (len (pre @ w)) = Inr (first u)"
    using rd_app [of "pre @ w" u] by (simp add: assms(4))
  moreover have "len pre \<le> len t - 1"
    using assms(5) by (cases w; cases u; simp add: assms(4))
  ultimately show ?thesis
    by (simp add: p_skip_blank [OF assms(1-4)] Let_def)
qed

declare p_value.simps(2) [simp del] p_object.simps(2) [simp del] p_array.simps(2) [simp del]

lemma value_after_blank:
  assumes "blank w" "NUL \<notin> set u" "u \<noteq> [] \<longrightarrow> first u \<notin> set whitespace" "t = pre @ w @ u"
  shows "p_value n H t (len t - 1) (moved (pre @ w) h p) = p_value n H t (len t - 1) (moved pre h p)"
proof (cases n)
  case (Suc m)
  from value_at [OF assms, of m H h p] value_at [of "[]" u t "pre @ w" m H h p] assms Suc
  show ?thesis by (simp add: Let_def)
qed simp

subsection \<open>Every text of the grammar is accepted\<close>

definition v_parses :: "(event \<Rightarrow> 'h \<Rightarrow> 'h) \<Rightarrow> string \<Rightarrow> event list \<Rightarrow> bool" where
  "v_parses f v evs \<longleftrightarrow>
     (\<forall>pre rest h p t. t = pre @ v @ rest \<longrightarrow> NUL \<notin> set (v @ rest) \<longrightarrow> ended v rest \<longrightarrow>
       (\<exists>n. p_value n (total_handler f) t (len t - 1) (moved pre h p) =
         Some (Inr (True, moved (pre @ v) (fold f evs h) p))))"

definition m_parses :: "(event \<Rightarrow> 'h \<Rightarrow> 'h) \<Rightarrow> string \<Rightarrow> event list \<Rightarrow> bool" where
  "m_parses f x evs \<longleftrightarrow>
     (\<forall>pre rest h p t. t = pre @ x @ CHR ''}'' # rest \<longrightarrow> NUL \<notin> set (x @ rest) \<longrightarrow>
       (\<exists>n. p_object n (total_handler f) t (len t - 1) (moved pre h p) =
         Some (Inr (True, moved (pre @ x @ ''}'') (f (EObject False) (fold f evs h)) p))))"

definition e_parses :: "(event \<Rightarrow> 'h \<Rightarrow> 'h) \<Rightarrow> string \<Rightarrow> event list \<Rightarrow> bool" where
  "e_parses f x evs \<longleftrightarrow>
     (\<forall>pre rest h p t. t = pre @ x @ CHR '']'' # rest \<longrightarrow> NUL \<notin> set (x @ rest) \<longrightarrow>
       (\<exists>n. p_array n (total_handler f) t (len t - 1) (moved pre h p) =
         Some (Inr (True, moved (pre @ x @ '']'') (f (EArray False) (fold f evs h)) p))))"

lemma v_parsesD:
  "v_parses f v evs \<Longrightarrow> t = pre @ v @ rest \<Longrightarrow> NUL \<notin> set (v @ rest) \<Longrightarrow> ended v rest \<Longrightarrow>
   \<exists>n. p_value n (total_handler f) t (len t - 1) (moved pre h p) =
     Some (Inr (True, moved (pre @ v) (fold f evs h) p))"
  unfolding v_parses_def by blast

lemma m_parsesD:
  "m_parses f x evs \<Longrightarrow> t = pre @ x @ CHR ''}'' # rest \<Longrightarrow> NUL \<notin> set (x @ rest) \<Longrightarrow>
   \<exists>n. p_object n (total_handler f) t (len t - 1) (moved pre h p) =
     Some (Inr (True, moved (pre @ x @ ''}'') (f (EObject False) (fold f evs h)) p))"
  unfolding m_parses_def by blast

lemma e_parsesD:
  "e_parses f x evs \<Longrightarrow> t = pre @ x @ CHR '']'' # rest \<Longrightarrow> NUL \<notin> set (x @ rest) \<Longrightarrow>
   \<exists>n. p_array n (total_handler f) t (len t - 1) (moved pre h p) =
     Some (Inr (True, moved (pre @ x @ '']'') (f (EArray False) (fold f evs h)) p))"
  unfolding e_parses_def by blast

lemma ended_mid: "blank w \<Longrightarrow> c \<in> set '',}]'' \<Longrightarrow> ended v (w @ c # u)"
  by (cases w) (auto simp: ended_def after_prim_def)

lemma chars_apart: "x \<in> set (quote # '',}]{[:'') \<Longrightarrow> x \<noteq> NUL \<and> x \<notin> set whitespace \<and> x \<notin> set numeric"
  by (auto simp: numeric_def whitespace_def NUL_def)

lemma chars_apart' [simp]:
  "c \<in> set (quote # '',}]{[:'') \<Longrightarrow> c \<notin> set whitespace"
  "c \<in> set (quote # '',}]{[:'') \<Longrightarrow> c \<notin> set numeric"
  "c \<in> set (quote # '',}]{[:'') \<Longrightarrow> c \<noteq> NUL"
  using chars_apart by auto

lemma NUL_chars [simp]:
  "NUL \<noteq> CHR 0x22" "CHR 0x22 \<noteq> NUL"
  "NUL \<noteq> CHR '',''" "CHR '','' \<noteq> NUL"
  "NUL \<noteq> CHR ''}''" "CHR ''}'' \<noteq> NUL"
  "NUL \<noteq> CHR '']''" "CHR '']'' \<noteq> NUL"
  "NUL \<noteq> CHR ''{''" "CHR ''{'' \<noteq> NUL"
  "NUL \<noteq> CHR ''[''" "CHR ''['' \<noteq> NUL"
  "NUL \<noteq> CHR '':''" "CHR '':'' \<noteq> NUL"
  by (simp_all add: NUL_def)

lemma numeric_apart:
  "x \<in> set numeric \<Longrightarrow> x \<notin> set whitespace \<and> x \<notin> set (quote # '',}]{[:'') \<and> x \<noteq> NUL"
  by (auto simp: numeric_def whitespace_def NUL_def)

lemma v_parses_number:
  assumes "blank w" "ds \<noteq> []" "set ds \<subseteq> set numeric"
  shows "v_parses f (w @ ds) [ENumber ds]"
  unfolding v_parses_def
proof (intro allI impI)
  fix pre rest h p t
  assume t: "t = pre @ (w @ ds) @ rest" and nul: "NUL \<notin> set ((w @ ds) @ rest)" and "ended (w @ ds) rest"
  have d: "first (ds @ rest) \<in> set numeric" "ds @ rest \<noteq> []"
    using assms(2,3) by (cases ds; simp)+
  have "last ds \<in> set numeric"
    using assms(2,3) by auto
  then have "first rest \<in> set after_prim"
    using \<open>ended (w @ ds) rest\<close> assms(2) numeric_apart [of "last ds"] by (auto simp: ended_def)
  then have r: "first rest \<notin> set numeric" "first rest \<noteq> NUL"
    using after_prim_facts by auto
  have "p_number (total_handler f) t (len t - 1) (moved (pre @ w) h p) =
      Inr (True, moved (pre @ w @ ds) (f (ENumber ds) h) p)"
    using p_number_app [OF assms(3) r, of t "pre @ w" f h p] t by simp
  moreover have "p_value (Suc 0) (total_handler f) t (len t - 1) (moved pre h p) =
      Some (p_number (total_handler f) t (len t - 1) (moved (pre @ w) h p))"
    using value_at [of w "ds @ rest" t pre 0 "total_handler f" h p] assms(1) nul t d
      numeric_apart [OF d(1)] by (simp add: Let_def)
  ultimately show "\<exists>n. p_value n (total_handler f) t (len t - 1) (moved pre h p) =
      Some (Inr (True, moved (pre @ w @ ds) (fold f [ENumber ds] h) p))"
    by (intro exI [of _ "Suc 0"]) simp
qed

lemma v_parses_string:
  assumes "blank w" "str_body b False"
  shows "v_parses f (w @ quote # b @ [quote]) [EString b False]"
  unfolding v_parses_def
proof (intro allI impI)
  fix pre rest h p t
  assume t: "t = pre @ (w @ quote # b @ [quote]) @ rest" and nul: "NUL \<notin> set ((w @ quote # b @ [quote]) @ rest)"
  have "p_string (total_handler f) t (len t - 1) False (moved (pre @ w) h p) =
      Inr (True, moved (pre @ w @ quote # b @ [quote]) (f (EString b False) h) p)"
    using p_string_app [OF assms(2), of t "pre @ w" rest f False h p] t by simp
  moreover have "p_value (Suc 0) (total_handler f) t (len t - 1) (moved pre h p) =
      Some (p_string (total_handler f) t (len t - 1) False (moved (pre @ w) h p))"
    using value_at [of w "quote # b @ quote # rest" t pre 0 "total_handler f" h p] assms(1) nul t
    by (simp add: Let_def)
  ultimately show "\<exists>n. p_value n (total_handler f) t (len t - 1) (moved pre h p) =
      Some (Inr (True, moved (pre @ w @ quote # b @ [quote]) (fold f [EString b False] h) p))"
    by (intro exI [of _ "Suc 0"]) simp
qed

lemma prims_start: "m \<in> set prims \<Longrightarrow> \<exists>x u. m = x # u \<and> x \<in> set ''ftn''"
  by (auto simp: prims_def)

lemma ftn_apart: "x \<in> set ''ftn'' \<Longrightarrow> x \<notin> set whitespace \<and> x \<notin> set (quote # '',}]{[:'') \<and> x \<noteq> NUL \<and> x \<notin> set numeric"
  by (auto simp: numeric_def whitespace_def NUL_def)

lemma v_parses_prim:
  assumes "blank w" "m \<in> set prims"
  shows "v_parses f (w @ m) [EPrimitive m]"
  unfolding v_parses_def
proof (intro allI impI)
  fix pre rest h p t
  assume t: "t = pre @ (w @ m) @ rest" and nul: "NUL \<notin> set ((w @ m) @ rest)" and e: "ended (w @ m) rest"
  from prims_start [OF assms(2)] obtain x u where x: "m = x # u" "x \<in> set ''ftn''" by blast
  have "last m \<notin> set (quote # ''}]'')"
    using assms(2) by (auto simp: prims_def)
  then have "first rest \<in> set after_prim"
    using e x by (simp add: ended_def)
  then have "p_primitive (total_handler f) t (moved (pre @ w) h p) =
      Inr (True, moved (pre @ w @ m) (f (EPrimitive m) h) p)"
    using p_primitive_app [OF assms(2), of rest f "pre @ w" h p] t by (simp add: c_strchr_def)
  moreover have "p_value (Suc 0) (total_handler f) t (len t - 1) (moved pre h p) =
      Some (p_primitive (total_handler f) t (moved (pre @ w) h p))"
    using value_at [of w "m @ rest" t pre 0 "total_handler f" h p] assms(1) nul t x ftn_apart [OF x(2)]
    by (simp add: Let_def)
  ultimately show "\<exists>n. p_value n (total_handler f) t (len t - 1) (moved pre h p) =
      Some (Inr (True, moved (pre @ w @ m) (fold f [EPrimitive m] h) p))"
    by (intro exI [of _ "Suc 0"]) simp
qed

lemma v_parses_object:
  assumes "blank w" "m_parses f x evs"
  shows "v_parses f (w @ CHR ''{'' # x @ ''}'') (EObject True # evs @ [EObject False])"
  unfolding v_parses_def
proof (intro allI impI)
  fix pre rest h p t
  assume t: "t = pre @ (w @ CHR ''{'' # x @ ''}'') @ rest"
    and nul: "NUL \<notin> set ((w @ CHR ''{'' # x @ ''}'') @ rest)"
  obtain n where n: "p_object n (total_handler f) t (len t - 1)
      (moved (pre @ w @ ''{'') (f (EObject True) h) p) =
      Some (Inr (True, moved (pre @ w @ ''{'' @ x @ ''}'') (f (EObject False) (fold f evs (f (EObject True) h))) p))"
    using m_parsesD [OF assms(2), of t "pre @ w @ ''{''" rest "f (EObject True) h" p] nul t by auto
  have "p_value (Suc n) (total_handler f) t (len t - 1) (moved pre h p) =
      p_object n (total_handler f) t (len t - 1) (moved (pre @ w @ ''{'') (f (EObject True) h) p)"
    using value_at [of w "CHR ''{'' # x @ ''}'' @ rest" t pre n "total_handler f" h p] assms(1) nul t
    by (simp add: Let_def andthen_def)
  with n show "\<exists>n. p_value n (total_handler f) t (len t - 1) (moved pre h p) =
      Some (Inr (True, moved (pre @ w @ CHR ''{'' # x @ ''}'')
        (fold f (EObject True # evs @ [EObject False]) h) p))"
    by (intro exI [of _ "Suc n"]) simp
qed

lemma v_parses_array:
  assumes "blank w" "e_parses f x evs"
  shows "v_parses f (w @ CHR ''['' # x @ '']'') (EArray True # evs @ [EArray False])"
  unfolding v_parses_def
proof (intro allI impI)
  fix pre rest h p t
  assume t: "t = pre @ (w @ CHR ''['' # x @ '']'') @ rest"
    and nul: "NUL \<notin> set ((w @ CHR ''['' # x @ '']'') @ rest)"
  obtain n where n: "p_array n (total_handler f) t (len t - 1)
      (moved (pre @ w @ ''['') (f (EArray True) h) p) =
      Some (Inr (True, moved (pre @ w @ ''['' @ x @ '']'') (f (EArray False) (fold f evs (f (EArray True) h))) p))"
    using e_parsesD [OF assms(2), of t "pre @ w @ ''[''" rest "f (EArray True) h" p] nul t by auto
  have "p_value (Suc n) (total_handler f) t (len t - 1) (moved pre h p) =
      p_array n (total_handler f) t (len t - 1) (moved (pre @ w @ ''['') (f (EArray True) h) p)"
    using value_at [of w "CHR ''['' # x @ '']'' @ rest" t pre n "total_handler f" h p] assms(1) nul t
    by (simp add: Let_def andthen_def)
  with n show "\<exists>n. p_value n (total_handler f) t (len t - 1) (moved pre h p) =
      Some (Inr (True, moved (pre @ w @ CHR ''['' # x @ '']'')
        (fold f (EArray True # evs @ [EArray False]) h) p))"
    by (intro exI [of _ "Suc n"]) simp
qed

lemma m_parses_nil:
  assumes "blank w"
  shows "m_parses f w []"
  unfolding m_parses_def
proof (intro allI impI)
  fix pre rest h p t
  assume t: "t = pre @ w @ CHR ''}'' # rest" and nul: "NUL \<notin> set (w @ rest)"
  have "p_close (on_object (total_handler f) False) (CHR ''}'') CLOSE_BRACE_EXPECTED t (len t - 1) (moved (pre @ w) h p)
      = Inr (True, moved (pre @ w @ ''}'') (f (EObject False) h) p)"
    using p_close_app [of "[]" "CHR ''}''" t "pre @ w" rest "on_object (total_handler f) False" h "f (EObject False) h"] t by simp
  then show "\<exists>n. p_object n (total_handler f) t (len t - 1) (moved pre h p) =
      Some (Inr (True, moved (pre @ w @ ''}'') (f (EObject False) (fold f [] h)) p))"
    using object_at [of w "CHR ''}'' # rest" t pre 0 "total_handler f" h p] assms nul t
    by (intro exI [of _ "Suc 0"]) (simp add: Let_def)
qed

lemma e_parses_nil:
  assumes "blank w"
  shows "e_parses f w []"
  unfolding e_parses_def
proof (intro allI impI)
  fix pre rest h p t
  assume t: "t = pre @ w @ CHR '']'' # rest" and nul: "NUL \<notin> set (w @ rest)"
  have "p_close (on_array (total_handler f) False) (CHR '']'') CLOSE_BRACKET_EXPECTED t (len t - 1) (moved (pre @ w) h p)
      = Inr (True, moved (pre @ w @ '']'') (f (EArray False) h) p)"
    using p_close_app [of "[]" "CHR '']''" t "pre @ w" rest "on_array (total_handler f) False" h "f (EArray False) h"] t by simp
  then show "\<exists>n. p_array n (total_handler f) t (len t - 1) (moved pre h p) =
      Some (Inr (True, moved (pre @ w @ '']'') (f (EArray False) (fold f [] h)) p))"
    using array_at [of w "CHR '']'' # rest" t pre 0 "total_handler f" h p] assms nul t
    by (intro exI [of _ "Suc 0"]) (simp add: Let_def)
qed

text \<open>One member, up to and including its value; then whatever follows it.\<close>

lemma member_step:
  assumes "blank w1" "str_body b False" "blank w2" "v_parses f v evs" "ended v rest"
    and t: "t = pre @ w1 @ quote # b @ quote # w2 @ CHR '':'' # v @ rest"
    and nul: "NUL \<notin> set (w1 @ quote # b @ quote # w2 @ CHR '':'' # v @ rest)"
  obtains n where "\<And>m. n \<le> m \<Longrightarrow>
    p_object (Suc m) (total_handler f) t (len t - 1) (moved pre h p) =
    obind (Some (p_skip (CHR '','') t (len t - 1)
        (moved (pre @ w1 @ quote # b @ quote # w2 @ CHR '':'' # v) (fold f evs (f (EString b True) h)) p)))
      (\<lambda>(comma, p). if \<not> comma
        then Some (p_close (on_object (total_handler f) False) (CHR ''}'') CLOSE_BRACE_EXPECTED t (len t - 1) p)
        else p_object m (total_handler f) t (len t - 1) p)"
proof -
  let ?k = "pre @ w1 @ quote # b @ [quote]" and ?h = "f (EString b True) h"
  have str: "p_string (total_handler f) t (len t - 1) True (moved (pre @ w1) h p) = Inr (True, moved ?k ?h p)"
    using p_string_app [OF assms(2), of t "pre @ w1" "w2 @ CHR '':'' # v @ rest" f True h p] t by simp
  have colon: "p_skip (CHR '':'') t (len t - 1) (moved ?k ?h p) = Inr (True, moved (?k @ w2 @ '':'') ?h p)"
    by (rule p_skip_char [of w2 _ _ _ "v @ rest"]) (use assms(3) t in auto)
  obtain n where
    n: "p_value n (total_handler f) t (len t - 1) (moved (?k @ w2 @ '':'') ?h p) =
      Some (Inr (True, moved ((?k @ w2 @ '':'') @ v) (fold f evs ?h) p))"
    using v_parsesD [OF assms(4), of t "?k @ w2 @ '':''" rest ?h p] assms(5) nul t by auto
  have nul': "NUL \<notin> set (quote # b @ quote # w2 @ CHR '':'' # v @ rest)"
    using nul by auto
  show ?thesis
  proof (rule that [of n])
    fix m
    assume "n \<le> m"
    from value_fuel [OF n this] str colon show "p_object (Suc m) (total_handler f) t (len t - 1) (moved pre h p) =
    obind (Some (p_skip (CHR '','') t (len t - 1)
        (moved (pre @ w1 @ quote # b @ quote # w2 @ CHR '':'' # v) (fold f evs (f (EString b True) h)) p)))
      (\<lambda>(comma, p). if \<not> comma
        then Some (p_close (on_object (total_handler f) False) (CHR ''}'') CLOSE_BRACE_EXPECTED t (len t - 1) p)
        else p_object m (total_handler f) t (len t - 1) p)"
      using object_at [OF assms(1) nul' _ t, of m "total_handler f" h p]
      by (simp add: Let_def andthen_def)
  qed
qed

lemma m_parses_last:
  assumes "blank w1" "str_body b False" "blank w2" "v_parses f v evs" "blank w3"
  shows "m_parses f (w1 @ quote # b @ quote # w2 @ CHR '':'' # v @ w3) (EString b True # evs)"
  unfolding m_parses_def
proof (intro allI impI)
  fix pre rest h p t
  let ?x = "w1 @ quote # b @ quote # w2 @ CHR '':'' # v"
  let ?h = "fold f evs (f (EString b True) h)"
  assume t: "t = pre @ (w1 @ quote # b @ quote # w2 @ CHR '':'' # v @ w3) @ CHR ''}'' # rest"
    and nul: "NUL \<notin> set ((w1 @ quote # b @ quote # w2 @ CHR '':'' # v @ w3) @ rest)"
  obtain n where n: "p_object (Suc n) (total_handler f) t (len t - 1) (moved pre h p) =
    obind (Some (p_skip (CHR '','') t (len t - 1) (moved (pre @ ?x) ?h p)))
      (\<lambda>(comma, p). if \<not> comma
        then Some (p_close (on_object (total_handler f) False) (CHR ''}'') CLOSE_BRACE_EXPECTED t (len t - 1) p)
        else p_object n (total_handler f) t (len t - 1) p)"
    by (rule member_step [OF assms(1-4), of "w3 @ CHR ''}'' # rest" t pre h p])
      (use assms(5) t nul in \<open>auto intro: ended_mid\<close>)
  have "p_skip (CHR '','') t (len t - 1) (moved (pre @ ?x) ?h p) = Inr (False, moved ((pre @ ?x) @ w3) ?h p)"
    by (rule p_skip_other [of _ _ "CHR ''}'' # rest"]) (use assms(5) t nul in auto)
  moreover have "p_close (on_object (total_handler f) False) (CHR ''}'') CLOSE_BRACE_EXPECTED t (len t - 1)
      (moved ((pre @ ?x) @ w3) ?h p) = Inr (True, moved (((pre @ ?x) @ w3) @ [] @ ''}'') (f (EObject False) ?h) p)"
    by (rule p_close_app [of "[]" _ _ _ rest]) (use t in auto)
  ultimately show "\<exists>n. p_object n (total_handler f) t (len t - 1) (moved pre h p) =
      Some (Inr (True, moved (pre @ (w1 @ quote # b @ quote # w2 @ CHR '':'' # v @ w3) @ ''}'')
        (f (EObject False) (fold f (EString b True # evs) h)) p))"
    using n by (intro exI [of _ "Suc n"]) simp
qed

lemma m_parses_more:
  assumes "blank w1" "str_body b False" "blank w2" "v_parses f v evs" "blank w3" "m_parses f x evs'"
  shows "m_parses f (w1 @ quote # b @ quote # w2 @ CHR '':'' # v @ w3 @ CHR '','' # x) (EString b True # evs @ evs')"
  unfolding m_parses_def
proof (intro allI impI)
  fix pre rest h p t
  let ?x = "w1 @ quote # b @ quote # w2 @ CHR '':'' # v"
  let ?h = "fold f evs (f (EString b True) h)"
  assume t: "t = pre @ (w1 @ quote # b @ quote # w2 @ CHR '':'' # v @ w3 @ CHR '','' # x) @ CHR ''}'' # rest"
    and nul: "NUL \<notin> set ((w1 @ quote # b @ quote # w2 @ CHR '':'' # v @ w3 @ CHR '','' # x) @ rest)"
  obtain n where n: "\<And>m. n \<le> m \<Longrightarrow> p_object (Suc m) (total_handler f) t (len t - 1) (moved pre h p) =
    obind (Some (p_skip (CHR '','') t (len t - 1) (moved (pre @ ?x) ?h p)))
      (\<lambda>(comma, p). if \<not> comma
        then Some (p_close (on_object (total_handler f) False) (CHR ''}'') CLOSE_BRACE_EXPECTED t (len t - 1) p)
        else p_object m (total_handler f) t (len t - 1) p)"
    by (rule member_step [OF assms(1-4), of "w3 @ CHR '','' # x @ CHR ''}'' # rest" t pre h p])
      (use assms(5) t nul in \<open>auto intro: ended_mid\<close>)
  have comma: "p_skip (CHR '','') t (len t - 1) (moved (pre @ ?x) ?h p) = Inr (True, moved ((pre @ ?x) @ w3 @ '','') ?h p)"
    by (rule p_skip_char [of _ _ _ _ "x @ CHR ''}'' # rest"]) (use assms(5) t in auto)
  obtain n' where n': "p_object n' (total_handler f) t (len t - 1) (moved ((pre @ ?x) @ w3 @ '','') ?h p) =
      Some (Inr (True, moved (((pre @ ?x) @ w3 @ '','') @ x @ ''}'') (f (EObject False) (fold f evs' ?h)) p))"
    using m_parsesD [OF assms(6), of t "(pre @ ?x) @ w3 @ '',''" rest ?h p] nul t by auto
  from object_fuel [OF n', of "max n n'"] comma n [of "max n n'"]
  show "\<exists>n. p_object n (total_handler f) t (len t - 1) (moved pre h p) =
      Some (Inr (True, moved (pre @ (w1 @ quote # b @ quote # w2 @ CHR '':'' # v @ w3 @ CHR '','' # x) @ ''}'')
        (f (EObject False) (fold f (EString b True # evs @ evs') h)) p))"
    by (intro exI [of _ "Suc (max n n')"]) simp
qed

lemma element_step:
  assumes "v_parses f v evs" "ended v rest" "gvalue v evs"
    and t: "t = pre @ v @ rest" and nul: "NUL \<notin> set (v @ rest)"
  obtains n where "\<And>m. n \<le> m \<Longrightarrow>
    p_array (Suc m) (total_handler f) t (len t - 1) (moved pre h p) =
    obind (Some (p_skip (CHR '','') t (len t - 1) (moved (pre @ v) (fold f evs h) p)))
      (\<lambda>(comma, p). if \<not> comma
        then Some (p_close (on_array (total_handler f) False) (CHR '']'') CLOSE_BRACKET_EXPECTED t (len t - 1) p)
        else p_array m (total_handler f) t (len t - 1) p)"
proof -
  from gvalue_start [OF assms(3)] obtain w x u where
    v: "v = w @ x # u" "blank w" "x \<notin> set whitespace" "x \<notin> set '',}]:''" "x \<noteq> NUL" by blast
  obtain n where
    n: "p_value n (total_handler f) t (len t - 1) (moved pre h p) = Some (Inr (True, moved (pre @ v) (fold f evs h) p))"
    using v_parsesD [OF assms(1) t nul assms(2)] by blast
  have nul': "NUL \<notin> set (x # u @ rest)" and t': "t = pre @ w @ x # u @ rest"
    using nul t v by auto
  show ?thesis
  proof (rule that [of n])
    fix m
    assume "n \<le> m"
    have "p_value m (total_handler f) t (len t - 1) (moved (pre @ w) h p) =
        Some (Inr (True, moved (pre @ v) (fold f evs h) p))"
      using value_after_blank [of w "x # u @ rest" t pre m "total_handler f" h p] value_fuel [OF n \<open>n \<le> m\<close>] v nul' t'
      by simp
    then show "p_array (Suc m) (total_handler f) t (len t - 1) (moved pre h p) =
    obind (Some (p_skip (CHR '','') t (len t - 1) (moved (pre @ v) (fold f evs h) p)))
      (\<lambda>(comma, p). if \<not> comma
        then Some (p_close (on_array (total_handler f) False) (CHR '']'') CLOSE_BRACKET_EXPECTED t (len t - 1) p)
        else p_array m (total_handler f) t (len t - 1) p)"
      using array_at [OF v(2) nul' _ t', of m "total_handler f" h p] v(3,4)
      by (simp add: Let_def andthen_def)
  qed
qed

lemma e_parses_last:
  assumes "v_parses f v evs" "gvalue v evs" "blank w"
  shows "e_parses f (v @ w) evs"
  unfolding e_parses_def
proof (intro allI impI)
  fix pre rest h p t
  assume t: "t = pre @ (v @ w) @ CHR '']'' # rest" and nul: "NUL \<notin> set ((v @ w) @ rest)"
  obtain n where n: "p_array (Suc n) (total_handler f) t (len t - 1) (moved pre h p) =
    obind (Some (p_skip (CHR '','') t (len t - 1) (moved (pre @ v) (fold f evs h) p)))
      (\<lambda>(comma, p). if \<not> comma
        then Some (p_close (on_array (total_handler f) False) (CHR '']'') CLOSE_BRACKET_EXPECTED t (len t - 1) p)
        else p_array n (total_handler f) t (len t - 1) p)"
    by (rule element_step [OF assms(1) _ assms(2), of "w @ CHR '']'' # rest" t pre h p])
      (use assms(3) t nul in \<open>auto intro: ended_mid\<close>)
  have "p_skip (CHR '','') t (len t - 1) (moved (pre @ v) (fold f evs h) p) =
      Inr (False, moved ((pre @ v) @ w) (fold f evs h) p)"
    by (rule p_skip_other [of _ _ "CHR '']'' # rest"]) (use assms(3) t nul in auto)
  moreover have "p_close (on_array (total_handler f) False) (CHR '']'') CLOSE_BRACKET_EXPECTED t (len t - 1)
      (moved ((pre @ v) @ w) (fold f evs h) p) =
      Inr (True, moved (((pre @ v) @ w) @ [] @ '']'') (f (EArray False) (fold f evs h)) p)"
    by (rule p_close_app [of "[]" _ _ _ rest]) (use t in auto)
  ultimately show "\<exists>n. p_array n (total_handler f) t (len t - 1) (moved pre h p) =
      Some (Inr (True, moved (pre @ (v @ w) @ '']'') (f (EArray False) (fold f evs h)) p))"
    using n by (intro exI [of _ "Suc n"]) simp
qed

lemma e_parses_more:
  assumes "v_parses f v evs" "gvalue v evs" "blank w" "e_parses f x evs'"
  shows "e_parses f (v @ w @ CHR '','' # x) (evs @ evs')"
  unfolding e_parses_def
proof (intro allI impI)
  fix pre rest h p t
  assume t: "t = pre @ (v @ w @ CHR '','' # x) @ CHR '']'' # rest" and nul: "NUL \<notin> set ((v @ w @ CHR '','' # x) @ rest)"
  obtain n where n: "\<And>m. n \<le> m \<Longrightarrow> p_array (Suc m) (total_handler f) t (len t - 1) (moved pre h p) =
    obind (Some (p_skip (CHR '','') t (len t - 1) (moved (pre @ v) (fold f evs h) p)))
      (\<lambda>(comma, p). if \<not> comma
        then Some (p_close (on_array (total_handler f) False) (CHR '']'') CLOSE_BRACKET_EXPECTED t (len t - 1) p)
        else p_array m (total_handler f) t (len t - 1) p)"
    by (rule element_step [OF assms(1) _ assms(2), of "w @ CHR '','' # x @ CHR '']'' # rest" t pre h p])
      (use assms(3) t nul in \<open>auto intro: ended_mid\<close>)
  have comma: "p_skip (CHR '','') t (len t - 1) (moved (pre @ v) (fold f evs h) p) =
      Inr (True, moved ((pre @ v) @ w @ '','') (fold f evs h) p)"
    by (rule p_skip_char [of _ _ _ _ "x @ CHR '']'' # rest"]) (use assms(3) t in auto)
  obtain n' where
    n': "p_array n' (total_handler f) t (len t - 1) (moved ((pre @ v) @ w @ '','') (fold f evs h) p) =
      Some (Inr (True, moved (((pre @ v) @ w @ '','') @ x @ '']'') (f (EArray False) (fold f evs' (fold f evs h))) p))"
    using e_parsesD [OF assms(4), of t "(pre @ v) @ w @ '',''" rest "fold f evs h" p] nul t by auto
  from array_fuel [OF n', of "max n n'"] comma n [of "max n n'"]
  show "\<exists>n. p_array n (total_handler f) t (len t - 1) (moved pre h p) =
      Some (Inr (True, moved (pre @ (v @ w @ CHR '','' # x) @ '']'') (f (EArray False) (fold f (evs @ evs') h)) p))"
    by (intro exI [of _ "Suc (max n n')"]) simp
qed

lemma grammar_parses:
  "gvalue v evs \<Longrightarrow> v_parses f v evs"
  "gmembers x evs \<Longrightarrow> m_parses f x evs"
  "gelems x evs \<Longrightarrow> e_parses f x evs"
  by (induction rule: gvalue_gmembers_gelems.inducts)
    (blast intro: v_parses_number v_parses_string v_parses_prim v_parses_object v_parses_array
      m_parses_nil m_parses_last m_parses_more e_parses_nil e_parses_last e_parses_more)+

lemma json_parse_complete':
  assumes "gvalue v evs" "NUL \<notin> set (v @ rest)" "ended v rest"
  shows "parse_text (total_handler f) (v @ rest) h =
    Some (Inr (True, \<lparr>pos = len v, perr = P_OKAY, perr_pos = None, hstate = fold f evs h\<rparr>))"
proof -
  let ?p = "\<lparr>pos = 0, perr = P_OKAY, perr_pos = None, hstate = h\<rparr>" and ?t = "v @ rest"
  have p: "moved [] h ?p = ?p" "moved v h' ?p = \<lparr>pos = len v, perr = P_OKAY, perr_pos = None, hstate = h'\<rparr>" for h'
    by (simp_all add: moved_def)
  obtain n where
    n: "p_value n (total_handler f) ?t (len ?t - 1) (moved [] h ?p) = Some (Inr (True, moved v (fold f evs h) ?p))"
    using v_parsesD [OF grammar_parses(1) [OF assms(1)] _ assms(2,3), where t = ?t and pre = "[]" and f = f and h = h and p = ?p] by auto
  obtain r where r: "parse (total_handler f) ?t 0 (len ?t - 1) h = Some r"
      "p_value (max n (parse_fuel ?t)) (total_handler f) ?t (len ?t - 1) ?p = Some r"
    using json_parse_ends [of 0 ?t "max n (parse_fuel ?t)"] by force
  with value_fuel [OF n, of "max n (parse_fuel ?t)"] show ?thesis
    by (simp add: parse_text_def p)
qed

text \<open>
  C2: the parser accepts every text of the grammar, wherever the value ends before the rest of the
  text, tells the handler exactly the events the text stands for, in order, and stops behind the
  value.
\<close>

theorem json_parse_complete:
  assumes "gvalue v evs" "NUL \<notin> set (v @ rest)" "ended v rest"
  shows "parse_text (total_handler f) (v @ rest) h =
    Some (Inr (True, \<lparr>pos = len v, perr = P_OKAY, perr_pos = None, hstate = fold f evs h\<rparr>))"
  by (rule json_parse_complete' [OF assms])

theorem json_parse_complete_witness:
  "parse_text (total_handler (\<lambda>ev h. h @ [ev])) ''{\"a\": [1,null,] }'' [] =
    Some (Inr (True, \<lparr>pos = 17, perr = P_OKAY, perr_pos = None,
      hstate = [EObject True, EString ''a'' True, EArray True, ENumber ''1'', EPrimitive ''null'',
        EArray False, EObject False]\<rparr>))"
proof -
  have one: "gvalue ([] @ ''1'') [ENumber ''1'']"
    by (rule g_number) (simp_all add: numeric_def)
  have nul: "gvalue ([] @ ''null'') [EPrimitive ''null'']"
    by (rule g_prim) (simp_all add: prims_def)
  have "gelems (''null'' @ [] @ CHR '','' # []) ([EPrimitive ''null''] @ [])"
    by (rule ge_more) (use nul ge_nil [of "[]"] in simp_all)
  then have "gelems (''1'' @ [] @ CHR '','' # ''null,'') ([ENumber ''1''] @ [EPrimitive ''null''])"
    by (intro ge_more) (use one in simp_all)
  then have "gvalue ('' '' @ CHR ''['' # ''1,null,'' @ '']'')
      (EArray True # [ENumber ''1'', EPrimitive ''null''] @ [EArray False])"
    by (intro g_array) (simp_all add: whitespace_def)
  then have "gmembers ([] @ quote # ''a'' @ quote # [] @ CHR '':'' # '' [1,null,]'' @ '' '')
      (EString ''a'' True # [EArray True, ENumber ''1'', EPrimitive ''null'', EArray False])"
    by (intro gm_last) (simp_all add: whitespace_def)
  then have "gvalue ([] @ CHR ''{'' # ''\"a\": [1,null,] '' @ ''}'')
      (EObject True # [EString ''a'' True, EArray True, ENumber ''1'', EPrimitive ''null'', EArray False]
        @ [EObject False])"
    by (intro g_object) simp_all
  from json_parse_complete [OF this, of "[]" "\<lambda>ev h. h @ [ev]" "[]"] show ?thesis
    by (simp add: ended_def NUL_def)
qed

subsection \<open>Every accepted text is in the grammar\<close>

lemma p_skip_cases:
  assumes "c \<notin> set whitespace" "c \<noteq> NUL" "NUL \<notin> set u" "t = pre @ u"
  shows "\<exists>w v. blank w \<and>
    (u = w @ c # v \<and> p_skip c t (len t - 1) (moved pre h p) = Inr (True, moved (pre @ w @ [c]) h p)
    \<or> u = w @ v \<and> p_skip c t (len t - 1) (moved pre h p) = Inr (False, moved (pre @ w) h p))"
proof -
  obtain w v where wv: "u = w @ v" "blank w" "v = [] \<or> first v \<notin> set whitespace"
    using blank_split by metis
  show ?thesis
  proof (cases "first v = c")
    case True
    with assms(2) obtain v' where v': "v = c # v'"
      by (cases v) auto
    have "p_skip c t (len t - 1) (moved pre h p) = Inr (True, moved (pre @ w @ [c]) h p)"
      by (rule p_skip_char [OF wv(2) assms(1), of _ _ v']) (simp add: wv(1) v' assms(4))
    with wv v' show ?thesis
      by (intro exI [of _ w] exI [of _ v'] conjI disjI1) simp_all
  next
    case False
    have "p_skip c t (len t - 1) (moved pre h p) = Inr (False, moved (pre @ w) h p)"
      by (rule p_skip_other [OF wv(2) assms(1), of v]) (use wv(1,3) assms(3,4) False in auto)
    with wv show ?thesis
      by (intro exI [of _ w] exI [of _ v] conjI disjI2) simp_all
  qed
qed

lemma p_close_inv:
  assumes "p_close g c er t (len t - 1) (moved pre h p) = Inr (True, p')" "t = pre @ u" "NUL \<notin> set u"
    "c \<notin> set whitespace" "c \<noteq> NUL" "g h = Inr (True, h')"
  shows "\<exists>w v. u = w @ c # v \<and> blank w \<and> p' = moved (pre @ w @ [c]) h' p"
proof -
  obtain w v where wv: "blank w"
    "u = w @ c # v \<and> p_skip c t (len t - 1) (moved pre h p) = Inr (True, moved (pre @ w @ [c]) h p)
    \<or> u = w @ v \<and> p_skip c t (len t - 1) (moved pre h p) = Inr (False, moved (pre @ w) h p)"
    using p_skip_cases [OF assms(4,5,3,2), of h p] by metis
  from wv(2) show ?thesis
  proof (elim disjE conjE)
    assume "u = w @ c # v" "p_skip c t (len t - 1) (moved pre h p) = Inr (True, moved (pre @ w @ [c]) h p)"
    with assms(1,6) wv(1) show ?thesis
      by (intro exI [of _ w] exI [of _ v]) (simp add: p_close_def)
  next
    assume "p_skip c t (len t - 1) (moved pre h p) = Inr (False, moved (pre @ w) h p)"
    with assms(1) show ?thesis
      by (simp add: p_close_def p_error_def)
  qed
qed

lemma number_loop_overrun:
  "set ds \<subseteq> set numeric \<Longrightarrow> number_loop (pre @ ds) (len pre) ne = Inl OutOfBounds"
proof (induction ds arbitrary: pre ne)
  case Nil
  have "rd pre (len pre) = Inr NUL" "rd pre (len pre + 1) = Inl OutOfBounds"
    using rd_app [of pre "[]"] by (simp_all add: rd_def)
  then show ?case
    by (simp add: number_loop.simps [of _ "len pre"] number_loop.simps [of _ "len pre + 1"])
next
  case (Cons d ds)
  have "rd (pre @ d # ds) (len pre) = Inr d"
    using rd_app [of pre "d # ds"] by simp
  with Cons.IH [of "pre @ [d]" "Some (len pre)"] Cons.prems show ?case
    by (subst number_loop.simps) (auto simp: c_strchr_def algebra_simps)
qed

definition v_sound :: "(event \<Rightarrow> 'h \<Rightarrow> 'h) \<Rightarrow> nat \<Rightarrow> bool" where
  "v_sound f n \<longleftrightarrow>
     (\<forall>t pre u h p p'. t = pre @ u \<longrightarrow> NUL \<notin> set u \<longrightarrow>
        p_value n (total_handler f) t (len t - 1) (moved pre h p) = Some (Inr (True, p')) \<longrightarrow>
        (\<exists>v rest evs. u = v @ rest \<and> gvalue v evs \<and> p' = moved (pre @ v) (fold f evs h) p) \<or>
        blank u \<and> p' = moved t (f (ENumber []) h) p)"

definition m_sound :: "(event \<Rightarrow> 'h \<Rightarrow> 'h) \<Rightarrow> nat \<Rightarrow> bool" where
  "m_sound f n \<longleftrightarrow>
     (\<forall>t pre u h p p'. t = pre @ u \<longrightarrow> NUL \<notin> set u \<longrightarrow>
        p_object n (total_handler f) t (len t - 1) (moved pre h p) = Some (Inr (True, p')) \<longrightarrow>
        (\<exists>x rest evs. u = x @ CHR ''}'' # rest \<and> gmembers x evs \<and>
           p' = moved (pre @ x @ ''}'') (f (EObject False) (fold f evs h)) p))"

definition e_sound :: "(event \<Rightarrow> 'h \<Rightarrow> 'h) \<Rightarrow> nat \<Rightarrow> bool" where
  "e_sound f n \<longleftrightarrow>
     (\<forall>t pre u h p p'. t = pre @ u \<longrightarrow> NUL \<notin> set u \<longrightarrow>
        p_array n (total_handler f) t (len t - 1) (moved pre h p) = Some (Inr (True, p')) \<longrightarrow>
        (\<exists>x rest evs. u = x @ CHR '']'' # rest \<and> gelems x evs \<and>
           p' = moved (pre @ x @ '']'') (f (EArray False) (fold f evs h)) p))"

lemma p_number_inv:
  assumes "p_number (total_handler f) t (len t - 1) (moved pre h p) = Inr (True, p')"
    "t = pre @ u" "NUL \<notin> set u" "first u \<in> set numeric" "u \<noteq> []"
  shows "\<exists>ds v. u = ds @ v \<and> ds \<noteq> [] \<and> set ds \<subseteq> set numeric \<and> p' = moved (pre @ ds) (f (ENumber ds) h) p"
proof -
  define ds v where "ds = takeWhile (\<lambda>x. x \<in> set numeric) u" and "v = dropWhile (\<lambda>x. x \<in> set numeric) u"
  then have u: "u = ds @ v" and ds: "set ds \<subseteq> set numeric"
    by (auto dest: set_takeWhileD)
  have v: "first v \<notin> set numeric" if "v \<noteq> []"
    using that hd_dropWhile [of "\<lambda>x. x \<in> set numeric" u] by (cases v) (auto simp: v_def)
  have "ds \<noteq> []"
    using assms(4,5) by (cases u) (auto simp: ds_def)
  show ?thesis
  proof (cases "v = []")
    case True
    then have "number_loop t (len pre) None = Inl OutOfBounds"
      using number_loop_overrun [OF ds, of pre None] assms(2) u by simp
    then show ?thesis
      using assms(1,2,5) by (cases u) (simp_all add: p_number_def)
  next
    case False
    have "first v \<noteq> NUL"
      using False assms(3) u by (cases v) auto
    with p_number_app [OF ds v [OF False] this, of t pre f h p] assms(1,2) u \<open>ds \<noteq> []\<close> ds show ?thesis
      by (intro exI [of _ ds] exI [of _ v]) simp
  qed
qed

lemma v_sound_step:
  assumes "m_sound f n" "e_sound f n"
  shows "v_sound f (Suc n)"
  unfolding v_sound_def
proof (intro allI impI)
  fix t pre u h p p'
  assume t: "t = pre @ u" and nul: "NUL \<notin> set u"
    and run: "p_value (Suc n) (total_handler f) t (len t - 1) (moved pre h p) = Some (Inr (True, p'))"
  let ?goal = "(\<exists>v rest evs. u = v @ rest \<and> gvalue v evs \<and> p' = moved (pre @ v) (fold f evs h) p) \<or>
        blank u \<and> p' = moved t (f (ENumber []) h) p"
  obtain w v where w: "u = w @ v" "blank w" "v = [] \<or> first v \<notin> set whitespace"
    using blank_split by metis
  have nulv: "NUL \<notin> set v" and t': "t = pre @ w @ v" and w3: "v \<noteq> [] \<longrightarrow> first v \<notin> set whitespace"
    using nul t w by auto
  have at: "(let x = first v; q = moved (pre @ w) h p
     in if x = NUL \<or> x \<in> set numeric then Some (p_number (total_handler f) t (len t - 1) q)
        else if x = CHR ''{'' then p_object n (total_handler f) t (len t - 1) (moved (pre @ w @ [x]) (f (EObject True) h) p)
        else if x = CHR ''['' then p_array n (total_handler f) t (len t - 1) (moved (pre @ w @ [x]) (f (EArray True) h) p)
        else if x = quote then Some (p_string (total_handler f) t (len t - 1) False q)
        else Some (p_primitive (total_handler f) t q)) = Some (Inr (True, p'))"
    using run unfolding value_at [OF w(2) nulv w3 t'] Let_def by (auto simp: andthen_def split: if_splits)
  show ?goal
  proof (cases v)
    case Nil
    then have tw: "t = pre @ w" using t' by simp
    have "p' = moved t (f (ENumber []) h) p"
      using at p_number_empty [of f t h p] Nil by (simp add: Let_def tw)
    then show ?thesis using w Nil by simp
  next
    case (Cons x v')
    then have x: "first v = x" "v \<noteq> []" "x \<noteq> NUL" using nulv by auto
    consider (num) "x \<in> set numeric" | (obj) "x = CHR ''{''" | (arr) "x = CHR ''[''" | (str) "x = quote"
      | (prim) "x \<notin> set numeric" "x \<noteq> CHR ''{''" "x \<noteq> CHR ''[''" "x \<noteq> quote"
      by blast
    then show ?thesis
    proof cases
      case num
      with at x have "p_number (total_handler f) t (len t - 1) (moved (pre @ w) h p) = Inr (True, p')"
        by (simp add: Let_def)
      from p_number_inv [OF this _ nulv] num x t' obtain ds r where
        "v = ds @ r" "ds \<noteq> []" "set ds \<subseteq> set numeric" "p' = moved ((pre @ w) @ ds) (f (ENumber ds) h) p"
        by auto
      with w g_number [OF w(2), of ds] show ?thesis
        by (intro disjI1 exI [of _ "w @ ds"] exI [of _ r] exI [of _ "[ENumber ds]"]) simp
    next
      case obj
      with at x have "p_object n (total_handler f) t (len t - 1) (moved (pre @ w @ ''{'') (f (EObject True) h) p) = Some (Inr (True, p'))"
        by (simp add: Let_def)
      moreover have "t = (pre @ w @ ''{'') @ v'" "NUL \<notin> set v'"
        using t' Cons obj nulv by auto
      ultimately obtain y rest evs where "v' = y @ CHR ''}'' # rest" "gmembers y evs"
          "p' = moved ((pre @ w @ ''{'') @ y @ ''}'') (f (EObject False) (fold f evs (f (EObject True) h))) p"
        using assms(1) unfolding m_sound_def by metis
      with w obj Cons g_object [OF w(2), of y evs] show ?thesis
        by (intro disjI1 exI [of _ "w @ CHR ''{'' # y @ ''}''"] exI [of _ rest]
            exI [of _ "EObject True # evs @ [EObject False]"]) simp
    next
      case arr
      with at x have "p_array n (total_handler f) t (len t - 1) (moved (pre @ w @ ''['') (f (EArray True) h) p) = Some (Inr (True, p'))"
        by (simp add: Let_def)
      moreover have "t = (pre @ w @ ''['') @ v'" "NUL \<notin> set v'"
        using t' Cons arr nulv by auto
      ultimately obtain y rest evs where "v' = y @ CHR '']'' # rest" "gelems y evs"
          "p' = moved ((pre @ w @ ''['') @ y @ '']'') (f (EArray False) (fold f evs (f (EArray True) h))) p"
        using assms(2) unfolding e_sound_def by metis
      with w arr Cons g_array [OF w(2), of y evs] show ?thesis
        by (intro disjI1 exI [of _ "w @ CHR ''['' # y @ '']''"] exI [of _ rest]
            exI [of _ "EArray True # evs @ [EArray False]"]) simp
    next
      case str
      with at x have s: "p_string (total_handler f) t (len t - 1) False (moved (pre @ w) h p) = Inr (True, p')"
        by (simp add: Let_def)
      have "t = (pre @ w) @ quote # v'" using t' Cons str by simp
      from p_string_inv [OF s this] obtain b r where b: "v' = b @ quote # r" "str_body b False" by blast
      have "p' = moved (pre @ w @ quote # b @ [quote]) (f (EString b False) h) p"
        using s p_string_app [OF b(2), of t "pre @ w" r f False h p] t' Cons str b(1) by simp
      with w str Cons b g_string [OF w(2) b(2)] show ?thesis
        by (intro disjI1 exI [of _ "w @ quote # b @ [quote]"] exI [of _ r] exI [of _ "[EString b False]"]) simp
    next
      case prim
      with at x have "p_primitive (total_handler f) ((pre @ w) @ v) (moved (pre @ w) h p) = Inr (True, p')"
        by (simp add: Let_def t')
      from p_primitive_inv [OF this] obtain m r where
        "v = m @ r" "m \<in> set prims" "p' = moved ((pre @ w) @ m) (f (EPrimitive m) h) p" by blast
      with w g_prim [OF w(2), of m] show ?thesis
        by (intro disjI1 exI [of _ "w @ m"] exI [of _ r] exI [of _ "[EPrimitive m]"]) simp
    qed
  qed
qed

text \<open>After a value: a comma and the next round, or the closing bracket.\<close>

lemma after_value:
  assumes run: "obind (Some (p_skip (CHR '','') t (len t - 1) (moved pre h p))) (\<lambda>(comma, p).
      if \<not> comma then Some (p_close g c er t (len t - 1) p) else loop p) = Some (Inr (True, p'))"
    and t: "t = pre @ u" and nul: "NUL \<notin> set u" and c: "c \<in> set ''}]''" and g: "g h = Inr (True, h')"
  shows "(\<exists>w v. u = w @ CHR '','' # v \<and> blank w \<and> loop (moved (pre @ w @ '','') h p) = Some (Inr (True, p'))) \<or>
    (\<exists>w v. u = w @ c # v \<and> blank w \<and> p' = moved (pre @ w @ [c]) h' p)"
proof -
  obtain w v where wv: "blank w"
    "u = w @ CHR '','' # v \<and> p_skip (CHR '','') t (len t - 1) (moved pre h p) = Inr (True, moved (pre @ w @ '','') h p)
    \<or> u = w @ v \<and> p_skip (CHR '','') t (len t - 1) (moved pre h p) = Inr (False, moved (pre @ w) h p)"
    using p_skip_cases [of "CHR '',''" u t pre h p] nul t by auto
  from wv(2) show ?thesis
  proof (elim disjE conjE)
    assume "u = w @ CHR '','' # v" "p_skip (CHR '','') t (len t - 1) (moved pre h p) = Inr (True, moved (pre @ w @ '','') h p)"
    with run wv(1) show ?thesis by auto
  next
    assume u: "u = w @ v" and "p_skip (CHR '','') t (len t - 1) (moved pre h p) = Inr (False, moved (pre @ w) h p)"
    with run have "p_close g c er t (len t - 1) (moved (pre @ w) h p) = Inr (True, p')"
      by simp
    from p_close_inv [OF this, of v h'] t u nul c g obtain w' v' where
      "v = w' @ c # v'" "blank w'" "p' = moved ((pre @ w) @ w' @ [c]) h' p"
      by auto
    with u wv(1) show ?thesis
      by (intro disjI2 exI [of _ "w @ w'"] exI [of _ v']) simp
  qed
qed

lemma value_then_inv:
  assumes vs: "v_sound f n" and g: "\<And>h. g h = Inr (True, k h)" and c: "c \<in> set ''}]''"
    and t: "t = pre @ u" and nul: "NUL \<notin> set u"
    and run: "andthen (p_value n (total_handler f) t (len t - 1) (moved pre h p)) (\<lambda>p.
      obind (Some (p_skip (CHR '','') t (len t - 1) p)) (\<lambda>(comma, p).
        if \<not> comma then Some (p_close g c er t (len t - 1) p) else loop p)) = Some (Inr (True, p'))"
  shows "\<exists>y evs w v. gvalue y evs \<and> blank w \<and>
    (u = y @ w @ CHR '','' # v \<and> loop (moved (pre @ y @ w @ '','') (fold f evs h) p) = Some (Inr (True, p')) \<or>
     u = y @ w @ c # v \<and> p' = moved (pre @ y @ w @ [c]) (k (fold f evs h)) p)"
proof -
  from run obtain q where
    v: "p_value n (total_handler f) t (len t - 1) (moved pre h p) = Some (Inr (True, q))" and
    r: "obind (Some (p_skip (CHR '','') t (len t - 1) q)) (\<lambda>(comma, p).
        if \<not> comma then Some (p_close g c er t (len t - 1) p) else loop p) = Some (Inr (True, p'))"
    by (auto simp: andthen_def obind_Some_conv split: if_splits)
  from vs [unfolded v_sound_def, rule_format, OF t nul v]
  consider (val) y u' evs where "u = y @ u'" "gvalue y evs" "q = moved (pre @ y) (fold f evs h) p"
    | (none) "q = moved t (f (ENumber []) h) p"
    by blast
  then show ?thesis
  proof cases
    case none
    from after_value [OF r [unfolded none], of "[]", OF _ _ c g] show ?thesis by simp
  next
    case val
    have u': "t = (pre @ y) @ u'" "NUL \<notin> set u'"
      using t nul val(1) by auto
    from after_value [OF r [unfolded val(3)] u' c g] val(1,2) show ?thesis
      by (elim disjE exE conjE) (metis append.assoc)+
  qed
qed

lemma key_inv:
  assumes run: "andthen (Some (p_string (total_handler f) t (len t - 1) True (moved pre h p))) (\<lambda>p.
      obind (Some (p_skip (CHR '':'') t (len t - 1) p)) (\<lambda>(colon, p).
        if \<not> colon then Some (p_error COLON_EXPECTED p) else rest p)) = Some (Inr (True, p'))"
    and t: "t = pre @ quote # u" and nul: "NUL \<notin> set u"
  shows "\<exists>b w v. u = b @ quote # w @ CHR '':'' # v \<and> str_body b False \<and> blank w \<and>
    rest (moved (pre @ quote # b @ quote # w @ '':'') (f (EString b True) h) p) = Some (Inr (True, p'))"
proof -
  from run obtain q where q: "p_string (total_handler f) t (len t - 1) True (moved pre h p) = Inr (True, q)"
    and r: "obind (Some (p_skip (CHR '':'') t (len t - 1) q)) (\<lambda>(colon, p).
        if \<not> colon then Some (p_error COLON_EXPECTED p) else rest p) = Some (Inr (True, p'))"
    by (auto simp: andthen_def obind_Some_conv split: if_splits)
  from p_string_inv [OF q t] obtain b v where b: "u = b @ quote # v" "str_body b False" by blast
  let ?k = "pre @ quote # b @ [quote]" and ?h = "f (EString b True) h"
  have q': "q = moved ?k ?h p"
    using q p_string_app [OF b(2), of t pre v f True h p] t b(1) by simp
  have v: "NUL \<notin> set v" "t = ?k @ v"
    using nul t b(1) by auto
  obtain w v' where "blank w" and "v = w @ CHR '':'' # v' \<and> p_skip (CHR '':'') t (len t - 1) (moved ?k ?h p)
        = Inr (True, moved (?k @ w @ '':'') ?h p)
      \<or> v = w @ v' \<and> p_skip (CHR '':'') t (len t - 1) (moved ?k ?h p) = Inr (False, moved (?k @ w) ?h p)"
    using p_skip_cases [of "CHR '':''" v t ?k ?h p] v by auto
  then show ?thesis
    using r b unfolding q' by (intro exI [of _ b] exI [of _ w] exI [of _ v']) (auto simp: p_error_def)
qed

lemma m_sound_step:
  assumes vs: "v_sound f n" and ms: "m_sound f n"
  shows "m_sound f (Suc n)"
  unfolding m_sound_def
proof (intro allI impI)
  fix t pre u h p p'
  assume t: "t = pre @ u" and nul: "NUL \<notin> set u"
    and run: "p_object (Suc n) (total_handler f) t (len t - 1) (moved pre h p) = Some (Inr (True, p'))"
  let ?T = "total_handler f" and ?e = "len t - 1"
  let ?close = "p_close (on_object ?T False) (CHR ''}'') CLOSE_BRACE_EXPECTED t ?e"
  let ?goal = "\<exists>x rest evs. u = x @ CHR ''}'' # rest \<and> gmembers x evs \<and>
           p' = moved (pre @ x @ ''}'') (f (EObject False) (fold f evs h)) p"
  obtain w v where w: "u = w @ v" "blank w" "v = [] \<or> first v \<notin> set whitespace"
    using blank_split by metis
  have nulv: "NUL \<notin> set v" and t': "t = pre @ w @ v" and w3: "v \<noteq> [] \<longrightarrow> first v \<notin> set whitespace"
    using nul t w by auto
  consider (close) "?close (moved (pre @ w) h p) = Inr (True, p')"
    | (key) v1 where "v = quote # v1"
      "andthen (Some (p_string ?T t ?e True (moved (pre @ w) h p))) (\<lambda>p.
          obind (Some (p_skip (CHR '':'') t ?e p)) (\<lambda>(colon, p).
            if \<not> colon then Some (p_error COLON_EXPECTED p)
            else andthen (p_value n ?T t ?e p) (\<lambda>p. obind (Some (p_skip (CHR '','') t ?e p))
              (\<lambda>(comma, p). if \<not> comma then Some (?close p) else p_object n ?T t ?e p)))) = Some (Inr (True, p'))"
  proof (cases "w @ v = []")
    case True
    with run t w close show ?thesis
      by (simp add: p_object.simps(2) Let_def)
  next
    case False
    note at = run [unfolded object_at [OF w(2) nulv w3 t' False] Let_def]
    show ?thesis
      using at close key [of "tl v"] by (cases v) (auto simp: p_error_def split: if_splits)
  qed
  then show ?goal
  proof cases
    case close
    from p_close_inv [OF this, of v "f (EObject False) h"] t' nulv obtain w' v' where
      "v = w' @ CHR ''}'' # v'" "blank w'" "p' = moved ((pre @ w) @ w' @ ''}'') (f (EObject False) h) p"
      by auto
    with w gm_nil [of "w @ w'"] show ?thesis
      by (intro exI [of _ "w @ w'"] exI [of _ v'] exI [of _ "[]"]) simp
  next
    case key
    have "t = (pre @ w) @ quote # v1" "NUL \<notin> set v1"
      using t' key(1) nulv by auto
    from key_inv [OF key(2) this] obtain b w2 v2 where b: "v1 = b @ quote # w2 @ CHR '':'' # v2"
      "str_body b False" "blank w2" and
      r: "andthen (p_value n ?T t ?e (moved ((pre @ w) @ quote # b @ quote # w2 @ '':'') (f (EString b True) h) p))
        (\<lambda>p. obind (Some (p_skip (CHR '','') t ?e p))
              (\<lambda>(comma, p). if \<not> comma then Some (?close p) else p_object n ?T t ?e p)) = Some (Inr (True, p'))"
      by blast
    let ?k = "(pre @ w) @ quote # b @ quote # w2 @ '':''" and ?h = "f (EString b True) h"
    have v2: "t = ?k @ v2" "NUL \<notin> set v2"
      using t' key(1) b(1) nulv by auto
    from value_then_inv [OF vs _ _ v2 r, of "f (EObject False)"] obtain y evs w4 v4 where
      y: "gvalue y evs" "blank w4" and
      c: "v2 = y @ w4 @ CHR '','' # v4 \<and> p_object n ?T t ?e (moved (?k @ y @ w4 @ '','') (fold f evs ?h) p) = Some (Inr (True, p'))
       \<or> v2 = y @ w4 @ CHR ''}'' # v4 \<and> p' = moved (?k @ y @ w4 @ ''}'') (f (EObject False) (fold f evs ?h)) p"
      by auto
    from c show ?thesis
    proof (elim disjE conjE)
      assume "v2 = y @ w4 @ CHR ''}'' # v4" "p' = moved (?k @ y @ w4 @ ''}'') (f (EObject False) (fold f evs ?h)) p"
      with w key b gm_last [OF w(2) b(2,3) y] show ?thesis
        by (intro exI [of _ "w @ quote # b @ quote # w2 @ CHR '':'' # y @ w4"] exI [of _ v4]
            exI [of _ "EString b True # evs"]) simp
    next
      assume v4: "v2 = y @ w4 @ CHR '','' # v4"
        and o: "p_object n ?T t ?e (moved (?k @ y @ w4 @ '','') (fold f evs ?h) p) = Some (Inr (True, p'))"
      have "t = (?k @ y @ w4 @ '','') @ v4" "NUL \<notin> set v4"
        using v2 v4 by auto
      from ms [unfolded m_sound_def, rule_format, OF this o] obtain x rest evs' where
        x: "v4 = x @ CHR ''}'' # rest" "gmembers x evs'"
          "p' = moved ((?k @ y @ w4 @ '','') @ x @ ''}'') (f (EObject False) (fold f evs' (fold f evs ?h))) p"
        by blast
      with w key b v4 gm_more [OF w(2) b(2,3) y x(2)] show ?thesis
        by (intro exI [of _ "w @ quote # b @ quote # w2 @ CHR '':'' # y @ w4 @ CHR '','' # x"] exI [of _ rest]
            exI [of _ "EString b True # evs @ evs'"]) simp
    qed
  qed
qed

lemma gvalue_blank:
  assumes "gvalue y evs" "blank w"
  shows "gvalue (w @ y) evs"
  using assms(1)
proof (cases rule: gvalue.cases)
  case (g_number w' ds)
  with assms(2) gvalue_gmembers_gelems.g_number [of "w @ w'" ds] show ?thesis by simp
next
  case (g_string w' b)
  with assms(2) gvalue_gmembers_gelems.g_string [of "w @ w'" b] show ?thesis by simp
next
  case (g_prim w' m)
  with assms(2) gvalue_gmembers_gelems.g_prim [of "w @ w'" m] show ?thesis by simp
next
  case (g_object w' x evs')
  with assms(2) gvalue_gmembers_gelems.g_object [of "w @ w'" x evs'] show ?thesis by simp
next
  case (g_array w' x evs')
  with assms(2) gvalue_gmembers_gelems.g_array [of "w @ w'" x evs'] show ?thesis by simp
qed

lemma e_sound_step:
  assumes vs: "v_sound f n" and es: "e_sound f n"
  shows "e_sound f (Suc n)"
  unfolding e_sound_def
proof (intro allI impI)
  fix t pre u h p p'
  assume t: "t = pre @ u" and nul: "NUL \<notin> set u"
    and run: "p_array (Suc n) (total_handler f) t (len t - 1) (moved pre h p) = Some (Inr (True, p'))"
  let ?T = "total_handler f" and ?e = "len t - 1"
  let ?close = "p_close (on_array ?T False) (CHR '']'') CLOSE_BRACKET_EXPECTED t ?e"
  let ?goal = "\<exists>x rest evs. u = x @ CHR '']'' # rest \<and> gelems x evs \<and>
           p' = moved (pre @ x @ '']'') (f (EArray False) (fold f evs h)) p"
  obtain w v where w: "u = w @ v" "blank w" "v = [] \<or> first v \<notin> set whitespace"
    using blank_split by metis
  have nulv: "NUL \<notin> set v" and t': "t = (pre @ w) @ v" "t = pre @ w @ v" and w3: "v \<noteq> [] \<longrightarrow> first v \<notin> set whitespace"
    using nul t w by auto
  consider (close) "?close (moved (pre @ w) h p) = Inr (True, p')"
    | (val) "andthen (p_value n ?T t ?e (moved (pre @ w) h p)) (\<lambda>p. obind (Some (p_skip (CHR '','') t ?e p))
              (\<lambda>(comma, p). if \<not> comma then Some (?close p) else p_array n ?T t ?e p)) = Some (Inr (True, p'))"
  proof (cases "w @ v = []")
    case True
    with run t w close show ?thesis
      by (simp add: p_array.simps(2) Let_def)
  next
    case False
    note at = run [unfolded array_at [OF w(2) nulv w3 t'(2) False] Let_def]
    show ?thesis
      using at close val by (auto split: if_splits)
  qed
  then show ?goal
  proof cases
    case close
    from p_close_inv [OF this, of v "f (EArray False) h"] t' nulv obtain w' v' where
      "v = w' @ CHR '']'' # v'" "blank w'" "p' = moved ((pre @ w) @ w' @ '']'') (f (EArray False) h) p"
      by auto
    with w ge_nil [of "w @ w'"] show ?thesis
      by (intro exI [of _ "w @ w'"] exI [of _ v'] exI [of _ "[]"]) simp
  next
    case val
    let ?k = "pre @ w"
    from value_then_inv [OF vs _ _ t'(1) nulv val, of "f (EArray False)"] obtain y evs w4 v4 where
      y: "gvalue y evs" "blank w4" and
      c: "v = y @ w4 @ CHR '','' # v4 \<and> p_array n ?T t ?e (moved (?k @ y @ w4 @ '','') (fold f evs h) p) = Some (Inr (True, p'))
       \<or> v = y @ w4 @ CHR '']'' # v4 \<and> p' = moved (?k @ y @ w4 @ '']'') (f (EArray False) (fold f evs h)) p"
      by auto
    note wy = gvalue_blank [OF y(1) w(2)]
    from c show ?thesis
    proof (elim disjE conjE)
      assume "v = y @ w4 @ CHR '']'' # v4" "p' = moved (?k @ y @ w4 @ '']'') (f (EArray False) (fold f evs h)) p"
      with w ge_last [OF wy y(2)] show ?thesis
        by (intro exI [of _ "w @ y @ w4"] exI [of _ v4] exI [of _ evs]) simp
    next
      assume v4: "v = y @ w4 @ CHR '','' # v4"
        and o: "p_array n ?T t ?e (moved (?k @ y @ w4 @ '','') (fold f evs h) p) = Some (Inr (True, p'))"
      have "t = (?k @ y @ w4 @ '','') @ v4" "NUL \<notin> set v4"
        using t' nulv v4 by auto
      from es [unfolded e_sound_def, rule_format, OF this o] obtain x rest evs' where
        x: "v4 = x @ CHR '']'' # rest" "gelems x evs'"
          "p' = moved ((?k @ y @ w4 @ '','') @ x @ '']'') (f (EArray False) (fold f evs' (fold f evs h))) p"
        by blast
      with w v4 ge_more [OF wy y(2) x(2)] show ?thesis
        by (intro exI [of _ "w @ y @ w4 @ CHR '','' # x"] exI [of _ rest] exI [of _ "evs @ evs'"]) simp
    qed
  qed
qed

lemma parser_sound: "v_sound f n \<and> m_sound f n \<and> e_sound f n"
proof (induction n)
  case 0
  show ?case by (simp add: v_sound_def m_sound_def e_sound_def)
next
  case (Suc n)
  then show ?case using v_sound_step m_sound_step e_sound_step by blast
qed

text \<open>
  C1: the parser accepts nothing else. If it answers true on a text without NUL, what it has read is a
  text of the grammar and the handler was told exactly its events; the one exception is a text of
  nothing but white space, which passes as an empty number.
\<close>

theorem json_parse_sound:
  assumes "parse_text (total_handler f) t h = Some (Inr (True, p'))" "NUL \<notin> set t"
  shows "(\<exists>v rest evs. t = v @ rest \<and> gvalue v evs \<and> pos p' = len v \<and> hstate p' = fold f evs h) \<or>
    blank t \<and> hstate p' = f (ENumber []) h"
proof -
  let ?p = "\<lparr>pos = 0, perr = P_OKAY, perr_pos = None, hstate = h\<rparr>"
  have "p_value (parse_fuel t) (total_handler f) t (len t - 1) (moved [] h ?p) = Some (Inr (True, p'))"
    using assms(1) by (simp add: parse_text_def parse_def moved_def)
  from parser_sound [THEN conjunct1, of f, unfolded v_sound_def, rule_format, of t "[]" t, OF _ assms(2) this]
  show ?thesis by (auto simp: moved_def)
qed

theorem json_parse_sound_witness:
  "\<exists>v rest evs. ''[7] x'' = v @ rest \<and> gvalue v evs \<and> len v = 3"
proof -
  have "parse_text (total_handler (\<lambda>ev h. h @ [ev])) ''[7] x'' [] =
      Some (Inr (True, \<lparr>pos = 3, perr = P_OKAY, perr_pos = None,
        hstate = [EArray True, ENumber ''7'', EArray False]\<rparr>))"
    by code_simp
  from json_parse_sound [OF this] show ?thesis
    by (auto simp: NUL_def blank_def whitespace_def)
qed

subsection \<open>Numbers at the end of the text, and reads outside it\<close>

text \<open>
  the loop of \<^verbatim>\<open>Parser::number\<close> tests \<^verbatim>\<open>sec->s\<close>, which does not move, and \<^verbatim>\<open>strchr\<close> finds the
  terminating NUL: with any handler, a text that is a number to its last character makes it read past the
  end of the string, and a text of only white space is accepted as a number with no digits.
\<close>

theorem json_number_at_end:
  "(\<forall>w ds (H :: 'h handler) h. blank w \<and> ds \<noteq> [] \<and> set ds \<subseteq> set numeric \<longrightarrow>
      parse_text H (w @ ds) h = Some (Inl OutOfBounds)) \<and>
   (\<forall>w f (h :: 'h). blank w \<longrightarrow>
      parse_text (total_handler f) w h =
        Some (Inr (True, \<lparr>pos = len w, perr = P_OKAY, perr_pos = None, hstate = f (ENumber []) h\<rparr>)))"
proof (intro conjI allI impI)
  fix w ds and H :: "'h handler" and h :: 'h
  assume a: "blank w \<and> ds \<noteq> [] \<and> set ds \<subseteq> set numeric"
  let ?p = "\<lparr>pos = 0, perr = P_OKAY, perr_pos = None, hstate = h\<rparr>"
  have d: "first ds \<in> set numeric"
    using a by (cases ds) auto
  have fuel: "parse_fuel (w @ ds) = Suc (parse_fuel (w @ ds) - 1)"
    by (simp add: parse_fuel_def)
  have "NUL \<notin> set ds"
    using a set_numeric(1) by auto
  then have "p_value (parse_fuel (w @ ds)) H (w @ ds) (len (w @ ds) - 1) (moved [] h ?p) =
      Some (p_number H (w @ ds) (len (w @ ds) - 1) (moved w h ?p))"
    using value_at [of w ds "w @ ds" "[]" "parse_fuel (w @ ds) - 1" H h ?p] a d numeric_apart [OF d] fuel
    by (simp add: Let_def)
  then show "parse_text H (w @ ds) h = Some (Inl OutOfBounds)"
    using number_loop_overrun [of ds w None] a
    by (cases ds) (simp_all add: parse_text_def parse_def p_number_def moved_def)
next
  fix w f and h :: 'h
  assume a: "blank w"
  let ?p = "\<lparr>pos = 0, perr = P_OKAY, perr_pos = None, hstate = h\<rparr>"
  have "p_value (parse_fuel w) (total_handler f) w (len w - 1) (moved [] h ?p) =
      Some (p_number (total_handler f) w (len w - 1) (moved w h ?p))"
    using value_at [of w "[]" w "[]" "parse_fuel w - 1" "total_handler f" h ?p] a
    by (simp add: Let_def parse_fuel_def add.commute)
  then show "parse_text (total_handler f) w h =
      Some (Inr (True, \<lparr>pos = len w, perr = P_OKAY, perr_pos = None, hstate = f (ENumber []) h\<rparr>))"
    using p_number_empty [of f w h ?p] by (simp add: parse_text_def parse_def moved_def)
qed

theorem json_number_at_end_witness:
  "parse_text (total_handler (\<lambda>ev h. h @ [ev])) '' 12'' [] = Some (Inl OutOfBounds) \<and>
   parse_text (total_handler (\<lambda>ev h. h @ [ev])) '' '' [] =
     Some (Inr (True, \<lparr>pos = 1, perr = P_OKAY, perr_pos = None, hstate = [ENumber []]\<rparr>))"
  using json_number_at_end [THEN conjunct1, rule_format, of "'' ''" "''12''" "total_handler (\<lambda>ev h. h @ [ev])" "[]"]
    json_number_at_end [THEN conjunct2, rule_format, of "'' ''" "\<lambda>ev h. h @ [ev]" "[]"]
  by (simp add: blank_def whitespace_def numeric_def)

text \<open>A handler that never fails itself.\<close>

definition never_fails :: "'h handler \<Rightarrow> bool" where
  "never_fails H \<longleftrightarrow>
     (\<forall>b h. (\<exists>r. on_object H b h = Inr r) \<and> (\<exists>r. on_array H b h = Inr r)) \<and>
     (\<forall>x h. (\<exists>r. on_number H x h = Inr r) \<and> (\<exists>r. on_primitive H x h = Inr r)) \<and>
     (\<forall>x b h. \<exists>r. on_string H x b h = Inr r)"

definition inb :: "string \<Rightarrow> 'h parser \<Rightarrow> bool" where
  "inb t p \<longleftrightarrow> 0 \<le> pos p \<and> pos p \<le> len t"

abbreviation safe :: "string \<Rightarrow> (bool \<times> 'h parser) result option \<Rightarrow> bool" where
  "safe t m \<equiv> wp True False (\<lambda>(b, p). inb t p) m"

lemma skip_safe:
  "0 \<le> s \<Longrightarrow> s \<le> len t \<Longrightarrow> e = len t - 1 \<Longrightarrow>
   \<exists>b s'. skip c t e s = Inr (b, s') \<and> s \<le> s' \<and> s' \<le> len t"
proof (induction c t e s rule: skip.induct)
  case (1 c t e s)
  show ?case
  proof (cases "s \<le> e")
    case True
    then have r: "rd t s = Inr (t ! nat s)"
      using "1.prems" by (simp add: rd_def)
    from True have u: "skip c t e s = (if c = t ! nat s then Inr (True, s + 1)
        else if \<not> c_strchr whitespace (t ! nat s) then Inr (False, s) else skip c t e (s + 1))"
      by (simp add: skip.simps [of c t e s] r)
    show ?thesis
    proof (cases "c \<noteq> t ! nat s \<and> c_strchr whitespace (t ! nat s)")
      case w: True
      then have "\<exists>b s'. skip c t e (s + 1) = Inr (b, s') \<and> s + 1 \<le> s' \<and> s' \<le> len t"
        using "1.IH" [OF True r] True "1.prems" by auto
      with u w show ?thesis by force
    next
      case False
      with u True "1.prems" show ?thesis by auto
    qed
  next
    case False
    with "1.prems" have "skip c t e s = Inr (False, s)" by (simp add: skip.simps)
    with "1.prems" show ?thesis by auto
  qed
qed

lemma number_loop_safe:
  "0 \<le> s \<Longrightarrow> s \<le> j \<Longrightarrow> j < len t \<Longrightarrow> \<not> c_strchr numeric (t ! nat j) \<Longrightarrow>
   \<exists>ne' s'. number_loop t s ne = Inr (ne', s') \<and> s \<le> s' \<and> s' \<le> j"
proof (induction t s ne rule: number_loop.induct)
  case (1 t s ne)
  then have r: "rd t s = Inr (t ! nat s)"
    by (simp add: rd_def)
  show ?case
  proof (cases "c_strchr numeric (t ! nat s)")
    case True
    then have "s \<noteq> j"
      using "1.prems"(4) by auto
    with "1.IH" [OF r] "1.prems" True have
      "\<exists>ne' s'. number_loop t (s + 1) (Some s) = Inr (ne', s') \<and> s + 1 \<le> s' \<and> s' \<le> j" by auto
    moreover have "number_loop t s ne = number_loop t (s + 1) (Some s)"
      using True by (simp add: number_loop.simps [of t s] r)
    ultimately show ?thesis by force
  next
    case False
    with "1.prems" show ?thesis
      by (subst number_loop.simps) (simp add: r)
  qed
qed

lemma string_loop_safe:
  "0 \<le> s \<Longrightarrow> e = len t - 1 \<Longrightarrow>
   \<exists>q. string_loop t e s b = Inr q \<and> (case q of None \<Rightarrow> True | Some i \<Rightarrow> s \<le> i \<and> i < len t)"
proof (induction t e s b rule: string_loop.induct)
  case (1 t e s b)
  show ?case
  proof (cases "s \<le> e")
    case True
    then have r: "rd t s = Inr (t ! nat s)"
      using "1.prems" by (simp add: rd_def)
    show ?thesis
    proof (cases "t ! nat s = CHR 0x22 \<and> \<not> b")
      case q: True
      with True "1.prems" show ?thesis
        by (subst string_loop.simps) (simp add: r)
    next
      case q: False
      from "1.IH" [OF True r q] "1.prems" obtain x where
        "string_loop t e (s + 1) (if b then False else t ! nat s = CHR 0x5C) = Inr x"
        "case x of None \<Rightarrow> True | Some i \<Rightarrow> s + 1 \<le> i \<and> i < len t" by auto
      with True q show ?thesis
        by (subst string_loop.simps) (auto simp: r split: option.splits)
    qed
  qed (use "1.prems" in \<open>simp add: string_loop.simps\<close>)
qed

lemma strncmp_safe:
  assumes "NUL \<notin> set m" "0 \<le> i" "i \<le> len t"
  shows "\<exists>b. strncmp_eq m t i = Inr b \<and> (b \<longrightarrow> i + len m \<le> len t)"
proof -
  have "t = take (nat i) t @ drop (nat i) t" "i = len (take (nat i) t)"
    using assms by auto
  with strncmp_app [OF assms(1), of "take (nat i) t" "drop (nat i) t"]
  have e: "strncmp_eq m t i = Inr (take (length m) (drop (nat i) t) = m)"
    by metis
  have "length m \<le> length t - nat i" if "take (length m) (drop (nat i) t) = m"
    using arg_cong [OF that, of length] by simp
  with e assms(2,3) show ?thesis by fastforce
qed

lemma safe_call:
  assumes "inb t p" "\<And>h. \<exists>r. f h = Inr r"
  shows "safe t (Some (p_call f p))"
proof -
  obtain ok h where "f (hstate p) = Inr (ok, h)"
    using assms(2) by fastforce
  with assms(1) show ?thesis
    by (simp add: p_call_def p_error_def inb_def)
qed

lemma safe_error: "inb t p \<Longrightarrow> safe t (Some (p_error er p))"
  by (simp add: p_error_def inb_def)

lemma safe_skip:
  assumes "inb t p" "\<And>b p'. inb t p' \<Longrightarrow> safe t (f (b, p'))"
  shows "safe t (obind (Some (p_skip c t (len t - 1) p)) f)"
proof -
  obtain b s where "skip c t (len t - 1) (pos p) = Inr (b, s)" "0 \<le> s" "s \<le> len t"
    using skip_safe [of "pos p" t "len t - 1" c] assms(1) by (auto simp: inb_def)
  with assms(2) show ?thesis by (simp add: p_skip_def inb_def)
qed

lemma rd_inside: "0 \<le> i \<Longrightarrow> i \<le> len t \<Longrightarrow> \<exists>x. rd t i = Inr x"
  by (auto simp: rd_def)

lemma safe_rd:
  assumes "inb t p" "\<And>x. rd t (pos p) = Inr x \<Longrightarrow> safe t (f x)"
  shows "safe t (obind (Some (rd t (pos p))) f)"
proof -
  obtain x where "rd t (pos p) = Inr x"
    using assms(1) rd_inside [of "pos p" t] by (auto simp: inb_def)
  with assms(2) show ?thesis by simp
qed

lemma safe_andthen:
  "safe t m \<Longrightarrow> (\<And>p. inb t p \<Longrightarrow> safe t (f p)) \<Longrightarrow> safe t (andthen m f)"
  by (auto simp: wp_andthen elim!: wp_conseq)

lemma safe_close:
  assumes "inb t p" "\<And>h. \<exists>r. g h = Inr r"
  shows "safe t (Some (p_close g c er t (len t - 1) p))"
proof -
  obtain b s where "skip c t (len t - 1) (pos p) = Inr (b, s)" "0 \<le> s" "s \<le> len t"
    using skip_safe [of "pos p" t "len t - 1" c] assms(1) by (auto simp: inb_def)
  with safe_call [OF _ assms(2), of t "p\<lparr>pos := s\<rparr>"] show ?thesis
    by (auto simp: p_close_def p_skip_def p_error_def inb_def)
qed

lemma safe_number:
  assumes "inb t p" "t \<noteq> [] \<Longrightarrow> \<not> c_strchr numeric (last t)" "never_fails H"
  shows "safe t (Some (p_number H t (len t - 1) p))"
proof (cases "pos p \<le> len t - 1")
  case True
  then have "t \<noteq> []"
    using assms(1) by (auto simp: inb_def)
  with True have "\<exists>ne s. number_loop t (pos p) None = Inr (ne, s) \<and> pos p \<le> s \<and> s \<le> len t - 1"
    using assms(1,2) by (intro number_loop_safe) (auto simp: inb_def last_conv_nth nat_diff_distrib)
  then obtain ne s where "number_loop t (pos p) None = Inr (ne, s)" "0 \<le> s" "s \<le> len t"
    using assms(1) by (auto simp: inb_def)
  with True safe_call [of t "p\<lparr>pos := s\<rparr>" "on_number H \<lparr>sbuf = t, ss = Some (pos p), se = ne\<rparr>"] assms(3)
  show ?thesis by (auto simp: p_number_def inb_def never_fails_def)
next
  case False
  then have "p_number H t (len t - 1) p = p_call (on_number H \<lparr>sbuf = t, ss = Some (pos p), se = None\<rparr>) p"
    by (simp add: p_number_def)
  then show ?thesis
    using safe_call [OF assms(1), of "on_number H \<lparr>sbuf = t, ss = Some (pos p), se = None\<rparr>"] assms(3)
    by (simp only: never_fails_def)
qed

lemma safe_string:
  assumes "inb t p" "never_fails H"
  shows "safe t (Some (p_string H t (len t - 1) k p))"
proof -
  obtain q where q: "string_loop t (len t - 1) (pos p + 1) False = Inr q"
    "case q of None \<Rightarrow> True | Some i \<Rightarrow> pos p + 1 \<le> i \<and> i < len t"
    using string_loop_safe [of "pos p + 1" "len t - 1" t False] assms(1) by (auto simp: inb_def)
  show ?thesis
  proof (cases q)
    case None
    with q assms(1) show ?thesis by (simp add: p_string_def p_error_def inb_def)
  next
    case (Some i)
    with q safe_call [of t "p\<lparr>pos := i + 1\<rparr>"
        "on_string H \<lparr>sbuf = t, ss = Some (pos p + 1), se = Some (i - 1)\<rparr> k"] assms
    show ?thesis by (auto simp: p_string_def inb_def never_fails_def)
  qed
qed

lemma safe_primitive_loop:
  assumes "inb t p" "never_fails H" "\<forall>m\<in>set ms. NUL \<notin> set m"
  shows "safe t (Some (p_primitive_loop H t ms p))"
  using assms(3)
proof (induction ms)
  case Nil
  with assms(1) show ?case by simp
next
  case (Cons m ms)
  obtain b where b: "strncmp_eq m t (pos p) = Inr b" "b \<longrightarrow> pos p + len m \<le> len t"
    using strncmp_safe [of m "pos p" t] Cons.prems assms(1) by (auto simp: inb_def)
  obtain x where "b \<longrightarrow> rd t (pos p + len m) = Inr x"
    using b(2) assms(1) rd_inside [of "pos p + len m" t] by (cases b) (auto simp: inb_def)
  moreover obtain ok h where
    "on_primitive H \<lparr>sbuf = m, ss = Some 0, se = Some (len m - 1)\<rparr> (hstate p) = Inr (ok, h)"
    using assms(2) unfolding never_fails_def by (metis surj_pair)
  ultimately show ?case
    using Cons b assms(1) by (auto simp: p_call_def p_error_def inb_def)
qed

lemma safe_primitive: "inb t p \<Longrightarrow> never_fails H \<Longrightarrow> safe t (Some (p_primitive H t p))"
  unfolding p_primitive_def by (rule safe_primitive_loop) (auto simp: NUL_def)

lemma parser_safe:
  assumes "t \<noteq> [] \<Longrightarrow> \<not> c_strchr numeric (last t)" "never_fails H"
  shows "inb t p \<Longrightarrow> safe t (p_value n H t (len t - 1) p) \<and> safe t (p_object n H t (len t - 1) p) \<and>
    safe t (p_array n H t (len t - 1) p)"
proof (induction n arbitrary: p)
  case 0
  show ?case by simp
next
  case (Suc n)
  have ih: "safe t (p_value n H t (len t - 1) p)" "safe t (p_object n H t (len t - 1) p)"
      "safe t (p_array n H t (len t - 1) p)" if "inb t p" for p
    using Suc.IH that by blast+
  have H: "\<exists>r. on_object H b h = Inr r" "\<exists>r. on_array H b h = Inr r" for b h
    using assms(2) by (auto simp: never_fails_def)
  have up: "inb t (p\<lparr>pos := pos p + 1\<rparr>)" if "rd t (pos p) = Inr x" "\<not> c_strchr numeric x" for p :: "'a parser" and x
    using that rd_Inr [of t "pos p" x] c_strchr_NUL [of numeric] by (auto simp: inb_def)
  have "safe t (p_value (Suc n) H t (len t - 1) p)"
    unfolding p_value.simps(2) using Suc.prems assms
    by (auto intro!: safe_skip safe_rd safe_andthen safe_call safe_number safe_string safe_primitive ih H up)
  moreover have "safe t (p_object (Suc n) H t (len t - 1) p)"
    unfolding p_object.simps(2) Let_def using Suc.prems assms
    by (auto intro!: safe_skip safe_rd safe_andthen safe_close safe_error safe_string ih H)
  moreover have "safe t (p_array (Suc n) H t (len t - 1) p)"
    unfolding p_array.simps(2) Let_def using Suc.prems assms
    by (auto intro!: safe_skip safe_rd safe_andthen safe_close ih H)
  ultimately show ?case by blast
qed

text \<open>
  on a text whose last character cannot be part of a number (and is no NUL) the parser reads only the
  text and its terminating NUL, whatever the text is and whatever the handler answers.
\<close>

theorem json_parse_stays_inside:
  assumes "t \<noteq> []" "last t \<notin> set numeric" "last t \<noteq> NUL" "never_fails H"
  shows "\<exists>b p. parse_text H t h = Some (Inr (b, p)) \<and> 0 \<le> pos p \<and> pos p \<le> len t"
proof -
  have "safe t (parse_text H t h)"
    unfolding parse_text_def parse_def
    using parser_safe [of t H "\<lparr>pos = 0, perr = P_OKAY, perr_pos = None, hstate = h\<rparr>" "parse_fuel t"] assms
    by (auto simp: inb_def c_strchr_def)
  moreover obtain r where "parse_text H t h = Some r"
    using json_parse_ends [of 0 t "parse_fuel t" H] by (auto simp: parse_text_def)
  ultimately show ?thesis
    by (cases r) (auto simp: inb_def)
qed

theorem json_parse_stays_inside_witness:
  "\<exists>b p. parse_text (total_handler (\<lambda>ev n. n + (1::nat))) ''[1, {]'' 0 = Some (Inr (b, p)) \<and>
     0 \<le> pos p \<and> pos p \<le> 6"
  using json_parse_stays_inside [of "''[1, {]''" "total_handler (\<lambda>ev n. n + (1::nat))" 0]
  by (force simp: numeric_def NUL_def never_fails_def)

end
