(* ===== verification/JsonMatch.thy ===== *)
theory JsonMatch
  imports Json
begin

text \<open>
  The \<^verbatim>\<open>Match\<close> handler of json.h and json.cpp: items are registered with a path of keys, and an item's
  callback runs for every value found below its path. The callback itself is the caller's: the model
  records which item it is called for, with which section. \<^verbatim>\<open>levels\<close> is a list of \<^verbatim>\<open>max_nest\<close>
  levels; an access outside is a failure. Verbose output is left out.

  The specification keeps the path from the outermost bracket to the innermost, with the key seen last
  at each, and knows no sections, levels or limits.
\<close>

subsection \<open>The handler\<close>

datatype level_type = L_OBJECT | L_ARRAY | L_NONE

record level =
  key_s :: sect
  ltype :: level_type

text \<open>\<^verbatim>\<open>Section()\<close> and \<^verbatim>\<open>set_key(0)\<close>.\<close>

definition null_sect :: sect where
  "null_sect = \<lparr>sbuf = [], ss = None, se = None\<rparr>"

definition level_init :: "level_type \<Rightarrow> level" where
  "level_init ty = \<lparr>key_s = null_sect, ltype = ty\<rparr>"

datatype match_type = M_STRING | M_NUMBER | M_PRIMITIVE

record match_item =
  keys :: "string list"
  tag :: nat             \<comment> \<open>which item: its \<^verbatim>\<open>on_match\<close> and \<^verbatim>\<open>arg\<close>\<close>

record matcher =
  nest :: int
  levels :: "level list"   \<comment> \<open>\<^verbatim>\<open>max_nest\<close> of them\<close>
  items :: "match_item list"
  fired :: "(nat \<times> sect \<times> match_type) list"

definition match_init :: "nat \<Rightarrow> matcher" where
  "match_init nlevels = \<lparr>nest = 0, levels = replicate nlevels (level_init L_NONE), items = [], fired = []\<rparr>"

definition add_item :: "match_item \<Rightarrow> matcher \<Rightarrow> matcher" where
  "add_item it m = m\<lparr>items := it # items m\<rparr>"

text \<open>The loop over the levels for one item, from level \<open>i\<close>: does it call \<^verbatim>\<open>on_match\<close>?\<close>

function match_levels :: "level list \<Rightarrow> string list \<Rightarrow> int \<Rightarrow> int \<Rightarrow> bool result" where
  "match_levels ls ks n i =
     (if i \<le> n
      then if nat (i - 1) = length ks then Inr False
           else if i < 0 \<or> length ls \<le> nat i then Inl OutOfBounds
           else rbind (section_match (key_s (ls ! nat i)) (Some (ks ! nat (i - 1)))) (\<lambda>same.
             if \<not> same then Inr False
             else if nat i = length ks then Inr True
             else match_levels ls ks n (i + 1))
      else Inr False)"
  by pat_completeness auto
termination
  by (relation "measure (\<lambda>(ls, ks, n, i). nat (n + 1 - i))") auto

declare match_levels.simps [simp del]

fun match_items :: "level list \<Rightarrow> int \<Rightarrow> match_item list \<Rightarrow> nat list result" where
  "match_items ls n [] = Inr []"
| "match_items ls n (it # its) =
     rbind (match_levels ls (keys it) n 1) (\<lambda>hit.
       rbind (match_items ls n its) (\<lambda>r. Inr (if hit then tag it # r else r)))"

definition max_nest :: "matcher \<Rightarrow> int" where
  "max_nest m = int (length (levels m))"

definition match_check :: "sect \<Rightarrow> match_type \<Rightarrow> matcher \<Rightarrow> matcher result" where
  "match_check sec ty m =
     (if nest m \<ge> max_nest m then Inr m
      else rbind (match_items (levels m) (nest m) (items m)) (\<lambda>hits.
        Inr (m\<lparr>fired := fired m @ map (\<lambda>t. (t, sec, ty)) hits\<rparr>)))"

definition set_level :: "(level \<Rightarrow> level) \<Rightarrow> matcher \<Rightarrow> matcher result" where
  "set_level f m =
     (if nest m < 0 \<or> max_nest m \<le> nest m then Inl OutOfBounds
      else Inr (m\<lparr>levels := (levels m)[nat (nest m) := f (levels m ! nat (nest m))]\<rparr>))"

definition m_on_bracket :: "level_type \<Rightarrow> bool \<Rightarrow> matcher \<Rightarrow> matcher result" where
  "m_on_bracket ty push m =
     (let m = m\<lparr>nest := nest m + (if push then 1 else -1)\<rparr>
      in if nest m \<ge> max_nest m then Inr m
         else if push then set_level (\<lambda>_. level_init ty) m
         else Inr m)"

text \<open>\<^verbatim>\<open>on_number\<close>, \<^verbatim>\<open>on_primitive\<close> and the value branch of \<^verbatim>\<open>on_string\<close>.\<close>

definition m_on_value :: "match_type \<Rightarrow> sect \<Rightarrow> matcher \<Rightarrow> matcher result" where
  "m_on_value ty sec m =
     (if nest m \<ge> max_nest m then Inr m
      else rbind (match_check sec ty m) (set_level (\<lambda>l. l\<lparr>key_s := null_sect\<rparr>)))"

definition m_on_string :: "sect \<Rightarrow> bool \<Rightarrow> matcher \<Rightarrow> matcher result" where
  "m_on_string sec key m =
     (if nest m \<ge> max_nest m then Inr m
      else if key then
        if nest m < 0 then Inl OutOfBounds
        else if ltype (levels m ! nat (nest m)) \<noteq> L_OBJECT then Inl AssertFailed
        else set_level (\<lambda>l. l\<lparr>key_s := sec\<rparr>) m
      else m_on_value M_STRING sec m)"

definition match_handler :: "matcher handler" where
  "match_handler =
     \<lparr>on_object = \<lambda>b m. rbind (m_on_bracket L_OBJECT b m) (\<lambda>m. Inr (True, m)),
      on_array = \<lambda>b m. rbind (m_on_bracket L_ARRAY b m) (\<lambda>m. Inr (True, m)),
      on_number = \<lambda>s m. rbind (m_on_value M_NUMBER s m) (\<lambda>m. Inr (True, m)),
      on_string = \<lambda>s k m. rbind (m_on_string s k m) (\<lambda>m. Inr (True, m)),
      on_primitive = \<lambda>s m. rbind (m_on_value M_PRIMITIVE s m) (\<lambda>m. Inr (True, m))\<rparr>"

subsection \<open>Which items a path matches\<close>

text \<open>A section that holds characters, and the text in it.\<close>

definition sect_ok :: "sect \<Rightarrow> bool" where
  "sect_ok sec \<longleftrightarrow>
     (case (ss sec, se sec) of
        (Some s, Some e) \<Rightarrow> 0 \<le> s \<and> s \<le> e + 1 \<and> e < len (sbuf sec)
      | _ \<Rightarrow> False)"

definition key_is :: "sect \<Rightarrow> string option \<Rightarrow> bool" where
  "key_is sec k \<longleftrightarrow>
     (case k of None \<Rightarrow> ss sec = None \<and> se sec = None | Some k \<Rightarrow> sect_ok sec \<and> slice sec = k)"

lemma section_match_slice:
  assumes "sect_ok sec" "NUL \<notin> set k"
  shows "section_match sec (Some k) = Inr (slice sec = k)"
proof -
  obtain t s e where sec: "sec = \<lparr>sbuf = t, ss = Some s, se = Some e\<rparr>" and i: "0 \<le> s" "s \<le> e + 1" "e < len t"
    using assms(1) by (cases sec) (auto simp: sect_ok_def split: option.splits)
  let ?p = "take (nat s) t" and ?u = "drop (nat s) t"
  have t: "t = ?p @ ?u" and s: "s = len ?p"
    using i by auto
  have c: "strncmp_eq k t s = Inr (take (length k) ?u = k)"
    using strncmp_app [OF assms(2), of ?p ?u] t s by metis
  have "length (slice sec) = nat (e + 1 - s)"
    using i by (simp add: sec slice_def)
  moreover have "slice sec = take (nat (e + 1 - s)) ?u"
    by (simp add: sec slice_def)
  moreover have "nat (e + 1 - s) = length k" if "len k = 1 + e - s"
    using that by simp
  ultimately show ?thesis
    using c i by (cases "len k = 1 + e - s") (auto simp: section_match_def sec)
qed

lemma section_match_null:
  "key_is sec None \<Longrightarrow> length k \<noteq> 1 \<Longrightarrow> section_match sec (Some k) = Inr False"
  "key_is sec None \<Longrightarrow> length k = 1 \<Longrightarrow> section_match sec (Some k) = Inl NullDeref"
  by (simp_all add: section_match_def key_is_def)

text \<open>
  The keys of levels \<open>1 \<dots> n\<close> are the path. A cleared key has the length 1 for \<^verbatim>\<open>Section::match\<close>, so
  it may not meet a key of one character.
\<close>

definition path_at :: "level list \<Rightarrow> string option list \<Rightarrow> bool" where
  "path_at ls path \<longleftrightarrow>
     length path < length ls \<and> (\<forall>i < length path. key_is (key_s (ls ! Suc i)) (path ! i))"

definition keys_ok :: "string option list \<Rightarrow> string list \<Rightarrow> bool" where
  "keys_ok path ks \<longleftrightarrow> (\<forall>k\<in>set ks. NUL \<notin> set k \<and> (None \<in> set path \<longrightarrow> length k \<noteq> 1))"

fun is_prefix :: "string list \<Rightarrow> string option list \<Rightarrow> bool" where
  "is_prefix [] p \<longleftrightarrow> True"
| "is_prefix (k # ks) [] \<longleftrightarrow> False"
| "is_prefix (k # ks) (q # p) \<longleftrightarrow> q = Some k \<and> is_prefix ks p"

lemma match_levels_prefix:
  assumes "path_at ls path" "keys_ok path ks" "i \<le> length path" "i \<le> length ks"
  shows "match_levels ls ks (len path) (int i + 1) =
    Inr (i < length ks \<and> is_prefix (drop i ks) (drop i path))"
  using assms
proof (induction "length path - i" arbitrary: i)
  case 0
  then have "i = length path" by simp
  then show ?case
    using "0.prems" by (cases "drop i ks") (auto simp: match_levels.simps)
next
  case (Suc d)
  then have i: "i < length path" by simp
  show ?case
  proof (cases "i = length ks")
    case True
    with i show ?thesis by (simp add: match_levels.simps)
  next
    case False
    then have k: "i < length ks" using Suc.prems by simp
    let ?l = "key_s (ls ! Suc i)"
    have key: "key_is ?l (path ! i)" and ls: "Suc i < length ls" and ok: "NUL \<notin> set (ks ! i)" "path ! i = None \<Longrightarrow> length (ks ! i) \<noteq> 1"
      using Suc.prems i k by (auto simp: path_at_def keys_ok_def) (metis nth_mem)
    have same: "section_match ?l (Some (ks ! i)) = Inr (path ! i = Some (ks ! i))"
    proof (cases "path ! i")
      case None
      with key ok(2) section_match_null(1) show ?thesis by simp
    next
      case (Some q)
      with key section_match_slice [OF _ ok(1), of ?l] show ?thesis by (auto simp: key_is_def)
    qed
    have "match_levels ls ks (len path) (int i + 1) =
      (if path ! i \<noteq> Some (ks ! i) then Inr False
       else if Suc i = length ks then Inr True else match_levels ls ks (len path) (int (Suc i) + 1))"
      using i k ls same
      by (subst match_levels.simps) (auto simp: nat_add_distrib add.commute)
    moreover have "drop i ks = ks ! i # drop (Suc i) ks" "drop i path = path ! i # drop (Suc i) path"
      using i k by (simp_all add: Cons_nth_drop_Suc)
    moreover have "Suc i < length ks \<Longrightarrow> match_levels ls ks (len path) (int (Suc i) + 1) =
        Inr (Suc i < length ks \<and> is_prefix (drop (Suc i) ks) (drop (Suc i) path))"
      using Suc.hyps(1) [of "Suc i"] Suc.hyps(2) Suc.prems i by simp
    ultimately show ?thesis
      using k by (cases "Suc i = length ks") auto
  qed
qed

lemma match_items_prefix:
  assumes "path_at ls path" "\<forall>it\<in>set its. keys_ok path (keys it)"
  shows "match_items ls (len path) its =
    Inr (map tag (filter (\<lambda>it. keys it \<noteq> [] \<and> is_prefix (keys it) path) its))"
  using assms(2)
proof (induction its)
  case Nil
  then show ?case by simp
next
  case (Cons it its)
  then have "match_levels ls (keys it) (len path) 1 = Inr (keys it \<noteq> [] \<and> is_prefix (keys it) path)"
    using match_levels_prefix [OF assms(1), of "keys it" 0] by simp
  with Cons show ?case by simp
qed

subsection \<open>The specification: paths\<close>

datatype match_op =
    MOpen bool           \<comment> \<open>an object (true) or an array begins\<close>
  | MClose bool
  | MKey sect
  | MValue match_type sect

record path_state =
  path :: "(bool \<times> string option) list"   \<comment> \<open>is it an object; the last key\<close>
  calls :: "(nat \<times> sect \<times> match_type) list"

definition set_last :: "string option \<Rightarrow> (bool \<times> string option) list \<Rightarrow> (bool \<times> string option) list" where
  "set_last k p = (if p = [] then [] else butlast p @ [(fst (last p), k)])"

fun match_spec :: "nat \<Rightarrow> match_item list \<Rightarrow> match_op \<Rightarrow> path_state \<Rightarrow> unit \<times> path_state" where
  "match_spec limit its (MOpen b) a = ((), a\<lparr>path := path a @ [(b, None)]\<rparr>)"
| "match_spec limit its (MClose b) a = ((), a\<lparr>path := butlast (path a)\<rparr>)"
| "match_spec limit its (MKey k) a = ((), a\<lparr>path := set_last (Some (slice k)) (path a)\<rparr>)"
| "match_spec limit its (MValue ty v) a =
     ((), \<lparr>path = set_last None (path a),
           calls = calls a @
             (if length (path a) < limit
              then map (\<lambda>it. (tag it, v, ty))
                (filter (\<lambda>it. keys it \<noteq> [] \<and> is_prefix (keys it) (map snd (path a))) its)
              else [])\<rparr>)"

fun match_step :: "match_op \<Rightarrow> matcher \<Rightarrow> (unit \<times> matcher) result option" where
  "match_step (MOpen b) m =
     Some (rbind (m_on_bracket (if b then L_OBJECT else L_ARRAY) True m) (\<lambda>m. Inr ((), m)))"
| "match_step (MClose b) m =
     Some (rbind (m_on_bracket (if b then L_OBJECT else L_ARRAY) False m) (\<lambda>m. Inr ((), m)))"
| "match_step (MKey k) m = Some (rbind (m_on_string k True m) (\<lambda>m. Inr ((), m)))"
| "match_step (MValue M_STRING v) m = Some (rbind (m_on_string v False m) (\<lambda>m. Inr ((), m)))"
| "match_step (MValue ty v) m = Some (rbind (m_on_value ty v m) (\<lambda>m. Inr ((), m)))"

text \<open>
  What the parser guarantees (brackets are closed only where one is open, keys come in objects, as
  slices of the text), and that no cleared key meets a key of one character.
\<close>

fun match_ok :: "match_item list \<Rightarrow> match_op \<Rightarrow> path_state \<Rightarrow> bool" where
  "match_ok its (MOpen b) a \<longleftrightarrow> True"
| "match_ok its (MClose b) a \<longleftrightarrow> path a \<noteq> []"
| "match_ok its (MKey k) a \<longleftrightarrow> sect_ok k \<and> path a \<noteq> [] \<and> fst (last (path a))"
| "match_ok its (MValue ty v) a \<longleftrightarrow> (\<forall>it\<in>set its. keys_ok (map snd (path a)) (keys it))"

definition level_rep :: "level \<Rightarrow> bool \<times> string option \<Rightarrow> bool" where
  "level_rep l q \<longleftrightarrow> key_is (key_s l) (snd q) \<and> (fst q \<longleftrightarrow> ltype l = L_OBJECT)"

definition match_rep :: "nat \<Rightarrow> match_item list \<Rightarrow> matcher \<Rightarrow> path_state \<Rightarrow> bool" where
  "match_rep limit its m a \<longleftrightarrow>
     length (levels m) = limit \<and> items m = its \<and> nest m = len (path a) \<and> fired m = calls a \<and>
     (\<forall>i. i < length (path a) \<longrightarrow> Suc i < limit \<longrightarrow> level_rep (levels m ! Suc i) (path a ! i))"

lemma key_is_null [simp]: "key_is null_sect None"
  by (simp add: key_is_def null_sect_def)

lemma level_rep_init:
  "level_rep (level_init L_OBJECT) (True, None)" "level_rep (level_init L_ARRAY) (False, None)"
  by (simp_all add: level_rep_def level_init_def)

lemma set_last_nth:
  "i < length p \<Longrightarrow> set_last k p ! i = (if Suc i = length p then (fst (p ! i), k) else p ! i)"
  by (cases p rule: rev_cases) (auto simp: set_last_def nth_append)

lemma length_set_last [simp]: "length (set_last k p) = length p"
  by (simp add: set_last_def)

lemma match_rep_set_key:
  assumes "match_rep limit its m a" "length (path a) < limit" "key_is sec k"
    "fired m' = cs" "levels m' = levels m" "items m' = items m" "nest m' = nest m"
  shows "\<exists>m''. set_level (\<lambda>l. l\<lparr>key_s := sec\<rparr>) m' = Inr m'' \<and>
    match_rep limit its m'' \<lparr>path = set_last k (path a), calls = cs\<rparr>"
  using assms
  by (auto simp: match_rep_def set_level_def max_nest_def set_last_nth level_rep_def nth_list_update)

lemma path_at_rep:
  "match_rep limit its m a \<Longrightarrow> length (path a) < limit \<Longrightarrow> path_at (levels m) (map snd (path a))"
  by (auto simp: match_rep_def path_at_def level_rep_def)

lemma match_value_sim:
  assumes rep: "match_rep limit its m a" and ok: "\<forall>it\<in>set its. keys_ok (map snd (path a)) (keys it)"
  shows "\<exists>m'. m_on_value ty v m = Inr m' \<and> match_rep limit its m' (snd (match_spec limit its (MValue ty v) a))"
proof (cases "length (path a) < limit")
  case True
  have n: "nest m = len (map snd (path a))" "\<not> nest m \<ge> max_nest m" "items m = its"
    using rep True by (auto simp: match_rep_def max_nest_def)
  let ?c = "map (\<lambda>it. (tag it, v, ty)) (filter (\<lambda>it. keys it \<noteq> [] \<and> is_prefix (keys it) (map snd (path a))) its)"
  have chk: "match_check v ty m = Inr (m\<lparr>fired := fired m @ ?c\<rparr>)"
    using match_items_prefix [OF path_at_rep [OF rep True] ok] n
    by (simp add: match_check_def comp_def)
  obtain m'' where "set_level (\<lambda>l. l\<lparr>key_s := null_sect\<rparr>) (m\<lparr>fired := fired m @ ?c\<rparr>) = Inr m''"
    "match_rep limit its m'' \<lparr>path = set_last None (path a), calls = calls a @ ?c\<rparr>"
    using match_rep_set_key [OF rep True key_is_null, of "m\<lparr>fired := fired m @ ?c\<rparr>"] rep
    by (auto simp: match_rep_def)
  with chk True n(2) show ?thesis by (simp add: m_on_value_def)
next
  case False
  then show ?thesis
    using rep by (auto simp: m_on_value_def match_rep_def max_nest_def set_last_nth level_rep_def)
qed

lemma match_step_sim:
  assumes rep: "match_rep limit its m a" and ok: "match_ok its c a"
  shows "\<exists>m'. match_step c m = Some (Inr (fst (match_spec limit its c a), m')) \<and>
    match_rep limit its m' (snd (match_spec limit its c a))"
proof (cases c)
  case (MOpen b)
  then show ?thesis
    using rep
    by (auto simp: match_rep_def m_on_bracket_def max_nest_def set_level_def Let_def
        nth_append level_rep_init nth_list_update nat_add_distrib less_Suc_eq)
next
  case (MClose b)
  then show ?thesis
    using rep ok by (auto simp: match_rep_def m_on_bracket_def max_nest_def Let_def nth_butlast of_nat_diff Suc_leI)
next
  case (MKey k)
  show ?thesis
  proof (cases "length (path a) < limit")
    case True
    have "level_rep (levels m ! length (path a)) (last (path a))"
      using rep ok MKey True by (auto simp: match_rep_def last_conv_nth dest: spec [of _ "length (path a) - 1"])
    then have "ltype (levels m ! nat (nest m)) = L_OBJECT"
      using ok MKey rep by (auto simp: level_rep_def match_rep_def)
    moreover have "key_is k (Some (slice k))"
      using ok MKey by (simp add: key_is_def)
    ultimately show ?thesis
      using match_rep_set_key [OF rep True, of k "Some (slice k)" m] rep MKey True
      by (auto simp: m_on_string_def match_rep_def max_nest_def)
  next
    case False
    then show ?thesis
      using rep MKey by (auto simp: m_on_string_def match_rep_def max_nest_def set_last_nth level_rep_def)
  qed
next
  case (MValue ty v)
  have "nest m \<ge> max_nest m \<Longrightarrow> m_on_string v False m = m_on_value ty v m" for ty
    by (simp add: m_on_string_def m_on_value_def)
  then have "m_on_string v False m = m_on_value M_STRING v m"
    by (auto simp: m_on_string_def)
  with match_value_sim [OF rep, of ty v] ok MValue show ?thesis
    by (cases ty) auto
qed

interpretation json_match: simulation "match_rep limit its" match_step "match_spec limit its" "match_ok its"
  for limit its
  by unfold_locales (rule match_step_sim)

lemma match_rep_init:
  "match_rep n its ((match_init n)\<lparr>items := its\<rparr>) \<lparr>path = [], calls = []\<rparr>"
  by (simp add: match_rep_def match_init_def)

text \<open>
  C20: over a whole document (any sequence of events that open and close brackets properly and give keys in
  objects), \<^verbatim>\<open>Match\<close> calls exactly the items whose keys are a prefix of the path of the value, in the order
  of the item list, for values nested less than \<^verbatim>\<open>max_nest\<close> deep; deeper ones it passes over without losing
  its place, and it does not fail. One case is excluded (\<open>keys_ok\<close>): a value below an array, or in an object before its
  first key, while an item of the list has a key of one character (or one with a null character in it). The key of such
  a level is cleared, \<^verbatim>\<open>Section::match\<close> takes it for one character long, and \<^verbatim>\<open>Match\<close> can then use a null pointer
  (\<open>match_null_key_crashes\<close>).
\<close>

theorem match_calls_by_path:
  assumes "run_ok (match_spec n its) (match_ok its) ops \<lparr>path = [], calls = []\<rparr>"
  shows "\<exists>m. run_impl match_step ops ((match_init n)\<lparr>items := its\<rparr>) =
      Some (Inr (fst (run_spec (match_spec n its) ops \<lparr>path = [], calls = []\<rparr>), m)) \<and>
    fired m = calls (snd (run_spec (match_spec n its) ops \<lparr>path = [], calls = []\<rparr>)) \<and>
    nest m = len (path (snd (run_spec (match_spec n its) ops \<lparr>path = [], calls = []\<rparr>)))"
  using json_match.run_sim [OF match_rep_init assms] by (auto simp: match_rep_def)

definition doc_ops :: "match_op list" where
  "doc_ops =
     (let t = ''{'' @ [quote] @ ''ab'' @ [quote] @ '':[7]}'' in
      [MOpen True, MKey \<lparr>sbuf = t, ss = Some 2, se = Some 3\<rparr>, MOpen False,
       MValue M_NUMBER \<lparr>sbuf = t, ss = Some 7, se = Some 7\<rparr>, MClose False, MClose True])"

theorem match_calls_by_path_witness:
  "\<exists>m. run_impl match_step doc_ops ((match_init 10)\<lparr>items := [\<lparr>keys = [''ab''], tag = 5\<rparr>, \<lparr>keys = [''cd''], tag = 6\<rparr>]\<rparr>) =
      Some (Inr (replicate 6 (), m)) \<and> map fst (fired m) = [5]"
proof -
  let ?its = "[\<lparr>keys = [''ab''], tag = 5\<rparr>, \<lparr>keys = [''cd''], tag = 6\<rparr>]"
  have ok: "run_ok (match_spec 10 ?its) (match_ok ?its) doc_ops \<lparr>path = [], calls = []\<rparr>"
    by (simp add: doc_ops_def sect_ok_def keys_ok_def NUL_def set_last_def Let_def)
  have "run_spec (match_spec 10 ?its) doc_ops \<lparr>path = [], calls = []\<rparr> =
      (replicate 6 (), \<lparr>path = [], calls = [(5, \<lparr>sbuf = ''{'' @ [quote] @ ''ab'' @ [quote] @ '':[7]}'', ss = Some 7, se = Some 7\<rparr>, M_NUMBER)]\<rparr>)"
    by (simp add: doc_ops_def set_last_def slice_def Let_def numeral_eq_Suc)
  with match_calls_by_path [OF ok] show ?thesis by auto
qed

text \<open>
  \<^verbatim>\<open>Section::match\<close> takes a cleared key for one character long. A registered item whose first key has one
  character makes \<^verbatim>\<open>Match\<close> compare through a null pointer on the first value of any array (of numbers,
  here; the elements of an array never have a key).
\<close>

theorem match_null_key_crashes:
  assumes "1 \<le> nest m" "nest m < max_nest m" "key_is (key_s (levels m ! 1)) None"
    "items m = it # its" "keys it = k # ks" "length k = 1"
  shows "match_check sec ty m = Inl NullDeref"
  using assms section_match_null(2) [OF assms(3), of k]
  by (simp add: match_check_def match_levels.simps max_nest_def)

theorem match_null_key_crashes_witness:
  "match_check \<lparr>sbuf = ''[1]'', ss = Some 1, se = Some 1\<rparr> M_NUMBER
     \<lparr>nest = 1, levels = replicate 10 (level_init L_ARRAY), items = [\<lparr>keys = [''a''], tag = 0\<rparr>], fired = []\<rparr> =
     Inl NullDeref \<and>
   parse_text match_handler ''[1]'' ((match_init 10)\<lparr>items := [\<lparr>keys = [''a''], tag = 0\<rparr>]\<rparr>) = Some (Inl NullDeref)"
proof
  show "parse_text match_handler ''[1]'' ((match_init 10)\<lparr>items := [\<lparr>keys = [''a''], tag = 0\<rparr>]\<rparr>) = Some (Inl NullDeref)"
    by code_simp
qed (rule match_null_key_crashes [of _ "\<lparr>keys = [''a''], tag = 0\<rparr>" "[]" "''a''" "[]"]; simp add: max_nest_def level_init_def)

end
