(* ===== verification/JsonFmt.thy ===== *)
theory JsonFmt
  imports Json
begin

text \<open>
  The JSON writer of json_fmt.cpp (\<^verbatim>\<open>JsonOut\<close>), with the \<^verbatim>\<open>printf\<close> conversions it uses. The state is
  what has been printed and the count \<^verbatim>\<open>objects\<close>. The overload that takes a format string and a
  double is not modelled, nor is the one that asks for the time of day. Labels and texts are printed
  as they are, without escapes.
\<close>

subsection \<open>Conversions of \<open>printf\<close>\<close>

fun dec_nat :: "nat \<Rightarrow> string" where
  "dec_nat n = (if n < 10 then [char_of (48 + n)] else dec_nat (n div 10) @ [char_of (48 + n mod 10)])"

declare dec_nat.simps [simp del]

definition fmt_d :: "int \<Rightarrow> string" where
  "fmt_d d = (if d < 0 then CHR ''-'' # dec_nat (nat (- d)) else dec_nat (nat d))"

text \<open>\<^verbatim>\<open>%0Nd\<close>: the zeros stand behind the sign, which counts for the width.\<close>

definition fmt_0d :: "nat \<Rightarrow> int \<Rightarrow> string" where
  "fmt_0d w d =
     (if d < 0 then CHR ''-'' # replicate (w - 1 - length (dec_nat (nat (- d)))) (CHR ''0'') @ dec_nat (nat (- d))
      else replicate (w - length (dec_nat (nat d))) (CHR ''0'') @ dec_nat (nat d))"

subsection \<open>The writer\<close>

record json_out =
  printed :: string
  objects :: int

record tm =
  tm_year :: int
  tm_mon :: int
  tm_mday :: int
  tm_hour :: int
  tm_min :: int
  tm_sec :: int

definition out :: "string \<Rightarrow> json_out \<Rightarrow> json_out" where
  "out x j = j\<lparr>printed := printed j @ x\<rparr>"

definition json_out_init :: json_out where
  "json_out_init = \<lparr>printed = [], objects = 0\<rparr>"

definition json_key :: "string \<Rightarrow> json_out \<Rightarrow> json_out" where
  "json_key label j =
     (let j = (if objects j \<noteq> 0 then out '','' j else j);
          j = j\<lparr>objects := objects j + 1\<rparr>
      in out ('' '' @ quote # label @ quote # '' : '') j)"

definition key_text :: "string \<Rightarrow> string \<Rightarrow> json_out \<Rightarrow> json_out" where
  "key_text label x j = out (quote # x @ [quote]) (json_key label j)"

definition key_int :: "string \<Rightarrow> int \<Rightarrow> json_out \<Rightarrow> json_out" where
  "key_int label d j = out (fmt_d d) (json_key label j)"

text \<open>\<^verbatim>\<open>snprintf\<close> into 32 bytes keeps 31 characters; the month passes through \<^verbatim>\<open>uint8_t\<close>.\<close>

definition key_dt :: "string \<Rightarrow> tm \<Rightarrow> string option \<Rightarrow> json_out \<Rightarrow> json_out" where
  "key_dt label t zone j =
     (let buff = take 31 (fmt_0d 4 (tm_year t + 1900) @ ''/'' @ fmt_0d 2 ((tm_mon t + 1) mod 256) @ ''/'' @
            fmt_0d 2 (tm_mday t) @ ''T'' @ fmt_0d 2 (tm_hour t) @ '':'' @ fmt_0d 2 (tm_min t) @ '':'' @
            fmt_0d 2 (tm_sec t));
          j = key_text label buff j
      in case zone of None \<Rightarrow> j | Some z \<Rightarrow> key_text ''z'' z j)"

definition start_obj :: "json_out \<Rightarrow> json_out" where
  "start_obj = out ''{''"

definition end_obj :: "json_out \<Rightarrow> json_out" where
  "end_obj = out '' }''"

subsection \<open>What is written is read back\<close>

datatype entry = EText string string | EInt string int | EDate string tm "string option"

fun write_entry :: "entry \<Rightarrow> json_out \<Rightarrow> json_out" where
  "write_entry (EText l x) = key_text l x"
| "write_entry (EInt l d) = key_int l d"
| "write_entry (EDate l t z) = key_dt l t z"

definition write_object :: "entry list \<Rightarrow> string" where
  "write_object es = printed (end_obj (fold write_entry es (start_obj json_out_init)))"

definition date_text :: "tm \<Rightarrow> string" where
  "date_text t = take 31 (fmt_0d 4 (tm_year t + 1900) @ ''/'' @ fmt_0d 2 ((tm_mon t + 1) mod 256) @ ''/'' @
            fmt_0d 2 (tm_mday t) @ ''T'' @ fmt_0d 2 (tm_hour t) @ '':'' @ fmt_0d 2 (tm_min t) @ '':'' @
            fmt_0d 2 (tm_sec t))"

text \<open>The pairs an entry stands for: the label, the text of the value, the event of the value.\<close>

fun entry_pairs :: "entry \<Rightarrow> (string \<times> string \<times> event) list" where
  "entry_pairs (EText l x) = [(l, quote # x @ [quote], EString x False)]"
| "entry_pairs (EInt l d) = [(l, fmt_d d, ENumber (fmt_d d))]"
| "entry_pairs (EDate l t z) =
     (l, quote # date_text t @ [quote], EString (date_text t) False) #
     (case z of None \<Rightarrow> [] | Some z \<Rightarrow> [(''z'', quote # z @ [quote], EString z False)])"

fun entry_ok :: "entry \<Rightarrow> bool" where
  "entry_ok (EText l x) \<longleftrightarrow> str_body l False \<and> str_body x False \<and> NUL \<notin> set (l @ x)"
| "entry_ok (EInt l d) \<longleftrightarrow> str_body l False \<and> NUL \<notin> set l"
| "entry_ok (EDate l t z) \<longleftrightarrow> str_body l False \<and> NUL \<notin> set l \<and>
     (case z of None \<Rightarrow> True | Some z \<Rightarrow> str_body z False \<and> NUL \<notin> set z)"

definition pair_text :: "string \<times> string \<times> event \<Rightarrow> string" where
  "pair_text = (\<lambda>(l, v, _). '' '' @ quote # l @ quote # '' : '' @ v)"

definition pair_events :: "string \<times> string \<times> event \<Rightarrow> event list" where
  "pair_events = (\<lambda>(l, _, e). [EString l True, e])"

fun join_pairs :: "(string \<times> string \<times> event) list \<Rightarrow> string" where
  "join_pairs [] = []"
| "join_pairs [p] = pair_text p"
| "join_pairs (p # ps) = pair_text p @ CHR '','' # join_pairs ps"

definition digits :: string where
  "digits = ''0123456789''"

lemma digit_chars: "(n :: nat) < 10 \<Longrightarrow> char_of (48 + n) \<in> set digits"
proof -
  have "list_all (\<lambda>n::nat. char_of (48 + n) \<in> set digits) [0..<10]"
    by code_simp
  then show "n < 10 \<Longrightarrow> char_of (48 + n) \<in> set digits"
    by (simp add: list_all_iff)
qed

lemma set_dec_nat: "set (dec_nat n) \<subseteq> set digits"
proof (induction n rule: dec_nat.induct)
  case (1 n)
  show ?case
  proof (cases "n < 10")
    case True
    then show ?thesis using digit_chars [of n] by (simp add: dec_nat.simps)
  next
    case False
    then show ?thesis using 1 digit_chars [of "n mod 10"] by (simp add: dec_nat.simps [of n])
  qed
qed

lemma dec_nat_not_Nil: "dec_nat n \<noteq> []"
  by (subst dec_nat.simps) simp

lemma digits_facts: "set digits \<subseteq> set numeric" "CHR ''0'' \<in> set digits" "quote \<notin> set digits"
    "CHR 0x5C \<notin> set digits" "NUL \<notin> set digits"
  by (simp_all add: digits_def numeric_def NUL_def)

lemma fmt_d_numeric: "set (fmt_d d) \<subseteq> set numeric" "fmt_d d \<noteq> []"
proof -
  have "set (dec_nat n) \<subseteq> set numeric" for n
    using set_dec_nat [of n] digits_facts(1) by blast
  moreover have "CHR ''-'' \<in> set numeric"
    by (simp add: numeric_def)
  ultimately show "set (fmt_d d) \<subseteq> set numeric"
    by (simp add: fmt_d_def)
qed (simp add: fmt_d_def dec_nat_not_Nil)

lemma set_fmt_0d: "x \<in> set (fmt_0d w d) \<Longrightarrow> x \<in> set digits \<or> x = CHR ''-''"
  using set_dec_nat [of "nat d"] set_dec_nat [of "nat (- d)"] digits_facts(2)
  by (auto simp: fmt_0d_def split: if_splits)

lemma str_body_plain: "quote \<notin> set x \<Longrightarrow> CHR 0x5C \<notin> set x \<Longrightarrow> str_body x False"
  by (induction x) auto

lemma date_text_chars: "x \<in> set (date_text t) \<Longrightarrow> x \<in> set digits \<or> x \<in> set ''-/T:''"
  unfolding date_text_def by (drule in_set_takeD) (auto dest: set_fmt_0d)

lemma date_text_body: "str_body (date_text t) False" "NUL \<notin> set (date_text t)"
proof -
  have "quote \<notin> set (date_text t)" "CHR 0x5C \<notin> set (date_text t)"
    using date_text_chars [of _ t] digits_facts(3,4) by auto
  then show "str_body (date_text t) False" by (rule str_body_plain)
  show "NUL \<notin> set (date_text t)"
    using date_text_chars [of NUL t] digits_facts(5) by (auto simp: NUL_def)
qed

text \<open>What the writer prints is the join of the pairs.\<close>

lemma join_pairs_snoc: "join_pairs (ps @ [p]) = (if ps = [] then pair_text p else join_pairs ps @ CHR '','' # pair_text p)"
  by (induction ps rule: join_pairs.induct) auto

definition pair_written :: "string \<times> string \<times> event \<Rightarrow> json_out \<Rightarrow> json_out" where
  "pair_written = (\<lambda>(l, v, _) j. out v (json_key l j))"

lemma write_entry_pairs: "write_entry e = fold pair_written (entry_pairs e)"
  by (cases e) (auto simp: fun_eq_iff key_text_def key_int_def key_dt_def date_text_def pair_written_def Let_def
      split: option.splits)

lemma pair_written_printed:
  assumes "printed j = pre @ join_pairs ps" "objects j = len ps"
  shows "printed (pair_written p j) = pre @ join_pairs (ps @ [p])" "objects (pair_written p j) = len (ps @ [p])"
  using assms
  by (cases p; auto simp: pair_written_def out_def json_key_def Let_def join_pairs_snoc pair_text_def)+

lemma pairs_written_printed:
  "printed j = pre @ join_pairs ps \<Longrightarrow> objects j = len ps \<Longrightarrow>
   printed (fold pair_written qs j) = pre @ join_pairs (ps @ qs)"
proof (induction qs arbitrary: ps j)
  case Nil
  then show ?case by simp
next
  case (Cons q qs)
  from pair_written_printed [OF Cons.prems, of q] Cons.IH [of "pair_written q j" "ps @ [q]"] show ?case by simp
qed

lemma write_object_text:
  "write_object es = CHR ''{'' # join_pairs (concat (map entry_pairs es)) @ '' }''"
proof -
  have "fold write_entry es = fold pair_written (concat (map entry_pairs es))"
    by (induction es) (auto simp: write_entry_pairs fun_eq_iff)
  with pairs_written_printed [of "start_obj json_out_init" "''{''" "[]" "concat (map entry_pairs es)"]
  show ?thesis
    by (simp add: write_object_def end_obj_def out_def start_obj_def json_out_init_def)
qed

text \<open>That text is in the grammar of the parser.\<close>

definition pair_ok :: "string \<times> string \<times> event \<Rightarrow> bool" where
  "pair_ok = (\<lambda>(l, v, e). str_body l False \<and> gvalue v [e] \<and> NUL \<notin> set (l @ v))"

lemma entry_pairs_ok: "entry_ok e \<Longrightarrow> p \<in> set (entry_pairs e) \<Longrightarrow> pair_ok p"
proof -
  have t: "gvalue (quote # x @ [quote]) [EString x False]" if "str_body x False" for x
    using g_string [of "[]" x] that by simp
  have d: "gvalue (fmt_d d) [ENumber (fmt_d d)]" for d
    using g_number [of "[]" "fmt_d d"] fmt_d_numeric by simp
  have n: "NUL \<notin> set (fmt_d d)" for d
    using fmt_d_numeric(1) [of d] set_numeric(1) by blast
  show "entry_ok e \<Longrightarrow> p \<in> set (entry_pairs e) \<Longrightarrow> pair_ok p"
    using t d n date_text_body
    by (cases e) (auto simp: pair_ok_def split: option.splits, simp_all add: NUL_def)
qed

lemma join_members:
  "\<forall>p\<in>set ps. pair_ok p \<Longrightarrow> gmembers (join_pairs ps @ '' '') (concat (map pair_events ps))"
proof (induction ps rule: join_pairs.induct)
  case 1
  then show ?case by (simp add: gm_nil whitespace_def)
next
  case (2 p)
  obtain l v e where p: "p = (l, v, e)" by (cases p)
  with 2 have ok: "str_body l False" "gvalue ('' '' @ v) [e]"
    using gvalue_blank [of v "[e]" "'' ''"] by (auto simp: pair_ok_def whitespace_def)
  from gm_last [of "'' ''" l "'' ''" _ _ "'' ''", OF _ ok(1) _ ok(2)] show ?case
    by (simp add: p pair_text_def pair_events_def whitespace_def)
next
  case (3 p q ps)
  obtain l v e where p: "p = (l, v, e)" by (cases p)
  with 3 have ok: "str_body l False" "gvalue ('' '' @ v) [e]"
    using gvalue_blank [of v "[e]" "'' ''"] by (auto simp: pair_ok_def whitespace_def)
  have "gmembers (join_pairs (q # ps) @ '' '') (concat (map pair_events (q # ps)))"
    using 3 by simp
  from gm_more [of "'' ''" l "'' ''" _ _ "[]", OF _ ok(1) _ ok(2) _ this] show ?case
    by (simp add: p pair_text_def pair_events_def whitespace_def)
qed

lemma join_NUL: "\<forall>p\<in>set ps. pair_ok p \<Longrightarrow> NUL \<notin> set (join_pairs ps)"
  by (induction ps rule: join_pairs.induct) (auto simp: pair_text_def pair_ok_def split: prod.splits, simp_all add: NUL_def)

text \<open>
  C3: what \<^verbatim>\<open>JsonOut\<close> writes, \<^verbatim>\<open>Parser\<close> reads: an object of any entries whose labels and texts need no escape is
  accepted to its last character, and the handler is told each label and each value in order.
\<close>

theorem json_write_parse:
  assumes "\<forall>e\<in>set es. entry_ok e"
  shows "parse_text (total_handler f) (write_object es) h =
    Some (Inr (True, \<lparr>pos = len (write_object es), perr = P_OKAY, perr_pos = None,
      hstate = fold f (EObject True # concat (map pair_events (concat (map entry_pairs es))) @ [EObject False]) h\<rparr>))"
proof -
  let ?ps = "concat (map entry_pairs es)"
  have ok: "\<forall>p\<in>set ?ps. pair_ok p"
    using assms entry_pairs_ok by auto
  have g: "gvalue (write_object es) (EObject True # concat (map pair_events ?ps) @ [EObject False])"
    using g_object [OF _ join_members [OF ok], of "[]"] by (simp add: write_object_text)
  have "NUL \<notin> set (write_object es @ [])"
    using join_NUL [OF ok] by (simp add: write_object_text NUL_def)
  moreover have "ended (write_object es) []"
    by (simp add: ended_def write_object_text)
  ultimately show ?thesis
    using json_parse_complete' [OF g, of "[]" f h] by simp
qed

theorem json_write_parse_witness:
  "parse_text (total_handler (\<lambda>ev h. h @ [ev])) (write_object [EInt ''a'' (- 12), EText ''b'' ''x y'']) [] =
    Some (Inr (True, \<lparr>pos = 26, perr = P_OKAY, perr_pos = None,
      hstate = [EObject True, EString ''a'' True, ENumber ''-12'', EString ''b'' True, EString ''x y'' False,
        EObject False]\<rparr>))"
proof -
  have d: "fmt_d (- 12) = ''-12''"
    by code_simp
  have "len (write_object [EInt ''a'' (- 12), EText ''b'' ''x y'']) = 26"
    by code_simp
  with json_write_parse [of "[EInt ''a'' (- 12), EText ''b'' ''x y'']" "\<lambda>ev h. h @ [ev]" "[]"] show ?thesis
    by (simp add: NUL_def pair_events_def d)
qed

end
