(* ===== verification/Motor.thy ===== *)
theory Motor
  imports Prelude
begin

text \<open>
  The stepper motor driver, drivers/motor.cpp: the coil sequence of \<^verbatim>\<open>MotorIo_4\<close>, the speed ramp of
  \<^verbatim>\<open>Accelerator\<close>, and \<^verbatim>\<open>Stepper\<close>, which seeks a position by being polled.

  The pins are the GPIO interface of the board; the model keeps the level last set on each and counts
  the calls of \<^verbatim>\<open>flush\<close>. Plain \<^verbatim>\<open>int\<close> values are integers: no operation adds more than the number of
  steps to a position in range. The accelerator's table divides as floats; where
  \<open>range + size < 2 ^ 24\<close> the truncated float quotient is the truncated quotient used here.
\<close>

subsection \<open>\<^verbatim>\<open>MotorIo_4\<close>\<close>

definition cycle :: "bool list list" where
  "cycle =
    [[True, False, False, False],
     [True, False, False, True],
     [False, False, False, True],
     [False, False, True, True],
     [False, False, True, False],
     [False, True, True, False],
     [False, True, False, False],
     [True, True, False, False]]"

definition STATES :: int where
  "STATES = 8"

record motor_io =
  pins :: "bool list"
  flushes :: nat
  needs_flush :: bool
  io_state :: int

definition io_flush :: "motor_io \<Rightarrow> motor_io" where
  "io_flush m = (if needs_flush m then m\<lparr>flushes := flushes m + 4\<rparr> else m)"

definition io_set_state :: "int \<Rightarrow> motor_io \<Rightarrow> motor_io result" where
  "io_set_state s m =
     (if s < 0 \<or> STATES \<le> s then Inl OutOfBounds
      else Inr (io_flush (m\<lparr>pins := cycle ! nat s, io_state := s\<rparr>)))"

definition io_init :: "bool \<Rightarrow> motor_io result" where
  "io_init fl = io_set_state 0 \<lparr>pins = replicate 4 False, flushes = 0, needs_flush = fl, io_state = 0\<rparr>"

definition io_step :: "bool \<Rightarrow> motor_io \<Rightarrow> motor_io result" where
  "io_step up m =
     (let s = io_state m + (if up then 1 else -1);
          s = (if s < 0 then s + STATES else s);
          s = (if s \<ge> STATES then s - STATES else s)
      in io_set_state s m)"

definition io_power :: "bool \<Rightarrow> motor_io \<Rightarrow> motor_io result" where
  "io_power on m =
     (if on then io_set_state (io_state m) m else Inr (io_flush (m\<lparr>pins := replicate 4 False\<rparr>)))"

definition io_ok :: "motor_io \<Rightarrow> bool" where
  "io_ok m \<longleftrightarrow> 0 \<le> io_state m \<and> io_state m < STATES"

lemma io_step_ok:
  assumes "io_ok m"
  shows "\<exists>m'. io_step up m = Inr m' \<and> io_ok m' \<and>
    io_state m' = (io_state m + (if up then 1 else -1)) mod 8 \<and> pins m' = cycle ! nat (io_state m')"
proof -
  have "io_state m \<in> {0, 1, 2, 3, 4, 5, 6, 7}"
    using assms by (auto simp: io_ok_def STATES_def)
  then show ?thesis
    by (auto simp: io_step_def io_set_state_def STATES_def io_ok_def io_flush_def)
qed

text \<open>How many coils differ.\<close>

definition coils_apart :: "bool list \<Rightarrow> bool list \<Rightarrow> nat" where
  "coils_apart a b = length (filter (\<lambda>(x, y). x \<noteq> y) (zip a b))"

text \<open>
  the motor is driven in half steps: a step changes exactly one coil, leaves one or two energised, and the
  opposite step undoes it; eight steps come round to the same coils.
\<close>

theorem motor_half_steps:
  assumes "io_ok m" "pins m = cycle ! nat (io_state m)"
  shows "\<exists>m'. io_step up m = Inr m' \<and> io_ok m' \<and> pins m' = cycle ! nat (io_state m') \<and>
    coils_apart (pins m) (pins m') = 1 \<and> length (filter id (pins m')) \<in> {1, 2} \<and>
    (\<exists>m''. io_step (\<not> up) m' = Inr m'' \<and> pins m'' = pins m \<and> io_state m'' = io_state m)"
proof -
  have s: "io_state m \<in> {0, 1, 2, 3, 4, 5, 6, 7}"
    using assms(1) by (auto simp: io_ok_def STATES_def)
  obtain m' where m': "io_step up m = Inr m'" "io_ok m'"
    "io_state m' = (io_state m + (if up then 1 else -1)) mod 8" "pins m' = cycle ! nat (io_state m')"
    using io_step_ok [OF assms(1)] by blast
  obtain m'' where m'': "io_step (\<not> up) m' = Inr m''"
    "io_state m'' = (io_state m' + (if \<not> up then 1 else -1)) mod 8" "pins m'' = cycle ! nat (io_state m'')"
    using io_step_ok [OF m'(2), of "\<not> up"] by blast
  have undone: "io_state m'' = io_state m"
    using s m'(3) m''(2) by (cases up) auto
  have "coils_apart (pins m) (pins m') = 1 \<and> length (filter id (pins m')) \<in> {1, 2}"
    using s m'(3,4) assms(2) by (cases up) (auto simp: cycle_def coils_apart_def)
  with m' m'' undone assms(2) show ?thesis by auto
qed

theorem motor_half_steps_witness:
  "\<exists>m'. io_step False \<lparr>pins = [True, False, False, False], flushes = 0, needs_flush = True, io_state = 0\<rparr> = Inr m' \<and>
     io_state m' = 7 \<and> coils_apart [True, False, False, False] (pins m') = 1"
proof -
  let ?m = "\<lparr>pins = [True, False, False, False], flushes = 0, needs_flush = True, io_state = 0\<rparr>"
  obtain m' where "io_step False ?m = Inr m'" "coils_apart (pins ?m) (pins m') = 1"
    using motor_half_steps [of ?m False] by (auto simp: io_ok_def STATES_def cycle_def)
  moreover from this have "io_state m' = 7"
    by (auto simp: io_step_def io_set_state_def STATES_def io_flush_def)
  ultimately show ?thesis by auto
qed

subsection \<open>\<^verbatim>\<open>Accelerator\<close>\<close>

datatype accel_state = STOP | ACCEL | DECEL | FULL

record accelerator =
  a_size :: int
  idx :: int
  astate :: accel_state
  dirn_forward :: bool
  table :: "int list"
  max_p :: int
  min_p :: int

text \<open>C++ division truncates towards zero.\<close>

definition trunc_div :: "int \<Rightarrow> int \<Rightarrow> int" where
  "trunc_div a b = sgn a * sgn b * (\<bar>a\<bar> div \<bar>b\<bar>)"

definition accel_table :: "int \<Rightarrow> int \<Rightarrow> int \<Rightarrow> int list" where
  "accel_table mx mn n = map (\<lambda>i. mn + int i * trunc_div (mx - mn) n) [0..<nat n]"

definition accel_init :: "int \<Rightarrow> int \<Rightarrow> int \<Rightarrow> accelerator result" where
  "accel_init mx mn n =
     (if list_all (\<lambda>v. v \<ge> 0) (accel_table mx mn n)
      then Inr \<lparr>a_size = n, idx = 0, astate = STOP, dirn_forward = True, table = accel_table mx mn n,
                max_p = mx, min_p = mn\<rparr>
      else Inl AssertFailed)"

definition decelerate :: "accelerator \<Rightarrow> accelerator" where
  "decelerate a = (if astate a \<noteq> STOP then a\<lparr>astate := DECEL\<rparr> else a)"

definition stopped :: "accelerator \<Rightarrow> bool" where
  "stopped a \<longleftrightarrow> idx a = 0"

definition table_at :: "accelerator \<Rightarrow> int result" where
  "table_at a = (if 0 \<le> idx a \<and> idx a < int (length (table a)) then Inr (table a ! nat (idx a)) else Inl OutOfBounds)"

definition slower :: "accelerator \<Rightarrow> accelerator" where
  "slower a = (if idx a > 0 then a\<lparr>idx := idx a - 1\<rparr> else a)"

definition accel_go :: "bool \<Rightarrow> accelerator \<Rightarrow> (int \<times> accelerator) result" where
  "accel_go up a =
     (if astate a = STOP then Inr (min_p a, a\<lparr>dirn_forward := up, astate := ACCEL\<rparr>)
      else if dirn_forward a = up then
        (if astate a = FULL then Inr (max_p a, a)
         else if astate a = ACCEL then
           (if idx a + 1 = a_size a then Inr (max_p a, a\<lparr>astate := FULL\<rparr>)
            else let a = a\<lparr>idx := idx a + 1\<rparr> in rbind (table_at a) (\<lambda>v. Inr (v, a)))
         else
           rbind (table_at a) (\<lambda>v.
             let a = slower a in Inr (v, if idx a = 0 then a\<lparr>astate := STOP\<rparr> else a)))
      else if astate a = FULL then
        (if idx a \<noteq> a_size a - 1 then Inl AssertFailed
         else let a = a\<lparr>astate := DECEL\<rparr> in rbind (table_at a) (\<lambda>v. Inr (v, a)))
      else
        let a = slower (a\<lparr>astate := DECEL\<rparr>);
            a = (if idx a = 0 then a\<lparr>astate := STOP, dirn_forward := up\<rparr> else a)
        in rbind (table_at a) (\<lambda>v. Inr (v, a)))"

definition accel_ok :: "accelerator \<Rightarrow> bool" where
  "accel_ok a \<longleftrightarrow>
     0 \<le> idx a \<and> idx a < a_size a \<and> int (length (table a)) = a_size a \<and>
     (astate a = STOP \<longrightarrow> idx a = 0) \<and> (astate a = FULL \<longrightarrow> idx a = a_size a - 1)"

lemma accel_init_ok: "0 < n \<Longrightarrow> accel_init mx mn n = Inr a \<Longrightarrow> accel_ok a"
  by (auto simp: accel_init_def accel_ok_def accel_table_def split: if_splits)

lemma decelerate_ok: "accel_ok a \<Longrightarrow> accel_ok (decelerate a)"
  by (auto simp: accel_ok_def decelerate_def)

lemma accel_go_ok:
  assumes "accel_ok a"
  shows "\<exists>v a'. accel_go up a = Inr (v, a') \<and> accel_ok a' \<and> \<bar>idx a' - idx a\<bar> \<le> 1 \<and>
    a_size a' = a_size a \<and> table a' = table a \<and> max_p a' = max_p a \<and> min_p a' = min_p a"
  using assms
  by (cases "astate a")
    (auto simp: accel_go_def accel_ok_def table_at_def slower_def Let_def)

subsection \<open>\<^verbatim>\<open>Stepper\<close>\<close>

record stepper =
  io :: motor_io
  steps :: int
  count :: int
  target :: int
  rotate_to :: int
  accel :: accelerator

definition stepper_init :: "int \<Rightarrow> motor_io \<Rightarrow> int \<Rightarrow> int \<Rightarrow> int \<Rightarrow> stepper result" where
  "stepper_init cyc m time slow n =
     rbind (accel_init time (if slow = -1 then time else slow) n) (\<lambda>a.
       Inr \<lparr>io = m, steps = cyc, count = 0, target = 0, rotate_to = -1, accel = a\<rparr>)"

definition stepper_step :: "bool \<Rightarrow> stepper \<Rightarrow> stepper result" where
  "stepper_step up s =
     rbind (io_step up (io s)) (\<lambda>m.
       let c = count s + (if up then 1 else -1);
           c = (if c < 0 then c + steps s else c);
           c = (if c \<ge> steps s then c - steps s else c)
       in Inr (s\<lparr>io := m, count := c\<rparr>))"

definition stepper_power :: "bool \<Rightarrow> stepper \<Rightarrow> stepper result" where
  "stepper_power on s = rbind (io_power on (io s)) (\<lambda>m. Inr (s\<lparr>io := m\<rparr>))"

definition clip :: "stepper \<Rightarrow> int \<Rightarrow> int" where
  "clip s t = (if t < 0 then 0 else if t \<ge> steps s then steps s - 1 else t)"

definition seek :: "int \<Rightarrow> stepper \<Rightarrow> stepper" where
  "seek t s = s\<lparr>target := clip s t\<rparr>"

text \<open>The loop of \<^verbatim>\<open>rotate\<close> ends only for a positive number of steps.\<close>

partial_function (option) rotate_loop :: "int \<Rightarrow> int \<Rightarrow> int option" where
  "rotate_loop n t = (if t < 0 then rotate_loop n (t + n) else Some t)"

definition rotate :: "int \<Rightarrow> stepper \<Rightarrow> stepper option" where
  "rotate t s =
     (case rotate_loop (steps s) t of
        None \<Rightarrow> None
      | Some t \<Rightarrow>
          let t = t mod steps s in Some (if t \<noteq> count s then s\<lparr>rotate_to := t\<rparr> else s))"

definition get_delta :: "stepper \<Rightarrow> int" where
  "get_delta s =
     (if rotate_to s = -1 then target s - count s
      else
        let d = rotate_to s - count s; half = trunc_div (steps s) 2
        in if d = 0 then 0
           else if d > 0 then (if d < half then d else - d)
           else if d \<ge> - half then d else - d)"

definition ready :: "stepper \<Rightarrow> bool" where
  "ready s \<longleftrightarrow> get_delta s = 0 \<and> idx (accel s) = 0"

definition zero :: "int \<Rightarrow> stepper \<Rightarrow> stepper" where
  "zero t s = s\<lparr>target := t, count := t\<rparr>"

definition set_steps :: "int \<Rightarrow> stepper \<Rightarrow> stepper" where
  "set_steps n s = s\<lparr>steps := n\<rparr>"

definition poll :: "stepper \<Rightarrow> (int \<times> stepper) result" where
  "poll s =
     (let delta = get_delta s in
      if delta = 0 \<and> stopped (accel s) then Inr (0, s)
      else
        let a = accel s;
            a = (if (astate a = FULL \<or> astate a = ACCEL) \<and> \<bar>delta\<bar> \<le> idx a then decelerate a else a)
        in rbind (accel_go (delta > 0) a) (\<lambda>(period, a).
           rbind (stepper_step (dirn_forward a) (s\<lparr>accel := a\<rparr>)) (\<lambda>s.
             Inr (period,
               if rotate_to s \<noteq> -1 \<and> rotate_to s = count s \<and> stopped (accel s)
               then s\<lparr>rotate_to := -1, target := count s\<rparr> else s))))"

definition stepper_ok :: "stepper \<Rightarrow> bool" where
  "stepper_ok s \<longleftrightarrow>
     io_ok (io s) \<and> accel_ok (accel s) \<and> 0 \<le> count s \<and> count s < steps s \<and>
     0 \<le> target s \<and> target s < steps s \<and> (rotate_to s = -1 \<or> 0 \<le> rotate_to s \<and> rotate_to s < steps s)"

lemma stepper_step_ok:
  assumes "io_ok (io s)" "0 \<le> count s" "count s < steps s"
  shows "\<exists>m. stepper_step up s = Inr (s\<lparr>io := m, count := (count s + (if up then 1 else -1)) mod steps s\<rparr>) \<and> io_ok m"
proof -
  obtain m where m: "io_step up (io s) = Inr m" "io_ok m"
    using io_step_ok [OF assms(1)] by blast
  have "(count s + (if up then 1 else -1)) mod steps s =
      (let c = count s + (if up then 1 else -1);
           c = (if c < 0 then c + steps s else c);
           c = (if c \<ge> steps s then c - steps s else c) in c)"
  proof (cases up)
    case True
    show ?thesis
    proof (cases "count s + 1 = steps s")
      case True
      with \<open>up\<close> assms show ?thesis by simp
    next
      case False
      with \<open>up\<close> assms show ?thesis by (simp add: Let_def)
    qed
  next
    case False
    show ?thesis
    proof (cases "count s = 0")
      case True
      have "(- 1) mod steps s = steps s - 1"
        using assms by (simp add: zmod_minus1)
      with True False assms show ?thesis by (simp add: Let_def)
    next
      case nz: False
      with False assms show ?thesis by (simp add: Let_def)
    qed
  qed
  with m show ?thesis by (intro exI [of _ m]) (simp add: stepper_step_def Let_def)
qed

lemma poll_moves:
  assumes ok: "stepper_ok s" and busy: "\<not> (get_delta s = 0 \<and> stopped (accel s))"
    and a1: "a1 = (if (astate (accel s) = FULL \<or> astate (accel s) = ACCEL) \<and> \<bar>get_delta s\<bar> \<le> idx (accel s)
      then decelerate (accel s) else accel s)"
    and go: "accel_go (get_delta s > 0) a1 = Inr (v, a2)"
  shows "\<exists>s'. poll s = Inr (v, s') \<and> stepper_ok s' \<and> accel s' = a2 \<and> steps s' = steps s \<and>
    count s' = (count s + (if dirn_forward a2 then 1 else -1)) mod steps s \<and>
    (rotate_to s = -1 \<longrightarrow> rotate_to s' = -1 \<and> target s' = target s)"
proof -
  have a2: "accel_ok a2"
    using accel_go_ok [of a1 "get_delta s > 0"] go ok decelerate_ok by (auto simp: a1 stepper_ok_def split: if_splits)
  obtain m where m: "io_ok m" "stepper_step (dirn_forward a2) (s\<lparr>accel := a2\<rparr>) =
      Inr (s\<lparr>accel := a2, io := m, count := (count s + (if dirn_forward a2 then 1 else -1)) mod steps s\<rparr>)"
    using stepper_step_ok [of "s\<lparr>accel := a2\<rparr>" "dirn_forward a2"] ok by (auto simp: stepper_ok_def)
  show ?thesis
    using busy go m ok a2
    by (auto simp: poll_def Let_def a1 [symmetric] stepper_ok_def)
qed

text \<open>
  C12: \<^verbatim>\<open>poll\<close>, \<^verbatim>\<open>power\<close>, \<^verbatim>\<open>seek\<close> and \<^verbatim>\<open>rotate\<close> keep the stepper's invariant (position, target and rotation inside
  the cycle, the ramp index inside its table, the coil state inside the sequence), and \<^verbatim>\<open>poll\<close> and \<^verbatim>\<open>power\<close> never reach
  an \<^verbatim>\<open>ASSERT\<close> or leave an array. \<^verbatim>\<open>zero\<close> and \<^verbatim>\<open>set_steps\<close> take what they are given: \<^verbatim>\<open>zero\<close> keeps the invariant exactly
  for a position inside the cycle, \<^verbatim>\<open>set_steps\<close> exactly for a cycle that still holds position, target and rotation.
\<close>

theorem stepper_stays_ok:
  assumes "stepper_ok s"
  shows "(\<exists>v s'. poll s = Inr (v, s') \<and> stepper_ok s') \<and>
    (\<exists>s'. stepper_power on s = Inr s' \<and> stepper_ok s') \<and>
    stepper_ok (seek t s) \<and>
    (\<exists>s'. rotate t s = Some s' \<and> stepper_ok s' \<and>
       (rotate_to s' = t mod steps s \<or> s' = s \<and> count s = t mod steps s)) \<and>
    (stepper_ok (zero z s) \<longleftrightarrow> 0 \<le> z \<and> z < steps s) \<and>
    (stepper_ok (set_steps n s) \<longleftrightarrow> count s < n \<and> target s < n \<and> rotate_to s < n)"
proof (intro conjI)
  show "\<exists>v s'. poll s = Inr (v, s') \<and> stepper_ok s'"
  proof (cases "get_delta s = 0 \<and> stopped (accel s)")
    case True
    with assms show ?thesis by (simp add: poll_def Let_def)
  next
    case False
    let ?a = "if (astate (accel s) = FULL \<or> astate (accel s) = ACCEL) \<and> \<bar>get_delta s\<bar> \<le> idx (accel s)
      then decelerate (accel s) else accel s"
    have "accel_ok ?a"
      using assms decelerate_ok by (auto simp: stepper_ok_def)
    with poll_moves [OF assms False refl] accel_go_ok [of ?a "get_delta s > 0"] show ?thesis
      by blast
  qed
  show "\<exists>s'. stepper_power on s = Inr s' \<and> stepper_ok s'"
    using assms
    by (auto simp: stepper_power_def io_power_def io_set_state_def stepper_ok_def io_ok_def io_flush_def)
  show "stepper_ok (seek t s)"
    using assms by (auto simp: seek_def clip_def stepper_ok_def)
  have pos: "0 < steps s"
    using assms by (simp add: stepper_ok_def)
  have "\<exists>t'. rotate_loop (steps s) t = Some t' \<and> t' mod steps s = t mod steps s"
  proof (induction "nat (- t)" arbitrary: t rule: less_induct)
    case less
    show ?case
    proof (cases "t < 0")
      case True
      with less [of "t + steps s"] pos show ?thesis by (subst rotate_loop.simps) auto
    qed (simp add: rotate_loop.simps)
  qed
  then show "\<exists>s'. rotate t s = Some s' \<and> stepper_ok s' \<and>
      (rotate_to s' = t mod steps s \<or> s' = s \<and> count s = t mod steps s)"
    using assms pos by (auto simp: rotate_def Let_def stepper_ok_def)
  show "stepper_ok (zero z s) \<longleftrightarrow> 0 \<le> z \<and> z < steps s"
    using assms by (auto simp: zero_def stepper_ok_def)
  show "stepper_ok (set_steps n s) \<longleftrightarrow> count s < n \<and> target s < n \<and> rotate_to s < n"
    using assms by (auto simp: set_steps_def stepper_ok_def)
qed

lemma stepper_init_ok:
  "io_ok m \<Longrightarrow> 0 < cyc \<Longrightarrow> 0 < n \<Longrightarrow> stepper_init cyc m time slow n = Inr s \<Longrightarrow> stepper_ok s"
  by (auto simp: stepper_init_def rbind_Inr_conv stepper_ok_def accel_init_ok)

definition demo_stepper :: "int \<Rightarrow> int \<Rightarrow> stepper" where
  "demo_stepper c t =
     \<lparr>io = \<lparr>pins = cycle ! 0, flushes = 0, needs_flush = False, io_state = 0\<rparr>, steps = 600, count = c, target = t,
      rotate_to = -1,
      accel = \<lparr>a_size = 2, idx = 0, astate = STOP, dirn_forward = True, table = [1000, 1000], max_p = 1000, min_p = 1000\<rparr>\<rparr>"

lemma demo_stepper_ok: "0 \<le> c \<Longrightarrow> c < 600 \<Longrightarrow> 0 \<le> t \<Longrightarrow> t < 600 \<Longrightarrow> stepper_ok (demo_stepper c t)"
  by (simp add: demo_stepper_def stepper_ok_def io_ok_def STATES_def accel_ok_def)

theorem stepper_stays_ok_witness:
  "(\<exists>v s'. poll (demo_stepper 5 7) = Inr (v, s') \<and> stepper_ok s') \<and> stepper_ok (seek (-3) (demo_stepper 5 7)) \<and>
    stepper_ok (zero 599 (demo_stepper 5 7)) \<and> \<not> stepper_ok (zero 700 (demo_stepper 5 7)) \<and>
    \<not> stepper_ok (set_steps 6 (demo_stepper 5 7))"
  using stepper_stays_ok [OF demo_stepper_ok [of 5 7], of True "-3" 599 6]
    stepper_stays_ok [OF demo_stepper_ok [of 5 7], of True "-3" 700 6]
  by (auto simp: demo_stepper_def)

text \<open>
  A position outside the cycle is kept until the next step, which then takes off a whole turn: one step back from 700 of
  600 steps is position 99.
\<close>

lemma zero_outside_jumps:
  "\<exists>s. stepper_step False (zero 700 (demo_stepper 5 7)) = Inr s \<and> count s = 99"
  by (simp add: stepper_step_def zero_def demo_stepper_def io_step_def io_set_state_def STATES_def io_flush_def)

lemma rotate_never_returns:
  assumes "n \<le> 0" "t < 0"
  shows "rotate_loop n t = None"
proof -
  have "t < 0 \<longrightarrow> n \<le> 0 \<longrightarrow> False" if "rotate_loop n t = Some r" for r
    using that
    by (rule rotate_loop.raw_induct [where P = "\<lambda>n t r. t < 0 \<longrightarrow> n \<le> 0 \<longrightarrow> False", rotated])
      (auto split: if_splits, metis add_neg_nonpos linorder_not_less)
  with assms show ?thesis by (cases "rotate_loop n t") auto
qed

subsection \<open>Seeking\<close>

fun polls :: "nat \<Rightarrow> stepper \<Rightarrow> stepper result" where
  "polls 0 s = Inr s"
| "polls (Suc n) s = rbind (poll s) (\<lambda>(_, s). polls n s)"

text \<open>At rest, and on the way towards the target in the direction \<open>f\<close>, \<open>e\<close> steps short of it.\<close>

definition at_rest :: "stepper \<Rightarrow> bool" where
  "at_rest s \<longleftrightarrow> stepper_ok s \<and> rotate_to s = -1 \<and> 1 < a_size (accel s) \<and> idx (accel s) = 0 \<and>
     (astate (accel s) = STOP \<or> astate (accel s) = ACCEL)"

definition ahead :: "stepper \<Rightarrow> int" where
  "ahead s = (if dirn_forward (accel s) then target s - count s else count s - target s)"

definition travelling :: "stepper \<Rightarrow> bool" where
  "travelling s \<longleftrightarrow> stepper_ok s \<and> rotate_to s = -1 \<and> 1 < a_size (accel s) \<and> 0 \<le> ahead s \<and>
     idx (accel s) \<le> ahead s + 1 \<and>
     (astate (accel s) = ACCEL \<or> astate (accel s) = FULL \<or>
      astate (accel s) = DECEL \<and> 1 \<le> idx (accel s) \<and> ahead s \<le> idx (accel s))"

definition arrives :: "nat \<Rightarrow> stepper \<Rightarrow> bool" where
  "arrives n s \<longleftrightarrow> (\<exists>k\<le>n. \<exists>s'. polls k s = Inr s' \<and> at_rest s' \<and> count s' = target s \<and> target s' = target s)"

lemma arrives_Suc: "poll s = Inr (v, s') \<Longrightarrow> target s' = target s \<Longrightarrow> arrives n s' \<Longrightarrow> arrives (Suc n) s"
  unfolding arrives_def by (elim exE conjE) (rule_tac x = "Suc k" in exI, auto)

lemma arrives_now: "at_rest s \<Longrightarrow> count s = target s \<Longrightarrow> arrives n s"
  unfolding arrives_def by (intro exI [of _ 0]) auto

lemma arrives_mono: "arrives m s \<Longrightarrow> m \<le> n \<Longrightarrow> arrives n s"
  unfolding arrives_def by (meson le_trans)

text \<open>One poll on the way: one step nearer, and still travelling, or at rest there.\<close>

lemma travelling_poll:
  assumes tr: "travelling s" and far: "0 < ahead s"
  shows "\<exists>v s'. poll s = Inr (v, s') \<and> target s' = target s \<and>
    (travelling s' \<and> ahead s' = ahead s - 1 \<or> at_rest s' \<and> count s' = target s)"
proof -
  let ?a = "accel s" and ?f = "dirn_forward (accel s)"
  have ok: "stepper_ok s" and rot: "rotate_to s = -1" and size: "1 < a_size ?a" and aok: "accel_ok ?a"
    using tr by (auto simp: travelling_def stepper_ok_def)
  have delta: "get_delta s = (if ?f then ahead s else - ahead s)" "(get_delta s > 0) = ?f" "\<bar>get_delta s\<bar> = ahead s"
    using rot far by (auto simp: get_delta_def ahead_def split: if_splits)
  define a1 where "a1 = (if (astate ?a = FULL \<or> astate ?a = ACCEL) \<and> \<bar>get_delta s\<bar> \<le> idx ?a then decelerate ?a else ?a)"
  have a1: "accel_ok a1" "dirn_forward a1 = ?f" "idx a1 = idx ?a" "a_size a1 = a_size ?a"
    using aok decelerate_ok by (auto simp: a1_def decelerate_def)
  obtain v a2 where go: "accel_go ?f a1 = Inr (v, a2)" and a2: "accel_ok a2" "a_size a2 = a_size ?a"
    using accel_go_ok [OF a1(1), of ?f] a1(4) by auto
  have r: "dirn_forward a2 = ?f \<and> idx a2 \<le> ahead s \<and>
      (astate a2 = ACCEL \<or> astate a2 = FULL \<or> astate a2 = DECEL \<and> 1 \<le> idx a2 \<and> ahead s - 1 \<le> idx a2 \<or>
       astate a2 = STOP \<and> idx a2 = 0 \<and> ahead s = 1)"
    using go tr far delta(3) aok size
    by (cases "astate ?a")
      (auto simp: a1_def accel_go_def decelerate_def slower_def travelling_def table_at_def rbind_Inr_conv Let_def
        accel_ok_def split: if_splits)
  obtain s' where s': "poll s = Inr (v, s')" "stepper_ok s'" "accel s' = a2" "steps s' = steps s"
    "count s' = (count s + (if dirn_forward a2 then 1 else -1)) mod steps s" "rotate_to s' = -1" "target s' = target s"
    using poll_moves [OF ok _ a1_def, of v a2] go far delta rot by auto
  have "count s' = count s + (if ?f then 1 else -1)"
    using s'(5) r far ok by (auto simp: ahead_def stepper_ok_def split: if_splits)
  then have e: "ahead s' = ahead s - 1"
    using s'(3,7) r by (auto simp: ahead_def)
  show ?thesis
  proof (cases "astate a2 = STOP")
    case True
    with r have "at_rest s' \<and> ahead s' = 0"
      using s' a2(2) size e by (auto simp: at_rest_def)
    then have "at_rest s' \<and> count s' = target s"
      using s'(7) by (auto simp: ahead_def split: if_splits)
    with s' show ?thesis by blast
  next
    case False
    then have "travelling s'"
      using r s' a2(2) size e far by (auto simp: travelling_def)
    with s' e show ?thesis by blast
  qed
qed

text \<open>From a standstill a poll starts the motor towards the target.\<close>

lemma at_rest_poll:
  assumes rest: "at_rest s" and far: "count s \<noteq> target s"
  shows "\<exists>v s'. poll s = Inr (v, s') \<and> target s' = target s \<and> \<bar>count s' - target s\<bar> = \<bar>count s - target s\<bar> - 1 \<and>
    (travelling s' \<and> ahead s' = \<bar>count s - target s\<bar> - 1 \<or>
     astate (accel s) \<noteq> STOP \<and> at_rest s' \<and> astate (accel s') = STOP)"
proof -
  let ?a = "accel s"
  have ok: "stepper_ok s" and rot: "rotate_to s = -1" and size: "1 < a_size ?a" and i: "idx ?a = 0"
    using rest by (auto simp: at_rest_def)
  have delta: "get_delta s = target s - count s"
    using rot by (simp add: get_delta_def)
  let ?up = "target s - count s > 0"
  have a1: "?a = (if (astate ?a = FULL \<or> astate ?a = ACCEL) \<and> \<bar>get_delta s\<bar> \<le> idx ?a then decelerate ?a else ?a)"
    using i delta far by auto
  obtain v a2 where go: "accel_go ?up ?a = Inr (v, a2)" and a2: "accel_ok a2" "a_size a2 = a_size ?a"
    using accel_go_ok [of ?a ?up] ok by (auto simp: stepper_ok_def)
  have r: "dirn_forward a2 = ?up \<and>
      (astate a2 = ACCEL \<and> idx a2 \<le> 1 \<or> astate ?a \<noteq> STOP \<and> astate a2 = STOP \<and> idx a2 = 0)"
    using go rest size
    by (auto simp: accel_go_def at_rest_def table_at_def rbind_Inr_conv Let_def slower_def split: if_splits)
  obtain s' where s': "poll s = Inr (v, s')" "stepper_ok s'" "accel s' = a2" "steps s' = steps s"
    "count s' = (count s + (if dirn_forward a2 then 1 else -1)) mod steps s" "rotate_to s' = -1" "target s' = target s"
    using poll_moves [OF ok _ a1, of v a2] go far delta rot by auto
  have c: "count s' = count s + (if ?up then 1 else -1)"
    using s'(5) r far ok by (auto simp: stepper_ok_def split: if_splits)
  then have e: "\<bar>count s' - target s\<bar> = \<bar>count s - target s\<bar> - 1" "ahead s' = \<bar>count s - target s\<bar> - 1"
    using s'(3,7) r far by (auto simp: ahead_def)
  show ?thesis
  proof (cases "astate a2 = STOP")
    case True
    then have "at_rest s'" using r s' a2(2) size by (auto simp: at_rest_def)
    with s' e r True show ?thesis by auto
  next
    case False
    then have "travelling s'"
      using r s' a2(2) size e far by (auto simp: travelling_def)
    with s' e show ?thesis by blast
  qed
qed

text \<open>Arriving with the ramp index still at 1, the motor steps once below the target and comes back.\<close>

lemma overshoot_poll:
  assumes tr: "travelling s" and here: "ahead s = 0" and i: "idx (accel s) \<noteq> 0" and pos: "0 < target s"
  shows "\<exists>v s'. poll s = Inr (v, s') \<and> target s' = target s \<and> at_rest s' \<and> astate (accel s') = STOP \<and>
    count s' = target s - 1"
proof -
  let ?a = "accel s" and ?f = "dirn_forward (accel s)"
  have ok: "stepper_ok s" and rot: "rotate_to s = -1" and size: "1 < a_size ?a" and aok: "accel_ok ?a"
    and i1: "idx ?a = 1"
    using tr i here by (auto simp: travelling_def stepper_ok_def accel_ok_def)
  have c: "count s = target s"
    using here by (auto simp: ahead_def split: if_splits)
  have delta: "get_delta s = 0"
    using rot c by (simp add: get_delta_def)
  define a1 where "a1 = (if (astate ?a = FULL \<or> astate ?a = ACCEL) \<and> \<bar>get_delta s\<bar> \<le> idx ?a then decelerate ?a else ?a)"
  have a1: "accel_ok a1"
    using aok decelerate_ok by (auto simp: a1_def)
  obtain v a2 where go: "accel_go False a1 = Inr (v, a2)" and a2: "accel_ok a2" "a_size a2 = a_size ?a"
    using accel_go_ok [OF a1, of False] by (auto simp: a1_def decelerate_def split: if_splits)
  have r: "\<not> dirn_forward a2 \<and> astate a2 = STOP \<and> idx a2 = 0"
    using go tr i1 delta
    by (auto simp: a1_def accel_go_def decelerate_def slower_def travelling_def table_at_def rbind_Inr_conv Let_def
        split: if_splits)
  obtain s' where s': "poll s = Inr (v, s')" "stepper_ok s'" "accel s' = a2" "steps s' = steps s"
    "count s' = (count s + (if dirn_forward a2 then 1 else -1)) mod steps s" "rotate_to s' = -1" "target s' = target s"
    using poll_moves [OF ok _ a1_def, of v a2] go delta rot i by (auto simp: stopped_def)
  have "count s' = target s - 1"
    using s'(5) r c pos ok by (auto simp: stepper_ok_def)
  with s' r a2(2) size show ?thesis
    by (intro exI [of _ v] exI [of _ s']) (auto simp: at_rest_def)
qed

lemma rest_below_arrives:
  assumes "at_rest s" "astate (accel s) = STOP" "count s = target s - 1"
  shows "arrives 1 s"
proof -
  have t: "count s \<noteq> target s" using assms by simp
  from at_rest_poll [OF assms(1) t] assms(3) obtain v s' where s': "poll s = Inr (v, s')" "target s' = target s"
    "count s' = target s" "travelling s' \<and> ahead s' = 0 \<or> at_rest s'"
    by auto
  have "idx (accel s') = 0 \<and> astate (accel s') = ACCEL"
    using s'(1) assms(1,2) t
    by (auto simp: poll_def at_rest_def accel_go_def Let_def rbind_Inr_conv stepper_step_def get_delta_def split: if_splits)
  then have "at_rest s'"
    using s'(4) by (auto simp: travelling_def at_rest_def)
  then show ?thesis
    using arrives_Suc [OF s'(1,2) arrives_now [of s' 0]] s'(2,3) by simp
qed

lemma travelling_arrives:
  "travelling s \<Longrightarrow> 0 < target s \<Longrightarrow> arrives (nat (ahead s) + 2) s"
proof (induction "nat (ahead s)" arbitrary: s)
  case 0
  then have here: "ahead s = 0" by (simp add: travelling_def)
  then have c: "count s = target s"
    by (auto simp: ahead_def split: if_splits)
  show ?case
  proof (cases "idx (accel s) = 0")
    case True
    with 0 here have "astate (accel s) = ACCEL"
      by (auto simp: travelling_def accel_ok_def stepper_ok_def)
    with 0 True have "at_rest s"
      by (auto simp: travelling_def at_rest_def)
    with c show ?thesis by (intro arrives_now)
  next
    case False
    from overshoot_poll [OF 0(2) here False 0(3)] obtain v s' where
      "poll s = Inr (v, s')" "target s' = target s" "at_rest s'" "astate (accel s') = STOP" "count s' = target s - 1"
      by blast
    then show ?thesis
      using arrives_Suc [of s v s' 1] rest_below_arrives [of s'] here by (simp add: numeral_2_eq_2)
  qed
next
  case (Suc n)
  then have "0 < ahead s" by simp
  from travelling_poll [OF Suc.prems(1) this] obtain v s' where
    p: "poll s = Inr (v, s')" "target s' = target s" and
    q: "travelling s' \<and> ahead s' = ahead s - 1 \<or> at_rest s' \<and> count s' = target s"
    by blast
  from q have "arrives (n + 2) s'"
  proof
    assume t: "travelling s' \<and> ahead s' = ahead s - 1"
    then have n: "n = nat (ahead s')"
      using Suc.hyps(2) by simp
    with Suc.hyps(1) [OF n] Suc.prems t p(2) show ?thesis by simp
  qed (use p(2) in \<open>auto intro: arrives_now\<close>)
  with arrives_Suc [OF p] Suc.hyps(2) show ?case by (metis add_Suc)
qed

lemma stop_arrives:
  assumes "at_rest s" "astate (accel s) = STOP" "0 < target s"
  shows "arrives (nat \<bar>count s - target s\<bar> + 2) s"
proof (cases "count s = target s")
  case True
  with assms show ?thesis by (intro arrives_now)
next
  case False
  from at_rest_poll [OF assms(1) False] assms(2) obtain v s' where
    "poll s = Inr (v, s')" "target s' = target s" "travelling s'" "ahead s' = \<bar>count s - target s\<bar> - 1"
    by blast
  with arrives_Suc [of s v s' "nat (ahead s') + 2"] travelling_arrives [of s'] assms(3) False show ?thesis
    by (auto elim!: arrives_mono)
qed

text \<open>
  C11: seeking ends. From a standstill, a stepper whose ramp has at least two entries reaches every target
  except position 0, and rests there, after at most two polls more than the distance.
\<close>

theorem stepper_seek_arrives:
  assumes "at_rest s" "0 < target s"
  shows "\<exists>k \<le> nat \<bar>count s - target s\<bar> + 2. \<exists>s'. polls k s = Inr s' \<and> count s' = target s \<and>
    target s' = target s \<and> ready s' \<and> poll s' = Inr (0, s')"
proof -
  have "arrives (nat \<bar>count s - target s\<bar> + 2) s"
  proof (cases "count s = target s")
    case True
    with assms show ?thesis by (intro arrives_now)
  next
    case False
    from at_rest_poll [OF assms(1) False] obtain v s' where
      p: "poll s = Inr (v, s')" "target s' = target s" "\<bar>count s' - target s\<bar> = \<bar>count s - target s\<bar> - 1" and
      q: "travelling s' \<and> ahead s' = \<bar>count s - target s\<bar> - 1 \<or> at_rest s' \<and> astate (accel s') = STOP"
      by blast
    from q have "arrives (nat (\<bar>count s - target s\<bar> - 1) + 2) s'"
      using travelling_arrives [of s'] stop_arrives [of s'] assms(2) p(2,3) by auto
    from arrives_mono [OF arrives_Suc [OF p(1,2) this]] False show ?thesis by auto
  qed
  then show ?thesis
    unfolding arrives_def
    by (elim exE conjE, rule_tac x = k in exI, simp)
      (auto simp: at_rest_def ready_def get_delta_def poll_def stopped_def)
qed

theorem stepper_seek_arrives_witness:
  "\<exists>k \<le> 7. \<exists>s'. polls k (demo_stepper 10 5) = Inr s' \<and> count s' = 5"
proof -
  have "at_rest (demo_stepper 10 5)" "0 < target (demo_stepper 10 5)"
    using demo_stepper_ok [of 10 5] by (simp_all add: at_rest_def demo_stepper_def)
  from stepper_seek_arrives [OF this] show ?thesis
    by (auto simp: demo_stepper_def)
qed

text \<open>
  seeking position 0 can go all the way round. Two steps above it, with a ramp of two entries (the default),
  the motor arrives with the ramp index at 1, takes one step more and finds itself at the last position of the
  cycle, a whole turn from the target.
\<close>

theorem stepper_overshoots_zero:
  assumes "at_rest s" "astate (accel s) = STOP" "a_size (accel s) = 2" "count s = 2" "target s = 0"
  shows "\<exists>s'. polls 3 s = Inr s' \<and> count s' = steps s - 1 \<and> get_delta s' = - (steps s - 1)"
proof -
  let ?a = "accel s"
  let ?b = "?a\<lparr>dirn_forward := False, astate := ACCEL\<rparr>"
  let ?c = "?b\<lparr>idx := 1\<rparr>"
  let ?d = "?c\<lparr>astate := STOP, idx := 0\<rparr>"
  have a: "idx ?a = 0" "length (table ?a) = 2" "rotate_to s = -1" "stepper_ok s" "2 < steps s"
    using assms by (auto simp: at_rest_def stepper_ok_def accel_ok_def)
  have "get_delta s = -2"
    using assms a by (simp add: get_delta_def)
  with poll_moves [of s ?a "min_p ?a" ?b] a assms obtain s1 where
    s1: "poll s = Inr (min_p ?a, s1)" "stepper_ok s1" "accel s1 = ?b" "steps s1 = steps s" "count s1 = 1"
      "rotate_to s1 = -1" "target s1 = 0"
    by (auto simp: accel_go_def)
  then have d1: "get_delta s1 = -1"
    by (simp add: get_delta_def)
  have "accel_go False ?b = Inr (table ?a ! 1, ?c)"
    using a assms by (simp add: accel_go_def table_at_def)
  then have go1: "accel_go (get_delta s1 > 0) ?b = Inr (table ?a ! 1, ?c)"
    by (simp add: d1)
  have k1: "?b = (if (astate (accel s1) = FULL \<or> astate (accel s1) = ACCEL) \<and> \<bar>get_delta s1\<bar> \<le> idx (accel s1)
      then decelerate (accel s1) else accel s1)" "\<not> (get_delta s1 = 0 \<and> stopped (accel s1))"
    by (simp_all add: d1 s1(3) a)
  from poll_moves [OF s1(2) k1(2,1) go1] s1(4-7) obtain s2 where
    s2: "poll s1 = Inr (table ?a ! 1, s2)" "stepper_ok s2" "accel s2 = ?c" "steps s2 = steps s" "count s2 = 0"
      "rotate_to s2 = -1" "target s2 = 0"
    by auto
  then have d2: "get_delta s2 = 0"
    by (simp add: get_delta_def)
  have "accel_go False (?c\<lparr>astate := DECEL\<rparr>) = Inr (table ?a ! 1, ?d)"
    using a by (simp add: accel_go_def table_at_def slower_def)
  then have go2: "accel_go (get_delta s2 > 0) (?c\<lparr>astate := DECEL\<rparr>) = Inr (table ?a ! 1, ?d)"
    by (simp add: d2)
  have k2: "?c\<lparr>astate := DECEL\<rparr> = (if (astate (accel s2) = FULL \<or> astate (accel s2) = ACCEL) \<and> \<bar>get_delta s2\<bar> \<le> idx (accel s2)
      then decelerate (accel s2) else accel s2)" "\<not> (get_delta s2 = 0 \<and> stopped (accel s2))"
    by (simp_all add: d2 s2(3) decelerate_def stopped_def)
  from poll_moves [OF s2(2) k2(2,1) go2] s2(4-7) obtain s3 where
    s3: "poll s2 = Inr (table ?a ! 1, s3)" "steps s3 = steps s" "count s3 = (-1) mod steps s"
      "rotate_to s3 = -1" "target s3 = 0"
    by auto
  have "(-1) mod steps s = steps s - 1"
    using a(5) by (simp add: zmod_minus1)
  with s1(1) s2(1) s3 show ?thesis
    by (simp add: numeral_3_eq_3 get_delta_def)
qed

theorem stepper_overshoots_zero_witness:
  "\<exists>s'. polls 3 (demo_stepper 2 0) = Inr s' \<and> count s' = 599"
proof -
  have "at_rest (demo_stepper 2 0)"
    using demo_stepper_ok [of 2 0] by (simp add: at_rest_def demo_stepper_def)
  from stepper_overshoots_zero [OF this] show ?thesis
    by (auto simp: demo_stepper_def)
qed

end
