(* ===== verification/Mcp23s17.thy ===== *)
theory Mcp23s17
  imports Prelude
begin

text \<open>
  The port expander of drivers/mcp23s17.cpp: the write-back caches of the two GPIO registers, and the
  pins (\<^verbatim>\<open>ExpandedGpio\<close>) that share them.

  The chip itself is outside the program. The model keeps what the bus was told: \<open>regs\<close>, the byte last
  written to each register (\<^verbatim>\<open>reg_write\<close>), and \<open>bus\<close>, the writes in order. Reading a register answers
  what was written to it, except the GPIO registers, which answer the levels on the port (\<open>levels_in\<close>), as
  the data sheet has it. Locks are not modelled: every operation below holds the cache lock throughout or
  works on one field.
\<close>

datatype register =
    R_IODIRA | R_IODIRB | R_IPOLA | R_IPOLB | R_GPINTENA | R_GPINTENB | R_DEFVALA | R_DEFVALB
  | R_INTCONA | R_INTCONB | R_IOCON | R_GPPUA | R_GPPUB | R_INTFA | R_INTFB | R_INTCAPA | R_INTCAPB
  | R_GPIOA | R_GPIOB | R_OLATA | R_OLATB

datatype port = PORTA | PORTB

datatype pin_mode = OUTPUT | INPUT | INPUT_PU | IT_FALLING | IT_RISING

record cache =
  cdata :: u8
  dirty :: bool

definition cache_init :: cache where
  "cache_init = \<lparr>cdata = 0, dirty = False\<rparr>"

definition cache_set_mask :: "u8 \<Rightarrow> cache \<Rightarrow> cache" where
  "cache_set_mask m c =
     (let n = cdata c OR m in if n \<noteq> cdata c then \<lparr>cdata = n, dirty = True\<rparr> else c)"

definition cache_clr_mask :: "u8 \<Rightarrow> cache \<Rightarrow> cache" where
  "cache_clr_mask m c =
     (let n = cdata c AND NOT m in if n \<noteq> cdata c then \<lparr>cdata = n, dirty = True\<rparr> else c)"

definition cache_write :: "u8 \<Rightarrow> cache \<Rightarrow> cache" where
  "cache_write d c = \<lparr>cdata = d, dirty = (cdata c \<noteq> d)\<rparr>"

record gpio =
  gport :: port
  gbit :: nat
  gmask :: u8
  is_output :: bool
  auto_flush :: bool
  irq_fn :: "nat option"   \<comment> \<open>which handler; \<open>None\<close> is null\<close>

record chip =
  regs :: "register \<Rightarrow> u8"
  levels_in :: "port \<Rightarrow> u8"
  bus :: "(register \<times> u8) list"
  caches :: "port \<Rightarrow> cache"
  chip_pins :: "gpio option list"

text \<open>\<^verbatim>\<open>get_cache\<close>: which registers have one.\<close>

definition get_cache :: "register \<Rightarrow> port option" where
  "get_cache r = (case r of R_GPIOA \<Rightarrow> Some PORTA | R_GPIOB \<Rightarrow> Some PORTB | _ \<Rightarrow> None)"

definition reg_write :: "register \<Rightarrow> u8 \<Rightarrow> chip \<Rightarrow> chip" where
  "reg_write r d c = c\<lparr>regs := (regs c)(r := d), bus := bus c @ [(r, d)]\<rparr>"

definition chip_read :: "register \<Rightarrow> chip \<Rightarrow> u8" where
  "chip_read r c = (case get_cache r of Some p \<Rightarrow> levels_in c p | None \<Rightarrow> regs c r)"

definition on_cache :: "port \<Rightarrow> (cache \<Rightarrow> cache) \<Rightarrow> chip \<Rightarrow> chip" where
  "on_cache p f c = c\<lparr>caches := (caches c)(p := f (caches c p))\<rparr>"

definition mcp_write :: "register \<Rightarrow> u8 \<Rightarrow> chip \<Rightarrow> chip" where
  "mcp_write r d c =
     (let c = reg_write r d c
      in case get_cache r of Some p \<Rightarrow> on_cache p (cache_write d) c | None \<Rightarrow> c)"

definition read_cache :: "register \<Rightarrow> chip \<Rightarrow> u8 result" where
  "read_cache r c = (case get_cache r of Some p \<Rightarrow> Inr (cdata (caches c p)) | None \<Rightarrow> Inl AssertFailed)"

definition write_cache :: "register \<Rightarrow> u8 \<Rightarrow> chip \<Rightarrow> chip result" where
  "write_cache r d c =
     (case get_cache r of Some p \<Rightarrow> Inr (on_cache p (cache_write d) c) | None \<Rightarrow> Inl AssertFailed)"

definition flush_cache :: "register \<Rightarrow> chip \<Rightarrow> bool \<times> chip" where
  "flush_cache r c =
     (case get_cache r of
        None \<Rightarrow> (False, c)
      | Some p \<Rightarrow>
          if \<not> dirty (caches c p) then (True, c)
          else (True, on_cache p (\<lambda>k. k\<lparr>dirty := False\<rparr>) (reg_write r (cdata (caches c p)) c)))"

subsection \<open>Pins\<close>

definition gpio_reg :: "port \<Rightarrow> register" where
  "gpio_reg p = (case p of PORTA \<Rightarrow> R_GPIOA | PORTB \<Rightarrow> R_GPIOB)"

definition iodir_reg :: "port \<Rightarrow> register" where
  "iodir_reg p = (case p of PORTA \<Rightarrow> R_IODIRA | PORTB \<Rightarrow> R_IODIRB)"

definition gppu_reg :: "port \<Rightarrow> register" where
  "gppu_reg p = (case p of PORTA \<Rightarrow> R_GPPUA | PORTB \<Rightarrow> R_GPPUB)"

definition gpinten_reg :: "port \<Rightarrow> register" where
  "gpinten_reg p = (case p of PORTA \<Rightarrow> R_GPINTENA | PORTB \<Rightarrow> R_GPINTENB)"

definition defval_reg :: "port \<Rightarrow> register" where
  "defval_reg p = (case p of PORTA \<Rightarrow> R_DEFVALA | PORTB \<Rightarrow> R_DEFVALB)"

definition g_set_mask :: "gpio \<Rightarrow> register \<Rightarrow> bool \<Rightarrow> chip \<Rightarrow> chip" where
  "g_set_mask g r fl c =
     (case get_cache r of
        Some p \<Rightarrow>
          let c = on_cache p (cache_set_mask (gmask g)) c
          in if fl \<or> auto_flush g then snd (flush_cache r c) else c
      | None \<Rightarrow> mcp_write r (chip_read r c OR gmask g) c)"

definition g_clr_mask :: "gpio \<Rightarrow> register \<Rightarrow> bool \<Rightarrow> chip \<Rightarrow> chip" where
  "g_clr_mask g r fl c =
     (case get_cache r of
        Some p \<Rightarrow>
          let c = on_cache p (cache_clr_mask (gmask g)) c
          in if fl \<or> auto_flush g then snd (flush_cache r c) else c
      | None \<Rightarrow> mcp_write r (chip_read r c AND NOT (gmask g)) c)"

definition pin_index :: "port \<Rightarrow> nat \<Rightarrow> nat" where
  "pin_index p b = (case p of PORTA \<Rightarrow> b | PORTB \<Rightarrow> b + 8)"

definition set_pin :: "gpio option \<Rightarrow> port \<Rightarrow> nat \<Rightarrow> chip \<Rightarrow> chip result" where
  "set_pin g p b c =
     (if pin_index p b < 16 then Inr (c\<lparr>chip_pins := (chip_pins c)[pin_index p b := g]\<rparr>) else Inl AssertFailed)"

text \<open>The constructor of \<^verbatim>\<open>ExpandedGpio\<close> (and \<^verbatim>\<open>make_gpio\<close>).\<close>

definition gpio_setup :: "gpio \<Rightarrow> pin_mode \<Rightarrow> chip \<Rightarrow> chip" where
  "gpio_setup g mode c =
     (let p = gport g in
      case mode of
        INPUT \<Rightarrow> g_clr_mask g (gppu_reg p) True (g_set_mask g (iodir_reg p) True c)
      | INPUT_PU \<Rightarrow> g_set_mask g (gppu_reg p) True (g_set_mask g (iodir_reg p) True c)
      | OUTPUT \<Rightarrow> g_clr_mask g (iodir_reg p) True c
      | IT_RISING \<Rightarrow>
          g_set_mask g (gpinten_reg p) True (g_set_mask g (defval_reg p) True
            (g_set_mask g (gppu_reg p) True (g_set_mask g (iodir_reg p) True c)))
      | IT_FALLING \<Rightarrow>
          g_set_mask g (gpinten_reg p) True (g_clr_mask g (defval_reg p) True
            (g_set_mask g (gppu_reg p) True (g_set_mask g (iodir_reg p) True c))))"

definition make_gpio :: "port \<Rightarrow> nat \<Rightarrow> pin_mode \<Rightarrow> bool \<Rightarrow> chip \<Rightarrow> (gpio \<times> chip) result" where
  "make_gpio p b mode af c =
     (if \<not> b \<le> 7 then Inl AssertFailed
      else
        let g = \<lparr>gport = p, gbit = b, gmask = push_bit b 1, is_output = (mode = OUTPUT), auto_flush = af, irq_fn = None\<rparr>
        in rbind (set_pin (Some g) p b (gpio_setup g mode c)) (\<lambda>c. Inr (g, c)))"

text \<open>The destructor.\<close>

definition gpio_delete :: "gpio \<Rightarrow> chip \<Rightarrow> chip result" where
  "gpio_delete g c =
     rbind (set_pin None (gport g) (gbit g) c) (\<lambda>c. Inr (g_clr_mask g (gpinten_reg (gport g)) True c))"

definition gpio_set :: "gpio \<Rightarrow> bool \<Rightarrow> chip \<Rightarrow> chip" where
  "gpio_set g s c = (if s then g_set_mask g (gpio_reg (gport g)) False c else g_clr_mask g (gpio_reg (gport g)) False c)"

definition gpio_get :: "gpio \<Rightarrow> chip \<Rightarrow> bool" where
  "gpio_get g c =
     ((if is_output g then cdata (caches c (gport g)) else chip_read (gpio_reg (gport g)) c) AND gmask g \<noteq> 0)"

definition gpio_toggle :: "gpio \<Rightarrow> chip \<Rightarrow> chip" where
  "gpio_toggle g c = gpio_set g (\<not> gpio_get g c) c"

definition gpio_flush :: "gpio \<Rightarrow> chip \<Rightarrow> bool \<times> chip" where
  "gpio_flush g c = (if is_output g then flush_cache (gpio_reg (gport g)) c else (False, c))"

text \<open>
  \<^verbatim>\<open>SPI_MCP23S17::_on_interrupt\<close>: from the two INTF bytes, the pins whose \<^verbatim>\<open>on_interrupt\<close> is called, and of those
  with a handler the handlers, in order.
\<close>

definition irq_order :: "u8 \<Rightarrow> u8 \<Rightarrow> nat list" where
  "irq_order a b = filter (\<lambda>i. if i < 8 then bit a i else bit b (i - 8)) [0..<16]"

definition on_interrupt :: "u8 \<Rightarrow> u8 \<Rightarrow> chip \<Rightarrow> nat list" where
  "on_interrupt a b c =
     List.map_filter (\<lambda>i. case chip_pins c ! i of None \<Rightarrow> None | Some g \<Rightarrow> irq_fn g) (irq_order a b)"

subsection \<open>Frames on the bus\<close>

text \<open>\<^verbatim>\<open>SpiDevice\<close> (drivers/spi.cpp) and the I2C variant.\<close>

definition spi_addr_cmd :: "u8 \<Rightarrow> u8 result" where
  "spi_addr_cmd addr = (if addr \<le> 7 then Inr (0x40 + push_bit 1 addr) else Inl AssertFailed)"

definition spi_init_frame :: "u8 \<Rightarrow> u8 list" where
  "spi_init_frame addr = [if addr AND 4 \<noteq> 0 then 0x48 else 0x40, 0x0a, 0x08 OR 0x40]"

definition spi_write_frame :: "u8 \<Rightarrow> u8 \<Rightarrow> u8 \<Rightarrow> u8 list" where
  "spi_write_frame addr r d = [addr, r, d]"

definition spi_read_frame :: "u8 \<Rightarrow> u8 \<Rightarrow> u8 list" where
  "spi_read_frame addr r = [addr OR 1, r, 0]"

subsection \<open>The cache and the chip\<close>

text \<open>A clean cache agrees with the chip.\<close>

definition coherent :: "chip \<Rightarrow> bool" where
  "coherent c \<longleftrightarrow> (\<forall>p. \<not> dirty (caches c p) \<longrightarrow> regs c (gpio_reg p) = cdata (caches c p))"

lemma get_cache_gpio_reg [simp]: "get_cache (gpio_reg p) = Some p"
  by (cases p) (simp_all add: gpio_reg_def get_cache_def)

lemma get_cache_Some: "get_cache r = Some p \<longleftrightarrow> r = gpio_reg p"
  by (cases r; cases p) (simp_all add: gpio_reg_def get_cache_def)

lemma gpio_reg_inj [simp]: "gpio_reg p = gpio_reg q \<longleftrightarrow> p = q"
  by (cases p; cases q) (simp_all add: gpio_reg_def)

lemma config_regs [simp]:
  "get_cache (iodir_reg p) = None" "get_cache (gppu_reg p) = None" "get_cache (gpinten_reg p) = None"
  "get_cache (defval_reg p) = None"
  by (cases p; simp add: iodir_reg_def gppu_reg_def gpinten_reg_def defval_reg_def get_cache_def)+

lemma config_not_gpio: "get_cache r = None \<Longrightarrow> r \<noteq> gpio_reg p"
  by auto

lemma coherent_on_cache:
  "coherent c \<Longrightarrow> (\<And>k. f k = k \<or> dirty (f k)) \<Longrightarrow> coherent (on_cache p f c)"
  unfolding coherent_def on_cache_def by (auto, metis)

lemma masks_dirty: "cache_set_mask m k = k \<or> dirty (cache_set_mask m k)"
    "cache_clr_mask m k = k \<or> dirty (cache_clr_mask m k)"
  by (simp_all add: cache_set_mask_def cache_clr_mask_def Let_def)

lemma coherent_flush: "coherent c \<Longrightarrow> coherent (snd (flush_cache r c))"
  by (cases "get_cache r") (auto simp: flush_cache_def coherent_def on_cache_def reg_write_def get_cache_Some)

lemma coherent_mcp_write: "coherent c \<Longrightarrow> coherent (mcp_write r d c)"
  by (cases "get_cache r")
    (auto simp: mcp_write_def coherent_def on_cache_def reg_write_def cache_write_def get_cache_Some Let_def
      dest: config_not_gpio)

lemma coherent_masks:
  "coherent c \<Longrightarrow> coherent (g_set_mask g r fl c)" "coherent c \<Longrightarrow> coherent (g_clr_mask g r fl c)"
  by (cases "get_cache r";
      auto simp: g_set_mask_def g_clr_mask_def Let_def intro!: coherent_mcp_write coherent_flush coherent_on_cache masks_dirty)+

lemma flush_clean:
  "\<not> dirty (caches (snd (flush_cache (gpio_reg p) c)) p)"
  "coherent c \<Longrightarrow> regs (snd (flush_cache (gpio_reg p) c)) (gpio_reg p) = cdata (caches c p)"
  "cdata (caches (snd (flush_cache r c)) q) = cdata (caches c q)"
  by (auto simp: flush_cache_def on_cache_def reg_write_def coherent_def split: option.splits)

text \<open>What the users of the pins can do, in any order.\<close>

datatype chip_op =
    OSet gpio bool | OToggle gpio | OFlush gpio | OWrite register u8 | OMake port nat pin_mode bool | ODelete gpio

fun chip_step :: "chip_op \<Rightarrow> chip \<Rightarrow> chip result" where
  "chip_step (OSet g s) c = Inr (gpio_set g s c)"
| "chip_step (OToggle g) c = Inr (gpio_toggle g c)"
| "chip_step (OFlush g) c = Inr (snd (gpio_flush g c))"
| "chip_step (OWrite r d) c = Inr (mcp_write r d c)"
| "chip_step (OMake p b m af) c = rbind (make_gpio p b m af c) (\<lambda>(_, c). Inr c)"
| "chip_step (ODelete g) c = gpio_delete g c"

fun chip_run :: "chip_op list \<Rightarrow> chip \<Rightarrow> chip result" where
  "chip_run [] c = Inr c"
| "chip_run (x # xs) c = rbind (chip_step x c) (chip_run xs)"

lemma coherent_set: "coherent c \<Longrightarrow> coherent (gpio_set g s c)"
  by (simp add: gpio_set_def coherent_masks)

lemma coherent_setup: "coherent c \<Longrightarrow> coherent (gpio_setup g m c)"
  by (cases m) (simp_all add: gpio_setup_def Let_def coherent_masks)

lemma coherent_set_pin: "set_pin g p b c = Inr c' \<Longrightarrow> coherent c \<Longrightarrow> coherent c'"
  by (auto simp: set_pin_def coherent_def split: if_splits)

lemma coherent_step: "chip_step x c = Inr c' \<Longrightarrow> coherent c \<Longrightarrow> coherent c'"
  by (cases x)
    (auto simp: gpio_toggle_def gpio_flush_def make_gpio_def gpio_delete_def rbind_Inr_conv Let_def
      intro: coherent_set coherent_flush coherent_mcp_write coherent_masks
      dest!: coherent_set_pin coherent_set_pin [OF _ coherent_setup] split: if_splits)

lemma coherent_run: "chip_run xs c = Inr c' \<Longrightarrow> coherent c \<Longrightarrow> coherent c'"
  by (induction xs arbitrary: c) (auto simp: rbind_Inr_conv dest: coherent_step)

text \<open>
  C10: through the pins the cache never loses an update. Whatever sets, toggles, flushes, register writes, and creations
  and deletions of pins have gone before, flushing a port leaves in the chip exactly what the cache holds.
\<close>

theorem mcp_flush_coherent:
  assumes "chip_run xs c = Inr c'" "coherent c"
  shows "coherent c' \<and>
    regs (snd (flush_cache (gpio_reg p) c')) (gpio_reg p) = cdata (caches c' p) \<and>
    \<not> dirty (caches (snd (flush_cache (gpio_reg p) c')) p)"
  using coherent_run [OF assms] flush_clean by auto

definition demo_chip :: chip where
  "demo_chip = \<lparr>regs = (\<lambda>_. 0), levels_in = (\<lambda>_. 0), bus = [], caches = (\<lambda>_. cache_init), chip_pins = replicate 16 None\<rparr>"

lemma demo_chip_coherent: "coherent demo_chip"
  by (simp add: demo_chip_def coherent_def cache_init_def)

definition demo_pin :: "port \<Rightarrow> nat \<Rightarrow> gpio" where
  "demo_pin p b = \<lparr>gport = p, gbit = b, gmask = push_bit b 1, is_output = True, auto_flush = False, irq_fn = None\<rparr>"

theorem mcp_flush_coherent_witness:
  "\<exists>c'. chip_run [OSet (demo_pin PORTB 3) True, OToggle (demo_pin PORTB 0)] demo_chip = Inr c' \<and>
    regs (snd (flush_cache (gpio_reg PORTB) c')) (gpio_reg PORTB) = cdata (caches c' PORTB)"
  using mcp_flush_coherent [OF _ demo_chip_coherent, of "[OSet (demo_pin PORTB 3) True, OToggle (demo_pin PORTB 0)]" _ PORTB]
  by simp

text \<open>
  \<^verbatim>\<open>write_cache\<close> can lose one. \<^verbatim>\<open>Cache::write\<close> assigns \<^verbatim>\<open>dirty\<close>, so writing the value an unflushed cache
  already holds marks it clean, and the chip never gets it.
\<close>

theorem mcp_write_cache_loses_update:
  assumes "\<not> dirty (caches c p)" "coherent c" "cdata (caches c p) OR m \<noteq> cdata (caches c p)"
    "c1 = on_cache p (cache_set_mask m) c"
    "write_cache (gpio_reg p) (cdata (caches c p) OR m) c1 = Inr c2"
  shows "regs (snd (flush_cache (gpio_reg p) c2)) (gpio_reg p) \<noteq> cdata (caches c2 p) \<and>
    regs (snd (flush_cache (gpio_reg p) c1)) (gpio_reg p) = cdata (caches c2 p)"
  using assms
  by (auto simp: write_cache_def on_cache_def cache_set_mask_def cache_write_def flush_cache_def coherent_def
      reg_write_def Let_def)

theorem mcp_write_cache_loses_update_witness:
  "\<exists>c2. write_cache R_GPIOA 1 (on_cache PORTA (cache_set_mask 1) demo_chip) = Inr c2 \<and>
     regs (snd (flush_cache R_GPIOA c2)) R_GPIOA = 0 \<and> cdata (caches c2 PORTA) = 1"
proof -
  have r: "R_GPIOA = gpio_reg PORTA" by (simp add: gpio_reg_def)
  have w: "write_cache R_GPIOA 1 (on_cache PORTA (cache_set_mask 1) demo_chip) =
      Inr (on_cache PORTA (cache_write 1) (on_cache PORTA (cache_set_mask 1) demo_chip))"
    by (simp add: write_cache_def get_cache_def)
  let ?c2 = "on_cache PORTA (cache_write 1) (on_cache PORTA (cache_set_mask 1) demo_chip)"
  have "regs (snd (flush_cache (gpio_reg PORTA) ?c2)) (gpio_reg PORTA) \<noteq> cdata (caches ?c2 PORTA)"
    using mcp_write_cache_loses_update [of demo_chip PORTA 1 _ ?c2] w
    by (simp add: r [symmetric] demo_chip_coherent) (simp add: demo_chip_def cache_init_def)
  moreover have "regs (snd (flush_cache R_GPIOA ?c2)) R_GPIOA = 0"
    by (simp add: flush_cache_def get_cache_def on_cache_def cache_write_def cache_set_mask_def demo_chip_def
        cache_init_def Let_def)
  moreover have "cdata (caches ?c2 PORTA) = 1"
    by (simp add: on_cache_def cache_write_def)
  ultimately show ?thesis
    using w by auto
qed

subsection \<open>Each pin is its own\<close>

definition gpio_wf :: "gpio \<Rightarrow> bool" where
  "gpio_wf g \<longleftrightarrow> gbit g \<le> 7 \<and> gmask g = push_bit (gbit g) 1"

lemma bit_gmask: "gpio_wf g \<Longrightarrow> bit (gmask g) i \<longleftrightarrow> i = gbit g"
  by (auto simp: gpio_wf_def bit_simps)

lemma and_mask_bit: "gpio_wf g \<Longrightarrow> (x AND gmask g = 0) \<longleftrightarrow> \<not> bit x (gbit g)"
  by (simp add: gpio_wf_def push_bit_of_1 and_exp_eq_0_iff_not_bit)

lemma cdata_masks:
  "cdata (cache_set_mask m k) = cdata k OR m" "cdata (cache_clr_mask m k) = cdata k AND NOT m"
  by (auto simp: cache_set_mask_def cache_clr_mask_def Let_def)

lemma cdata_gpio_set:
  "cdata (caches (gpio_set g s c) p) =
    (if p = gport g then (if s then cdata (caches c p) OR gmask g else cdata (caches c p) AND NOT (gmask g))
     else cdata (caches c p))"
  by (auto simp: gpio_set_def g_set_mask_def g_clr_mask_def flush_clean on_cache_def cdata_masks Let_def)

lemma cdata_flush: "cdata (caches (snd (gpio_flush g c)) p) = cdata (caches c p)"
  by (simp add: gpio_flush_def flush_clean)

text \<open>
  output pins do not disturb each other. Setting a pin makes it read back what was set, leaves every other output
  pin as it was, toggling inverts it, and flushing puts exactly these levels into the chip.
\<close>

theorem mcp_pins_independent:
  assumes "gpio_wf g" "is_output g" "gpio_wf k" "is_output k" "coherent c"
  shows "gpio_get k (gpio_set g s c) = (if gport k = gport g \<and> gbit k = gbit g then s else gpio_get k c) \<and>
    gpio_get g (gpio_toggle g c) = (\<not> gpio_get g c) \<and>
    bit (regs (snd (gpio_flush g (gpio_set g s c))) (gpio_reg (gport g))) i =
      (if i = gbit g then s else bit (cdata (caches c (gport g))) i)"
proof (intro conjI)
  have len: "gbit g < 8"
    using assms(1) by (simp add: gpio_wf_def)
  have get: "gpio_get h c' = bit (cdata (caches c' (gport h))) (gbit h)" if "h = g \<or> h = k" for h c'
    using that assms(1-4) by (auto simp: gpio_get_def and_mask_bit)
  show s: "gpio_get k (gpio_set g s c) = (if gport k = gport g \<and> gbit k = gbit g then s else gpio_get k c)"
    using get assms(1,3) by (auto simp: cdata_gpio_set bit_simps bit_gmask gpio_wf_def)
  show "gpio_get g (gpio_toggle g c) = (\<not> gpio_get g c)"
    using get len assms(1) by (auto simp: gpio_toggle_def cdata_gpio_set bit_simps bit_gmask)
  have "regs (snd (gpio_flush g (gpio_set g s c))) (gpio_reg (gport g)) = cdata (caches (gpio_set g s c) (gport g))"
    using assms(2) flush_clean(2) [OF coherent_set [OF assms(5)]] by (simp add: gpio_flush_def)
  then show "bit (regs (snd (gpio_flush g (gpio_set g s c))) (gpio_reg (gport g))) i =
      (if i = gbit g then s else bit (cdata (caches c (gport g))) i)"
    using assms(1) len by (auto simp: cdata_gpio_set bit_simps bit_gmask dest: bit_imp_le_length)
qed

theorem mcp_pins_independent_witness:
  "gpio_get (demo_pin PORTA 4) (gpio_set (demo_pin PORTA 2) True demo_chip) = gpio_get (demo_pin PORTA 4) demo_chip"
  using mcp_pins_independent [of "demo_pin PORTA 2" "demo_pin PORTA 4" demo_chip True]
  by (simp add: gpio_wf_def demo_pin_def demo_chip_coherent)

text \<open>Configuration: the register bits a mode sets, and that no other bit changes.\<close>

lemma g_set_mask_config:
  "get_cache r = None \<Longrightarrow> regs (g_set_mask g r fl c) = (regs c)(r := regs c r OR gmask g)"
  "get_cache r = None \<Longrightarrow> regs (g_clr_mask g r fl c) = (regs c)(r := regs c r AND NOT (gmask g))"
  by (simp_all add: g_set_mask_def g_clr_mask_def mcp_write_def reg_write_def chip_read_def Let_def)

lemma mask_other_bits:
  assumes "gpio_wf g" "i \<noteq> gbit g" "get_cache r' = None"
  shows "bit (regs (g_set_mask g r' fl c) r) i = bit (regs c r) i"
    "bit (regs (g_clr_mask g r' fl c) r) i = bit (regs c r) i"
proof -
  have "\<not> bit (gmask g) i"
    using assms(2) by (simp add: bit_gmask [OF assms(1)])
  then show "bit (regs (g_set_mask g r' fl c) r) i = bit (regs c r) i"
    "bit (regs (g_clr_mask g r' fl c) r) i = bit (regs c r) i"
    using bit_imp_le_length [of "regs c r'" i]
    by (auto simp: g_set_mask_config [OF assms(3)] bit_or_iff bit_and_iff bit_not_iff)
qed

lemma config_distinct [simp]:
  "iodir_reg p \<noteq> gppu_reg p" "iodir_reg p \<noteq> defval_reg p" "iodir_reg p \<noteq> gpinten_reg p"
  "gppu_reg p \<noteq> defval_reg p" "gppu_reg p \<noteq> gpinten_reg p" "defval_reg p \<noteq> gpinten_reg p"
  "gppu_reg p \<noteq> iodir_reg p" "defval_reg p \<noteq> iodir_reg p" "gpinten_reg p \<noteq> iodir_reg p"
  "defval_reg p \<noteq> gppu_reg p" "gpinten_reg p \<noteq> gppu_reg p" "gpinten_reg p \<noteq> defval_reg p"
  by (cases p; simp add: iodir_reg_def gppu_reg_def defval_reg_def gpinten_reg_def)+

lemma gpio_setup_config:
  assumes "gpio_wf g"
  shows "bit (regs (gpio_setup g m c) (iodir_reg (gport g))) (gbit g) = (m \<noteq> OUTPUT)"
    and "m = INPUT_PU \<or> m = IT_RISING \<or> m = IT_FALLING \<Longrightarrow> bit (regs (gpio_setup g m c) (gppu_reg (gport g))) (gbit g)"
    and "m = IT_RISING \<or> m = IT_FALLING \<Longrightarrow> bit (regs (gpio_setup g m c) (gpinten_reg (gport g))) (gbit g) \<and>
      bit (regs (gpio_setup g m c) (defval_reg (gport g))) (gbit g) = (m = IT_RISING)"
    and "i \<noteq> gbit g \<Longrightarrow> bit (regs (gpio_setup g m c) r) i = bit (regs c r) i"
proof -
  have len: "gbit g < 8"
    using assms by (simp add: gpio_wf_def)
  show "bit (regs (gpio_setup g m c) (iodir_reg (gport g))) (gbit g) = (m \<noteq> OUTPUT)"
    using len bit_gmask [OF assms] by (cases m) (auto simp: gpio_setup_def g_set_mask_config bit_simps Let_def)
  show "m = INPUT_PU \<or> m = IT_RISING \<or> m = IT_FALLING \<Longrightarrow> bit (regs (gpio_setup g m c) (gppu_reg (gport g))) (gbit g)"
    using len bit_gmask [OF assms] by (cases m) (auto simp: gpio_setup_def g_set_mask_config bit_simps Let_def)
  show "m = IT_RISING \<or> m = IT_FALLING \<Longrightarrow> bit (regs (gpio_setup g m c) (gpinten_reg (gport g))) (gbit g) \<and>
      bit (regs (gpio_setup g m c) (defval_reg (gport g))) (gbit g) = (m = IT_RISING)"
    using len bit_gmask [OF assms] by (cases m) (auto simp: gpio_setup_def g_set_mask_config bit_simps Let_def)
  show "i \<noteq> gbit g \<Longrightarrow> bit (regs (gpio_setup g m c) r) i = bit (regs c r) i"
    using mask_other_bits [OF assms] by (cases m) (simp_all add: gpio_setup_def Let_def)
qed

text \<open>An interrupt calls exactly the handlers of the pins whose flag is set, port A first, low bits first.\<close>

lemma on_interrupt_handlers:
  "set (on_interrupt a b c) =
    {h. \<exists>i<16. (if i < 8 then bit a i else bit b (i - 8)) \<and> (\<exists>g. chip_pins c ! i = Some g \<and> irq_fn g = Some h)}"
  by (auto simp: on_interrupt_def irq_order_def List.map_filter_def split: option.splits) force+

end
