(* ===== verification/Buses.thy ===== *)
theory Buses
  imports Prelude
begin

text \<open>
  The bit-banged buses: I2C (drivers/i2c_bitbang.cpp), the two-wire bus (drivers/2_wire_bitbang.cpp) and
  SPI (drivers/spi_bitbang.cpp, drivers/spi.cpp).

  The lines are GPIO pins of the board. The model keeps the levels the program sets, in order, and takes
  what the pins read as a parameter: \<open>ins k\<close> is the level at the \<open>k\<close>-th sampling. Delays (\<^verbatim>\<open>wait\<close>) and
  logging are left out, locks too. A decoder, written from the bus standards and not from the code, reads
  the lines the way a device on the bus does; the theorems say what it sees.
\<close>

subsection \<open>Bytes and bits\<close>

definition msb_bits :: "u8 \<Rightarrow> bool list" where
  "msb_bits x = map (\<lambda>i. bit x (7 - i)) [0..<8]"

definition lsb_bits :: "u8 \<Rightarrow> bool list" where
  "lsb_bits x = map (bit x) [0..<8]"

definition msb_byte :: "bool list \<Rightarrow> u8" where
  "msb_byte bs = foldl (\<lambda>a b. push_bit 1 a OR (if b then 1 else 0)) 0 bs"

definition lsb_byte :: "bool list \<Rightarrow> u8" where
  "lsb_byte bs = foldl (\<lambda>a b. drop_bit 1 a OR (if b then 0x80 else 0)) 0 bs"

lemma top_bit: "(x AND 0x80 \<noteq> 0) \<longleftrightarrow> bit x 7" for x :: u8
  using and_exp_eq_0_iff_not_bit [of x 7] by simp

lemma low_bit: "(x AND 1 \<noteq> 0) \<longleftrightarrow> bit x 0" for x :: u8
  using and_exp_eq_0_iff_not_bit [of x 0] by simp

lemma bit_up: "bit (push_bit 1 x) n \<longleftrightarrow> 1 \<le> n \<and> n < 8 \<and> bit x (n - 1)" for x :: u8
  by (simp only: bit_push_bit_iff possible_bit_word) simp

lemma bit_down: "bit (drop_bit 1 x) n \<longleftrightarrow> bit x (n + 1)" for x :: u8
  by (simp only: bit_drop_bit_eq) simp

lemma bit_80: "bit (0x80 :: u8) n \<longleftrightarrow> n = 7"
  using bit_exp_iff [of 7 n, where ?'a = u8] by auto

lemma bit_msb_fold:
  "n < 8 \<Longrightarrow> bit (foldl (\<lambda>a b. push_bit 1 a OR (if b then 1 else 0)) a bs :: u8) n =
     (if n < length bs then bs ! (length bs - 1 - n) else bit a (n - length bs))"
proof (induction bs arbitrary: n rule: rev_induct)
  case (snoc b bs)
  show ?case
  proof (cases n)
    case 0
    then show ?thesis by (simp only: foldl_append foldl.simps bit_or_iff bit_up) (simp add: nth_append)
  next
    case (Suc m)
    with snoc show ?thesis
      by (simp only: foldl_append foldl.simps bit_or_iff bit_up) (auto simp: nth_append bit_1_iff)
  qed
qed simp

lemma bit_lsb_fold:
  "n < 8 \<Longrightarrow> length bs \<le> 8 \<Longrightarrow> bit (foldl (\<lambda>a b. drop_bit 1 a OR (if b then 0x80 else 0)) a bs :: u8) n =
     (if 8 \<le> n + length bs then bs ! (n + length bs - 8) else bit a (n + length bs))"
proof (induction bs arbitrary: n rule: rev_induct)
  case (snoc b bs)
  show ?case
  proof (cases "n = 7")
    case True
    have "\<not> bit x 8" for x :: u8
      using bit_imp_le_length [of x 8] by auto
    with True show ?thesis
      by (simp only: foldl_append foldl.simps bit_or_iff bit_down) (simp add: bit_80 nth_append)
  next
    case False
    then have "\<not> bit (if b then 0x80 else 0 :: u8) n"
      using bit_80 [of n] by (cases b) auto
    with False snoc.IH [of "Suc n"] snoc.prems show ?thesis
      by (simp only: foldl_append foldl.simps bit_or_iff bit_down) (auto simp: nth_append)
  qed
qed simp

lemma msb_byte_bits: "msb_byte (msb_bits x) = x"
proof (rule bit_word_eqI)
  fix n
  assume "n < LENGTH(8)"
  then have n: "n < 8" by simp
  have "[0..<8] ! (7 - n) = 7 - n"
    by (subst nth_upt) linarith+
  with n show "bit (msb_byte (msb_bits x)) n = bit x n"
    unfolding msb_byte_def msb_bits_def by (subst bit_msb_fold) simp_all
qed

lemma lsb_byte_bits: "lsb_byte (lsb_bits x) = x"
proof (rule bit_word_eqI)
  fix n
  assume "n < LENGTH(8)"
  then have n: "n < 8" by simp
  show "bit (lsb_byte (lsb_bits x)) n = bit x n"
    unfolding lsb_byte_def lsb_bits_def
    using n by (subst bit_lsb_fold) simp_all
qed

subsection \<open>Two lines\<close>

datatype wire_ev = Scl bool | Sda bool

record wires =
  trace :: "wire_ev list"
  sampled :: nat

definition set_line :: "wire_ev \<Rightarrow> wires \<Rightarrow> wires" where
  "set_line e w = w\<lparr>trace := trace w @ [e]\<rparr>"

definition set_lines :: "wire_ev list \<Rightarrow> wires \<Rightarrow> wires" where
  "set_lines es w = fold set_line es w"

definition get_sda :: "(nat \<Rightarrow> bool) \<Rightarrow> wires \<Rightarrow> bool \<times> wires" where
  "get_sda ins w = (ins (sampled w), w\<lparr>sampled := sampled w + 1\<rparr>)"

lemma set_lines_simps [simp]:
  "trace (set_lines es w) = trace w @ es" "sampled (set_lines es w) = sampled w"
  by (induction es arbitrary: w) (simp_all add: set_lines_def set_line_def)

text \<open>
  What a device sees. A change of data while the clock is high starts or stops; a clock pulse without one is a
  bit.
\<close>

datatype symbol = Start | Stop | Bit bool

record decoder =
  clk :: bool
  dat :: bool
  held :: "bool option"
  seen :: "symbol list"

fun decode_step :: "wire_ev \<Rightarrow> decoder \<Rightarrow> decoder" where
  "decode_step (Scl v) d =
     (if v \<and> \<not> clk d then d\<lparr>clk := True, held := Some (dat d)\<rparr>
      else if \<not> v \<and> clk d then
        d\<lparr>clk := False, held := None, seen := seen d @ (case held d of None \<Rightarrow> [] | Some b \<Rightarrow> [Bit b])\<rparr>
      else d)"
| "decode_step (Sda v) d =
     (if clk d \<and> v \<noteq> dat d then d\<lparr>dat := v, held := None, seen := seen d @ [if v then Stop else Start]\<rparr>
      else d\<lparr>dat := v\<rparr>)"

text \<open>An idle bus: both lines high.\<close>

definition idle :: decoder where
  "idle = \<lparr>clk = True, dat = True, held = None, seen = []\<rparr>"

definition decode :: "wire_ev list \<Rightarrow> decoder" where
  "decode es = fold decode_step es idle"

lemma decode_append: "decode (es @ fs) = fold decode_step fs (decode es)"
  by (simp add: decode_def)

subsection \<open>I2C\<close>

definition i2c_start :: "wires \<Rightarrow> wires" where
  "i2c_start = set_lines [Scl True, Sda False, Scl False]"

definition i2c_restart :: "wires \<Rightarrow> wires" where
  "i2c_restart = set_lines [Sda True, Scl True, Sda False, Scl False]"

definition i2c_stop :: "wires \<Rightarrow> wires" where
  "i2c_stop = set_lines [Sda False, Scl True, Sda True]"

definition i2c_bit_io :: "(nat \<Rightarrow> bool) \<Rightarrow> bool \<Rightarrow> wires \<Rightarrow> bool \<times> wires" where
  "i2c_bit_io ins b w =
     (let w = set_lines [Sda b, Scl True] w; (d, w) = get_sda ins w in (d, set_lines [Scl False] w))"

definition i2c_ack :: "(nat \<Rightarrow> bool) \<Rightarrow> wires \<Rightarrow> bool \<times> wires" where
  "i2c_ack ins w = (let (d, w) = i2c_bit_io ins True (set_lines [Sda True] w) in (\<not> d, w))"

fun i2c_io_loop :: "(nat \<Rightarrow> bool) \<Rightarrow> nat \<Rightarrow> u8 \<Rightarrow> u8 \<Rightarrow> wires \<Rightarrow> u8 \<times> wires" where
  "i2c_io_loop ins 0 wr rd w = (rd, w)"
| "i2c_io_loop ins (Suc n) wr rd w =
     (let (d, w) = i2c_bit_io ins (wr AND 0x80 \<noteq> 0) w
      in i2c_io_loop ins n (push_bit 1 wr) (push_bit 1 rd OR (if d then 1 else 0)) w)"

text \<open>\<^verbatim>\<open>io\<close>: the byte read, the acknowledge, and the lines.\<close>

definition i2c_io :: "(nat \<Rightarrow> bool) \<Rightarrow> u8 \<Rightarrow> wires \<Rightarrow> u8 \<times> bool \<times> wires" where
  "i2c_io ins wr w =
     (let (rd, w) = i2c_io_loop ins 8 wr 0 w; (a, w) = i2c_ack ins w in (rd, a, w))"

text \<open>Send bytes until one is not acknowledged; read bytes likewise.\<close>

fun i2c_send :: "(nat \<Rightarrow> bool) \<Rightarrow> u8 list \<Rightarrow> wires \<Rightarrow> bool \<times> wires" where
  "i2c_send ins [] w = (True, w)"
| "i2c_send ins (x # xs) w =
     (let (_, a, w) = i2c_io ins x w in if \<not> a then (False, w) else i2c_send ins xs w)"

fun i2c_receive :: "(nat \<Rightarrow> bool) \<Rightarrow> nat \<Rightarrow> wires \<Rightarrow> bool \<times> u8 list \<times> wires" where
  "i2c_receive ins 0 w = (True, [], w)"
| "i2c_receive ins (Suc n) w =
     (let (x, a, w) = i2c_io ins 0xff w
      in if \<not> a then (False, [x], w)
         else let (ok, xs, w) = i2c_receive ins n w in (ok, x # xs, w))"

definition WR :: "u8 \<Rightarrow> u8" where
  "WR addr = push_bit 1 addr"

definition RD :: "u8 \<Rightarrow> u8" where
  "RD addr = push_bit 1 addr + 1"

text \<open>
  \<^verbatim>\<open>write\<close> (the command byte, then the data, of \<^verbatim>\<open>io_write_read\<close> without a read), \<^verbatim>\<open>read\<close>, \<^verbatim>\<open>probe\<close> and
  \<^verbatim>\<open>write_read\<close>: the result and what was received.
\<close>

definition i2c_write :: "(nat \<Rightarrow> bool) \<Rightarrow> u8 \<Rightarrow> u8 list \<Rightarrow> wires \<Rightarrow> int \<times> wires" where
  "i2c_write ins addr xs w =
     (let (ok, w) = i2c_send ins (WR addr # xs) (i2c_start w)
      in (if ok then int (length xs) else 0, i2c_stop w))"

definition i2c_read_body :: "(nat \<Rightarrow> bool) \<Rightarrow> u8 \<Rightarrow> nat \<Rightarrow> wires \<Rightarrow> bool \<times> u8 list \<times> wires" where
  "i2c_read_body ins addr n w =
     (let (_, a, w) = i2c_io ins (RD addr) w in if \<not> a then (False, [], w) else i2c_receive ins n w)"

definition i2c_read :: "(nat \<Rightarrow> bool) \<Rightarrow> u8 \<Rightarrow> nat \<Rightarrow> wires \<Rightarrow> int \<times> u8 list \<times> wires" where
  "i2c_read ins addr n w =
     (let (ok, xs, w) = i2c_read_body ins addr n (i2c_start w)
      in (if ok then int n else 0, xs, i2c_stop w))"

definition i2c_probe :: "(nat \<Rightarrow> bool) \<Rightarrow> u8 \<Rightarrow> wires \<Rightarrow> bool \<times> wires" where
  "i2c_probe ins addr w =
     (let (ok, _, w) = i2c_read_body ins addr 0 (i2c_start w) in (ok, i2c_stop w))"

definition i2c_write_read :: "(nat \<Rightarrow> bool) \<Rightarrow> u8 \<Rightarrow> u8 list \<Rightarrow> nat \<Rightarrow> wires \<Rightarrow> (int \<times> u8 list \<times> wires) result" where
  "i2c_write_read ins addr wr n w =
     (if length wr = 0 \<or> n = 0 then Inl AssertFailed
      else
        let w = i2c_start w; (_, a, w) = i2c_io ins (WR addr) w
        in if \<not> a then Inr (0, [], i2c_stop w)
           else if length wr \<noteq> 1 then Inl AssertFailed
           else
             let (_, a, w) = i2c_io ins (wr ! 0) w
             in if \<not> a then Inr (0, [], i2c_stop w)
                else
                  let (ok, xs, w) = i2c_read_body ins addr n (i2c_restart w)
                  in Inr (if ok then int n else 0, xs, i2c_stop w))"

text \<open>What one byte looks like on the bus: eight bits, high bit first, and the slot for the acknowledge.\<close>

definition byte_syms :: "u8 \<Rightarrow> symbol list" where
  "byte_syms x = map Bit (msb_bits x) @ [Bit True]"

lemma bit_io_result:
  "i2c_bit_io ins b w =
    (ins (sampled w), \<lparr>trace = trace w @ [Sda b, Scl True, Scl False], sampled = sampled w + 1\<rparr>)"
  by (cases w) (simp add: i2c_bit_io_def get_sda_def set_lines_def set_line_def)

lemma decode_bit:
  "\<not> clk d \<Longrightarrow> fold decode_step [Sda b, Scl True, Scl False] d =
     d\<lparr>dat := b, held := None, seen := seen d @ [Bit b]\<rparr>"
  by simp

lemma io_loop_result:
  "i2c_io_loop ins n wr rd w =
    (foldl (\<lambda>a b. push_bit 1 a OR (if b then 1 else 0)) rd (map (\<lambda>i. ins (sampled w + i)) [0..<n]),
     \<lparr>trace = trace w @ concat (map (\<lambda>i. [Sda (bit wr (7 - i) \<and> i \<le> 7), Scl True, Scl False]) [0..<n]),
      sampled = sampled w + n\<rparr>)"
proof (induction n arbitrary: wr rd w)
  case 0
  then show ?case by simp
next
  case (Suc n)
  have "map (\<lambda>i. ins (sampled w + i)) [0..<Suc n] = ins (sampled w) # map (\<lambda>i. ins (sampled w + 1 + i)) [0..<n]"
    by (simp add: upt_conv_Cons map_Suc_upt [symmetric] del: upt_Suc)
  moreover have "(bit (push_bit 1 wr) (7 - i) \<and> i \<le> 7) = (bit wr (7 - Suc i) \<and> Suc i \<le> 7)" for i
    unfolding bit_up by auto
  then have "concat (map (\<lambda>i. [Sda (bit wr (7 - i) \<and> i \<le> 7), Scl True, Scl False]) [0..<Suc n]) =
      [Sda (bit wr 7), Scl True, Scl False] @
      concat (map (\<lambda>i. [Sda (bit (push_bit 1 wr) (7 - i) \<and> i \<le> 7), Scl True, Scl False]) [0..<n])"
    by (simp add: upt_conv_Cons map_Suc_upt [symmetric] comp_def del: upt_Suc)
  ultimately show ?case
    using Suc.IH by (simp add: bit_io_result top_bit del: upt_Suc)
qed

lemma i2c_io_result:
  "i2c_io ins wr w =
    (msb_byte (map (\<lambda>i. ins (sampled w + i)) [0..<8]), \<not> ins (sampled w + 8),
     \<lparr>trace = trace w @ concat (map (\<lambda>b. [Sda b, Scl True, Scl False]) (msb_bits wr)) @
        [Sda True, Sda True, Scl True, Scl False],
      sampled = sampled w + 9\<rparr>)"
proof -
  have "map (\<lambda>i. [Sda (bit wr (7 - i) \<and> i \<le> 7), Scl True, Scl False]) [0..<8] =
      map (\<lambda>i. [Sda (bit wr (7 - i)), Scl True, Scl False]) [0..<8]"
    by (rule map_cong) auto
  note c = arg_cong [OF this, of concat]
  show ?thesis
    by (simp add: i2c_io_def io_loop_result c i2c_ack_def bit_io_result msb_byte_def msb_bits_def comp_def
        del: upt_rec_numeral)
qed

lemma decode_bits:
  "\<not> clk d \<Longrightarrow> held d = None \<Longrightarrow>
   fold decode_step (concat (map (\<lambda>b. [Sda b, Scl True, Scl False]) bs)) d =
     d\<lparr>dat := (if bs = [] then dat d else last bs), seen := seen d @ map Bit bs\<rparr>"
proof (induction bs arbitrary: d)
  case (Cons b bs)
  then show ?case by (simp add: fold_append)
qed simp

text \<open>The decoder between bytes: clock low, nothing held.\<close>

definition between :: "decoder \<Rightarrow> bool" where
  "between d \<longleftrightarrow> \<not> clk d \<and> held d = None"

lemma decode_io:
  assumes "between (decode (trace w))" "i2c_io ins wr w = (rd, a, w')"
  shows "between (decode (trace w')) \<and> seen (decode (trace w')) = seen (decode (trace w)) @ byte_syms wr \<and>
    sampled w' = sampled w + 9 \<and> a = (\<not> ins (sampled w + 8)) \<and>
    rd = msb_byte (map (\<lambda>i. ins (sampled w + i)) [0..<8])"
  using assms
  by (auto simp: i2c_io_result decode_append fold_append decode_bits between_def byte_syms_def simp del: upt_rec_numeral)

text \<open>How many bytes are sent: up to the first one whose ninth slot reads high.\<close>

fun sent :: "(nat \<Rightarrow> bool) \<Rightarrow> nat \<Rightarrow> u8 list \<Rightarrow> u8 list" where
  "sent ins k [] = []"
| "sent ins k (x # xs) = x # (if ins (k + 8) then [] else sent ins (k + 9) xs)"

definition all_acked :: "(nat \<Rightarrow> bool) \<Rightarrow> nat \<Rightarrow> nat \<Rightarrow> bool" where
  "all_acked ins k n \<longleftrightarrow> (\<forall>j<n. \<not> ins (k + 9 * j + 8))"

lemma all_acked_0 [simp]: "all_acked ins k 0"
  by (simp add: all_acked_def)

lemma all_acked_Suc: "all_acked ins k (Suc n) \<longleftrightarrow> \<not> ins (k + 8) \<and> all_acked ins (k + 9) n"
  unfolding all_acked_def by (auto simp: less_Suc_eq_0_disj algebra_simps)

lemma i2c_send_seen:
  assumes "between (decode (trace w))" "i2c_send ins xs w = (ok, w')"
  shows "between (decode (trace w')) \<and>
    seen (decode (trace w')) = seen (decode (trace w)) @ concat (map byte_syms (sent ins (sampled w) xs)) \<and>
    ok = all_acked ins (sampled w) (length xs)"
  using assms
proof (induction xs arbitrary: w)
  case Nil
  then show ?case by (simp add: all_acked_def)
next
  case (Cons x xs)
  obtain rd a w1 where io: "i2c_io ins x w = (rd, a, w1)" by (cases "i2c_io ins x w")
  from decode_io [OF Cons.prems(1) io] Cons.prems(2) Cons.IH [of w1] io show ?case
    by (auto simp: all_acked_Suc add.commute split: if_splits)
qed

lemma decode_start: "decode (trace w) = idle \<Longrightarrow> between (decode (trace (i2c_start w))) \<and>
    seen (decode (trace (i2c_start w))) = [Start] \<and> sampled (i2c_start w) = sampled w"
  by (simp add: i2c_start_def decode_append idle_def between_def)

lemma decode_stop: "between (decode (trace w)) \<Longrightarrow>
    seen (decode (trace (i2c_stop w))) = seen (decode (trace w)) @ [Stop] \<and>
    clk (decode (trace (i2c_stop w))) \<and> dat (decode (trace (i2c_stop w))) \<and> held (decode (trace (i2c_stop w))) = None"
  by (simp add: i2c_stop_def decode_append between_def)

text \<open>
  C32: on an idle bus \<^verbatim>\<open>BitBang_I2C::write\<close> is one I2C transfer: start, the address byte and the data bytes, high bit
  first, each with a slot for the acknowledge, up to the first byte that is not acknowledged, then stop. It
  returns the length exactly if every byte was acknowledged, and leaves both lines high.
\<close>

theorem i2c_write_frame:
  assumes "decode (trace w) = idle" "i2c_write ins addr xs w = (n, w')"
  shows "seen (decode (trace w')) =
      [Start] @ concat (map byte_syms (sent ins (sampled w) (WR addr # xs))) @ [Stop] \<and>
    n = (if all_acked ins (sampled w) (length xs + 1) then int (length xs) else 0) \<and>
    clk (decode (trace w')) \<and> dat (decode (trace w'))"
proof -
  obtain ok w1 where s: "i2c_send ins (WR addr # xs) (i2c_start w) = (ok, w1)"
    by (cases "i2c_send ins (WR addr # xs) (i2c_start w)")
  from decode_start [OF assms(1)] i2c_send_seen [OF _ s] have
    "between (decode (trace w1))"
    "seen (decode (trace w1)) = [Start] @ concat (map byte_syms (sent ins (sampled w) (WR addr # xs)))"
    "ok = all_acked ins (sampled w) (length xs + 1)" by auto
  with decode_stop [of w1] assms(2) s show ?thesis
    by (auto simp: i2c_write_def Let_def simp del: i2c_send.simps)
qed

theorem i2c_write_frame_witness:
  "seen (decode (trace (snd (i2c_write (\<lambda>_. False) 0x50 [0xA5] \<lparr>trace = [], sampled = 0\<rparr>)))) =
    Start # byte_syms 0xA0 @ byte_syms 0xA5 @ [Stop]"
  using i2c_write_frame [of "\<lparr>trace = [], sampled = 0\<rparr>" "\<lambda>_. False" "0x50" "[0xA5]"
      "fst (i2c_write (\<lambda>_. False) 0x50 [0xA5] \<lparr>trace = [], sampled = 0\<rparr>)"
      "snd (i2c_write (\<lambda>_. False) 0x50 [0xA5] \<lparr>trace = [], sampled = 0\<rparr>)"]
  by (simp add: decode_def WR_def)

lemma i2c_receive_seen:
  assumes "between (decode (trace w))" "i2c_receive ins n w = (ok, xs, w')"
  shows "between (decode (trace w')) \<and>
    seen (decode (trace w')) = seen (decode (trace w)) @ concat (map byte_syms (sent ins (sampled w) (replicate n 0xff))) \<and>
    ok = all_acked ins (sampled w) n \<and>
    xs = map (\<lambda>j. msb_byte (map (\<lambda>i. ins (sampled w + 9 * j + i)) [0..<8]))
      [0..<length (sent ins (sampled w) (replicate n 0xff))]"
  using assms
proof (induction n arbitrary: w w' ok xs)
  case 0
  then show ?case by (simp add: all_acked_def)
next
  case (Suc n)
  obtain x a w1 where io: "i2c_io ins 0xff w = (x, a, w1)" by (cases "i2c_io ins 0xff w")
  obtain ok1 ys w2 where r: "i2c_receive ins n w1 = (ok1, ys, w2)" by (cases "i2c_receive ins n w1")
  from decode_io [OF Suc.prems(1) io] Suc.prems(2) Suc.IH [OF _ r] io r show ?case
    by (auto simp: all_acked_Suc add.commute upt_conv_Cons map_Suc_upt [symmetric] algebra_simps
        simp del: upt_Suc upt_rec_numeral split: if_splits)
qed

text \<open>
  reading. \<^verbatim>\<open>BitBang_I2C::read\<close> sends the address and clocks in bytes, high bit first, but it leaves the
  acknowledge of the bytes it reads to the device: the slot after a byte is sampled, never pulled low. A
  device that keeps to the bus (the slot is the master's, so it reads high) makes every read of at least one byte
  return 0 after its first byte.
\<close>

theorem i2c_read_never_acknowledges:
  assumes "decode (trace w) = idle" "\<not> ins (sampled w + 8)" "0 < n" "ins (sampled w + 17)"
  shows "\<exists>w'. i2c_read ins addr n w = (0, [msb_byte (map (\<lambda>i. ins (sampled w + 9 + i)) [0..<8])], w') \<and>
    seen (decode (trace w')) = [Start] @ byte_syms (RD addr) @ byte_syms 0xff @ [Stop]"
proof -
  obtain x a w1 where io: "i2c_io ins (RD addr) (i2c_start w) = (x, a, w1)"
    by (cases "i2c_io ins (RD addr) (i2c_start w)")
  from decode_start [OF assms(1)] decode_io [OF _ io] assms(2) have
    w1: "between (decode (trace w1))" "seen (decode (trace w1)) = [Start] @ byte_syms (RD addr)"
      "sampled w1 = sampled w + 9" "a" by auto
  obtain m where n: "n = Suc m" using assms(3) by (cases n) auto
  obtain ok xs w2 where r: "i2c_receive ins n w1 = (ok, xs, w2)"
    by (cases "i2c_receive ins n w1")
  from i2c_receive_seen [OF w1(1) r] w1 assms(4) have
    w2: "between (decode (trace w2))" "seen (decode (trace w2)) = [Start] @ byte_syms (RD addr) @ byte_syms 0xff"
      "\<not> ok" "xs = [msb_byte (map (\<lambda>i. ins (sampled w + 9 + i)) [0..<8])]"
    unfolding n by (auto simp: all_acked_Suc add.assoc simp del: upt_rec_numeral)
  from decode_stop [OF w2(1)] w2 io r w1(4) show ?thesis
    by (simp add: i2c_read_def i2c_read_body_def Let_def del: upt_rec_numeral)
qed

theorem i2c_read_never_acknowledges_witness:
  "fst (i2c_read (\<lambda>k. k = 17) 0x50 4 \<lparr>trace = [], sampled = 0\<rparr>) = 0"
  using i2c_read_never_acknowledges [of "\<lparr>trace = [], sampled = 0\<rparr>" "\<lambda>k. k = 17" 4 "0x50"]
  by (auto simp: decode_def)

subsection \<open>The two-wire bus\<close>

definition tw_start :: "wires \<Rightarrow> wires" where
  "tw_start = set_lines [Scl True, Sda False]"

definition tw_stop :: "wires \<Rightarrow> wires" where
  "tw_stop = set_lines [Sda False, Scl True, Sda True]"

definition tw_bit :: "(nat \<Rightarrow> bool) \<Rightarrow> bool \<Rightarrow> wires \<Rightarrow> bool \<times> wires" where
  "tw_bit ins b w =
     (let w = set_lines [Scl False, Sda b, Scl True] w; (d, w) = get_sda ins w in (d, set_lines [Scl False] w))"

fun tw_tx_loop :: "(nat \<Rightarrow> bool) \<Rightarrow> nat \<Rightarrow> u8 \<Rightarrow> u8 \<Rightarrow> wires \<Rightarrow> u8 \<times> wires" where
  "tw_tx_loop ins 0 x rd w = (rd, w)"
| "tw_tx_loop ins (Suc n) x rd w =
     (let (r, w) = tw_bit ins (x AND 1 \<noteq> 0) w
      in tw_tx_loop ins n (drop_bit 1 x) (drop_bit 1 rd OR (if r then 0x80 else 0)) w)"

definition tw_tx :: "(nat \<Rightarrow> bool) \<Rightarrow> u8 \<Rightarrow> wires \<Rightarrow> bool \<times> u8 \<times> wires" where
  "tw_tx ins x w =
     (let (rd, w) = tw_tx_loop ins 8 x 0 w; (a, w) = tw_bit ins True w in (\<not> a, rd, w))"

fun tw_send :: "(nat \<Rightarrow> bool) \<Rightarrow> u8 list \<Rightarrow> wires \<Rightarrow> bool \<times> u8 list \<times> wires" where
  "tw_send ins [] w = (True, [], w)"
| "tw_send ins (x # xs) w =
     (let (a, rd, w) = tw_tx ins x w
      in if \<not> a then (False, [rd], w) else let (ok, rds, w) = tw_send ins xs w in (ok, rd # rds, w))"

text \<open>\<^verbatim>\<open>io\<close> with the number of bytes written and read; \<^verbatim>\<open>write_read\<close>. The received bytes are those of the read part.\<close>

definition tw_io :: "(nat \<Rightarrow> bool) \<Rightarrow> u8 list \<Rightarrow> nat \<Rightarrow> wires \<Rightarrow> int \<times> u8 list \<times> wires" where
  "tw_io ins wr n w =
     (let (ok, _, w) = tw_send ins wr w
      in if \<not> ok then (0, [], w)
         else
           let (ok, rds, w) = tw_send ins (replicate n 0xff) w
           in (if ok then int (length wr + n) else 0, rds, w))"

definition tw_write_read :: "(nat \<Rightarrow> bool) \<Rightarrow> u8 list \<Rightarrow> nat \<Rightarrow> wires \<Rightarrow> int \<times> u8 list \<times> wires" where
  "tw_write_read ins wr n w =
     (let (r, rds, w) = tw_io ins wr n (tw_start w) in (r, rds, tw_stop w))"

definition tw_write :: "(nat \<Rightarrow> bool) \<Rightarrow> u8 list \<Rightarrow> wires \<Rightarrow> int \<times> wires" where
  "tw_write ins wr w = (let (r, _, w) = tw_write_read ins wr 0 w in (r, w))"

definition tw_read :: "(nat \<Rightarrow> bool) \<Rightarrow> nat \<Rightarrow> wires \<Rightarrow> int \<times> u8 list \<times> wires" where
  "tw_read ins n w = tw_write_read ins [] n w"

definition lsb_syms :: "u8 \<Rightarrow> symbol list" where
  "lsb_syms x = map Bit (lsb_bits x) @ [Bit True]"

lemma tw_bit_result:
  "tw_bit ins b w =
    (ins (sampled w), \<lparr>trace = trace w @ [Scl False, Sda b, Scl True, Scl False], sampled = sampled w + 1\<rparr>)"
  by (cases w) (simp add: tw_bit_def get_sda_def set_lines_def set_line_def)

lemma tw_loop_result:
  "tw_tx_loop ins n x rd w =
    (foldl (\<lambda>a b. drop_bit 1 a OR (if b then 0x80 else 0)) rd (map (\<lambda>i. ins (sampled w + i)) [0..<n]),
     \<lparr>trace = trace w @ concat (map (\<lambda>i. [Scl False, Sda (bit x i), Scl True, Scl False]) [0..<n]),
      sampled = sampled w + n\<rparr>)"
proof (induction n arbitrary: x rd w)
  case 0
  then show ?case by simp
next
  case (Suc n)
  have "map (\<lambda>i. ins (sampled w + i)) [0..<Suc n] = ins (sampled w) # map (\<lambda>i. ins (sampled w + 1 + i)) [0..<n]"
    by (simp add: upt_conv_Cons map_Suc_upt [symmetric] del: upt_Suc)
  moreover have "concat (map (\<lambda>i. [Scl False, Sda (bit x i), Scl True, Scl False]) [0..<Suc n]) =
      [Scl False, Sda (bit x 0), Scl True, Scl False] @
      concat (map (\<lambda>i. [Scl False, Sda (bit (drop_bit 1 x) i), Scl True, Scl False]) [0..<n])"
    unfolding bit_down by (simp add: upt_conv_Cons map_Suc_upt [symmetric] comp_def del: upt_Suc)
  ultimately show ?case
    using Suc.IH by (simp add: tw_bit_result low_bit del: upt_Suc)
qed

lemma tw_tx_result:
  "tw_tx ins x w =
    (\<not> ins (sampled w + 8), lsb_byte (map (\<lambda>i. ins (sampled w + i)) [0..<8]),
     \<lparr>trace = trace w @ concat (map (\<lambda>b. [Scl False, Sda b, Scl True, Scl False]) (lsb_bits x @ [True])),
      sampled = sampled w + 9\<rparr>)"
  by (simp add: tw_tx_def tw_loop_result tw_bit_result lsb_byte_def lsb_bits_def comp_def del: upt_rec_numeral)

lemma tw_decode_bits:
  "held d = None \<Longrightarrow>
   held (fold decode_step (concat (map (\<lambda>b. [Scl False, Sda b, Scl True, Scl False]) bs)) d) = None \<and>
   seen (fold decode_step (concat (map (\<lambda>b. [Scl False, Sda b, Scl True, Scl False]) bs)) d) = seen d @ map Bit bs \<and>
   (bs \<noteq> [] \<longrightarrow> \<not> clk (fold decode_step (concat (map (\<lambda>b. [Scl False, Sda b, Scl True, Scl False]) bs)) d))"
proof (induction bs arbitrary: d)
  case (Cons b bs)
  define e where "e = fold decode_step [Scl False, Sda b, Scl True, Scl False] d"
  have d: "held e = None" "seen e = seen d @ [Bit b]" "\<not> clk e"
    using Cons.prems by (auto simp: e_def)
  have eq: "fold decode_step (concat (map (\<lambda>b. [Scl False, Sda b, Scl True, Scl False]) (b # bs))) d =
      fold decode_step (concat (map (\<lambda>b. [Scl False, Sda b, Scl True, Scl False]) bs)) e"
    by (simp only: list.map concat.simps fold_append comp_apply e_def)
  show ?case
    unfolding eq using Cons.IH [OF d(1)] d by (cases "bs = []") simp_all
qed simp

lemma tw_send_seen:
  assumes "held (decode (trace w)) = None" "tw_send ins xs w = (ok, rds, w')"
  shows "held (decode (trace w')) = None \<and>
    seen (decode (trace w')) = seen (decode (trace w)) @ concat (map lsb_syms (sent ins (sampled w) xs)) \<and>
    (xs \<noteq> [] \<longrightarrow> \<not> clk (decode (trace w'))) \<and> (xs = [] \<longrightarrow> w' = w) \<and>
    ok = all_acked ins (sampled w) (length xs) \<and> (ok \<longrightarrow> sampled w' = sampled w + 9 * length xs) \<and>
    rds = map (\<lambda>j. lsb_byte (map (\<lambda>i. ins (sampled w + 9 * j + i)) [0..<8])) [0..<length (sent ins (sampled w) xs)]"
  using assms
proof (induction xs arbitrary: w w' ok rds)
  case Nil
  then show ?case by (simp add: all_acked_def)
next
  case (Cons x xs)
  let ?w1 = "\<lparr>trace = trace w @ concat (map (\<lambda>b. [Scl False, Sda b, Scl True, Scl False]) (lsb_bits x @ [True])),
      sampled = sampled w + 9\<rparr>"
  obtain ok1 rds1 w2 where r: "tw_send ins xs ?w1 = (ok1, rds1, w2)" by (cases "tw_send ins xs ?w1")
  have w1: "held (decode (trace ?w1)) = None" "\<not> clk (decode (trace ?w1))"
    "seen (decode (trace ?w1)) = seen (decode (trace w)) @ lsb_syms x"
    using tw_decode_bits [OF Cons.prems(1), of "lsb_bits x @ [True]"] by (simp_all add: decode_append lsb_syms_def)
  from Cons.IH [OF w1(1) r] Cons.prems(2) w1 r show ?case
    by (auto simp: tw_tx_result all_acked_Suc add.commute upt_conv_Cons map_Suc_upt [symmetric] algebra_simps
        simp del: upt_Suc upt_rec_numeral split: if_splits)
qed

lemma sent_append: "all_acked ins k (length xs) \<Longrightarrow> sent ins k (xs @ ys) = xs @ sent ins (k + 9 * length xs) ys"
  by (induction xs arbitrary: k) (auto simp: all_acked_Suc algebra_simps)

lemma sent_nack: "\<not> all_acked ins k (length xs) \<Longrightarrow> sent ins k (xs @ ys) = sent ins k xs"
  by (induction xs arbitrary: k) (auto simp: all_acked_Suc algebra_simps)

lemma all_acked_add: "all_acked ins k (m + n) \<longleftrightarrow> all_acked ins k m \<and> all_acked ins (k + 9 * m) n"
  by (induction m arbitrary: k) (auto simp: all_acked_Suc algebra_simps)

lemma tw_transfer:
  assumes "decode (trace w) = idle" "tw_write_read ins wr n w = (r, rds, w')"
  shows "seen (decode (trace w')) =
      [Start] @ concat (map lsb_syms (sent ins (sampled w) (wr @ replicate n 0xff))) @ [Stop] \<and>
    r = (if all_acked ins (sampled w) (length wr + n) then int (length wr + n) else 0) \<and>
    (r > 0 \<longrightarrow> rds = map (\<lambda>j. lsb_byte (map (\<lambda>i. ins (sampled w + 9 * (length wr + j) + i)) [0..<8])) [0..<n])"
proof -
  let ?w0 = "tw_start w"
  have w0: "held (decode (trace ?w0)) = None" "seen (decode (trace ?w0)) = [Start]" "sampled ?w0 = sampled w"
    "dat (decode (trace ?w0)) = False"
    using assms(1) by (simp_all add: tw_start_def decode_append idle_def)
  have stop: "seen (decode (trace (tw_stop v))) = seen (decode (trace v)) @ [Stop]"
    if "held (decode (trace v)) = None" "\<not> clk (decode (trace v)) \<or> \<not> dat (decode (trace v))" for v
    using that by (auto simp: tw_stop_def decode_append)
  obtain ok1 rds1 w1 where s1: "tw_send ins wr ?w0 = (ok1, rds1, w1)" by (cases "tw_send ins wr ?w0")
  note t1 = tw_send_seen [OF w0(1) s1]
  have q1: "\<not> clk (decode (trace w1)) \<or> \<not> dat (decode (trace w1))"
    using t1 w0(4) by (cases "wr = []") auto
  show ?thesis
  proof (cases ok1)
    case False
    with t1 w0 s1 stop [OF _ q1] assms(2) show ?thesis
      by (auto simp: tw_write_read_def tw_io_def sent_nack all_acked_add)
  next
    case True
    obtain ok2 rds2 w2 where s2: "tw_send ins (replicate n 0xff) w1 = (ok2, rds2, w2)"
      by (cases "tw_send ins (replicate n 0xff) w1")
    note t2 = tw_send_seen [OF conjunct1 [OF t1] s2]
    have q2: "\<not> clk (decode (trace w2)) \<or> \<not> dat (decode (trace w2))"
      using t2 q1 by (cases n) auto
    have full: "sent ins k (replicate m 0xff) = replicate m 0xff" if "all_acked ins k m" for k m
      using sent_append [of ins k "replicate m 0xff" "[]"] that by simp
    have acked: "all_acked ins (sampled w) (length wr)"
      using t1 True w0(3) by simp
    have k: "sampled w1 = sampled w + 9 * length wr"
      using t1 True w0(3) by simp
    have r: "r = (if ok2 then int (length wr + n) else 0)" "rds = rds2" "w' = tw_stop w2"
      using assms(2) s1 s2 True by (simp_all add: tw_write_read_def tw_io_def)
    have seen: "seen (decode (trace w')) =
        [Start] @ concat (map lsb_syms (sent ins (sampled w) (wr @ replicate n 0xff))) @ [Stop]"
      using t1 t2 w0(2,3) k stop [OF _ q2] sent_append [OF acked, of "replicate n 0xff"] full [OF acked [folded length_replicate]]
        sent_append [OF acked, of "[]"] r(3)
      by simp
    have ok: "ok2 = all_acked ins (sampled w) (length wr + n)"
      using t2 k acked by (simp add: all_acked_add)
    have "ok2 \<Longrightarrow> rds2 = map (\<lambda>j. lsb_byte (map (\<lambda>i. ins (sampled w + 9 * (length wr + j) + i)) [0..<8])) [0..<n]"
      using t2 full [of "sampled w1" n] k by (simp add: algebra_simps del: upt_rec_numeral)
    with seen ok r show ?thesis by (simp del: upt_rec_numeral)
  qed
qed

text \<open>
  C0: on an idle bus \<^verbatim>\<open>TwoWire::write_read\<close> is one transfer: start, the bytes written and then all ones for each
  byte read, low bit first, each with an acknowledge slot, up to the first byte without one, then stop. The
  result is the number of bytes exactly if all were acknowledged, and what is received is what the line
  carried.
\<close>

theorem two_wire_frame:
  assumes "decode (trace w) = idle" "tw_write_read ins wr n w = (r, rds, w')"
  shows "seen (decode (trace w')) =
      [Start] @ concat (map lsb_syms (sent ins (sampled w) (wr @ replicate n 0xff))) @ [Stop] \<and>
    r = (if all_acked ins (sampled w) (length wr + n) then int (length wr + n) else 0) \<and>
    (r > 0 \<longrightarrow> rds = map (\<lambda>j. lsb_byte (map (\<lambda>i. ins (sampled w + 9 * (length wr + j) + i)) [0..<8])) [0..<n])"
  using assms by (rule tw_transfer)

theorem two_wire_frame_witness:
  "fst (tw_write_read (\<lambda>k. k = 9) [0x40] 1 \<lparr>trace = [], sampled = 0\<rparr>) = 2 \<and>
   fst (snd (tw_write_read (\<lambda>k. k = 9) [0x40] 1 \<lparr>trace = [], sampled = 0\<rparr>)) = [1]"
proof -
  let ?r = "tw_write_read (\<lambda>k. k = 9) [0x40] 1 \<lparr>trace = [], sampled = 0\<rparr>"
  have "lsb_byte (map (\<lambda>i. 9 + i = 9) [0..<8]) = 1"
    by code_simp
  with two_wire_frame [of "\<lparr>trace = [], sampled = 0\<rparr>" "\<lambda>k. k = 9" "[0x40]" 1 "fst ?r" "fst (snd ?r)" "snd (snd ?r)"]
  show ?thesis
    by (simp add: decode_def all_acked_def del: upt_rec_numeral)
qed

end
