(* ===== verification/Spi.thy ===== *)
theory Spi
  imports Buses
begin

text \<open>
  SPI: the bit-banged master of drivers/spi_bitbang.cpp and the chip-select framing of \<^verbatim>\<open>SpiDevice\<close>
  (drivers/spi.cpp). As for the other buses the model keeps the levels set and takes what \<^verbatim>\<open>cipo\<close> reads
  as a parameter; \<open>has_cipo\<close> is whether that pin exists. The decoder is a mode-0 device: while selected it takes a
  bit at each rising edge of the clock.
\<close>

datatype spi_ev = Copi bool | Ck bool | Cs bool

record spi =
  spi_trace :: "spi_ev list"
  spi_sampled :: nat

definition spi_set :: "spi_ev \<Rightarrow> spi \<Rightarrow> spi" where
  "spi_set e s = s\<lparr>spi_trace := spi_trace s @ [e]\<rparr>"

definition spi_get :: "(nat \<Rightarrow> bool) \<Rightarrow> spi \<Rightarrow> bool \<times> spi" where
  "spi_get ins s = (ins (spi_sampled s), s\<lparr>spi_sampled := spi_sampled s + 1\<rparr>)"

fun spi_byte_loop :: "bool \<Rightarrow> (nat \<Rightarrow> bool) \<Rightarrow> nat \<Rightarrow> u8 \<Rightarrow> u8 \<Rightarrow> spi \<Rightarrow> u8 \<times> spi" where
  "spi_byte_loop has_cipo ins 0 x rd s = (rd, s)"
| "spi_byte_loop has_cipo ins (Suc n) x rd s =
     (let s = spi_set (Ck True) (spi_set (Copi (x AND 0x80 \<noteq> 0)) s);
          (rd, s) =
            (if has_cipo then let (d, s) = spi_get ins s in (if d then push_bit 1 rd + 1 else push_bit 1 rd, s)
             else (rd, s));
          s = spi_set (Ck False) s
      in spi_byte_loop has_cipo ins n (push_bit 1 x) rd s)"

definition spi_byte :: "bool \<Rightarrow> (nat \<Rightarrow> bool) \<Rightarrow> u8 \<Rightarrow> spi \<Rightarrow> u8 \<times> spi" where
  "spi_byte has_cipo ins x s = spi_byte_loop has_cipo ins 8 x 0 s"

fun spi_bytes :: "bool \<Rightarrow> (nat \<Rightarrow> bool) \<Rightarrow> u8 list \<Rightarrow> spi \<Rightarrow> u8 list \<times> spi" where
  "spi_bytes has_cipo ins [] s = ([], s)"
| "spi_bytes has_cipo ins (x # xs) s =
     (let (r, s) = spi_byte has_cipo ins x s; (rs, s) = spi_bytes has_cipo ins xs s in (r # rs, s))"

text \<open>\<^verbatim>\<open>write\<close> and \<^verbatim>\<open>io\<close> of a block: true unless the block is empty.\<close>

definition spi_write :: "bool \<Rightarrow> (nat \<Rightarrow> bool) \<Rightarrow> u8 list \<Rightarrow> spi \<Rightarrow> bool \<times> spi" where
  "spi_write has_cipo ins xs s = (let (_, s) = spi_bytes has_cipo ins xs s in (xs \<noteq> [], spi_set (Copi False) s))"

definition spi_io :: "bool \<Rightarrow> (nat \<Rightarrow> bool) \<Rightarrow> u8 list \<Rightarrow> spi \<Rightarrow> bool \<times> u8 list \<times> spi" where
  "spi_io has_cipo ins xs s =
     (let (rs, s) = spi_bytes has_cipo ins xs s in (xs \<noteq> [], rs, spi_set (Copi False) s))"

text \<open>\<^verbatim>\<open>SpiDevice\<close>: the same between the two edges of the chip select; register access.\<close>

definition dev_write :: "bool \<Rightarrow> (nat \<Rightarrow> bool) \<Rightarrow> u8 list \<Rightarrow> spi \<Rightarrow> bool \<times> spi" where
  "dev_write has_cipo ins xs s =
     (let (ok, s) = spi_write has_cipo ins xs (spi_set (Cs False) s) in (ok, spi_set (Cs True) s))"

definition dev_io :: "bool \<Rightarrow> (nat \<Rightarrow> bool) \<Rightarrow> u8 list \<Rightarrow> spi \<Rightarrow> bool \<times> u8 list \<times> spi" where
  "dev_io has_cipo ins xs s =
     (let (ok, rs, s) = spi_io has_cipo ins xs (spi_set (Cs False) s) in (ok, rs, spi_set (Cs True) s))"

definition dev_write_reg :: "bool \<Rightarrow> (nat \<Rightarrow> bool) \<Rightarrow> u8 \<Rightarrow> u8 \<Rightarrow> u8 \<Rightarrow> spi \<Rightarrow> bool \<times> spi" where
  "dev_write_reg has_cipo ins addr reg d = dev_write has_cipo ins [addr, reg, d]"

definition dev_read_reg :: "bool \<Rightarrow> (nat \<Rightarrow> bool) \<Rightarrow> u8 \<Rightarrow> u8 \<Rightarrow> spi \<Rightarrow> bool \<times> u8 \<times> spi" where
  "dev_read_reg has_cipo ins addr reg s =
     (let (ok, rd, s) = dev_io has_cipo ins [addr OR 1, reg, 0] s in (ok, rd ! 2, s))"

subsection \<open>What the device sees\<close>

record spi_device =
  sel :: bool
  ck :: bool
  copi :: bool
  shifted :: "bool list"    \<comment> \<open>bits of the open frame\<close>
  frames :: "bool list list"

fun spi_decode_step :: "spi_ev \<Rightarrow> spi_device \<Rightarrow> spi_device" where
  "spi_decode_step (Copi v) d = d\<lparr>copi := v\<rparr>"
| "spi_decode_step (Ck v) d =
     d\<lparr>ck := v, shifted := (if v \<and> \<not> ck d \<and> sel d then shifted d @ [copi d] else shifted d)\<rparr>"
| "spi_decode_step (Cs v) d =
     (if v \<and> sel d then d\<lparr>sel := False, frames := frames d @ [shifted d], shifted := []\<rparr>
      else if \<not> v \<and> \<not> sel d then d\<lparr>sel := True, shifted := []\<rparr>
      else d)"

definition spi_idle :: spi_device where
  "spi_idle = \<lparr>sel = False, ck = False, copi = False, shifted = [], frames = []\<rparr>"

definition spi_decode :: "spi_ev list \<Rightarrow> spi_device" where
  "spi_decode es = fold spi_decode_step es spi_idle"

lemma plus_one: "push_bit 1 x + 1 = push_bit 1 x OR 1" for x :: u8
  by (rule disjunctive_add) (simp only: bit_up bit_1_iff, auto)

lemma spi_loop_result:
  "spi_byte_loop c ins n x rd s =
    (if c then foldl (\<lambda>a b. push_bit 1 a OR (if b then 1 else 0)) rd (map (\<lambda>i. ins (spi_sampled s + i)) [0..<n]) else rd,
     \<lparr>spi_trace = spi_trace s @ concat (map (\<lambda>i. [Copi (bit x (7 - i) \<and> i \<le> 7), Ck True, Ck False]) [0..<n]),
      spi_sampled = (if c then spi_sampled s + n else spi_sampled s)\<rparr>)"
proof (induction n arbitrary: x rd s)
  case 0
  then show ?case by simp
next
  case (Suc n)
  have "map (\<lambda>i. ins (spi_sampled s + i)) [0..<Suc n] =
      ins (spi_sampled s) # map (\<lambda>i. ins (spi_sampled s + 1 + i)) [0..<n]"
    by (simp add: upt_conv_Cons map_Suc_upt [symmetric] del: upt_Suc)
  moreover have "(bit (push_bit 1 x) (7 - i) \<and> i \<le> 7) = (bit x (7 - Suc i) \<and> Suc i \<le> 7)" for i
    unfolding bit_up by auto
  then have "concat (map (\<lambda>i. [Copi (bit x (7 - i) \<and> i \<le> 7), Ck True, Ck False]) [0..<Suc n]) =
      [Copi (bit x 7), Ck True, Ck False] @
      concat (map (\<lambda>i. [Copi (bit (push_bit 1 x) (7 - i) \<and> i \<le> 7), Ck True, Ck False]) [0..<n])"
    by (simp add: upt_conv_Cons map_Suc_upt [symmetric] comp_def del: upt_Suc)
  moreover have "(if d then push_bit 1 rd + 1 else push_bit 1 rd) = push_bit 1 rd OR (if d then 1 else 0)" for d
    by (simp only: plus_one split: if_split) simp
  ultimately show ?case
    using Suc.IH by (simp add: spi_set_def spi_get_def top_bit del: upt_Suc push_bit_Suc)
qed

lemma spi_byte_result:
  "spi_byte c ins x s =
    (if c then msb_byte (map (\<lambda>i. ins (spi_sampled s + i)) [0..<8]) else 0,
     \<lparr>spi_trace = spi_trace s @ concat (map (\<lambda>b. [Copi b, Ck True, Ck False]) (msb_bits x)),
      spi_sampled = (if c then spi_sampled s + 8 else spi_sampled s)\<rparr>)"
proof -
  have "map (\<lambda>i. [Copi (bit x (7 - i) \<and> i \<le> 7), Ck True, Ck False]) [0..<8] =
      map (\<lambda>i. [Copi (bit x (7 - i)), Ck True, Ck False]) [0..<8]"
    by (rule map_cong) auto
  note e = arg_cong [OF this, of concat]
  show ?thesis
    by (simp add: spi_byte_def spi_loop_result e msb_byte_def msb_bits_def comp_def del: upt_rec_numeral)
qed

lemma spi_bytes_result:
  "spi_bytes c ins xs s =
    (if c then map (\<lambda>j. msb_byte (map (\<lambda>i. ins (spi_sampled s + 8 * j + i)) [0..<8])) [0..<length xs] else replicate (length xs) 0,
     \<lparr>spi_trace = spi_trace s @ concat (map (\<lambda>b. [Copi b, Ck True, Ck False]) (concat (map msb_bits xs))),
      spi_sampled = (if c then spi_sampled s + 8 * length xs else spi_sampled s)\<rparr>)"
proof (induction xs arbitrary: s)
  case Nil
  then show ?case by simp
next
  case (Cons x xs)
  have "map (\<lambda>j. msb_byte (map (\<lambda>i. ins (spi_sampled s + 8 * j + i)) [0..<8])) [0..<length (x # xs)] =
      msb_byte (map (\<lambda>i. ins (spi_sampled s + i)) [0..<8]) #
      map (\<lambda>j. msb_byte (map (\<lambda>i. ins (spi_sampled s + 8 + 8 * j + i)) [0..<8])) [0..<length xs]"
    by (simp add: upt_conv_Cons map_Suc_upt [symmetric] algebra_simps del: upt_Suc upt_rec_numeral)
  with Cons.IH show ?case
    by (simp add: spi_byte_result del: upt_rec_numeral upt_Suc)
qed

lemma spi_decode_bits:
  "\<not> ck d \<Longrightarrow> sel d \<Longrightarrow>
   \<exists>v. fold spi_decode_step (concat (map (\<lambda>b. [Copi b, Ck True, Ck False]) bs)) d =
     d\<lparr>copi := v, ck := False, shifted := shifted d @ bs\<rparr>"
proof (induction bs arbitrary: d)
  case Nil
  then show ?case by (intro exI [of _ "copi d"]) simp
next
  case (Cons b bs)
  from Cons.IH [of "d\<lparr>copi := b, ck := False, shifted := shifted d @ [b]\<rparr>"] Cons.prems show ?case
    by (simp add: fold_append)
qed

text \<open>
  a transfer of \<^verbatim>\<open>SpiDevice\<close> over the bit-banged bus is one frame: a mode-0 device selected by the chip select
  shifts in exactly the bytes given, high bit first, nothing outside the select, and what the transfer returns
  are the bytes the device put on the line. Afterwards the bus is idle again.
\<close>

theorem spi_frame:
  assumes "\<not> sel (spi_decode (spi_trace s))" "\<not> ck (spi_decode (spi_trace s))" "dev_io True ins xs s = (ok, rs, s')"
  shows "frames (spi_decode (spi_trace s')) = frames (spi_decode (spi_trace s)) @ [concat (map msb_bits xs)] \<and>
    \<not> sel (spi_decode (spi_trace s')) \<and> \<not> ck (spi_decode (spi_trace s')) \<and>
    rs = map (\<lambda>j. msb_byte (map (\<lambda>i. ins (spi_sampled s + 8 * j + i)) [0..<8])) [0..<length xs] \<and>
    ok = (xs \<noteq> [])"
proof -
  let ?d = "(spi_decode (spi_trace s))\<lparr>sel := True, shifted := []\<rparr>"
  obtain v where v: "fold spi_decode_step (concat (map (\<lambda>b. [Copi b, Ck True, Ck False]) (concat (map msb_bits xs)))) ?d =
      ?d\<lparr>copi := v, ck := False, shifted := concat (map msb_bits xs)\<rparr>"
    using spi_decode_bits [of ?d "concat (map msb_bits xs)"] assms(2) by auto
  have "spi_trace s' = spi_trace s @ [Cs False] @
      concat (map (\<lambda>b. [Copi b, Ck True, Ck False]) (concat (map msb_bits xs))) @ [Copi False, Cs True]"
    using assms(3) by (auto simp: dev_io_def spi_io_def spi_bytes_result spi_set_def)
  then have "spi_decode (spi_trace s') =
      fold spi_decode_step [Copi False, Cs True] (?d\<lparr>copi := v, ck := False, shifted := concat (map msb_bits xs)\<rparr>)"
    using v assms(1) by (simp add: spi_decode_def)
  with assms show ?thesis
    by (auto simp: dev_io_def spi_io_def spi_bytes_result spi_set_def simp del: upt_rec_numeral)
qed

theorem spi_frame_witness:
  "frames (spi_decode (spi_trace (snd (snd (dev_io True (\<lambda>_. True) [0x41, 0x12, 0] \<lparr>spi_trace = [], spi_sampled = 0\<rparr>))))) =
     [msb_bits 0x41 @ msb_bits 0x12 @ msb_bits 0]"
  using spi_frame [of "\<lparr>spi_trace = [], spi_sampled = 0\<rparr>" "\<lambda>_. True" "[0x41, 0x12, 0]"]
  by (cases "dev_io True (\<lambda>_. True) [0x41, 0x12, 0] \<lparr>spi_trace = [], spi_sampled = 0\<rparr>")
    (simp add: spi_decode_def spi_idle_def)

end
