(* ===== verification/Storage.thy ===== *)
theory Storage
  imports Json
begin

text \<open>
  The key-value store: linux/storage.cpp (the Linux backing of \<^verbatim>\<open>Storage\<close>) and storage.cpp.

  \<^verbatim>\<open>Helper\<close> keeps one list of \<^verbatim>\<open>KVPair\<close>, newest first (list operations on it are the sequence operations, which
  the list theory proves of \<^verbatim>\<open>List\<close>). The tag and union of a pair are one datatype. A name is a C string or null
  (\<open>None\<close>). Buffers of the caller are lists of fixed length, and writing or reading past one is \<open>Inl OutOfBounds\<close>.
  Locks are not modelled: every operation holds the mutex throughout.
\<close>

datatype stype = VAL_NONE | VAL_INT8 | VAL_INT16 | VAL_INT32 | VAL_STR | VAL_BLOB | VAL_OTHER

datatype val = V8 u8 | V16 u16 | V32 u32 | VStr string | VBlob "u8 list"

fun val_type :: "val \<Rightarrow> stype" where
  "val_type (V8 _) = VAL_INT8"
| "val_type (V16 _) = VAL_INT16"
| "val_type (V32 _) = VAL_INT32"
| "val_type (VStr _) = VAL_STR"
| "val_type (VBlob _) = VAL_BLOB"

record pair =
  pns :: string
  pkey :: string
  pval :: val

definition pair_match :: "string \<Rightarrow> string \<Rightarrow> pair \<Rightarrow> bool" where
  "pair_match n k p \<longleftrightarrow> pns p = n \<and> pkey p = k"

type_synonym store = "pair list"

subsection \<open>Helper\<close>

definition find_pair :: "string option \<Rightarrow> string option \<Rightarrow> store \<Rightarrow> pair option" where
  "find_pair ns key st =
     (case ns of None \<Rightarrow> None
      | Some n \<Rightarrow> (case key of None \<Rightarrow> None | Some k \<Rightarrow> List.find (pair_match n k) st))"

definition find_typed :: "string option \<Rightarrow> string option \<Rightarrow> stype \<Rightarrow> store \<Rightarrow> val option" where
  "find_typed ns key t st =
     (case find_pair ns key st of
        None \<Rightarrow> None
      | Some p \<Rightarrow> if val_type (pval p) \<noteq> t then None else Some (pval p))"

text \<open>Storing through the pointer \<^verbatim>\<open>find\<close> returned: the first pair that matches.\<close>

fun update_first :: "('a \<Rightarrow> bool) \<Rightarrow> ('a \<Rightarrow> 'a) \<Rightarrow> 'a list \<Rightarrow> 'a list" where
  "update_first P f [] = []"
| "update_first P f (x # xs) = (if P x then f x # xs else x # update_first P f xs)"

text \<open>
  \<^verbatim>\<open>find_set\<close> and the assignment of the value that follows it. A pair that is not there is created,
  which duplicates the names, and a null one cannot be.
\<close>

definition find_set :: "string option \<Rightarrow> string option \<Rightarrow> val \<Rightarrow> store \<Rightarrow> store result" where
  "find_set ns key v st =
     (case ns of None \<Rightarrow> Inl NullDeref
      | Some n \<Rightarrow> (case key of None \<Rightarrow> Inl NullDeref
        | Some k \<Rightarrow>
            (case find_pair ns key st of
               None \<Rightarrow> Inr (\<lparr>pns = n, pkey = k, pval = v\<rparr> # st)
             | Some _ \<Rightarrow> Inr (update_first (pair_match n k) (pval_update (\<lambda>_. v)) st))))"

definition set_str :: "string option \<Rightarrow> string option \<Rightarrow> string option \<Rightarrow> store \<Rightarrow> (bool \<times> store) result" where
  "set_str ns key s st =
     (case s of None \<Rightarrow> Inl AssertFailed
      | Some s \<Rightarrow> rbind (find_set ns key (VStr s) st) (\<lambda>st. Inr (True, st)))"

definition set_int32 :: "string option \<Rightarrow> string option \<Rightarrow> u32 \<Rightarrow> store \<Rightarrow> (bool \<times> store) result" where
  "set_int32 ns key v st = rbind (find_set ns key (V32 v) st) (\<lambda>st. Inr (True, st))"

definition set_int16 :: "string option \<Rightarrow> string option \<Rightarrow> u16 \<Rightarrow> store \<Rightarrow> (bool \<times> store) result" where
  "set_int16 ns key v st = rbind (find_set ns key (V16 v) st) (\<lambda>st. Inr (True, st))"

definition set_int8 :: "string option \<Rightarrow> string option \<Rightarrow> u8 \<Rightarrow> store \<Rightarrow> (bool \<times> store) result" where
  "set_int8 ns key v st = rbind (find_set ns key (V8 v) st) (\<lambda>st. Inr (True, st))"

text \<open>The block of \<open>sz\<close> bytes at \<open>data\<close>; the pair is created before the null check.\<close>

definition set_blob :: "string option \<Rightarrow> string option \<Rightarrow> u8 list option \<Rightarrow> store \<Rightarrow> (bool \<times> store) result" where
  "set_blob ns key d st =
     (case d of
        None \<Rightarrow> rbind (find_set ns key (VBlob []) st) (\<lambda>_. Inl AssertFailed)
      | Some bs \<Rightarrow> rbind (find_set ns key (VBlob bs) st) (\<lambda>st. Inr (True, st)))"

text \<open>
  The gets: whether found, and what is stored through the pointers. For the integers a null pointer
  only asks whether the value is there.
\<close>

definition get_int32 :: "string option \<Rightarrow> string option \<Rightarrow> store \<Rightarrow> u32 option" where
  "get_int32 ns key st = (case find_typed ns key VAL_INT32 st of Some (V32 v) \<Rightarrow> Some v | _ \<Rightarrow> None)"

definition get_int16 :: "string option \<Rightarrow> string option \<Rightarrow> store \<Rightarrow> u16 option" where
  "get_int16 ns key st = (case find_typed ns key VAL_INT16 st of Some (V16 v) \<Rightarrow> Some v | _ \<Rightarrow> None)"

definition get_int8 :: "string option \<Rightarrow> string option \<Rightarrow> store \<Rightarrow> u8 option" where
  "get_int8 ns key st = (case find_typed ns key VAL_INT8 st of Some (V8 v) \<Rightarrow> Some v | _ \<Rightarrow> None)"

text \<open>\<^verbatim>\<open>strncpy(buf, s, n)\<close>.\<close>

definition c_strncpy :: "string \<Rightarrow> string \<Rightarrow> nat \<Rightarrow> string result" where
  "c_strncpy buf s n =
     (if length buf < n then Inl OutOfBounds else Inr (take n (s @ replicate n NUL) @ drop n buf))"

definition get_str ::
    "string option \<Rightarrow> string option \<Rightarrow> string option \<Rightarrow> nat option \<Rightarrow> store \<Rightarrow> (bool \<times> string \<times> nat) result" where
  "get_str ns key buf n st =
     (case buf of None \<Rightarrow> Inl AssertFailed
      | Some b \<Rightarrow> (case n of None \<Rightarrow> Inl AssertFailed
        | Some n \<Rightarrow>
            (case find_typed ns key VAL_STR st of
               Some (VStr s) \<Rightarrow>
                 let mx = length s + 1; mx = (if mx > n then n else mx)
                 in rbind (c_strncpy b s mx) (\<lambda>b. Inr (True, b, mx))
             | _ \<Rightarrow> Inr (False, b, n))))"

definition get_blob ::
    "string option \<Rightarrow> string option \<Rightarrow> u8 list option \<Rightarrow> nat option \<Rightarrow> store \<Rightarrow> (bool \<times> u8 list option \<times> nat) result" where
  "get_blob ns key d sz st =
     (case sz of None \<Rightarrow> Inl AssertFailed
      | Some sz \<Rightarrow>
          (case find_typed ns key VAL_BLOB st of
             Some (VBlob bs) \<Rightarrow>
               (case d of
                  None \<Rightarrow> Inr (True, None, length bs)
                | Some b \<Rightarrow>
                    if length bs > sz then Inr (False, Some b, sz)
                    else if length b < length bs then Inl OutOfBounds
                    else Inr (True, Some (bs @ drop (length bs) b), length bs))
           | _ \<Rightarrow> Inr (False, d, sz)))"

fun remove_first :: "('a \<Rightarrow> bool) \<Rightarrow> 'a list \<Rightarrow> 'a list" where
  "remove_first P [] = []"
| "remove_first P (x # xs) = (if P x then xs else x # remove_first P xs)"

definition erase :: "string option \<Rightarrow> string option \<Rightarrow> store \<Rightarrow> bool \<times> store" where
  "erase ns key st =
     (case find_pair ns key st of
        None \<Rightarrow> (False, st)
      | Some p \<Rightarrow> (True, remove_first (pair_match (pns p) (pkey p)) st))"

definition get_type :: "string option \<Rightarrow> string option \<Rightarrow> store \<Rightarrow> stype" where
  "get_type ns key st = (case find_pair ns key st of None \<Rightarrow> VAL_NONE | Some p \<Rightarrow> val_type (pval p))"

definition clear :: "store \<Rightarrow> store" where
  "clear st = []"

subsection \<open>Listing\<close>

text \<open>\<^verbatim>\<open>strcmp(buf, t) == 0\<close> for a buffer that may hold no NUL.\<close>

fun c_streq :: "string \<Rightarrow> string \<Rightarrow> bool result" where
  "c_streq [] t = Inl OutOfBounds"
| "c_streq (x # xs) [] = Inr (x = NUL)"
| "c_streq (x # xs) (y # ys) = (if x = y then c_streq xs ys else Inr False)"

text \<open>
  \<^verbatim>\<open>Storage::List::get\<close>, from the pairs the iterator has still to visit: what was found (the two buffers
  and the type), and the pairs left. The filter is compared with the copy in the caller's buffer.
\<close>

fun list_get ::
    "string option \<Rightarrow> nat \<Rightarrow> string \<Rightarrow> string \<Rightarrow> pair list \<Rightarrow> ((string \<times> string \<times> stype) option \<times> pair list) result" where
  "list_get f mx nb kb [] = Inr (None, [])"
| "list_get f mx nb kb (p # ps) =
     rbind (c_strncpy nb (pns p) mx) (\<lambda>nb.
     rbind (c_strncpy kb (pkey p) mx) (\<lambda>kb.
     rbind (case f of None \<Rightarrow> Inr True | Some n \<Rightarrow> c_streq nb n) (\<lambda>same.
       if \<not> same then list_get f mx nb kb ps
       else Inr (Some (nb, kb, val_type (pval p)), ps))))"

lemma list_get_shorter: "list_get f mx nb kb ps = Inr (Some r, qs) \<Longrightarrow> length qs < length ps"
proof (induction ps arbitrary: nb kb)
  case (Cons p ps)
  then show ?case by (fastforce simp: rbind_Inr_conv split: if_splits)
qed simp

text \<open>Everything a caller gets who calls it until it answers no, with a buffer of \<open>mx\<close> characters each.\<close>

function list_all ::
    "string option \<Rightarrow> nat \<Rightarrow> string \<Rightarrow> string \<Rightarrow> pair list \<Rightarrow> (string \<times> string \<times> stype) list result" where
  "list_all f mx nb kb ps =
     (case list_get f mx nb kb ps of
        Inl e \<Rightarrow> Inl e
      | Inr (None, _) \<Rightarrow> Inr []
      | Inr (Some (n, k, t), qs) \<Rightarrow> rbind (list_all f mx n k qs) (\<lambda>rs. Inr ((n, k, t) # rs)))"
  by pat_completeness auto
termination
  by (relation "measure (\<lambda>(f, mx, nb, kb, ps). length ps)") (auto dest: list_get_shorter)

declare list_all.simps [simp del]

text \<open>The pairs of a name space.\<close>

definition of_ns :: "string option \<Rightarrow> pair list \<Rightarrow> pair list" where
  "of_ns f ps = filter (\<lambda>p. case f of None \<Rightarrow> True | Some n \<Rightarrow> pns p = n) ps"

text \<open>What the buffers hold as C strings.\<close>

definition c_str :: "string \<Rightarrow> string" where
  "c_str b = takeWhile (\<lambda>c. c \<noteq> NUL) b"

definition c_string :: "string \<Rightarrow> bool" where
  "c_string s \<longleftrightarrow> NUL \<notin> set s"

definition fits :: "nat \<Rightarrow> pair \<Rightarrow> bool" where
  "fits mx p \<longleftrightarrow> length (pns p) < mx \<and> length (pkey p) < mx \<and> c_string (pns p) \<and> c_string (pkey p)"

lemma takeWhile_c_string: "c_string s \<Longrightarrow> takeWhile (\<lambda>c. c \<noteq> NUL) (s @ NUL # rest) = s"
  by (induction s) (auto simp: c_string_def)

lemma strncpy_fits:
  assumes "length s < n" "n \<le> length buf" "c_string s"
  shows "\<exists>b. c_strncpy buf s n = Inr b \<and> length b = length buf \<and> c_str b = s"
proof -
  obtain m where m: "n - length s = Suc m" using assms(1) by (cases "n - length s") auto
  then have "min (n - length s) n = Suc m" using assms(1) by linarith
  then have "take n (s @ replicate n NUL) @ drop n buf = s @ NUL # (replicate m NUL @ drop n buf)"
    using assms(1) by (simp add: take_replicate)
  moreover have "Suc (length s + (m + length buf) - n) = length buf"
    using m assms(1,2) by linarith
  ultimately show ?thesis
    using assms by (simp add: c_strncpy_def c_str_def takeWhile_c_string)
qed

lemma c_streq_ok:
  "NUL \<in> set b \<Longrightarrow> c_string t \<Longrightarrow> c_streq b t = Inr (c_str b = t)"
proof (induction b t rule: c_streq.induct)
  case (3 x xs y ys)
  then show ?case by (auto simp: c_str_def c_string_def)
qed (auto simp: c_str_def c_string_def)

lemma c_str_shorter: "length (c_str b) < length b \<Longrightarrow> NUL \<in> set b"
  unfolding c_str_def by (metis (mono_tags, lifting) nat_neq_iff takeWhile_eq_all_conv)


lemma list_get_fits:
  "\<forall>p\<in>set ps. fits mx p \<Longrightarrow> mx \<le> length nb \<Longrightarrow> mx \<le> length kb \<Longrightarrow> pred_option c_string f \<Longrightarrow>
   (case of_ns f ps of
      [] \<Rightarrow> list_get f mx nb kb ps = Inr (None, [])
    | p # _ \<Rightarrow> \<exists>n k qs. list_get f mx nb kb ps = Inr (Some (n, k, val_type (pval p)), qs) \<and>
        c_str n = pns p \<and> c_str k = pkey p \<and> length n = length nb \<and> length k = length kb \<and>
        of_ns f qs = tl (of_ns f ps) \<and> set qs \<subseteq> set ps)"
proof (induction ps arbitrary: nb kb)
  case Nil
  then show ?case by (simp add: of_ns_def)
next
  case (Cons p ps)
  then have p: "length (pns p) < mx" "length (pkey p) < mx" "c_string (pns p)" "c_string (pkey p)"
    by (auto simp: fits_def)
  obtain n where n: "c_strncpy nb (pns p) mx = Inr n" "length n = length nb" "c_str n = pns p"
    using strncpy_fits [OF p(1) Cons.prems(2) p(3)] by blast
  obtain k where k: "c_strncpy kb (pkey p) mx = Inr k" "length k = length kb" "c_str k = pkey p"
    using strncpy_fits [OF p(2) Cons.prems(3) p(4)] by blast
  have eq: "(case f of None \<Rightarrow> Inr True | Some m \<Rightarrow> c_streq n m) =
      Inr (case f of None \<Rightarrow> True | Some m \<Rightarrow> pns p = m)"
    using Cons.prems(2,4) n p(1) c_str_shorter [of n] by (auto simp: c_streq_ok split: option.split)
  show ?case
  proof (cases "case f of None \<Rightarrow> True | Some m \<Rightarrow> pns p = m")
    case True
    with n k eq show ?thesis by (auto simp: of_ns_def)
  next
    case False
    have "of_ns f (p # ps) = of_ns f ps"
      using False by (simp add: of_ns_def)
    moreover have "list_get f mx nb kb (p # ps) = list_get f mx n k ps"
      using False n k eq by (simp only: list_get.simps rbind.simps if_True not_False_eq_True)
    ultimately show ?thesis
      using Cons.IH [of n k] Cons.prems n(2) k(2) by (auto split: list.splits)
  qed
qed

lemma list_all_fits:
  "\<forall>p\<in>set ps. fits mx p \<Longrightarrow> mx \<le> length nb \<Longrightarrow> mx \<le> length kb \<Longrightarrow> pred_option c_string f \<Longrightarrow>
   \<exists>rs. list_all f mx nb kb ps = Inr rs \<and>
     map (\<lambda>(n, k, t). (c_str n, c_str k, t)) rs = map (\<lambda>p. (pns p, pkey p, val_type (pval p))) (of_ns f ps)"
proof (induction ps arbitrary: nb kb rule: length_induct)
  case (1 ps)
  note l = list_get_fits [OF "1.prems"]
  show ?case
  proof (cases "of_ns f ps")
    case Nil
    with l show ?thesis by (subst list_all.simps) simp
  next
    case (Cons p ps')
    with l obtain n k qs where q: "list_get f mx nb kb ps = Inr (Some (n, k, val_type (pval p)), qs)"
      "c_str n = pns p" "c_str k = pkey p" "length n = length nb" "length k = length kb"
      "of_ns f qs = ps'" "set qs \<subseteq> set ps" by auto
    have "\<exists>rs. list_all f mx n k qs = Inr rs \<and>
        map (\<lambda>(n, k, t). (c_str n, c_str k, t)) rs = map (\<lambda>p. (pns p, pkey p, val_type (pval p))) (of_ns f qs)"
      using "1.IH" [rule_format, OF list_get_shorter [OF q(1)], of n k] "1.prems" q(4,5,7) by auto
    with q Cons show ?thesis by (subst list_all.simps) auto
  qed
qed

subsection \<open>Parameters\<close>

text \<open>
  \<^verbatim>\<open>get_params\<close>: the stored values that pass their check are assigned; a variable is named by a number, and
  a null pointer to one is an assertion.
\<close>

record int_param =
  iname :: string
  ivalue :: "nat option"
  ivalidate :: "(u32 \<Rightarrow> string \<Rightarrow> bool) option"

fun get_params :: "string option \<Rightarrow> store \<Rightarrow> int_param list \<Rightarrow> (nat \<Rightarrow> u32) \<Rightarrow> (nat \<Rightarrow> u32) result" where
  "get_params ns st [] m = Inr m"
| "get_params ns st (p # ps) m =
     (case get_int32 ns (Some (iname p)) st of
        None \<Rightarrow> get_params ns st ps m
      | Some v \<Rightarrow>
          if (case ivalidate p of None \<Rightarrow> False | Some f \<Rightarrow> \<not> f v (iname p)) then get_params ns st ps m
          else (case ivalue p of
                  None \<Rightarrow> Inl AssertFailed
                | Some i \<Rightarrow> get_params ns st ps (m(i := v))))"

definition validate_range :: "u32 \<Rightarrow> u32 \<Rightarrow> u32 \<Rightarrow> bool" where
  "validate_range v lo hi \<longleftrightarrow> sint lo \<le> sint v \<and> sint v \<le> sint hi"

fun validate_set :: "u32 \<Rightarrow> u32 list \<Rightarrow> bool" where
  "validate_set v [] = False"
| "validate_set v (x # xs) = (if v = x then True else validate_set v xs)"

lemma validate_set_iff: "validate_set v xs \<longleftrightarrow> v \<in> set xs"
  by (induction xs) auto

subsection \<open>Refinement of a map\<close>

text \<open>The operations of a \<^verbatim>\<open>Storage\<close> object of a name space, over the one store they all share.\<close>

datatype store_op =
    SetInt8 "string option" "string option" u8
  | SetInt16 "string option" "string option" u16
  | SetInt32 "string option" "string option" u32
  | SetStr "string option" "string option" string
  | SetBlob "string option" "string option" "u8 list"
  | GetInt8 "string option" "string option"
  | GetInt16 "string option" "string option"
  | GetInt32 "string option" "string option"
  | GetStr "string option" "string option" string nat
  | GetBlob "string option" "string option" "u8 list option" nat
  | GetType "string option" "string option"
  | Erase "string option" "string option"
  | ClearAll

datatype store_res =
    RDone | RBool bool | R8 "u8 option" | R16 "u16 option" | R32 "u32 option"
  | RStr bool string nat | RBlob bool "u8 list option" nat | RType stype

definition ok_with :: "('a \<times> store) result \<Rightarrow> ('a \<Rightarrow> store_res) \<Rightarrow> (store_res \<times> store) result option" where
  "ok_with m f = Some (rbind m (\<lambda>(a, st). Inr (f a, st)))"

fun storage_step :: "store_op \<Rightarrow> store \<Rightarrow> (store_res \<times> store) result option" where
  "storage_step (SetInt8 ns k v) st = ok_with (set_int8 ns k v st) RBool"
| "storage_step (SetInt16 ns k v) st = ok_with (set_int16 ns k v st) RBool"
| "storage_step (SetInt32 ns k v) st = ok_with (set_int32 ns k v st) RBool"
| "storage_step (SetStr ns k s) st = ok_with (set_str ns k (Some s) st) RBool"
| "storage_step (SetBlob ns k b) st = ok_with (set_blob ns k (Some b) st) RBool"
| "storage_step (GetInt8 ns k) st = Some (Inr (R8 (get_int8 ns k st), st))"
| "storage_step (GetInt16 ns k) st = Some (Inr (R16 (get_int16 ns k st), st))"
| "storage_step (GetInt32 ns k) st = Some (Inr (R32 (get_int32 ns k st), st))"
| "storage_step (GetStr ns k buf n) st =
     Some (rbind (get_str ns k (Some buf) (Some n) st) (\<lambda>(ok, b, m). Inr (RStr ok b m, st)))"
| "storage_step (GetBlob ns k buf n) st =
     Some (rbind (get_blob ns k buf (Some n) st) (\<lambda>(ok, b, m). Inr (RBlob ok b m, st)))"
| "storage_step (GetType ns k) st = Some (Inr (RType (get_type ns k st), st))"
| "storage_step (Erase ns k) st = ok_with (Inr (erase ns k st)) RBool"
| "storage_step ClearAll st = Some (Inr (RDone, clear st))"

text \<open>The specification: a finite map from name space and key to a value.\<close>

type_synonym kv = "string \<times> string \<rightharpoonup> val"

definition look :: "string option \<Rightarrow> string option \<Rightarrow> kv \<Rightarrow> val option" where
  "look ns k m = (case (ns, k) of (Some n, Some k) \<Rightarrow> m (n, k) | _ \<Rightarrow> None)"

definition put :: "string option \<Rightarrow> string option \<Rightarrow> val \<Rightarrow> kv \<Rightarrow> kv" where
  "put ns k v m = m((the ns, the k) \<mapsto> v)"

fun storage_spec :: "store_op \<Rightarrow> kv \<Rightarrow> store_res \<times> kv" where
  "storage_spec (SetInt8 ns k v) m = (RBool True, put ns k (V8 v) m)"
| "storage_spec (SetInt16 ns k v) m = (RBool True, put ns k (V16 v) m)"
| "storage_spec (SetInt32 ns k v) m = (RBool True, put ns k (V32 v) m)"
| "storage_spec (SetStr ns k s) m = (RBool True, put ns k (VStr s) m)"
| "storage_spec (SetBlob ns k b) m = (RBool True, put ns k (VBlob b) m)"
| "storage_spec (GetInt8 ns k) m = (R8 (case look ns k m of Some (V8 v) \<Rightarrow> Some v | _ \<Rightarrow> None), m)"
| "storage_spec (GetInt16 ns k) m = (R16 (case look ns k m of Some (V16 v) \<Rightarrow> Some v | _ \<Rightarrow> None), m)"
| "storage_spec (GetInt32 ns k) m = (R32 (case look ns k m of Some (V32 v) \<Rightarrow> Some v | _ \<Rightarrow> None), m)"
| "storage_spec (GetStr ns k buf n) m =
     ((case look ns k m of
         Some (VStr s) \<Rightarrow>
           let c = take n (s @ [NUL]) in RStr True (c @ drop (length c) buf) (length c)
       | _ \<Rightarrow> RStr False buf n), m)"
| "storage_spec (GetBlob ns k buf n) m =
     ((case look ns k m of
         Some (VBlob b) \<Rightarrow>
           (case buf of None \<Rightarrow> RBlob True None (length b)
            | Some x \<Rightarrow> if length b \<le> n then RBlob True (Some (b @ drop (length b) x)) (length b)
                        else RBlob False (Some x) n)
       | _ \<Rightarrow> RBlob False buf n), m)"
| "storage_spec (GetType ns k) m =
     (RType (case look ns k m of None \<Rightarrow> VAL_NONE | Some v \<Rightarrow> val_type v), m)"
| "storage_spec (Erase ns k) m =
     (RBool (look ns k m \<noteq> None), if look ns k m = None then m else m((the ns, the k) := None))"
| "storage_spec ClearAll m = (RDone, Map.empty)"

text \<open>Names are there when something is stored, and buffers are as large as said.\<close>

fun storage_ok :: "store_op \<Rightarrow> kv \<Rightarrow> bool" where
  "storage_ok (SetInt8 ns k v) m = (ns \<noteq> None \<and> k \<noteq> None)"
| "storage_ok (SetInt16 ns k v) m = (ns \<noteq> None \<and> k \<noteq> None)"
| "storage_ok (SetInt32 ns k v) m = (ns \<noteq> None \<and> k \<noteq> None)"
| "storage_ok (SetStr ns k s) m = (ns \<noteq> None \<and> k \<noteq> None)"
| "storage_ok (SetBlob ns k b) m = (ns \<noteq> None \<and> k \<noteq> None)"
| "storage_ok (GetStr ns k buf n) m = (n \<le> length buf)"
| "storage_ok (GetBlob ns k buf n) m = (case buf of None \<Rightarrow> True | Some b \<Rightarrow> n \<le> length b)"
| "storage_ok _ m = True"

definition store_map :: "store \<Rightarrow> kv" where
  "store_map st = map_of (map (\<lambda>p. ((pns p, pkey p), pval p)) st)"

definition store_rep :: "store \<Rightarrow> kv \<Rightarrow> bool" where
  "store_rep st m \<longleftrightarrow> distinct (map (\<lambda>p. (pns p, pkey p)) st) \<and> store_map st = m"

lemma find_pair_map: "map_option pval (find_pair ns k st) = look ns k (store_map st)"
proof -
  have "map_option pval (List.find (pair_match n k) st) = store_map st (n, k)" for n k
    by (induction st) (auto simp: store_map_def pair_match_def)
  then show ?thesis by (auto simp: find_pair_def look_def split: option.split)
qed

lemma find_pair_Some: "find_pair ns k st = Some p \<Longrightarrow> ns = Some (pns p) \<and> k = Some (pkey p)"
  by (auto simp: find_pair_def find_Some_iff pair_match_def split: option.splits)

lemma update_first_rep:
  "store_map st (n, k) \<noteq> None \<Longrightarrow>
   store_map (update_first (pair_match n k) (pval_update (\<lambda>_. v)) st) = (store_map st)((n, k) \<mapsto> v) \<and>
   map (\<lambda>p. (pns p, pkey p)) (update_first (pair_match n k) (pval_update (\<lambda>_. v)) st) =
     map (\<lambda>p. (pns p, pkey p)) st"
  by (induction st) (auto simp: store_map_def pair_match_def)

lemma remove_first_keys:
  "set (map (\<lambda>p. (pns p, pkey p)) (remove_first P st)) \<subseteq> set (map (\<lambda>p. (pns p, pkey p)) st)"
  by (induction st) auto

lemma remove_first_rep:
  "distinct (map (\<lambda>p. (pns p, pkey p)) st) \<Longrightarrow>
   store_map (remove_first (pair_match n k) st) = (store_map st)((n, k) := None) \<and>
   distinct (map (\<lambda>p. (pns p, pkey p)) (remove_first (pair_match n k) st))"
proof (induction st)
  case Nil
  then show ?case by (auto simp: store_map_def)
next
  case (Cons p st)
  have none: "store_map st (pns p, pkey p) = None"
    using Cons.prems unfolding store_map_def by (force simp: map_of_eq_None_iff)
  have cons: "store_map (q # qs) = (store_map qs)((pns q, pkey q) \<mapsto> pval q)" for q qs
    by (simp add: store_map_def)
  show ?case
  proof (cases "pair_match n k p")
    case True
    then have "(pns p, pkey p) = (n, k)" by (simp add: pair_match_def)
    with True Cons.prems none show ?thesis
      by (simp add: cons) (simp add: fun_eq_iff)
  next
    case False
    then have "(pns p, pkey p) \<noteq> (n, k)" by (simp add: pair_match_def)
    with False Cons show ?thesis
      using remove_first_keys [of "pair_match n k" st] by (auto simp: cons fun_upd_twist)
  qed
qed

lemma find_set_rep:
  assumes "store_rep st m" "ns \<noteq> None" "k \<noteq> None"
  shows "\<exists>st'. find_set ns k v st = Inr st' \<and> store_rep st' (put ns k v m)"
proof -
  obtain n x where nx: "ns = Some n" "k = Some x" using assms(2,3) by auto
  have l: "look ns k (store_map st) = store_map st (n, x)" by (simp add: look_def nx)
  show ?thesis
  proof (cases "find_pair ns k st")
    case None
    then have "store_map st (n, x) = None" using find_pair_map [of ns k st] l by simp
    then have "(n, x) \<notin> set (map (\<lambda>p. (pns p, pkey p)) st)"
      unfolding store_map_def by (force simp: map_of_eq_None_iff)
    with None assms(1) show ?thesis
      by (auto simp: find_set_def nx store_rep_def store_map_def put_def)
  next
    case (Some p)
    then have "store_map st (n, x) \<noteq> None" using find_pair_map [of ns k st] l by (metis option.map_disc_iff option.simps(3))
    from update_first_rep [OF this, of v] Some assms(1) show ?thesis
      by (auto simp: find_set_def nx store_rep_def put_def)
  qed
qed

lemma find_typed_look:
  assumes "store_rep st m"
  shows "find_typed ns key t st =
     (case look ns key m of None \<Rightarrow> None | Some v \<Rightarrow> if val_type v = t then Some v else None)"
proof -
  have "look ns key m = map_option pval (find_pair ns key st)"
    using assms find_pair_map [of ns key st] by (simp add: store_rep_def)
  then show ?thesis
    by (cases "find_pair ns key st") (auto simp: find_typed_def)
qed

lemma get_str_rep:
  "store_rep st m \<Longrightarrow> n \<le> length buf \<Longrightarrow>
   get_str ns k (Some buf) (Some n) st = Inr
     (case look ns k m of
        Some (VStr s) \<Rightarrow> (True, take n (s @ [NUL]) @ drop (length (take n (s @ [NUL]))) buf, length (take n (s @ [NUL])))
      | _ \<Rightarrow> (False, buf, n))"
  by (auto simp: get_str_def find_typed_look c_strncpy_def Let_def min_def le_less_Suc_eq split: option.split val.split)

lemma get_blob_rep:
  "store_rep st m \<Longrightarrow> pred_option (\<lambda>b. n \<le> length b) buf \<Longrightarrow>
   get_blob ns k buf (Some n) st = Inr
     (case look ns k m of
        Some (VBlob b) \<Rightarrow>
          (case buf of None \<Rightarrow> (True, None, length b)
           | Some x \<Rightarrow> if length b \<le> n then (True, Some (b @ drop (length b) x), length b) else (False, Some x, n))
      | _ \<Rightarrow> (False, buf, n))"
  by (auto simp: get_blob_def find_typed_look split: option.split val.split)

lemma get_ints_rep:
  assumes "store_rep st m"
  shows "get_int8 ns k st = (case look ns k m of Some (V8 v) \<Rightarrow> Some v | _ \<Rightarrow> None)"
    "get_int16 ns k st = (case look ns k m of Some (V16 v) \<Rightarrow> Some v | _ \<Rightarrow> None)"
    "get_int32 ns k st = (case look ns k m of Some (V32 v) \<Rightarrow> Some v | _ \<Rightarrow> None)"
  using assms
  by (auto simp: get_int8_def get_int16_def get_int32_def find_typed_look split: option.split val.split)

lemma get_type_rep:
  assumes "store_rep st m"
  shows "get_type ns k st = (case look ns k m of None \<Rightarrow> VAL_NONE | Some v \<Rightarrow> val_type v)"
  using assms find_pair_map [of ns k st, symmetric]
  by (cases "find_pair ns k st") (auto simp: get_type_def store_rep_def)

lemma erase_rep:
  assumes "store_rep st m"
  shows "\<exists>st'. erase ns key st = (look ns key m \<noteq> None, st') \<and>
    store_rep st' (if look ns key m = None then m else m((the ns, the key) := None))"
proof (cases "find_pair ns key st")
  case None
  with assms find_pair_map [of ns key st] show ?thesis by (auto simp: erase_def store_rep_def)
next
  case (Some p)
  then have l: "look ns key m = Some (pval p)" "ns = Some (pns p)" "key = Some (pkey p)"
    using assms find_pair_map [of ns key st] find_pair_Some [OF Some] by (auto simp: store_rep_def)
  with Some remove_first_rep assms show ?thesis
    by (simp add: erase_def store_rep_def)
qed

lemma storage_step_sim:
  assumes "store_rep st m" "storage_ok c m"
  shows "\<exists>st'. storage_step c st = Some (Inr (fst (storage_spec c m), st')) \<and> store_rep st' (snd (storage_spec c m))"
proof -
  have set: "\<exists>st'. find_set ns k v st = Inr st' \<and> store_rep st' (put ns k v m)" if "ns \<noteq> None \<and> k \<noteq> None" for ns k v
    using find_set_rep [OF assms(1)] that by blast
  show ?thesis
  proof (cases c)
    case (SetInt8 ns k v)
    with assms(2) set [of ns k "V8 v"] show ?thesis by (auto simp: ok_with_def set_int8_def)
  next
    case (SetInt16 ns k v)
    with assms(2) set [of ns k "V16 v"] show ?thesis by (auto simp: ok_with_def set_int16_def)
  next
    case (SetInt32 ns k v)
    with assms(2) set [of ns k "V32 v"] show ?thesis by (auto simp: ok_with_def set_int32_def)
  next
    case (SetStr ns k v)
    with assms(2) set [of ns k "VStr v"] show ?thesis by (auto simp: ok_with_def set_str_def)
  next
    case (SetBlob ns k v)
    with assms(2) set [of ns k "VBlob v"] show ?thesis by (auto simp: ok_with_def set_blob_def)
  next
    case (GetStr ns k buf n)
    with assms get_str_rep [OF assms(1), of n buf ns k] show ?thesis
      by (cases "look ns k m") (auto simp: Let_def split: val.split)
  next
    case (GetBlob ns k buf n)
    with assms have "pred_option (\<lambda>b. n \<le> length b) buf" by (cases buf) auto
    with GetBlob assms(1) get_blob_rep [OF assms(1) this, of ns k] show ?thesis
      by (cases "look ns k m") (auto split: val.split option.split)
  next
    case (Erase ns k)
    with erase_rep [OF assms(1), of ns k] show ?thesis by (auto simp: ok_with_def)
  next
    case ClearAll
    then show ?thesis by (simp add: clear_def store_rep_def store_map_def)
  qed (use assms(1) in \<open>simp_all add: get_ints_rep get_type_rep\<close>)
qed

interpretation stores: simulation store_rep storage_step storage_spec storage_ok
  by unfold_locales (rule storage_step_sim)

text \<open>
  C7: the store is a map. Any script of sets, gets, type queries, erasures and clears, over any name spaces and
  keys mixed, succeeds and answers as a map from name space and key to the last value set: a get of another
  type than was stored finds nothing, and a string longer than the buffer is cut to it (and then not
  terminated).
\<close>

theorem storage_refines_map:
  assumes "run_ok storage_spec storage_ok cs Map.empty"
  shows "\<exists>st. run_impl storage_step cs [] = Some (Inr (fst (run_spec storage_spec cs Map.empty), st)) \<and>
    store_map st = snd (run_spec storage_spec cs Map.empty) \<and> distinct (map (\<lambda>p. (pns p, pkey p)) st)"
proof -
  have "store_rep [] Map.empty" by (simp add: store_rep_def store_map_def)
  from stores.run_sim [OF this assms] show ?thesis by (auto simp: store_rep_def)
qed

definition store_script :: "store_op list" where
  "store_script =
     [SetStr (Some ''a'') (Some ''k'') ''hello'', SetInt8 (Some ''b'') (Some ''k'') 7,
      GetStr (Some ''a'') (Some ''k'') ''xxxxx'' 3, GetInt16 (Some ''b'') (Some ''k''),
      SetInt16 (Some ''b'') (Some ''k'') 9, GetInt16 (Some ''b'') (Some ''k''), Erase (Some ''a'') (Some ''k''),
      GetType (Some ''a'') (Some ''k'')]"

theorem storage_refines_map_witness:
  "\<exists>st. run_impl storage_step store_script [] =
     Some (Inr ([RBool True, RBool True, RStr True ''helxx'' 3, R16 None, RBool True, R16 (Some 9), RBool True,
       RType VAL_NONE], st))"
proof -
  have "run_ok storage_spec storage_ok store_script Map.empty"
    by (simp add: store_script_def)
  moreover have "fst (run_spec storage_spec store_script Map.empty) =
      [RBool True, RBool True, RStr True ''helxx'' 3, R16 None, RBool True, R16 (Some 9), RBool True, RType VAL_NONE]"
    by (simp add: store_script_def look_def put_def Let_def)
  ultimately show ?thesis using storage_refines_map [of store_script] by auto
qed

text \<open>
  listing a name space (or all of them) gives every pair of it exactly once, newest first, with its type,
  as long as the names fit the caller's buffers with their terminator.
\<close>

theorem storage_list_complete:
  assumes "\<forall>p\<in>set st. fits mx p" "mx \<le> length nb" "mx \<le> length kb" "pred_option c_string f"
  shows "\<exists>rs. list_all f mx nb kb st = Inr rs \<and>
    map (\<lambda>(n, k, t). (c_str n, c_str k, t)) rs = map (\<lambda>p. (pns p, pkey p, val_type (pval p))) (of_ns f st)"
  using assms by (rule list_all_fits)

theorem storage_list_complete_witness:
  "\<exists>rs. list_all (Some ''a'') 4 ''....'' ''....''
      [\<lparr>pns = ''b'', pkey = ''x'', pval = V8 1\<rparr>, \<lparr>pns = ''a'', pkey = ''yy'', pval = VStr ''z''\<rparr>] = Inr rs \<and>
    map (\<lambda>(n, k, t). (c_str n, c_str k, t)) rs = [(''a'', ''yy'', VAL_STR)]"
  using storage_list_complete
    [of "[\<lparr>pns = ''b'', pkey = ''x'', pval = V8 1\<rparr>, \<lparr>pns = ''a'', pkey = ''yy'', pval = VStr ''z''\<rparr>]" 4
      "''....''" "''....''" "Some ''a''"]
  by (simp add: fits_def c_string_def of_ns_def NUL_def)

text \<open>
  A name space as long as the buffer: the copy has no terminator, and the comparison with the filter runs past
  its end.
\<close>

lemma c_streq_overrun: "c_streq s s = Inl OutOfBounds"
  by (induction s) auto

theorem storage_list_overruns:
  assumes "pns p = n" "length n = mx" "length nb = mx" "length kb = mx"
  shows "list_get (Some n) mx nb kb (p # ps) = Inl OutOfBounds"
  using assms by (simp add: c_strncpy_def c_streq_overrun)

text \<open>
  \<^verbatim>\<open>get_params\<close> assigns exactly the variables whose value is stored as a 32-bit integer and passes its check; of
  several parameters with the same variable the last one counts.
\<close>

definition param_value :: "string option \<Rightarrow> store \<Rightarrow> int_param \<Rightarrow> u32 option" where
  "param_value ns st p =
     (case get_int32 ns (Some (iname p)) st of
        None \<Rightarrow> None
      | Some v \<Rightarrow> if pred_option (\<lambda>f. f v (iname p)) (ivalidate p) then Some v else None)"

lemma get_params_ok:
  "\<forall>p\<in>set ps. ivalue p \<noteq> None \<Longrightarrow>
   get_params ns st ps m = Inr (foldl (\<lambda>m p. case param_value ns st p of
     None \<Rightarrow> m | Some v \<Rightarrow> m(the (ivalue p) := v)) m ps)"
  by (induction ps arbitrary: m) (auto simp: param_value_def split: option.splits)

end
