(* ===== verification/StreamIO.thy ===== *)
theory StreamIO
  imports Json
begin

text \<open>
  Character streams: io.cpp. \<^verbatim>\<open>CharOut\<close> collects output in a buffer, \<^verbatim>\<open>LineOut\<close> passes it on in lines,
  \<^verbatim>\<open>CharIn\<close> reads from a string and \<^verbatim>\<open>LineReader\<close> reads lines from another stream.

  What \<^verbatim>\<open>LineOut\<close> passes on is the list of blocks it hands to \<^verbatim>\<open>out->tx\<close>. Writing outside a buffer is
  \<open>Inl OutOfBounds\<close>. The formatter behind \<^verbatim>\<open>FmtOut\<close> is a third-party library and not modelled.
\<close>

subsection \<open>CharOut\<close>

record char_out =
  co_data :: string
  co_size :: int
  co_idx :: int

definition char_out_init :: "string \<Rightarrow> int \<Rightarrow> char_out" where
  "char_out_init d n = \<lparr>co_data = d, co_size = n, co_idx = 0\<rparr>"

definition buf_set :: "string \<Rightarrow> int \<Rightarrow> char \<Rightarrow> string result" where
  "buf_set d i c = (if 0 \<le> i \<and> i < int (length d) then Inr (d[nat i := c]) else Inl OutOfBounds)"

text \<open>\<^verbatim>\<open>CharOut::tx\<close>; the result counts the characters taken, \<open>i\<close> of them before this call of the loop.\<close>

fun char_tx :: "string \<Rightarrow> int \<Rightarrow> char_out \<Rightarrow> (int \<times> char_out) result" where
  "char_tx [] i s = Inr (i, s)"
| "char_tx (c # cs) i s =
     (if co_idx s \<ge> co_size s then Inr (i, s)
      else
        rbind (buf_set (co_data s) (co_idx s) c) (\<lambda>d.
        let j = co_idx s + 1
        in rbind (if j < co_size s then buf_set d j NUL else Inr d) (\<lambda>d.
           char_tx cs (i + 1) (s\<lparr>co_data := d, co_idx := j\<rparr>))))"

definition char_reset :: "char_out \<Rightarrow> char_out result" where
  "char_reset s = rbind (buf_set (co_data s) 0 NUL) (\<lambda>d. Inr (s\<lparr>co_data := d, co_idx := 0\<rparr>))"

subsection \<open>LineOut\<close>

record line_out =
  lo_data :: string
  lo_size :: int
  lo_idx :: int
  no_eol :: bool
  passed :: "string list"   \<comment> \<open>the blocks given to \<^verbatim>\<open>out->tx\<close>\<close>

definition line_out_init :: "string \<Rightarrow> bool \<Rightarrow> line_out" where
  "line_out_init junk ne = \<lparr>lo_data = junk, lo_size = int (length junk), lo_idx = 0, no_eol = ne, passed = []\<rparr>"

definition line_flush :: "line_out \<Rightarrow> line_out" where
  "line_flush s =
     (if lo_idx s = 0 then s
      else s\<lparr>passed := passed s @ [take (nat (lo_idx s)) (lo_data s)], lo_idx := 0\<rparr>)"

fun line_tx :: "string \<Rightarrow> line_out \<Rightarrow> line_out result" where
  "line_tx [] s = Inr s"
| "line_tx (c # cs) s =
     (let s = (if lo_idx s \<ge> lo_size s then line_flush s else s)
      in rbind (buf_set (lo_data s) (lo_idx s) c) (\<lambda>d.
         let s = s\<lparr>lo_data := d, lo_idx := lo_idx s + 1\<rparr>;
             s = (if c = CHR 0x0A \<or> c = CHR 0x0D
                  then line_flush (if no_eol s then s\<lparr>lo_idx := lo_idx s - 1\<rparr> else s)
                  else s)
         in line_tx cs s))"

subsection \<open>CharIn and LineReader\<close>

record char_in =
  ci_s :: string
  ci_size :: nat
  ci_idx :: nat

text \<open>\<open>s\<close> is the memory at the pointer; with no size given it is a C string.\<close>

definition char_in_init :: "string \<Rightarrow> nat \<Rightarrow> char_in" where
  "char_in_init s n =
     \<lparr>ci_s = s, ci_size = (if n = 0 then length (takeWhile (\<lambda>c. c \<noteq> NUL) s) else n), ci_idx = 0\<rparr>"

text \<open>\<^verbatim>\<open>CharIn::rx\<close>; the size asked for is converted to \<^verbatim>\<open>size_t\<close>.\<close>

definition char_rx :: "int \<Rightarrow> char_in \<Rightarrow> (string \<times> char_in) result" where
  "char_rx n s =
     (let todo = ci_size s - ci_idx s
      in if todo = 0 then Inr ([], s)
         else
           let want = unat (word_of_int n :: u64);
               block = (if want > todo then todo else want)
           in if ci_idx s + block > length (ci_s s) then Inl OutOfBounds
              else Inr (take block (drop (ci_idx s) (ci_s s)), s\<lparr>ci_idx := ci_idx s + block\<rparr>))"

text \<open>\<^verbatim>\<open>LineReader::rx\<close> for at most \<open>n\<close> characters, from a \<^verbatim>\<open>CharIn\<close>.\<close>

fun line_rx :: "string \<Rightarrow> nat \<Rightarrow> char_in \<Rightarrow> (string \<times> char_in) result" where
  "line_rx del 0 s = Inr ([], s)"
| "line_rx del (Suc n) s =
     rbind (char_rx 1 s) (\<lambda>(r, s).
       case r of
         [] \<Rightarrow> Inr ([], s)
       | c # _ \<Rightarrow>
           if c_strchr del c then Inr ([c], s)
           else rbind (line_rx del n s) (\<lambda>(cs, s). Inr (c # cs, s)))"

text \<open>\<^verbatim>\<open>LineReader::strip\<close> of the first \<open>n\<close> characters.\<close>

fun line_strip :: "string \<Rightarrow> string \<Rightarrow> nat \<Rightarrow> nat \<times> string" where
  "line_strip del d 0 = (0, d)"
| "line_strip del d (Suc n) =
     (if \<not> c_strchr del (d ! n) then (Suc n, d) else line_strip del (d[n := NUL]) n)"

subsection \<open>Output\<close>

text \<open>Characters written one after another fill the buffer up to its size and no further.\<close>

lemma char_tx_ok:
  "0 \<le> co_idx s \<Longrightarrow> co_idx s \<le> co_size s \<Longrightarrow> co_size s \<le> int (length (co_data s)) \<Longrightarrow>
   \<exists>s'. char_tx cs i s = Inr (i + min (int (length cs)) (co_size s - co_idx s), s') \<and>
     co_size s' = co_size s \<and> length (co_data s') = length (co_data s) \<and>
     co_idx s' = min (co_idx s + int (length cs)) (co_size s) \<and>
     take (nat (co_idx s')) (co_data s') =
       take (nat (co_idx s)) (co_data s) @ take (nat (co_size s - co_idx s)) cs \<and>
     (cs \<noteq> [] \<and> co_idx s' < co_size s \<longrightarrow> co_data s' ! nat (co_idx s') = NUL)"
proof (induction cs arbitrary: i s)
  case Nil
  then show ?case by simp
next
  case (Cons c cs)
  show ?case
  proof (cases "co_idx s \<ge> co_size s")
    case True
    with Cons.prems show ?thesis by simp
  next
    case False
    let ?k = "nat (co_idx s)"
    define d where "d = (if co_idx s + 1 < co_size s then (co_data s)[?k := c, Suc ?k := NUL] else (co_data s)[?k := c])"
    define s1 where "s1 = s\<lparr>co_data := d, co_idx := co_idx s + 1\<rparr>"
    have k: "?k < length (co_data s)" "nat (co_idx s + 1) = Suc ?k" using False Cons.prems by auto
    have step: "char_tx (c # cs) i s = char_tx cs (i + 1) s1"
      using False Cons.prems k by (simp add: buf_set_def Let_def d_def s1_def)
    have pre: "take (Suc ?k) d = take ?k (co_data s) @ [c]" "length d = length (co_data s)"
      using k(1) by (simp_all add: d_def take_Suc_conv_app_nth)
    have rest: "take (nat (co_size s - co_idx s)) (c # cs) = c # take (nat (co_size s - (co_idx s + 1))) cs"
    proof -
      have "nat (co_size s - co_idx s) = Suc (nat (co_size s - (co_idx s + 1)))" using False by linarith
      then show ?thesis by simp
    qed
    have s1: "co_data s1 = d" "co_idx s1 = co_idx s + 1" "co_size s1 = co_size s" by (simp_all add: s1_def)
    have "0 \<le> co_idx s1" "co_idx s1 \<le> co_size s1" "co_size s1 \<le> int (length (co_data s1))"
      using Cons.prems False pre(2) by (simp_all add: s1)
    from Cons.IH [OF this, of "i + 1"] obtain s' where
      s': "char_tx cs (i + 1) s1 = Inr (i + 1 + min (int (length cs)) (co_size s - (co_idx s + 1)), s')"
      "co_size s' = co_size s" "length (co_data s') = length (co_data s)"
      "co_idx s' = min (co_idx s + 1 + int (length cs)) (co_size s)"
      "take (nat (co_idx s')) (co_data s') = take (Suc ?k) d @ take (nat (co_size s - (co_idx s + 1))) cs"
      "cs \<noteq> [] \<and> co_idx s' < co_size s \<longrightarrow> co_data s' ! nat (co_idx s') = NUL"
      unfolding s1 k(2) pre(2) by blast
    have "co_data s' ! nat (co_idx s') = NUL" if "co_idx s' < co_size s"
    proof (cases "cs = []")
      case True
      with s'(1) have "s' = s1" by simp
      with that k Cons.prems show ?thesis by (simp add: s1_def d_def)
    qed (use s'(6) that in blast)
    with s' step pre rest False show ?thesis by auto
  qed
qed

definition eol :: "char \<Rightarrow> bool" where
  "eol c \<longleftrightarrow> c = CHR 0x0A \<or> c = CHR 0x0D"

text \<open>What is kept of the text written: with \<open>no_eol\<close> the line ends are dropped.\<close>

definition kept :: "bool \<Rightarrow> string \<Rightarrow> string" where
  "kept ne cs = (if ne then filter (\<lambda>c. \<not> eol c) cs else cs)"

definition pending :: "line_out \<Rightarrow> string" where
  "pending s = take (nat (lo_idx s)) (lo_data s)"

definition block_ok :: "line_out \<Rightarrow> string \<Rightarrow> bool" where
  "block_ok s b \<longleftrightarrow> b \<noteq> [] \<and> int (length b) \<le> lo_size s \<and> (\<forall>c\<in>set (butlast b). \<not> eol c) \<and>
     (if no_eol s then \<not> eol (last b) else eol (last b) \<or> int (length b) = lo_size s)"

definition line_inv :: "line_out \<Rightarrow> bool" where
  "line_inv s \<longleftrightarrow> 0 < lo_size s \<and> lo_size s = int (length (lo_data s)) \<and> 0 \<le> lo_idx s \<and> lo_idx s \<le> lo_size s \<and>
     (\<forall>c\<in>set (pending s). \<not> eol c)"

text \<open>One character, as the loop takes it: room is made, then it is stored.\<close>

definition make_room :: "line_out \<Rightarrow> line_out" where
  "make_room s = (if lo_idx s \<ge> lo_size s then line_flush s else s)"

definition line_store :: "char \<Rightarrow> line_out \<Rightarrow> line_out" where
  "line_store c s =
     (if eol c
      then line_flush (s\<lparr>lo_data := (lo_data s)[nat (lo_idx s) := c], lo_idx := lo_idx s + (if no_eol s then 0 else 1)\<rparr>)
      else s\<lparr>lo_data := (lo_data s)[nat (lo_idx s) := c], lo_idx := lo_idx s + 1\<rparr>)"

lemma line_flush_ok:
  assumes "line_inv s"
  shows "line_inv (line_flush s)" "pending (line_flush s) = []" "lo_idx (line_flush s) = 0"
    "passed (line_flush s) = passed s @ (if pending s = [] then [] else [pending s])"
    "lo_size (line_flush s) = lo_size s" "no_eol (line_flush s) = no_eol s" "lo_data (line_flush s) = lo_data s"
  using assms by (auto simp: line_flush_def line_inv_def pending_def)

lemma make_room_ok:
  assumes "line_inv s"
  shows "line_inv (make_room s)" "lo_idx (make_room s) < lo_size s" "lo_size (make_room s) = lo_size s"
    "no_eol (make_room s) = no_eol s"
    "passed (make_room s) @ [pending (make_room s)] =
       (if lo_idx s < lo_size s then passed s @ [pending s] else passed s @ [pending s, []])"
proof -
  have "pending s \<noteq> []" if "\<not> lo_idx s < lo_size s"
    using that assms by (auto simp: pending_def line_inv_def)
  with assms show "line_inv (make_room s)" "lo_idx (make_room s) < lo_size s" "lo_size (make_room s) = lo_size s"
    "no_eol (make_room s) = no_eol s"
    "passed (make_room s) @ [pending (make_room s)] =
       (if lo_idx s < lo_size s then passed s @ [pending s] else passed s @ [pending s, []])"
    using line_flush_ok [OF assms] by (auto simp: make_room_def) (auto simp: line_inv_def)
qed

lemma line_tx_Cons:
  assumes "line_inv s"
  shows "line_tx (c # cs) s = line_tx cs (line_store c (make_room s))"
proof -
  define s0 where "s0 = make_room s"
  have "0 \<le> lo_idx s0" "lo_idx s0 < int (length (lo_data s0))"
    using make_room_ok [OF assms] by (simp_all add: s0_def line_inv_def)
  then have "buf_set (lo_data s0) (lo_idx s0) c = Inr ((lo_data s0)[nat (lo_idx s0) := c])"
    by (simp add: buf_set_def)
  then show ?thesis
    unfolding line_tx.simps make_room_def [symmetric] s0_def [symmetric] Let_def
    by (simp add: line_store_def eol_def)
qed

lemma line_store_ok:
  assumes "line_inv s" "lo_idx s < lo_size s"
  shows "line_inv (line_store c s)" "lo_size (line_store c s) = lo_size s" "no_eol (line_store c s) = no_eol s"
    "concat (passed (line_store c s)) @ pending (line_store c s) = concat (passed s) @ pending s @ kept (no_eol s) [c]"
    "\<exists>bs. passed (line_store c s) = passed s @ bs \<and> (\<forall>b\<in>set bs. block_ok s b)"
proof -
  let ?d = "(lo_data s)[nat (lo_idx s) := c]"
  have k: "nat (lo_idx s) < length (lo_data s)" "0 \<le> lo_idx s" using assms by (auto simp: line_inv_def)
  have d: "take (nat (lo_idx s)) ?d = pending s" "take (nat (lo_idx s + 1)) ?d = pending s @ [c]"
    using k by (simp_all add: pending_def nat_add_distrib take_Suc_conv_app_nth)
  have len: "int (length (pending s)) = lo_idx s" using k by (simp add: pending_def)
  have pe: "\<forall>x\<in>set (pending s). \<not> eol x" and sz: "0 < lo_size s" "lo_size s = int (length (lo_data s))"
    using assms(1) by (auto simp: line_inv_def)
  have last: "\<not> eol (last (pending s))" if "pending s \<noteq> []" using that pe by auto
  have butl: "\<forall>x\<in>set (butlast (pending s)). \<not> eol x" using pe by (auto dest: in_set_butlastD)
  consider (keep) "\<not> eol c" | (cut) "eol c" "\<not> no_eol s" | (drop) "eol c" "no_eol s" by blast
  then have "line_inv (line_store c s) \<and> lo_size (line_store c s) = lo_size s \<and> no_eol (line_store c s) = no_eol s \<and>
    concat (passed (line_store c s)) @ pending (line_store c s) = concat (passed s) @ pending s @ kept (no_eol s) [c] \<and>
    (\<exists>bs. passed (line_store c s) = passed s @ bs \<and> (\<forall>b\<in>set bs. block_ok s b))"
  proof cases
    case keep
    define s' where "s' = line_store c s"
    have f: "lo_idx s' = lo_idx s + 1" "lo_data s' = ?d" "lo_size s' = lo_size s" "no_eol s' = no_eol s"
        "passed s' = passed s"
      using keep by (simp_all add: s'_def line_store_def)
    moreover have p: "pending s' = pending s @ [c]"
      unfolding pending_def [of s'] f by (rule d(2))
    ultimately have "line_inv s'"
      unfolding line_inv_def using sz k assms(2) pe keep by auto
    with f p keep show ?thesis
      by (simp add: kept_def flip: s'_def)
  next
    case cut
    define s' where "s' = line_store c s"
    have f: "lo_idx s' = 0" "lo_data s' = ?d" "lo_size s' = lo_size s" "no_eol s' = no_eol s"
        "passed s' = passed s @ [pending s @ [c]]"
      using cut k d(2) by (simp_all add: s'_def line_store_def line_flush_def)
    moreover have p: "pending s' = []" by (simp add: pending_def f)
    ultimately have "line_inv s'"
      unfolding line_inv_def using sz by auto
    moreover have "block_ok s (pending s @ [c])"
      using cut pe len assms(2) by (simp add: block_ok_def)
    ultimately show ?thesis
      using f p cut by (simp add: kept_def flip: s'_def)
  next
    case drop
    define s' where "s' = line_store c s"
    have f: "lo_idx s' = 0" "lo_data s' = ?d" "lo_size s' = lo_size s" "no_eol s' = no_eol s"
      using drop k by (simp_all add: s'_def line_store_def line_flush_def)
    have ps: "passed s' = passed s @ (if lo_idx s = 0 then [] else [pending s])"
      using drop k d(1) by (simp add: s'_def line_store_def line_flush_def)
    have p: "pending s' = []" by (simp add: pending_def f)
    have "line_inv s'"
      unfolding line_inv_def using sz f p by auto
    moreover have "block_ok s (pending s)" if "lo_idx s \<noteq> 0"
    proof -
      have "pending s \<noteq> []" using that len by auto
      with last have "\<not> eol (last (pending s))" by blast
      with drop len assms(2) butl that \<open>pending s \<noteq> []\<close> show ?thesis by (auto simp: block_ok_def)
    qed
    moreover have "pending s = []" if "lo_idx s = 0" by (simp add: pending_def that)
    ultimately show ?thesis
      using f p ps drop by (simp add: kept_def flip: s'_def)
  qed
  then show "line_inv (line_store c s)" "lo_size (line_store c s) = lo_size s" "no_eol (line_store c s) = no_eol s"
    "concat (passed (line_store c s)) @ pending (line_store c s) = concat (passed s) @ pending s @ kept (no_eol s) [c]"
    "\<exists>bs. passed (line_store c s) = passed s @ bs \<and> (\<forall>b\<in>set bs. block_ok s b)"
    by blast+
qed


lemma line_tx_ok:
  "line_inv s \<Longrightarrow>
   \<exists>s' bs. line_tx cs s = Inr s' \<and> line_inv s' \<and> lo_size s' = lo_size s \<and> no_eol s' = no_eol s \<and>
     concat (passed s') @ pending s' = concat (passed s) @ pending s @ kept (no_eol s) cs \<and>
     passed s' = passed s @ bs \<and> (\<forall>b\<in>set bs. block_ok s b)"
proof (induction cs arbitrary: s)
  case Nil
  then show ?case by (simp add: kept_def)
next
  case (Cons c cs)
  define s0 where "s0 = make_room s"
  define s1 where "s1 = line_store c s0"
  note r = make_room_ok [OF Cons.prems, folded s0_def]
  have lt: "lo_idx s0 < lo_size s0" using r by simp
  note st = line_store_ok [OF r(1) lt, of c, folded s1_def]
  have bo: "block_ok s1 = block_ok s" "block_ok s0 = block_ok s"
    using r st by (auto simp: block_ok_def fun_eq_iff)
  obtain bs0 where bs0: "passed s0 = passed s @ bs0" "\<forall>b\<in>set bs0. block_ok s b"
    "concat (passed s0) @ pending s0 = concat (passed s) @ pending s"
  proof (cases "lo_idx s < lo_size s")
    case True
    with that [of "[]"] r(5) show ?thesis by simp
  next
    case False
    have len: "int (length (pending s)) = lo_size s" and pe: "\<forall>x\<in>set (pending s). \<not> eol x" and ne: "pending s \<noteq> []"
      using False Cons.prems by (auto simp: line_inv_def pending_def)
    from ne pe have "\<not> eol (last (pending s))" by auto
    with len pe ne have "block_ok s (pending s)"
      by (auto simp: block_ok_def dest: in_set_butlastD)
    with that [of "[pending s]"] r(5) False show ?thesis by simp
  qed
  obtain bs1 where bs1: "passed s1 = passed s0 @ bs1" "\<forall>b\<in>set bs1. block_ok s b"
    using st(5) bo by auto
  from Cons.IH [OF st(1)] obtain s' bs where
    s': "line_tx cs s1 = Inr s'" "line_inv s'" "lo_size s' = lo_size s1" "no_eol s' = no_eol s1"
    "concat (passed s') @ pending s' = concat (passed s1) @ pending s1 @ kept (no_eol s1) cs"
    "passed s' = passed s1 @ bs" "\<forall>b\<in>set bs. block_ok s b"
    unfolding bo by blast
  have "kept (no_eol s) (c # cs) = kept (no_eol s) [c] @ kept (no_eol s) cs" by (simp add: kept_def)
  moreover have "concat (passed s') @ pending s' = (concat (passed s1) @ pending s1) @ kept (no_eol s1) cs"
    using s'(5) by simp
  moreover note st(2-4) r(3,4) bs0(3)
  ultimately have "concat (passed s') @ pending s' = concat (passed s) @ pending s @ kept (no_eol s) (c # cs)"
    by simp
  moreover have "passed s' = passed s @ (bs0 @ bs1 @ bs)" "\<forall>b\<in>set (bs0 @ bs1 @ bs). block_ok s b"
    using s' bs0 bs1 by auto
  moreover have "line_tx (c # cs) s = Inr s'"
    unfolding line_tx_Cons [OF Cons.prems] s0_def [symmetric] s1_def [symmetric] by (rule s'(1))
  moreover have "lo_size s' = lo_size s" "no_eol s' = no_eol s" using s'(3,4) st(2,3) r(3,4) by simp_all
  ultimately show ?case using s'(2) by blast
qed

subsection \<open>Input\<close>

definition char_in_ok :: "char_in \<Rightarrow> bool" where
  "char_in_ok s \<longleftrightarrow> ci_idx s \<le> ci_size s \<and> ci_size s \<le> length (ci_s s)"

text \<open>What is still to be read.\<close>

definition unread :: "char_in \<Rightarrow> string" where
  "unread s = drop (ci_idx s) (take (ci_size s) (ci_s s))"

lemma char_rx_one:
  assumes "char_in_ok s"
  shows "char_rx 1 s = Inr (take 1 (unread s), if unread s = [] then s else s\<lparr>ci_idx := ci_idx s + 1\<rparr>)"
proof (cases "ci_idx s = ci_size s")
  case True
  then show ?thesis by (simp add: char_rx_def unread_def)
next
  case False
  then have "unread s \<noteq> []" "ci_size s - ci_idx s \<noteq> 0" "\<not> 1 > ci_size s - ci_idx s"
    using assms by (auto simp: char_in_ok_def unread_def)
  moreover have "take 1 (drop (ci_idx s) (ci_s s)) = take 1 (unread s)"
  proof -
    have "min 1 (ci_size s - ci_idx s) = 1" using False assms by (auto simp: char_in_ok_def)
    then show ?thesis by (simp add: unread_def drop_take)
  qed
  ultimately show ?thesis
    using assms by (simp add: char_rx_def char_in_ok_def)
qed

text \<open>The characters up to and including the first that satisfies \<open>P\<close>.\<close>

fun upto_first :: "('a \<Rightarrow> bool) \<Rightarrow> 'a list \<Rightarrow> 'a list" where
  "upto_first P [] = []"
| "upto_first P (x # xs) = (if P x then [x] else x # upto_first P xs)"

lemma unread_step:
  "char_in_ok s \<Longrightarrow> unread s = c # cs \<Longrightarrow>
   char_in_ok (s\<lparr>ci_idx := ci_idx s + 1\<rparr>) \<and> unread (s\<lparr>ci_idx := ci_idx s + 1\<rparr>) = cs"
  by (cases "ci_idx s = ci_size s")
    (auto simp: char_in_ok_def unread_def drop_Suc Suc_le_eq simp flip: tl_drop)

lemma line_rx_ok:
  "char_in_ok s \<Longrightarrow>
   \<exists>s'. line_rx del n s = Inr (upto_first (c_strchr del) (take n (unread s)), s') \<and> char_in_ok s' \<and>
     unread s' = drop (length (upto_first (c_strchr del) (take n (unread s)))) (unread s)"
proof (induction n arbitrary: s)
  case 0
  then show ?case by simp
next
  case (Suc n)
  show ?case
  proof (cases "unread s")
    case Nil
    with Suc.prems show ?thesis by (simp add: char_rx_one)
  next
    case (Cons c cs)
    with Suc.IH [of "s\<lparr>ci_idx := ci_idx s + 1\<rparr>"] unread_step [OF Suc.prems Cons] show ?thesis
      by (auto simp: char_rx_one [OF Suc.prems])
  qed
qed

lemma char_rx_progress:
  "char_rx 1 s = Inr (r, s') \<Longrightarrow> ci_size s' = ci_size s \<and> ci_idx s \<le> ci_idx s' \<and>
   (r \<noteq> [] \<longrightarrow> ci_idx s < ci_idx s' \<and> ci_idx s < ci_size s)"
  by (auto simp: char_rx_def Let_def split: if_splits)

lemma line_rx_progress:
  "line_rx del n s = Inr (l, s') \<Longrightarrow> ci_size s' = ci_size s \<and> ci_idx s \<le> ci_idx s' \<and>
   (l \<noteq> [] \<longrightarrow> ci_idx s < ci_idx s' \<and> ci_idx s < ci_size s)"
proof (induction n arbitrary: s l s')
  case (Suc n)
  from Suc.prems obtain r s1 where r: "char_rx 1 s = Inr (r, s1)" by (auto simp: rbind_Inr_conv)
  note char_rx_progress [OF r]
  with Suc.prems r show ?case
    by (auto simp: rbind_Inr_conv split: list.splits if_splits dest!: Suc.IH)
qed auto

text \<open>A caller who reads lines of at most \<open>n\<close> characters until nothing comes.\<close>

function read_lines :: "string \<Rightarrow> nat \<Rightarrow> char_in \<Rightarrow> string list result" where
  "read_lines del n s =
     (case line_rx del n s of
        Inl e \<Rightarrow> Inl e
      | Inr (l, s') \<Rightarrow> if l = [] then Inr [] else rbind (read_lines del n s') (\<lambda>ls. Inr (l # ls)))"
  by pat_completeness auto
termination
  by (relation "measure (\<lambda>(del, n, s). ci_size s - ci_idx s)") (force dest!: line_rx_progress)+

declare read_lines.simps [simp del]

subsection \<open>Lines\<close>

text \<open>How a text is cut: after each character that satisfies \<open>P\<close>, and where \<open>n\<close> characters go by without one.\<close>

function chunks :: "nat \<Rightarrow> ('a \<Rightarrow> bool) \<Rightarrow> 'a list \<Rightarrow> 'a list list" where
  "chunks n P xs =
     (if n = 0 \<or> xs = [] then []
      else upto_first P (take n xs) # chunks n P (drop (length (upto_first P (take n xs))) xs))"
  by pat_completeness auto
termination
proof (relation "measure (\<lambda>(n, P, xs). length xs)")
  fix n :: nat and P and xs :: "'a list"
  assume "\<not> (n = 0 \<or> xs = [])"
  then obtain m x ys where "n = Suc m" "xs = x # ys" by (metis not0_implies_Suc list.exhaust)
  then show "((n, P, drop (length (upto_first P (take n xs))) xs), n, P, xs) \<in> measure (\<lambda>(n, P, xs). length xs)"
    by simp
qed simp

declare chunks.simps [simp del]

lemma upto_first_none: "\<forall>x\<in>set xs. \<not> P x \<Longrightarrow> upto_first P xs = xs"
  by (induction xs) auto

lemma upto_first_cut:
  "\<forall>x\<in>set (butlast b). \<not> P x \<Longrightarrow> b \<noteq> [] \<Longrightarrow> P (last b) \<Longrightarrow> upto_first P (b @ xs) = b"
  by (induction b) (auto split: if_splits)

definition cut :: "nat \<Rightarrow> ('a \<Rightarrow> bool) \<Rightarrow> 'a list \<Rightarrow> bool" where
  "cut n P b \<longleftrightarrow> b \<noteq> [] \<and> length b \<le> n \<and> (\<forall>x\<in>set (butlast b). \<not> P x) \<and> (P (last b) \<or> length b = n)"

lemma upto_first_cut_take:
  assumes "cut n P b"
  shows "upto_first P (take n (b @ xs)) = b"
proof (cases "P (last b)")
  case True
  with assms upto_first_cut [of b P] show ?thesis by (simp add: cut_def)
next
  case False
  have "b = butlast b @ [last b]" using assms by (simp add: cut_def)
  with False assms have "\<forall>x\<in>set b. \<not> P x"
    unfolding cut_def by (metis Un_iff empty_iff empty_set set_append set_ConsD)
  with False assms upto_first_none [of b P] show ?thesis by (simp add: cut_def)
qed

lemma chunks_unique:
  "\<forall>b\<in>set bs. cut n P b \<Longrightarrow> length r \<le> n \<Longrightarrow> \<forall>x\<in>set r. \<not> P x \<Longrightarrow> 0 < n \<Longrightarrow>
   chunks n P (concat bs @ r) = bs @ (if r = [] then [] else [r])"
proof (induction bs)
  case Nil
  have "chunks n P [] = []" by (subst chunks.simps) simp
  with Nil show ?case by (cases "r = []") (simp_all add: chunks.simps [of n P r] upto_first_none)
next
  case (Cons b bs)
  then have "b \<noteq> []" by (simp add: cut_def)
  with Cons upto_first_cut_take [of n P b "concat bs @ r"] show ?case
    by (simp add: chunks.simps [of n P "b @ concat bs @ r"])
qed

lemma read_lines_ok:
  "char_in_ok s \<Longrightarrow> 0 < n \<Longrightarrow> read_lines del n s = Inr (chunks n (c_strchr del) (unread s))"
proof (induction "unread s" arbitrary: s rule: length_induct)
  case 1
  from line_rx_ok [OF "1.prems"(1), of del n] obtain s' where
    s': "line_rx del n s = Inr (upto_first (c_strchr del) (take n (unread s)), s')" "char_in_ok s'"
    "unread s' = drop (length (upto_first (c_strchr del) (take n (unread s)))) (unread s)" by blast
  show ?case
  proof (cases "unread s")
    case Nil
    with s' show ?thesis by (simp add: read_lines.simps [of del n s] chunks.simps [of n _ "[]"])
  next
    case (Cons c cs)
    obtain m where "n = Suc m" using "1.prems"(2) by (cases n) auto
    with Cons have ne: "upto_first (c_strchr del) (take n (unread s)) \<noteq> []" by simp
    with s'(3) Cons have "length (unread s') < length (unread s)" by (cases "upto_first (c_strchr del) (take n (unread s))") auto
    with "1.hyps" s' "1.prems"(2) have "read_lines del n s' = Inr (chunks n (c_strchr del) (unread s'))" by blast
    with s' ne Cons "1.prems"(2) show ?thesis
      by (simp add: read_lines.simps [of del n s] chunks.simps [of n _ "c # cs"])
  qed
qed


definition crlf :: string where
  "crlf = [CHR 0x0D, CHR 0x0A]"

text \<open>
  C25: text written through a \<^verbatim>\<open>LineOut\<close> that keeps its line ends, and flushed, comes out complete and in order in
  blocks that end at a line end or fill the buffer; and a \<^verbatim>\<open>LineReader\<close> that reads what came out, with a buffer of
  the same size, gets exactly these blocks back, line by line.
\<close>

theorem lines_written_are_read:
  assumes "junk \<noteq> []" "NUL \<notin> set t"
  shows "\<exists>s. line_tx t (line_out_init junk False) = Inr s \<and>
    concat (passed (line_flush s)) = t \<and>
    (\<forall>b\<in>set (passed s). eol (last b) \<or> length b = length junk) \<and>
    read_lines crlf (length junk) (char_in_init (concat (passed (line_flush s)) @ [NUL]) 0) = Inr (passed (line_flush s))"
proof -
  let ?n = "length junk"
  note nul = assms(2)
  have inv: "line_inv (line_out_init junk False)"
    using assms(1) by (simp add: line_inv_def line_out_init_def pending_def)
  from line_tx_ok [OF inv, of t] obtain s where
    s: "line_tx t (line_out_init junk False) = Inr s" "line_inv s" "lo_size s = int ?n" "no_eol s = False"
      "concat (passed s) @ pending s = t" "\<forall>b\<in>set (passed s). block_ok (line_out_init junk False) b"
    by (auto simp: line_out_init_def kept_def pending_def)
  have fl: "passed (line_flush s) = passed s @ (if pending s = [] then [] else [pending s])"
    by (rule line_flush_ok(4) [OF s(2)])
  with s(5) have all: "concat (passed (line_flush s)) = t" by auto
  have sub: "x \<in> set t" if "b \<in> set (passed s) \<and> x \<in> set b \<or> x \<in> set (pending s)" for x b
    using that s(5) by (metis Un_iff UN_I set_append set_concat)
  have P: "c_strchr crlf x = eol x" if "x \<in> set t" for x
    using that nul by (auto simp: c_strchr_def crlf_def eol_def)
  have cut: "cut ?n (c_strchr crlf) b" if b: "b \<in> set (passed s)" for b
  proof -
    have ok: "b \<noteq> []" "length b \<le> ?n" "\<forall>c\<in>set (butlast b). \<not> eol c" "eol (last b) \<or> length b = ?n"
      using s(6) b by (auto simp: block_ok_def line_out_init_def)
    have Pb: "c_strchr crlf x = eol x" if "x \<in> set b" for x
      using P sub b that by blast
    have "\<forall>c\<in>set (butlast b). \<not> c_strchr crlf c"
      using Pb ok(3) by (auto dest: in_set_butlastD)
    moreover have "c_strchr crlf (last b) = eol (last b)"
      using Pb ok(1) by simp
    ultimately show ?thesis
      using ok by (simp add: cut_def)
  qed
  have r: "length (pending s) \<le> ?n" "\<forall>x\<in>set (pending s). \<not> c_strchr crlf x"
    using s(2,3) P sub by (auto simp: line_inv_def pending_def)
  have "chunks ?n (c_strchr crlf) t = passed (line_flush s)"
    using chunks_unique [of "passed s", OF _ r] cut assms(1) s(5) fl by simp
  moreover have "takeWhile (\<lambda>c. c \<noteq> NUL) (t @ [NUL]) = t"
    using nul by (induction t) auto
  then have "char_in_init (t @ [NUL]) 0 = \<lparr>ci_s = t @ [NUL], ci_size = length t, ci_idx = 0\<rparr>"
    by (simp only: char_in_init_def) simp
  then have "char_in_ok (char_in_init (t @ [NUL]) 0)" "unread (char_in_init (t @ [NUL]) 0) = t"
    by (simp_all only: char_in_ok_def unread_def) simp_all
  ultimately have "read_lines crlf ?n (char_in_init (t @ [NUL]) 0) = Inr (passed (line_flush s))"
    using read_lines_ok [of "char_in_init (t @ [NUL]) 0" ?n crlf] assms(1) by simp
  moreover have "\<forall>b\<in>set (passed s). eol (last b) \<or> length b = ?n"
    using s(6) by (auto simp: block_ok_def line_out_init_def)
  ultimately show ?thesis using s(1) all by auto
qed

theorem lines_written_are_read_witness:
  "\<exists>s. line_tx ''hello'' (line_out_init ''xyz'' False) = Inr s \<and>
    read_lines crlf 3 (char_in_init (''hello'' @ [NUL]) 0) = Inr (passed (line_flush s))"
proof -
  from lines_written_are_read [of "''xyz''" "''hello''"] obtain s where
    "line_tx ''hello'' (line_out_init ''xyz'' False) = Inr s" "concat (passed (line_flush s)) = ''hello''"
    "read_lines crlf (length ''xyz'') (char_in_init (concat (passed (line_flush s)) @ [NUL]) 0) = Inr (passed (line_flush s))"
    by (auto simp: NUL_def simp del: line_tx.simps)
  then show ?thesis by (simp add: numeral_3_eq_3 del: line_tx.simps)
qed

text \<open>
  \<^verbatim>\<open>CharOut\<close> takes what fits and nothing else: over any writes the buffer holds the first \<open>size\<close> characters, the
  result is how many were taken, the text is terminated as long as the buffer is not full, and nothing is
  written past it.
\<close>

theorem char_out_takes_what_fits:
  assumes "0 \<le> n" "n \<le> int (length d)"
  shows "\<exists>s'. char_tx cs 0 (char_out_init d n) = Inr (min (int (length cs)) n, s') \<and>
    length (co_data s') = length d \<and> co_idx s' = min (int (length cs)) n \<and>
    take (nat (co_idx s')) (co_data s') = take (nat n) cs \<and>
    (cs \<noteq> [] \<and> int (length cs) < n \<longrightarrow> co_data s' ! length cs = NUL)"
proof -
  define s0 where "s0 = char_out_init d n"
  have f: "co_data s0 = d" "co_size s0 = n" "co_idx s0 = 0" by (simp_all add: s0_def char_out_init_def)
  have "0 \<le> co_idx s0" "co_idx s0 \<le> co_size s0" "co_size s0 \<le> int (length (co_data s0))"
    using assms by (simp_all add: f)
  from char_tx_ok [OF this, of cs 0, unfolded f] obtain s' where
    s': "char_tx cs 0 s0 = Inr (0 + min (int (length cs)) (n - 0), s')" "length (co_data s') = length d"
    "co_idx s' = min (0 + int (length cs)) n"
    "take (nat (co_idx s')) (co_data s') = take (nat 0) d @ take (nat (n - 0)) cs"
    "cs \<noteq> [] \<and> co_idx s' < n \<longrightarrow> co_data s' ! nat (co_idx s') = NUL"
    by blast
  moreover have "nat (co_idx s') = length cs \<and> co_idx s' < n" if "int (length cs) < n"
    using that s'(3) by simp
  ultimately show ?thesis by (fold s0_def) auto
qed

theorem char_out_takes_what_fits_witness:
  "\<exists>s'. char_tx ''ab'' 0 (char_out_init ''....'' 3) = Inr (2, s') \<and> co_data s' ! 2 = NUL"
  using char_out_takes_what_fits [of 3 "''....''" "''ab''"] by (auto simp: numeral_2_eq_2 simp del: char_tx.simps)

text \<open>Removing line ends: \<^verbatim>\<open>LineReader::strip\<close> cuts exactly the trailing delimiters and NULs.\<close>

lemma line_strip_ok:
  "n \<le> length d \<Longrightarrow> line_strip del d n = (m, d') \<Longrightarrow>
   m \<le> n \<and> take m d' = take m d \<and> (\<forall>i. m \<le> i \<and> i < n \<longrightarrow> c_strchr del (d ! i) \<and> d' ! i = NUL) \<and>
   (0 < m \<longrightarrow> \<not> c_strchr del (d ! (m - 1))) \<and> length d' = length d \<and> (\<forall>i\<ge>n. d' ! i = d ! i)"
proof (induction n arbitrary: d)
  case 0
  then show ?case by simp
next
  case (Suc n)
  show ?case
  proof (cases "c_strchr del (d ! n)")
    case True
    with Suc.prems have "line_strip del (d[n := NUL]) n = (m, d')" by simp
    from Suc.IH [OF _ this] Suc.prems(1) have ih:
      "m \<le> n" "take m d' = take m (d[n := NUL])" "\<forall>i. m \<le> i \<and> i < n \<longrightarrow> c_strchr del (d[n := NUL] ! i) \<and> d' ! i = NUL"
      "0 < m \<longrightarrow> \<not> c_strchr del (d[n := NUL] ! (m - 1))" "length d' = length d"
      "\<forall>i\<ge>n. d' ! i = d[n := NUL] ! i"
      by auto
    have "d' ! n = NUL" using ih(6) Suc.prems(1) by simp
    with ih True show ?thesis by (auto simp: less_Suc_eq)
  next
    case False
    with Suc.prems show ?thesis by auto
  qed
qed

end
