(* ===== verification/Devices.thy ===== *)
theory Devices
  imports Prelude "HOL-Library.Multiset"
begin

text \<open>
  Start-up: device.cpp, which initialises devices in the order of what they need, and object.cpp, the
  registry they put themselves in.

  A device is a C++ object with an identity (\<open>did\<close>, its address). Its \<^verbatim>\<open>init\<close> function is the application's: \<open>dinit\<close>
  is what it answers, \<open>None\<close> a null pointer. The lists \<^verbatim>\<open>done\<close> and \<^verbatim>\<open>todo\<close> are sequences, newest first (the list
  theory proves that of \<^verbatim>\<open>List\<close>). \<open>called\<close> records the calls of the init functions in order. Logging is left out.
\<close>

subsection \<open>Devices\<close>

record device =
  did :: nat
  dname :: string
  needs :: "string list option"
  dinit :: "bool option"
  can_fail :: bool
  dont_register :: bool

record boot =
  todo :: "device list"
  finished :: "device list"
  called :: "nat list"

text \<open>\<^verbatim>\<open>strstr\<close> as far as it decides: whether \<open>part\<close> occurs.\<close>

definition has_part :: "string \<Rightarrow> string \<Rightarrow> bool" where
  "has_part part s \<longleftrightarrow> (\<exists>i\<in>set [0..<length s + 1]. take (length part) (drop i s) = part)"

definition find_has :: "device \<Rightarrow> string \<Rightarrow> string option" where
  "find_has d part = (case needs d of None \<Rightarrow> None | Some ns \<Rightarrow> List.find (has_part part) ns)"

definition need_list :: "device \<Rightarrow> string list" where
  "need_list d = (case needs d of None \<Rightarrow> [] | Some ns \<Rightarrow> ns)"

definition match_name :: "string \<Rightarrow> device \<Rightarrow> bool" where
  "match_name n d \<longleftrightarrow> dname d = n"

text \<open>\<^verbatim>\<open>List::remove\<close> of the item at an address.\<close>

fun drop_dev :: "nat \<Rightarrow> device list \<Rightarrow> bool \<times> device list" where
  "drop_dev i [] = (False, [])"
| "drop_dev i (d # ds) = (if did d = i then (True, ds) else let (ok, ds) = drop_dev i ds in (ok, d # ds))"

fun init_device :: "nat \<Rightarrow> device \<Rightarrow> boot \<Rightarrow> (bool \<times> boot) result"
  and init_needs :: "nat \<Rightarrow> string list \<Rightarrow> boot \<Rightarrow> (bool \<times> boot) result" where
  "init_device 0 d s = Inr (False, s)"
| "init_device (Suc n) d s =
     rbind (init_needs n (need_list d) s) (\<lambda>(ok, s).
       if \<not> ok then Inr (False, s)
       else
         (case dinit d of
            None \<Rightarrow> Inl AssertFailed
          | Some ok \<Rightarrow>
              let s = s\<lparr>called := called s @ [did d]\<rparr>
              in if \<not> ok \<and> \<not> can_fail d then Inr (False, s)
                 else
                   let (found, rest) = drop_dev (did d) (todo s)
                   in if \<not> found then Inl AssertFailed
                      else Inr (True, s\<lparr>todo := rest, finished := d # finished s\<rparr>)))"
| "init_needs n [] s = Inr (True, s)"
| "init_needs n (x # xs) s =
     (case List.find (match_name x) (finished s) of
        Some _ \<Rightarrow> init_needs n xs s
      | None \<Rightarrow>
          (case List.find (match_name x) (todo s) of
             None \<Rightarrow> Inr (False, s)
           | Some d \<Rightarrow>
               rbind (init_device n d s) (\<lambda>(ok, s).
                 if \<not> ok then Inr (False, s) else init_needs n xs s)))"

text \<open>The loop of \<^verbatim>\<open>init_devices\<close>; \<open>k\<close> is how many more rounds the limit allows.\<close>

fun init_rounds :: "nat \<Rightarrow> nat \<Rightarrow> boot \<Rightarrow> (bool \<times> boot) result" where
  "init_rounds loops k s =
     (case todo s of
        [] \<Rightarrow> Inr (True, s)
      | d # _ \<Rightarrow>
          rbind (init_device loops d s) (\<lambda>(ok, s).
            if \<not> ok then Inr (False, s)
            else (case k of 0 \<Rightarrow> Inr (False, s) | Suc k \<Rightarrow> init_rounds loops k s)))"

definition init_devices :: "nat \<Rightarrow> device list \<Rightarrow> device list \<Rightarrow> (bool \<times> boot) result" where
  "init_devices loops td dn = init_rounds loops loops \<lparr>todo = td, finished = dn, called = []\<rparr>"

declare init_rounds.simps [simp del]

subsection \<open>Objects\<close>

type_synonym objects = "(string \<times> nat) list"

definition objects_add :: "string \<Rightarrow> nat \<Rightarrow> objects \<Rightarrow> objects" where
  "objects_add n p os = (n, p) # os"

definition objects_get :: "string \<Rightarrow> objects \<Rightarrow> nat option" where
  "objects_get n os = map_option snd (List.find (\<lambda>o'. fst o' = n) os)"

fun objects_remove :: "string \<Rightarrow> objects \<Rightarrow> bool \<times> objects" where
  "objects_remove n [] = (False, [])"
| "objects_remove n (x # os) = (if fst x = n then (True, os) else let (ok, os) = objects_remove n os in (ok, x # os))"

definition device_add :: "device \<Rightarrow> nat \<Rightarrow> objects \<Rightarrow> objects" where
  "device_add d p os = (if dont_register d then os else objects_add (dname d) p os)"

text \<open>What the registry stands for: for each name the objects registered under it, the last one first.\<close>

definition registered :: "objects \<Rightarrow> string \<Rightarrow> nat list" where
  "registered os n = map snd (filter (\<lambda>x. fst x = n) os)"

datatype registry_op = RAdd string nat | RGet string | RRemove string

datatype registry_res = RUnit | RObj "nat option" | RFound bool

fun registry_step :: "registry_op \<Rightarrow> objects \<Rightarrow> (registry_res \<times> objects) result option" where
  "registry_step (RAdd n p) os = Some (Inr (RUnit, objects_add n p os))"
| "registry_step (RGet n) os = Some (Inr (RObj (objects_get n os), os))"
| "registry_step (RRemove n) os = (let (ok, os) = objects_remove n os in Some (Inr (RFound ok, os)))"

fun registry_spec :: "registry_op \<Rightarrow> (string \<Rightarrow> nat list) \<Rightarrow> registry_res \<times> (string \<Rightarrow> nat list)" where
  "registry_spec (RAdd n p) f = (RUnit, f(n := p # f n))"
| "registry_spec (RGet n) f = (RObj (case f n of [] \<Rightarrow> None | p # _ \<Rightarrow> Some p), f)"
| "registry_spec (RRemove n) f = (RFound (f n \<noteq> []), f(n := tl (f n)))"

lemma objects_get_ok: "objects_get n os = (case registered os n of [] \<Rightarrow> None | p # _ \<Rightarrow> Some p)"
  by (induction os) (auto simp: objects_get_def registered_def)

lemma objects_remove_ok:
  "fst (objects_remove n os) = (registered os n \<noteq> []) \<and>
   registered (snd (objects_remove n os)) = (registered os)(n := tl (registered os n))"
  by (induction os) (auto simp: registered_def fun_eq_iff split: prod.splits)

interpretation registry: simulation "\<lambda>os f. registered os = f" registry_step registry_spec "\<lambda>_ _. True"
proof
  fix os f c
  assume "registered os = f"
  then show "\<exists>os'. registry_step c os = Some (Inr (fst (registry_spec c f), os')) \<and> registered os' = snd (registry_spec c f)"
  proof (cases c)
    case (RAdd n p)
    then show ?thesis using \<open>registered os = f\<close>
      by (auto simp: objects_add_def registered_def fun_eq_iff)
  next
    case (RGet n)
    then show ?thesis using \<open>registered os = f\<close> by (simp add: objects_get_ok)
  next
    case (RRemove n)
    then show ?thesis using \<open>registered os = f\<close> objects_remove_ok [of n os]
      by (cases "objects_remove n os") simp
  qed
qed

text \<open>
  the object registry is a stack per name: any script of adds, gets and removes answers as one, so a name added
  twice is found as its last object, and removing it uncovers the one before.
\<close>

theorem objects_are_stacks:
  "\<exists>os. run_impl registry_step cs [] = Some (Inr (fst (run_spec registry_spec cs (\<lambda>_. [])), os)) \<and>
    registered os = snd (run_spec registry_spec cs (\<lambda>_. []))"
proof -
  have "run_ok registry_spec (\<lambda>_ _. True) cs f" for f
    by (induction cs arbitrary: f) auto
  moreover have "registered [] = (\<lambda>_. [])" by (simp add: registered_def fun_eq_iff)
  ultimately show ?thesis using registry.run_sim by blast
qed

subsection \<open>The order of initialisation\<close>

abbreviation names :: "device list \<Rightarrow> string set" where
  "names ds \<equiv> dname ` set ds"

text \<open>Newest first: everything a device needs was there before it.\<close>

fun ordered :: "device list \<Rightarrow> device list \<Rightarrow> bool" where
  "ordered [] base = True"
| "ordered (d # ds) base \<longleftrightarrow> set (need_list d) \<subseteq> names (ds @ base) \<and> ordered ds base"

definition came_up :: "device \<Rightarrow> bool" where
  "came_up d \<longleftrightarrow> dinit d = Some True \<or> (dinit d = Some False \<and> can_fail d)"

text \<open>What start-up has done so far: \<open>ds\<close> was initialised, newest first.\<close>

definition progress :: "boot \<Rightarrow> device list \<Rightarrow> boot \<Rightarrow> bool" where
  "progress s ds s' \<longleftrightarrow> finished s' = ds @ finished s \<and> mset (todo s) = mset ds + mset (todo s') \<and>
     ordered ds (finished s) \<and> (\<forall>d\<in>set ds. came_up d)"

lemma progress_refl [simp]: "progress s [] s"
  by (simp add: progress_def)

lemma ordered_append: "ordered (xs @ ys) base \<longleftrightarrow> ordered xs (ys @ base) \<and> ordered ys base"
  by (induction xs) auto

lemma progress_trans: "progress s ds s1 \<Longrightarrow> progress s1 es s2 \<Longrightarrow> progress s (es @ ds) s2"
  by (auto simp: progress_def ordered_append ac_simps)

lemma drop_dev_ok:
  "distinct (map did ds) \<Longrightarrow> d \<in> set ds \<Longrightarrow> drop_dev (did d) ds = (True, remove1 d ds)"
proof (induction ds)
  case Nil
  then show ?case by simp
next
  case (Cons e ds)
  then show ?case by (cases "did e = did d") (auto dest: inj_onD)
qed

lemma find_name_None: "List.find (match_name x) ds = None \<longleftrightarrow> x \<notin> names ds"
  by (auto simp: find_None_iff match_name_def)

lemma find_name_Some: "List.find (match_name x) ds = Some d \<Longrightarrow> d \<in> set ds \<and> dname d = x"
  by (auto simp: find_Some_iff match_name_def)

lemma progress_todo: "progress s ds s' \<Longrightarrow> mset (todo s) = mset (ds @ todo s')"
  by (simp add: progress_def)

lemma distinct_progress: "progress s ds s' \<Longrightarrow> distinct (map did (todo s)) \<Longrightarrow> distinct (map did (ds @ todo s'))"
  using progress_todo [of s ds s'] by (metis mset_eq_imp_distinct_iff mset_map)

lemma todo_progress: "progress s ds s' \<Longrightarrow> set (todo s) = set ds \<union> set (todo s')"
  using mset_eq_setD [OF progress_todo] by fastforce

lemma same_device:
  assumes "progress s ds s'" "distinct (map did (todo s))" "d \<in> set (todo s)" "did d \<in> did ` set (todo s')"
  shows "d \<in> set (todo s')"
proof -
  from assms(4) obtain e where "e \<in> set (todo s')" "did e = did d" by auto
  with todo_progress [OF assms(1)] assms(2,3) show ?thesis
    by (auto simp: distinct_map dest: inj_onD)
qed

text \<open>One device comes up after what it needs.\<close>

definition comes_up :: "device \<Rightarrow> boot \<Rightarrow> boot" where
  "comes_up d s = s\<lparr>called := called s @ [did d], todo := remove1 d (todo s), finished := d # finished s\<rparr>"

lemma comes_up_progress:
  "d \<in> set (todo s) \<Longrightarrow> set (need_list d) \<subseteq> names (finished s) \<Longrightarrow> came_up d \<Longrightarrow> progress s [d] (comes_up d s)"
  by (simp add: comes_up_def progress_def)

text \<open>What \<^verbatim>\<open>init_device\<close> does once its needs are there.\<close>

lemma init_device_Suc:
  assumes "init_needs n (need_list d) s = Inr (ok, s1)" "distinct (map did (todo s1))"
    "did d \<in> did ` set (todo s1) \<Longrightarrow> d \<in> set (todo s1)"
  shows "init_device (Suc n) d s =
    (if \<not> ok then Inr (False, s1)
     else (case dinit d of
             None \<Rightarrow> Inl AssertFailed
           | Some r \<Rightarrow>
               if \<not> r \<and> \<not> can_fail d then Inr (False, s1\<lparr>called := called s1 @ [did d]\<rparr>)
               else if d \<in> set (todo s1) then Inr (True, comes_up d s1)
               else Inl AssertFailed))"
proof (cases "d \<in> set (todo s1)")
  case True
  with assms show ?thesis
    by (auto simp: drop_dev_ok comes_up_def Let_def split: option.split)
next
  case False
  have "drop_dev i ds = (False, ds)" if "i \<notin> did ` set ds" for i ds
    using that by (induction ds) auto
  moreover have "did d \<notin> did ` set (todo s1)" using assms(3) False by blast
  ultimately have "drop_dev (did d) (todo s1) = (False, todo s1)" by blast
  with assms False show ?thesis
    by (auto simp: Let_def split: option.split)
qed

lemma init_progress:
  "distinct (map did (todo s)) \<Longrightarrow> d \<in> set (todo s) \<Longrightarrow> init_device n d s = Inr (ok, s') \<Longrightarrow>
     \<exists>ds. progress s ds s' \<and> (ok \<longrightarrow> ds \<noteq> [] \<and> hd ds = d \<and> called s' = called s @ map did (rev ds))"
  "distinct (map did (todo s)) \<Longrightarrow> init_needs n xs s = Inr (ok, s') \<Longrightarrow>
     \<exists>ds. progress s ds s' \<and> (ok \<longrightarrow> set xs \<subseteq> names (finished s') \<and> called s' = called s @ map did (rev ds))"
proof (induction n d s and n xs s arbitrary: ok s' and ok s' rule: init_device_init_needs.induct)
  case (1 d s)
  then show ?case by (auto intro!: exI [of _ "[]"])
next
  case (2 n d s)
  from "2.prems"(3) obtain ok1 s1 where i: "init_needs n (need_list d) s = Inr (ok1, s1)"
    by (auto simp: rbind_Inr_conv)
  from "2.IH" [OF "2.prems"(1) i] obtain ds where
    ds: "progress s ds s1" "ok1 \<Longrightarrow> set (need_list d) \<subseteq> names (finished s1) \<and> called s1 = called s @ map did (rev ds)"
    by auto
  have di: "distinct (map did (todo s1))" using distinct_progress [OF ds(1) "2.prems"(1)] by simp
  note same = same_device [OF ds(1) "2.prems"(1,2)]
  note ex = init_device_Suc [OF i di same]
  show ?case
  proof (cases "ok \<and> d \<in> set (todo s1)")
    case True
    with ex "2.prems"(3) have "s' = comes_up d s1" "came_up d" "ok1"
      by (auto simp: came_up_def split: if_splits option.splits)
    moreover from this True ds have "progress s1 [d] (comes_up d s1)"
      by (auto intro: comes_up_progress)
    moreover note progress_trans [OF ds(1) this]
    ultimately show ?thesis
      using ds(2) by (intro exI [of _ "d # ds"]) (simp add: comes_up_def)
  next
    case False
    with ex "2.prems"(3) same have "\<not> ok \<and> (s' = s1 \<or> s' = s1\<lparr>called := called s1 @ [did d]\<rparr>)"
      by (auto split: if_splits option.splits)
    with ds(1) show ?thesis by (auto simp: progress_def)
  qed
next
  case (3 n s)
  then show ?case by (auto intro!: exI [of _ "[]"])
next
  case (4 n x xs s)
  show ?case
  proof (cases "List.find (match_name x) (finished s)")
    case (Some e)
    with "4.prems" have i: "init_needs n xs s = Inr (ok, s')" by simp
    from "4.IH"(3) [OF Some "4.prems"(1) i] obtain ds where
      ds: "progress s ds s'" "ok \<longrightarrow> set xs \<subseteq> names (finished s') \<and> called s' = called s @ map did (rev ds)" by auto
    moreover have "x \<in> names (finished s')"
      using find_name_Some [OF Some] ds(1) by (auto simp: progress_def)
    ultimately show ?thesis by auto
  next
    case None
    show ?thesis
    proof (cases "List.find (match_name x) (todo s)")
      case None': None
      with None "4.prems" show ?thesis by (auto intro!: exI [of _ "[]"])
    next
      case (Some e)
      from None Some "4.prems"(2) obtain ok1 s1 where i: "init_device n e s = Inr (ok1, s1)"
        by (auto simp: rbind_Inr_conv)
      from "4.IH"(1) [OF None Some "4.prems"(1) _ i] find_name_Some [OF Some] obtain ds where
        ds: "progress s ds s1" "ok1 \<longrightarrow> ds \<noteq> [] \<and> hd ds = e \<and> called s1 = called s @ map did (rev ds)" by auto
      show ?thesis
      proof (cases ok1)
        case False
        with None Some i "4.prems"(2) ds(1) show ?thesis by auto
      next
        case True
        with None Some i "4.prems"(2) have r: "init_needs n xs s1 = Inr (ok, s')" by simp
        from "4.IH"(2) [OF None Some i refl _ _ r] distinct_progress [OF ds(1) "4.prems"(1)] True obtain es where
          es: "progress s1 es s'" "ok \<longrightarrow> set xs \<subseteq> names (finished s') \<and> called s' = called s1 @ map did (rev es)" by auto
        have "x \<in> names (finished s1)"
          using ds True find_name_Some [OF Some] by (cases ds) (auto simp: progress_def)
        then have "x \<in> names (finished s')" using es(1) by (auto simp: progress_def)
        with progress_trans [OF ds(1) es(1)] ds(2) es(2) True show ?thesis
          by (intro exI [of _ "es @ ds"]) auto
      qed
    qed
  qed
qed

lemma rounds_progress:
  "distinct (map did (todo s)) \<Longrightarrow> init_rounds loops k s = Inr (ok, s') \<Longrightarrow>
   \<exists>ds. progress s ds s' \<and> (ok \<longrightarrow> todo s' = [] \<and> called s' = called s @ map did (rev ds))"
proof (induction k arbitrary: s)
  case (0 s)
  show ?case
  proof (cases "todo s")
    case Nil
    with 0 show ?thesis by (auto simp: init_rounds.simps intro!: exI [of _ "[]"])
  next
    case (Cons d ds)
    with "0.prems"(2) obtain ok1 where "init_device loops d s = Inr (ok1, s')" "\<not> ok"
      by (auto simp: init_rounds.simps rbind_Inr_conv split: if_splits)
    with init_progress(1) [OF "0.prems"(1), of d loops ok1 s'] Cons show ?thesis by auto
  qed
next
  case (Suc k s)
  show ?case
  proof (cases "todo s")
    case Nil
    with Suc.prems show ?thesis by (auto simp: init_rounds.simps intro!: exI [of _ "[]"])
  next
    case (Cons d rest)
    with Suc.prems(2) obtain ok1 s1 where
      i: "init_device loops d s = Inr (ok1, s1)" "if \<not> ok1 then \<not> ok \<and> s' = s1 else init_rounds loops k s1 = Inr (ok, s')"
      by (auto simp: init_rounds.simps [of _ "Suc k"] rbind_Inr_conv split: if_splits)
    from init_progress(1) [OF Suc.prems(1) _ i(1)] Cons obtain ds where
      ds: "progress s ds s1" "ok1 \<longrightarrow> called s1 = called s @ map did (rev ds)" by auto
    show ?thesis
    proof (cases ok1)
      case False
      with i ds show ?thesis by auto
    next
      case True
      with Suc.IH [of s1] distinct_progress [OF ds(1) Suc.prems(1)] i(2) obtain es where
        es: "progress s1 es s'" "ok \<longrightarrow> todo s' = [] \<and> called s' = called s1 @ map did (rev es)" by auto
      with progress_trans [OF ds(1) es(1)] ds(2) True show ?thesis
        by (intro exI [of _ "es @ ds"]) auto
    qed
  qed
qed

subsection \<open>It always answers\<close>

text \<open>Names and objects are unique, and every device has an init function.\<close>

definition boot_ok :: "boot \<Rightarrow> bool" where
  "boot_ok s \<longleftrightarrow> distinct (map did (todo s)) \<and> distinct (map dname (finished s @ todo s)) \<and>
     (\<forall>d\<in>set (todo s). dinit d \<noteq> None)"

lemma boot_ok_progress:
  assumes "boot_ok s" "progress s ds s'"
  shows "boot_ok s'"
proof -
  have "mset (map dname (finished s @ todo s)) = mset (map dname (finished s' @ todo s'))"
    using assms(2) by (simp add: progress_def)
  then have "distinct (map dname (finished s' @ todo s'))"
    using assms(1) unfolding boot_ok_def by (metis mset_eq_imp_distinct_iff)
  with assms distinct_progress [OF assms(2)] todo_progress [OF assms(2)] show ?thesis
    by (auto simp: boot_ok_def)
qed

lemma init_device_ok: "boot_ok s \<Longrightarrow> d \<in> set (todo s) \<Longrightarrow> init_device n d s = Inr (ok, s') \<Longrightarrow> boot_ok s'"
  using init_progress(1) boot_ok_progress by (metis boot_ok_def)

lemma init_needs_ok: "boot_ok s \<Longrightarrow> init_needs n xs s = Inr (ok, s') \<Longrightarrow> boot_ok s'"
  using init_progress(2) boot_ok_progress by (metis boot_ok_def)

lemma names_differ:
  "boot_ok s \<Longrightarrow> u \<in> set (todo s) \<Longrightarrow> e \<in> set (todo s) \<Longrightarrow> dname u = dname e \<Longrightarrow> u = e"
  by (auto simp: boot_ok_def distinct_map dest: inj_onD)

lemma name_todo: "boot_ok s \<Longrightarrow> u \<in> set (todo s) \<Longrightarrow> List.find (match_name (dname u)) (finished s) = None"
  by (auto simp: boot_ok_def find_name_None)

lemma find_todo: "boot_ok s \<Longrightarrow> u \<in> set (todo s) \<Longrightarrow> List.find (match_name (dname u)) (todo s) = Some u"
  by (metis find_name_None find_name_Some names_differ image_eqI option.exhaust)

text \<open>The two functions once more, as cases of a run that answered.\<close>

lemma init_device_cases:
  assumes "boot_ok s" "d \<in> set (todo s)" "init_device (Suc n) d s = Inr (ok, s')"
  obtains ok1 s1 where "init_needs n (need_list d) s = Inr (ok1, s1)" "boot_ok s1"
    "ok \<Longrightarrow> ok1 \<and> d \<in> set (todo s1) \<and> s' = comes_up d s1"
    "\<not> ok \<Longrightarrow> todo s' = todo s1 \<and> finished s' = finished s1"
proof -
  from assms(3) obtain ok1 s1 where i: "init_needs n (need_list d) s = Inr (ok1, s1)"
    by (auto simp: rbind_Inr_conv)
  have s1: "boot_ok s1" by (rule init_needs_ok [OF assms(1) i])
  then have di: "distinct (map did (todo s1))" by (simp add: boot_ok_def)
  from init_progress(2) [OF _ i] assms(1) obtain ds where p: "progress s ds s1"
    by (auto simp: boot_ok_def)
  have same: "did d \<in> did ` set (todo s1) \<Longrightarrow> d \<in> set (todo s1)"
    using same_device [OF p] assms(1,2) by (simp add: boot_ok_def)
  from init_device_Suc [OF i di same] assms(3)
  have "if ok then ok1 \<and> d \<in> set (todo s1) \<and> s' = comes_up d s1 else todo s' = todo s1 \<and> finished s' = finished s1"
    by (auto split: if_splits option.splits)
  with that [OF i s1] show ?thesis by (auto split: if_splits)
qed

lemma init_needs_cases:
  assumes "init_needs n (x # xs) s = Inr (ok, s')"
  obtains (there) "x \<in> names (finished s)" "init_needs n xs s = Inr (ok, s')"
  | (missing) "x \<notin> names (finished s)" "x \<notin> names (todo s)" "\<not> ok" "s' = s"
  | (failed) e where "x \<notin> names (finished s)" "e \<in> set (todo s)" "dname e = x"
      "init_device n e s = Inr (False, s')" "\<not> ok"
  | (up) e s1 where "x \<notin> names (finished s)" "e \<in> set (todo s)" "dname e = x"
      "init_device n e s = Inr (True, s1)" "init_needs n xs s1 = Inr (ok, s')"
proof (cases "List.find (match_name x) (finished s)")
  case (Some e)
  with assms find_name_Some [OF Some] there show ?thesis by auto
next
  case None
  then have x: "x \<notin> names (finished s)" by (simp add: find_name_None)
  show ?thesis
  proof (cases "List.find (match_name x) (todo s)")
    case None': None
    then have "x \<notin> names (todo s)" by (simp add: find_name_None)
    with missing x None None' assms show ?thesis by auto
  next
    case (Some e)
    then have e: "e \<in> set (todo s)" "dname e = x" using find_name_Some by auto
    from None Some assms obtain ok1 s1 where
      "init_device n e s = Inr (ok1, s1)" "if ok1 then init_needs n xs s1 = Inr (ok, s') else \<not> ok \<and> s' = s1"
      by (auto simp: rbind_Inr_conv split: if_splits)
    with failed up x e show ?thesis by (cases ok1) auto
  qed
qed

text \<open>Devices that wait for each other in a circle never come up.\<close>

definition circle :: "device set \<Rightarrow> boot \<Rightarrow> bool" where
  "circle T s \<longleftrightarrow> T \<subseteq> set (todo s) \<and> (\<forall>t\<in>T. \<exists>u\<in>T. dname u \<in> set (need_list t))"

lemma needs_circle:
  assumes dev: "\<And>d s ok s'. boot_ok s \<Longrightarrow> circle T s \<Longrightarrow> d \<in> set (todo s) \<Longrightarrow>
      init_device n d s = Inr (ok, s') \<Longrightarrow> circle T s' \<and> (d \<in> T \<longrightarrow> \<not> ok)"
  shows "boot_ok s \<Longrightarrow> circle T s \<Longrightarrow> init_needs n xs s = Inr (ok, s') \<Longrightarrow>
    circle T s' \<and> ((\<exists>u\<in>T. dname u \<in> set xs) \<longrightarrow> \<not> ok)"
proof (induction xs arbitrary: s)
  case Nil
  then show ?case by simp
next
  case (Cons x xs)
  have T: "u \<in> set (todo s)" "dname u \<notin> names (finished s)" if "u \<in> T" for u
    using that Cons.prems(1,2) name_todo [of s u] by (auto simp: circle_def find_name_None)
  from Cons.prems(3) show ?case
  proof (cases rule: init_needs_cases)
    case there
    then have "dname u \<noteq> x" if "u \<in> T" for u using T(2) [OF that] by auto
    with Cons.IH [OF Cons.prems(1,2) there(2)] show ?thesis by auto
  next
    case missing
    with Cons.prems(2) show ?thesis by simp
  next
    case (failed e)
    with dev [OF Cons.prems(1,2) failed(2,4)] show ?thesis by simp
  next
    case (up e s1)
    note d = dev [OF Cons.prems(1,2) up(2,4)]
    have "dname u \<noteq> x" if "u \<in> T" for u
      using d names_differ [OF Cons.prems(1) T(1) [OF that] up(2)] up(3) that by auto
    with Cons.IH [OF init_device_ok [OF Cons.prems(1) up(2,4)] _ up(5)] d show ?thesis by auto
  qed
qed

lemma device_circle:
  "boot_ok s \<Longrightarrow> circle T s \<Longrightarrow> d \<in> set (todo s) \<Longrightarrow> init_device n d s = Inr (ok, s') \<Longrightarrow>
    circle T s' \<and> (d \<in> T \<longrightarrow> \<not> ok)"
proof (induction n arbitrary: d s ok s')
  case 0
  then show ?case by simp
next
  case (Suc n)
  from Suc.prems(1,3,4) obtain ok1 s1 where
    i: "init_needs n (need_list d) s = Inr (ok1, s1)" "boot_ok s1"
      "ok \<Longrightarrow> ok1 \<and> d \<in> set (todo s1) \<and> s' = comes_up d s1"
      "\<not> ok \<Longrightarrow> todo s' = todo s1 \<and> finished s' = finished s1"
    using init_device_cases by blast
  from needs_circle [OF Suc.IH Suc.prems(1,2) i(1)] have
    c: "circle T s1" "(\<exists>u\<in>T. dname u \<in> set (need_list d)) \<longrightarrow> \<not> ok1" by auto
  have "d \<in> T \<Longrightarrow> \<not> ok" using c i(3) Suc.prems(2) by (auto simp: circle_def)
  moreover have "T \<subseteq> set (remove1 d ds)" if "T \<subseteq> set ds" "d \<notin> T" for ds
    using that by (metis in_set_remove1 subset_iff)
  ultimately moreover have "circle T s'"
    using c(1) i(3,4) by (cases ok) (auto simp: circle_def comes_up_def)
  ultimately show ?case by blast
qed

text \<open>
  The devices being initialised at any moment: each waits for another one of them, except the one at
  the end. None of these comes up before its turn, so each is still to be found where it is removed from.
\<close>

definition waiting :: "device set \<Rightarrow> device \<Rightarrow> boot \<Rightarrow> bool" where
  "waiting C d s \<longleftrightarrow> C \<subseteq> set (todo s) \<and> d \<in> C \<and> (\<forall>c\<in>C - {d}. \<exists>u\<in>C. dname u \<in> set (need_list c))"

lemma needs_answer:
  assumes dev: "\<And>C d s. boot_ok s \<Longrightarrow> waiting C d s \<Longrightarrow>
      \<exists>ok s'. init_device n d s = Inr (ok, s') \<and> (ok \<longrightarrow> C - {d} \<subseteq> set (todo s'))"
  shows "boot_ok s \<Longrightarrow> waiting C d s \<Longrightarrow> set xs \<subseteq> set (need_list d) \<Longrightarrow>
    \<exists>ok s'. init_needs n xs s = Inr (ok, s') \<and> (ok \<longrightarrow> C \<subseteq> set (todo s'))"
proof (induction xs arbitrary: s)
  case Nil
  then show ?case by (auto simp: waiting_def intro: exI [of _ True])
next
  case (Cons x xs)
  show ?case
  proof (cases "List.find (match_name x) (finished s)")
    case (Some e)
    with Cons show ?thesis by simp
  next
    case None
    show ?thesis
    proof (cases "List.find (match_name x) (todo s)")
      case None': None
      with None show ?thesis by (intro exI [of _ False]) simp
    next
      case (Some e)
      then have e: "e \<in> set (todo s)" "dname e = x" using find_name_Some by auto
      have x: "x \<in> set (need_list d)" using Cons.prems(3) by simp
      have w: "waiting (insert e C) e s"
        using Cons.prems(2) e x by (auto simp: waiting_def)
      from dev [OF Cons.prems(1) w] obtain ok1 s1 where
        i: "init_device n e s = Inr (ok1, s1)" "ok1 \<longrightarrow> insert e C - {e} \<subseteq> set (todo s1)" by blast
      show ?thesis
      proof (cases ok1)
        case False
        with None Some i show ?thesis by (intro exI [of _ False]) simp
      next
        case True
        have "e \<notin> C"
        proof
          assume "e \<in> C"
          with Cons.prems(2) e x have "circle C s" by (auto simp: circle_def waiting_def)
          from device_circle [OF Cons.prems(1) this e(1) i(1)] \<open>e \<in> C\<close> True show False by simp
        qed
        with i(2) True Cons.prems(2) have "waiting C d s1" by (auto simp: waiting_def)
        with Cons.IH [of s1] init_device_ok [OF Cons.prems(1) e(1) i(1)] Cons.prems(3) None Some i(1) True
        show ?thesis by simp
      qed
    qed
  qed
qed

lemma device_answers:
  "boot_ok s \<Longrightarrow> waiting C d s \<Longrightarrow>
    \<exists>ok s'. init_device n d s = Inr (ok, s') \<and> (ok \<longrightarrow> C - {d} \<subseteq> set (todo s'))"
proof (induction n arbitrary: C d s)
  case 0
  show ?case by (rule exI [of _ False]) simp
next
  case (Suc n)
  from needs_answer [OF Suc.IH Suc.prems, of "need_list d"] obtain ok1 s1 where
    i: "init_needs n (need_list d) s = Inr (ok1, s1)" "ok1 \<longrightarrow> C \<subseteq> set (todo s1)" by auto
  have s1: "distinct (map did (todo s1))" using init_needs_ok [OF Suc.prems(1) i(1)] by (simp add: boot_ok_def)
  have d: "d \<in> C" "d \<in> set (todo s)" "dinit d \<noteq> None" using Suc.prems by (auto simp: waiting_def boot_ok_def)
  from init_progress(2) [OF _ i(1)] Suc.prems(1) obtain ds where p: "progress s ds s1"
    by (auto simp: boot_ok_def)
  have same: "did d \<in> did ` set (todo s1) \<Longrightarrow> d \<in> set (todo s1)"
    using same_device [OF p] Suc.prems(1) d(2) by (simp add: boot_ok_def)
  note ex = init_device_Suc [OF i(1) s1 same]
  show ?case
  proof (cases "ok1 \<and> came_up d")
    case True
    then have "init_device (Suc n) d s = Inr (True, comes_up d s1)"
      using ex i(2) d by (auto simp: came_up_def simp del: init_device.simps)
    moreover have "C - {d} \<subseteq> set (todo (comes_up d s1))"
      using True i(2) by (auto simp: comes_up_def) (metis in_set_remove1 subsetD)
    ultimately show ?thesis by blast
  next
    case False
    then obtain s' where "init_device (Suc n) d s = Inr (False, s')"
      using ex i(2) d by (cases ok1) (auto simp: came_up_def simp del: init_device.simps)
    then show ?thesis by blast
  qed
qed

lemma rounds_answer: "boot_ok s \<Longrightarrow> \<exists>ok s'. init_rounds loops k s = Inr (ok, s')"
proof (induction k arbitrary: s)
  case (0 s)
  show ?case
  proof (cases "todo s")
    case (Cons d ds)
    then have "waiting {d} d s" by (simp add: waiting_def)
    with device_answers [OF 0 this, of loops] Cons show ?thesis
      by (auto simp: init_rounds.simps)
  qed (auto simp: init_rounds.simps intro: exI [of _ True])
next
  case (Suc k s)
  show ?case
  proof (cases "todo s")
    case (Cons d ds)
    then have "waiting {d} d s" by (simp add: waiting_def)
    from device_answers [OF Suc.prems this, of loops] obtain ok1 s1 where
      i: "init_device loops d s = Inr (ok1, s1)" by blast
    with Suc.IH [OF init_device_ok [OF Suc.prems _ i]] Cons show ?thesis
      by (cases ok1) (auto simp: init_rounds.simps [of _ "Suc k"])
  qed (auto simp: init_rounds.simps intro: exI [of _ True])
qed

subsection \<open>It succeeds\<close>

text \<open>Everything needed exists, dependencies go down in rank, and every init function can be passed.\<close>

definition resolvable :: "(string \<Rightarrow> nat) \<Rightarrow> boot \<Rightarrow> bool" where
  "resolvable r s \<longleftrightarrow> (\<forall>d\<in>set (todo s). came_up d \<and>
     (\<forall>x\<in>set (need_list d). x \<in> names (finished s @ todo s) \<and> r x < r (dname d)))"

lemma resolvable_progress: "resolvable r s \<Longrightarrow> progress s ds s' \<Longrightarrow> resolvable r s'"
proof -
  assume r: "resolvable r s" and p: "progress s ds s'"
  have "names (finished s' @ todo s') = names (finished s @ todo s)"
    using todo_progress [OF p] p by (auto simp: progress_def)
  with r todo_progress [OF p] show ?thesis by (auto simp: resolvable_def)
qed

lemma init_device_progress:
  "boot_ok s \<Longrightarrow> d \<in> set (todo s) \<Longrightarrow> init_device n d s = Inr (ok, s') \<Longrightarrow>
   \<exists>ds. progress s ds s' \<and> (ok \<longrightarrow> ds \<noteq> [])"
  using init_progress(1) [of s d n ok s'] by (auto simp: boot_ok_def)

lemma needs_succeed:
  assumes dev: "\<And>d s. boot_ok s \<Longrightarrow> resolvable r s \<Longrightarrow> d \<in> set (todo s) \<Longrightarrow> r (dname d) < n \<Longrightarrow>
      \<exists>s'. init_device n d s = Inr (True, s')"
  shows "boot_ok s \<Longrightarrow> resolvable r s \<Longrightarrow> \<forall>x\<in>set xs. x \<in> names (finished s @ todo s) \<and> r x < n \<Longrightarrow>
    \<exists>s'. init_needs n xs s = Inr (True, s')"
proof (induction xs arbitrary: s)
  case Nil
  then show ?case by simp
next
  case (Cons x xs)
  show ?case
  proof (cases "List.find (match_name x) (finished s)")
    case (Some e)
    with Cons show ?thesis by simp
  next
    case None
    with Cons.prems(3) obtain e where e: "List.find (match_name x) (todo s) = Some e"
      by (cases "List.find (match_name x) (todo s)") (auto simp: find_name_None)
    from find_name_Some [OF e] Cons.prems dev [of s e] obtain s1 where
      i: "init_device n e s = Inr (True, s1)" by auto
    from init_device_progress [OF Cons.prems(1) _ i] find_name_Some [OF e] obtain ds where
      ds: "progress s ds s1" by auto
    have "names (finished s @ todo s) = names (finished s1 @ todo s1)"
      using todo_progress [OF ds] ds by (auto simp: progress_def)
    with Cons.IH [OF boot_ok_progress [OF Cons.prems(1) ds] resolvable_progress [OF Cons.prems(2) ds]] Cons.prems(3)
      None e i
    show ?thesis by auto
  qed
qed

lemma device_succeeds:
  "boot_ok s \<Longrightarrow> resolvable r s \<Longrightarrow> d \<in> set (todo s) \<Longrightarrow> r (dname d) < n \<Longrightarrow>
    \<exists>s'. init_device n d s = Inr (True, s')"
proof (induction n arbitrary: d s)
  case 0
  then show ?case by simp
next
  case (Suc n)
  have "\<forall>x\<in>set (need_list d). x \<in> names (finished s @ todo s) \<and> r x < n"
    using Suc.prems by (auto simp: resolvable_def less_Suc_eq_le dest: less_le_trans)
  from needs_succeed [OF Suc.IH Suc.prems(1,2) this] obtain s1 where
    i: "init_needs n (need_list d) s = Inr (True, s1)" by auto
  have "waiting {d} d s" using Suc.prems(3) by (simp add: waiting_def)
  from device_answers [OF Suc.prems(1) this, of "Suc n"] obtain ok s' where
    a: "init_device (Suc n) d s = Inr (ok, s')" by blast
  moreover have "came_up d" using Suc.prems(2,3) by (simp add: resolvable_def)
  ultimately have ok
    using i by (auto simp: came_up_def Let_def split: if_splits prod.splits)
  with a show ?case by auto
qed

lemma rounds_succeed:
  "boot_ok s \<Longrightarrow> resolvable r s \<Longrightarrow> \<forall>d\<in>set (todo s). r (dname d) < loops \<Longrightarrow> length (todo s) \<le> k \<Longrightarrow>
   \<exists>s'. init_rounds loops k s = Inr (True, s')"
proof (induction k arbitrary: s)
  case (0 s)
  then show ?case by (simp add: init_rounds.simps)
next
  case (Suc k s)
  show ?case
  proof (cases "todo s")
    case Nil
    then show ?thesis by (simp add: init_rounds.simps)
  next
    case (Cons d rest)
    with Suc.prems device_succeeds [of s r d loops] obtain s1 where
      i: "init_device loops d s = Inr (True, s1)" by auto
    with init_device_progress [OF Suc.prems(1) _ i] Cons obtain ds where
      ds: "progress s ds s1" "ds \<noteq> []" by auto
    have "length (todo s) = length ds + length (todo s1)"
      using progress_todo [OF ds(1)] by (metis length_append size_mset)
    then have "length (todo s1) \<le> k"
      using ds(2) Suc.prems(4) by (cases ds) auto
    moreover have "\<forall>d\<in>set (todo s1). r (dname d) < loops"
      using Suc.prems(3) todo_progress [OF ds(1)] by auto
    ultimately obtain s' where "init_rounds loops k s1 = Inr (True, s')"
      using Suc.IH [OF boot_ok_progress [OF Suc.prems(1) ds(1)] resolvable_progress [OF Suc.prems(2) ds(1)]] by blast
    with i Cons show ?thesis by (simp add: init_rounds.simps [of _ "Suc k"])
  qed
qed

subsection \<open>Properties\<close>

text \<open>
  C18: start-up always answers, whatever the devices need (missing devices and circles included), and if it
  reports success then every device came up exactly once, each after everything it needs, its init function called
  once and passed (or allowed to fail).
\<close>

theorem devices_up_in_order:
  assumes "distinct (map did td)" "distinct (map dname (dn @ td))" "\<forall>d\<in>set td. dinit d \<noteq> None"
  shows "\<exists>ok s. init_devices loops td dn = Inr (ok, s) \<and>
    (ok \<longrightarrow> (\<exists>ds. mset ds = mset td \<and> finished s = ds @ dn \<and> ordered ds dn \<and> called s = map did (rev ds) \<and>
      (\<forall>d\<in>set ds. came_up d)))"
proof -
  let ?s = "\<lparr>todo = td, finished = dn, called = []\<rparr>"
  have "boot_ok ?s" using assms by (simp add: boot_ok_def)
  from rounds_answer [OF this, of loops loops] obtain ok s where
    r: "init_rounds loops loops ?s = Inr (ok, s)" by blast
  with rounds_progress [of ?s loops loops ok s] assms(1) obtain ds where
    p: "progress ?s ds s" "ok \<longrightarrow> todo s = [] \<and> called s = map did (rev ds)" by auto
  have "mset ds = mset td \<and> finished s = ds @ dn \<and> ordered ds dn \<and> called s = map did (rev ds) \<and>
      (\<forall>d\<in>set ds. came_up d)" if ok
    using p that by (simp add: progress_def)
  with r show ?thesis unfolding init_devices_def by blast
qed

definition dev :: "nat \<Rightarrow> string \<Rightarrow> string list \<Rightarrow> device" where
  "dev i n ns = \<lparr>did = i, dname = n, needs = Some ns, dinit = Some True, can_fail = False, dont_register = False\<rparr>"

theorem devices_up_in_order_witness:
  "\<exists>s. init_devices 5 [dev 0 ''lcd'' [''i2c''], dev 1 ''i2c'' [''scl'', ''sda''], dev 2 ''scl'' [], dev 3 ''sda'' []] [] =
      Inr (True, s) \<and> ordered (finished s) [] \<and> length (finished s) = 4"
proof -
  let ?td = "[dev 0 ''lcd'' [''i2c''], dev 1 ''i2c'' [''scl'', ''sda''], dev 2 ''scl'' [], dev 3 ''sda'' []]"
  have "distinct (map did ?td)" "distinct (map dname ([] @ ?td))" "\<forall>d\<in>set ?td. dinit d \<noteq> None"
    by (auto simp: dev_def)
  note devices_up_in_order [OF this, of 5]
  moreover have "\<exists>s. init_devices 5 ?td [] = Inr (True, s)"
    by (simp add: init_devices_def init_rounds.simps dev_def need_list_def match_name_def numeral_eq_Suc)
  ultimately obtain s ds where
    s: "init_devices 5 ?td [] = Inr (True, s)" "mset ds = mset ?td" "finished s = ds @ []" "ordered ds []"
    by fastforce
  moreover from arg_cong [OF s(2), of size] have "length ds = 4" by simp
  ultimately show ?thesis by auto
qed

text \<open>
  C19: and it does report success when it can: if everything needed exists, the dependencies have no circle and no
  chain longer than the limit, there are at most as many devices as the limit, and no init function stands in the
  way, then everything comes up.
\<close>

theorem devices_all_come_up:
  assumes "distinct (map did td)" "distinct (map dname (dn @ td))"
    "\<forall>d\<in>set td. came_up d \<and> (\<forall>x\<in>set (need_list d). x \<in> names (dn @ td) \<and> r x < r (dname d)) \<and> r (dname d) < loops"
    "length td \<le> loops"
  shows "\<exists>s. init_devices loops td dn = Inr (True, s) \<and> set (finished s) = set (dn @ td)"
proof -
  let ?s = "\<lparr>todo = td, finished = dn, called = []\<rparr>"
  have ok: "boot_ok ?s" using assms(1-3) by (auto simp: boot_ok_def came_up_def)
  have "resolvable r ?s" using assms(3) by (auto simp: resolvable_def)
  with rounds_succeed [OF ok, of r loops loops] assms(3,4) obtain s where
    "init_rounds loops loops ?s = Inr (True, s)" by auto
  moreover from this rounds_progress [of ?s loops loops True s] assms(1) obtain ds where
    "progress ?s ds s" "todo s = []" by auto
  then have "mset ds = mset td" "finished s = ds @ dn" by (auto simp: progress_def)
  then have "set (finished s) = set (dn @ td)" using mset_eq_setD [of ds td] by auto
  ultimately show ?thesis by (auto simp: init_devices_def)
qed

theorem devices_all_come_up_witness:
  "\<exists>s. init_devices 3 [dev 0 ''lcd'' [''i2c''], dev 1 ''i2c'' [''pin'']] [dev 2 ''pin'' []] = Inr (True, s) \<and>
    set (finished s) = {dev 2 ''pin'' [], dev 0 ''lcd'' [''i2c''], dev 1 ''i2c'' [''pin'']}"
proof -
  let ?td = "[dev 0 ''lcd'' [''i2c''], dev 1 ''i2c'' [''pin'']]" and ?dn = "[dev 2 ''pin'' []]"
  let ?r = "\<lambda>x. if x = ''lcd'' then 2 else if x = ''i2c'' then 1 else 0 :: nat"
  have "distinct (map did ?td)" "distinct (map dname (?dn @ ?td))"
    "\<forall>d\<in>set ?td. came_up d \<and> (\<forall>x\<in>set (need_list d). x \<in> names (?dn @ ?td) \<and> ?r x < ?r (dname d)) \<and> ?r (dname d) < 3"
    "length ?td \<le> 3"
    by (simp_all add: dev_def came_up_def need_list_def)
  from devices_all_come_up [OF this] show ?thesis by simp
qed

text \<open>A device too many: with \<open>loops + 1\<close> devices that need nothing, all come up and the answer is no.\<close>

lemma device_limit:
  "init_devices 1 [dev 0 ''a'' [], dev 1 ''b'' []] [] =
    Inr (False, \<lparr>todo = [], finished = [dev 1 ''b'' [], dev 0 ''a'' []], called = [0, 1]\<rparr>)"
  by (simp add: init_devices_def init_rounds.simps dev_def need_list_def numeral_eq_Suc)

end
