(* ===== verification/WatchdogModel.thy ===== *)
theory WatchdogModel
  imports TimeEvents
begin

text \<open>
  The watchdog of watchdog.cpp: threads say for how long they may stay silent, and \<^verbatim>\<open>check_expired\<close> names
  the ones that stayed silent longer.

  A thread is a number (its address), \<open>None\<close> the null pointer. What \<^verbatim>\<open>Thread::get_current\<close> and \<^verbatim>\<open>Time::get\<close> answer
  are arguments. The list of \<^verbatim>\<open>Watched\<close> is a sequence, newest first; locks and logging are left out.
\<close>

record watched =
  wthread :: nat
  wlast :: u32
  wholdoff :: u32
  alarmed :: bool

text \<open>The thread \<^verbatim>\<open>poll\<close> stands for when it has none: the static \<^verbatim>\<open>DummyThread\<close>.\<close>

definition the_thread :: "nat \<Rightarrow> nat option \<Rightarrow> nat option \<Rightarrow> nat" where
  "the_thread dummy current t =
     (let t = (if t = None then current else t) in case t of None \<Rightarrow> dummy | Some t \<Rightarrow> t)"

definition wd_match :: "nat \<Rightarrow> watched \<Rightarrow> bool" where
  "wd_match t w \<longleftrightarrow> t = wthread w"

definition wd_find :: "nat option \<Rightarrow> watched list \<Rightarrow> watched option result" where
  "wd_find t ws = (case t of None \<Rightarrow> Inl AssertFailed | Some t \<Rightarrow> Inr (List.find (wd_match t) ws))"

fun wd_renew :: "nat \<Rightarrow> u32 \<Rightarrow> u32 \<Rightarrow> watched list \<Rightarrow> watched list" where
  "wd_renew t now holdoff [] = []"
| "wd_renew t now holdoff (w # ws) =
     (if wd_match t w then w\<lparr>wlast := now, wholdoff := holdoff, alarmed := False\<rparr> # ws
      else w # wd_renew t now holdoff ws)"

definition wd_poll :: "nat \<Rightarrow> nat option \<Rightarrow> u32 \<Rightarrow> u32 \<Rightarrow> nat option \<Rightarrow> watched list \<Rightarrow> watched list result" where
  "wd_poll dummy current now holdoff t ws =
     (let t = the_thread dummy current t
      in rbind (wd_find (Some t) ws) (\<lambda>w.
        case w of
          None \<Rightarrow> Inr (\<lparr>wthread = t, wlast = now, wholdoff = holdoff, alarmed = False\<rparr> # ws)
        | Some _ \<Rightarrow> Inr (wd_renew t now holdoff ws)))"

definition wd_remove :: "nat option \<Rightarrow> watched list \<Rightarrow> watched list result" where
  "wd_remove t ws =
     rbind (wd_find t ws) (\<lambda>w. case w of None \<Rightarrow> Inr ws | Some w \<Rightarrow> Inr (remove1 w ws))"

text \<open>The visitor stops at the first that is due and was not reported, and marks it.\<close>

fun wd_check :: "u32 \<Rightarrow> watched list \<Rightarrow> nat option \<times> watched list" where
  "wd_check now [] = (None, [])"
| "wd_check now (w # ws) =
     (if alarmed w then let (r, ws) = wd_check now ws in (r, w # ws)
      else if \<not> time_elapsed now (wlast w) (wholdoff w) then let (r, ws) = wd_check now ws in (r, w # ws)
      else (Some (wthread w), w\<lparr>alarmed := True\<rparr> # ws))"

definition wd_expired :: "nat option \<Rightarrow> watched list \<Rightarrow> bool result" where
  "wd_expired t ws = rbind (wd_find t ws) (\<lambda>w. Inr (case w of None \<Rightarrow> False | Some w \<Rightarrow> alarmed w))"

subsection \<open>What it promises\<close>

datatype wd_op =
    WPoll "nat option" "nat option" u32 u32   \<comment> \<open>thread, current thread, time, holdoff\<close>
  | WRemove "nat option"
  | WCheck u32
  | WExpired "nat option"

datatype wd_res = WUnit | WThread "nat option" | WBool bool

fun wd_step :: "nat \<Rightarrow> wd_op \<Rightarrow> watched list \<Rightarrow> (wd_res \<times> watched list) result option" where
  "wd_step dummy (WPoll t cur now h) ws = Some (rbind (wd_poll dummy cur now h t ws) (\<lambda>ws. Inr (WUnit, ws)))"
| "wd_step dummy (WRemove t) ws = Some (rbind (wd_remove t ws) (\<lambda>ws. Inr (WUnit, ws)))"
| "wd_step dummy (WCheck now) ws = (let (r, ws) = wd_check now ws in Some (Inr (WThread r, ws)))"
| "wd_step dummy (WExpired t) ws = Some (rbind (wd_expired t ws) (\<lambda>b. Inr (WBool b, ws)))"

text \<open>
  The specification: who is watched (last come first), when each was last heard of and for how long it may be silent,
  and who was reported since it was last heard of.
\<close>

record wd_spec_state =
  watching :: "nat list"
  heard :: "nat \<Rightarrow> u32 \<times> u32"
  reported :: "nat set"

definition overdue :: "u32 \<Rightarrow> wd_spec_state \<Rightarrow> nat \<Rightarrow> bool" where
  "overdue now a t \<longleftrightarrow> t \<notin> reported a \<and> time_elapsed now (fst (heard a t)) (snd (heard a t))"

fun wd_spec :: "nat \<Rightarrow> wd_op \<Rightarrow> wd_spec_state \<Rightarrow> wd_res \<times> wd_spec_state" where
  "wd_spec dummy (WPoll t cur now h) a =
     (let t = the_thread dummy cur t
      in (WUnit, \<lparr>watching = (if t \<in> set (watching a) then watching a else t # watching a),
                  heard = (heard a)(t := (now, h)), reported = reported a - {t}\<rparr>))"
| "wd_spec dummy (WRemove t) a =
     (WUnit, a\<lparr>watching := remove1 (the t) (watching a), reported := reported a - {the t}\<rparr>)"
| "wd_spec dummy (WCheck now) a =
     (let r = List.find (overdue now a) (watching a)
      in (WThread r, a\<lparr>reported := (case r of None \<Rightarrow> reported a | Some t \<Rightarrow> insert t (reported a))\<rparr>))"
| "wd_spec dummy (WExpired t) a = (WBool (the t \<in> reported a), a)"

fun wd_ok :: "wd_op \<Rightarrow> wd_spec_state \<Rightarrow> bool" where
  "wd_ok (WRemove t) a \<longleftrightarrow> t \<noteq> None"
| "wd_ok (WExpired t) a \<longleftrightarrow> t \<noteq> None"
| "wd_ok _ a \<longleftrightarrow> True"

definition entry :: "wd_spec_state \<Rightarrow> nat \<Rightarrow> watched" where
  "entry a t = \<lparr>wthread = t, wlast = fst (heard a t), wholdoff = snd (heard a t), alarmed = (t \<in> reported a)\<rparr>"

definition wd_rep :: "watched list \<Rightarrow> wd_spec_state \<Rightarrow> bool" where
  "wd_rep ws a \<longleftrightarrow> ws = map (entry a) (watching a) \<and> distinct (watching a) \<and> reported a \<subseteq> set (watching a)"

lemma wthread_entry [simp]: "wthread (entry a t) = t"
  by (simp add: entry_def)

lemma find_entry:
  "List.find (wd_match t) (map (entry a) ts) = (if t \<in> set ts then Some (entry a t) else None)"
  by (induction ts) (auto simp: wd_match_def)

lemma renew_entry:
  "distinct ts \<Longrightarrow> wd_renew t now h (map (entry a) ts) =
   map (entry (a\<lparr>heard := (heard a)(t := (now, h)), reported := reported a - {t}\<rparr>)) ts"
proof (induction ts)
  case (Cons u ts)
  show ?case
  proof (cases "u = t")
    case True
    with Cons.prems have "\<forall>v\<in>set ts. v \<noteq> t" by auto
    with True show ?thesis by (auto simp: wd_match_def entry_def)
  next
    case False
    with Cons show ?thesis by (auto simp: wd_match_def entry_def)
  qed
qed simp

lemma remove_entry:
  "remove1 (entry a t) (map (entry a) ts) = map (entry a) (remove1 t ts)"
proof -
  have "entry a u = entry a v \<longleftrightarrow> u = v" for u v by (metis wthread_entry)
  note eq = this
  show ?thesis by (induction ts) (simp_all add: eq)
qed

lemma check_entry:
  "distinct ts \<Longrightarrow> wd_check now (map (entry a) ts) =
   (List.find (overdue now a) ts,
    map (entry (a\<lparr>reported := (case List.find (overdue now a) ts of None \<Rightarrow> reported a | Some t \<Rightarrow> insert t (reported a))\<rparr>)) ts)"
proof (induction ts)
  case (Cons u ts)
  show ?case
  proof (cases "overdue now a u")
    case True
    with Cons.prems have "\<forall>v\<in>set ts. v \<noteq> u" by auto
    with True show ?thesis by (auto simp: overdue_def entry_def)
  next
    case False
    let ?r = "case List.find (overdue now a) ts of None \<Rightarrow> reported a | Some t \<Rightarrow> insert t (reported a)"
    have "\<And>t. List.find (overdue now a) ts = Some t \<Longrightarrow> t \<in> set ts" by (auto simp: find_Some_iff)
    with Cons.prems have "u \<in> ?r \<longleftrightarrow> u \<in> reported a" by (auto split: option.splits)
    then have "entry (a\<lparr>reported := ?r\<rparr>) u = entry a u" by (simp add: entry_def)
    moreover have "alarmed (entry a u) \<or> \<not> time_elapsed now (wlast (entry a u)) (wholdoff (entry a u))"
      using False by (auto simp: overdue_def entry_def)
    ultimately show ?thesis
      using False Cons by auto
  qed
qed simp

lemma wd_step_sim:
  assumes "wd_rep ws a" "wd_ok c a"
  shows "\<exists>ws'. wd_step dummy c ws = Some (Inr (fst (wd_spec dummy c a), ws')) \<and> wd_rep ws' (snd (wd_spec dummy c a))"
proof (cases c)
  case (WPoll t cur now h)
  then show ?thesis
    using assms by (auto simp: wd_rep_def wd_poll_def wd_find_def find_entry renew_entry Let_def entry_def)
next
  case (WRemove t)
  then obtain u where "t = Some u" using assms(2) by auto
  have "map (entry (a\<lparr>watching := remove1 u (watching a), reported := reported a - {u}\<rparr>)) (remove1 u (watching a)) =
      map (entry a) (remove1 u (watching a))"
    using assms(1) by (auto simp: wd_rep_def entry_def)
  with \<open>t = Some u\<close> show ?thesis
    using WRemove assms
    by (cases "u \<in> set (watching a)")
      (auto simp: wd_rep_def wd_remove_def wd_find_def find_entry remove_entry remove1_idem)
next
  case (WCheck now)
  have "t \<in> set (watching a)" if "List.find (overdue now a) (watching a) = Some t" for t
    using that by (auto simp: find_Some_iff)
  with WCheck show ?thesis
    using assms check_entry [of "watching a" now a]
    by (cases "List.find (overdue now a) (watching a)") (auto simp: wd_rep_def Let_def comp_def)
next
  case (WExpired t)
  then obtain u where "t = Some u" using assms(2) by auto
  then show ?thesis
    using WExpired assms by (auto simp: wd_rep_def wd_expired_def wd_find_def find_entry entry_def)
qed


interpretation watchdog: simulation wd_rep "wd_step dummy" "wd_spec dummy" wd_ok for dummy
  by unfold_locales (rule wd_step_sim)

definition wd_empty :: wd_spec_state where
  "wd_empty = \<lparr>watching = [], heard = (\<lambda>_. (0, 0)), reported = {}\<rparr>"

text \<open>
  C17: over any script of polls, removals and checks the watchdog answers as its specification: a check names the
  newest thread that has been silent for longer than it said and was not reported since, and marks it as
  reported; a poll renews the thread and takes the report back; \<^verbatim>\<open>expired\<close> is true exactly of the reported ones.
  Nothing asserts as long as \<^verbatim>\<open>remove\<close> and \<^verbatim>\<open>expired\<close> are given a thread.
\<close>

theorem watchdog_refines_spec:
  assumes "run_ok (wd_spec dummy) wd_ok cs wd_empty"
  shows "\<exists>ws. run_impl (wd_step dummy) cs [] = Some (Inr (fst (run_spec (wd_spec dummy) cs wd_empty), ws)) \<and>
    map wthread ws = watching (snd (run_spec (wd_spec dummy) cs wd_empty)) \<and> distinct (map wthread ws)"
proof -
  have "wd_rep [] wd_empty" by (simp add: wd_rep_def wd_empty_def)
  from watchdog.run_sim [OF this assms] show ?thesis by (auto simp: wd_rep_def comp_def)
qed

definition wd_script :: "wd_op list" where
  "wd_script =
     [WPoll (Some 7) None 0xFFFFFFF0 0x20, WPoll None (Some 8) 0xFFFFFFF8 0x8, WCheck 0x0, WCheck 0x4, WExpired (Some 8),
      WPoll (Some 8) None 0x8 0x100, WExpired (Some 8), WCheck 0x10]"

theorem watchdog_refines_spec_witness:
  "\<exists>ws. run_impl (wd_step 0) wd_script [] =
     Some (Inr ([WUnit, WUnit, WThread (Some 8), WThread None, WBool True, WUnit, WBool False, WThread (Some 7)], ws))"
proof -
  have "run_ok (wd_spec 0) wd_ok wd_script wd_empty"
    by (simp add: wd_script_def wd_empty_def the_thread_def overdue_def time_elapsed_def)
  moreover have "fst (run_spec (wd_spec 0) wd_script wd_empty) =
      [WUnit, WUnit, WThread (Some 8), WThread None, WBool True, WUnit, WBool False, WThread (Some 7)]"
    by (simp add: wd_script_def wd_empty_def the_thread_def overdue_def time_elapsed_def Let_def)
  ultimately show ?thesis using watchdog_refines_spec [of 0 wd_script] by auto
qed

text \<open>
  Called without a thread, \<^verbatim>\<open>remove\<close> and \<^verbatim>\<open>expired\<close> assert, where \<^verbatim>\<open>poll\<close> would take the current thread: the default
  argument of watchdog.h is not usable.
\<close>

theorem watchdog_default_asserts:
  "wd_remove None ws = Inl AssertFailed \<and> wd_expired None ws = Inl AssertFailed \<and>
   wd_poll dummy current now h None ws \<noteq> Inl AssertFailed"
  unfolding wd_remove_def wd_expired_def wd_find_def wd_poll_def Let_def
  by (cases "List.find (wd_match (the_thread dummy current None)) ws") simp_all

end
