(* ===== verification/Sensors.thy ===== *)
theory Sensors
  imports Buses
begin

text \<open>
  Sensors that check what they send: the PZEM-004T meter (drivers/pzem004t.cpp), the AHT25 (drivers/aht25.cpp)
  and the MH-Z19B (drivers/mhz19b.cpp).

  A received block is a list of bytes, and reading past it is \<open>Inl OutOfBounds\<close>. The UART and I2C drivers are
  parameters: the bytes they deliver. The raw fixed-point registers are modelled, the scaling to floating
  point that follows is not. \<^verbatim>\<open>char\<close> arithmetic is the 8-bit arithmetic it is stored in. Waiting and logging
  are left out.
\<close>

text \<open>
  A check value that takes in a message byte by byte, and loses nothing: neither of what it was nor of the
  byte.
\<close>

locale byte_check =
  fixes absorb :: "'c \<Rightarrow> u8 \<Rightarrow> 'c"
  assumes absorb_state: "absorb c d = absorb c' d \<Longrightarrow> c = c'"
    and absorb_byte: "absorb c d = absorb c d' \<Longrightarrow> d = d'"
begin

lemma foldl_state: "foldl absorb c xs = foldl absorb c' xs \<Longrightarrow> c = c'"
  by (induction xs arbitrary: c c') (auto dest: absorb_state)

lemma detects: "i < length xs \<Longrightarrow> foldl absorb c (xs[i := d]) = foldl absorb c xs \<Longrightarrow> d = xs ! i"
proof (induction xs arbitrary: c i)
  case (Cons x xs)
  then show ?case by (cases i) (auto dest: foldl_state absorb_byte)
qed simp

end

subsection \<open>PZEM-004T\<close>

definition crc16_bit :: "u16 \<Rightarrow> u16" where
  "crc16_bit c = (if c AND 1 \<noteq> 0 then drop_bit 1 c XOR 0xa001 else drop_bit 1 c)"

definition crc16_byte :: "u16 \<Rightarrow> u8 \<Rightarrow> u16" where
  "crc16_byte c d = (crc16_bit ^^ 8) (c XOR ucast d)"

definition pz_crc :: "u8 list \<Rightarrow> u16" where
  "pz_crc xs = foldl crc16_byte 0xffff xs"

definition low_byte :: "u16 \<Rightarrow> u8" where
  "low_byte c = ucast (c AND 0xff)"

definition high_byte :: "u16 \<Rightarrow> u8" where
  "high_byte c = ucast (drop_bit 8 c)"

definition READ_REGS :: u8 where "READ_REGS = 4"

definition PZ_ERROR :: u8 where "PZ_ERROR = 0xff"

definition pz_request :: "u8 \<Rightarrow> u8 list" where
  "pz_request addr =
     (let msg = [addr, READ_REGS, 0, 0, 0, 10]; c = pz_crc msg in msg @ [low_byte c, high_byte c])"

text \<open>\<open>n\<close> is the length the caller gives.\<close>

definition crc_check :: "u8 list \<Rightarrow> int \<Rightarrow> bool result" where
  "crc_check m n =
     (if n \<le> 5 then Inr False
      else if int (length m) < n then Inl OutOfBounds
      else
        let k = nat n; c = pz_crc (take (k - 2) m)
        in if ucast (m ! (k - 2)) \<noteq> c AND 0xff then Inr False
           else if ucast (m ! (k - 1)) \<noteq> drop_bit 8 c then Inr False
           else Inr True)"

definition get_command :: "u8 \<Rightarrow> u8 list \<Rightarrow> int \<Rightarrow> u8 result" where
  "get_command addr m n =
     rbind (crc_check m n) (\<lambda>ok.
       if \<not> ok then Inr PZ_ERROR
       else if m ! 0 \<noteq> addr then Inr PZ_ERROR
       else Inr (m ! 1))"

definition get16 :: "u8 list \<Rightarrow> nat \<Rightarrow> (u16 \<times> nat) result" where
  "get16 m i =
     (if i + 1 < length m then Inr (push_bit 8 (ucast (m ! i)) + ucast (m ! (i + 1)), i + 2) else Inl OutOfBounds)"

definition get32 :: "u8 list \<Rightarrow> nat \<Rightarrow> (u32 \<times> nat) result" where
  "get32 m i =
     rbind (get16 m i) (\<lambda>(lo, i). rbind (get16 m i) (\<lambda>(hi, i). Inr (ucast lo + 10000 * ucast hi, i)))"

record pz_status =
  volts :: u16
  current :: u32
  power :: u32
  energy :: u32
  freq :: u16
  power_factor :: u16

definition pz_status_at :: "u8 list \<Rightarrow> nat \<Rightarrow> pz_status result" where
  "pz_status_at m i =
     rbind (get16 m i) (\<lambda>(v, i). rbind (get32 m i) (\<lambda>(c, i). rbind (get32 m i) (\<lambda>(p, i). rbind (get32 m i) (\<lambda>(e, i).
     rbind (get16 m i) (\<lambda>(f, i). rbind (get16 m i) (\<lambda>(pf, i).
       Inr \<lparr>volts = v, current = c, power = p, energy = e, freq = f, power_factor = pf\<rparr>))))))"

text \<open>\<^verbatim>\<open>parse\<close>; \<open>wanted\<close> is whether there is a status to fill.\<close>

definition pz_parse :: "u8 \<Rightarrow> bool \<Rightarrow> u8 list \<Rightarrow> int \<Rightarrow> (bool \<times> pz_status option) result" where
  "pz_parse addr wanted m n =
     rbind (get_command addr m n) (\<lambda>cmd.
       if cmd \<noteq> READ_REGS then Inr (False, None)
       else if m ! 2 \<noteq> 20 then Inr (False, None)
       else if \<not> wanted then Inr (True, None)
       else rbind (pz_status_at m 3) (\<lambda>st. Inr (True, Some st)))"

subsection \<open>AHT25\<close>

definition crc8_bit :: "u8 \<Rightarrow> u8" where
  "crc8_bit c = (if c AND 0x80 \<noteq> 0 then push_bit 1 c XOR 0x31 else push_bit 1 c)"

definition crc8_byte :: "u8 \<Rightarrow> u8 \<Rightarrow> u8" where
  "crc8_byte c d = (crc8_bit ^^ 8) (c XOR d)"

definition aht_crc :: "u8 list \<Rightarrow> u8" where
  "aht_crc xs = foldl crc8_byte 0xff xs"

text \<open>\<^verbatim>\<open>get\<close> from the bytes the bus delivered: raw humidity and temperature, or nothing.\<close>

definition aht_get :: "u8 list \<Rightarrow> (int \<times> int) option" where
  "aht_get d =
     (if length d \<noteq> 7 then None
      else if d ! 0 AND 0x80 \<noteq> 0 then None
      else
        let h = uint (d ! 1) * 2 ^ 12 + uint (d ! 2) * 2 ^ 4 + uint (drop_bit 4 (d ! 3));
            t = uint (d ! 3 AND 0x0f) * 2 ^ 16 + uint (d ! 4) * 2 ^ 8 + uint (d ! 5)
        in if d ! 6 \<noteq> aht_crc (take 6 d) then None else Some (h, t))"

text \<open>
  Start-up over a bus: \<open>wr\<close> writes a block and says how many bytes went, \<open>rd\<close> writes one and reads
  one byte (0 when nothing comes).
\<close>

definition aht_calibrated :: "(u8 list \<Rightarrow> 's \<Rightarrow> u8 \<times> 's) \<Rightarrow> 's \<Rightarrow> bool \<times> 's" where
  "aht_calibrated rd s = (let (x, s) = rd [0x71] s in (x AND 0x08 = 0x08, s))"

definition aht_busy :: "(u8 list \<Rightarrow> 's \<Rightarrow> u8 \<times> 's) \<Rightarrow> 's \<Rightarrow> bool \<times> 's" where
  "aht_busy rd s = (let (x, s) = rd [0x71] s in (x AND 0x80 = 0x80, s))"

fun aht_wait :: "(u8 list \<Rightarrow> 's \<Rightarrow> u8 \<times> 's) \<Rightarrow> nat \<Rightarrow> 's \<Rightarrow> bool \<times> 's" where
  "aht_wait rd 0 s = (False, s)"
| "aht_wait rd (Suc n) s = (let (ok, s) = aht_calibrated rd s in if ok then (True, s) else aht_wait rd n s)"

definition aht_init :: "(u8 list \<Rightarrow> 's \<Rightarrow> nat \<times> 's) \<Rightarrow> (u8 list \<Rightarrow> 's \<Rightarrow> u8 \<times> 's) \<Rightarrow> 's \<Rightarrow> bool \<times> 's" where
  "aht_init wr rd s =
     (let (n, s) = wr [0xba] s
      in if n = 0 then (False, s)
         else let (_, s) = wr [0xe1, 0, 0] s in aht_wait rd 10 s)"

subsection \<open>MH-Z19B\<close>

definition mh_checksum :: "u8 list \<Rightarrow> u8" where
  "mh_checksum p = 0xff - foldl (+) 0 (take 7 (drop 1 p)) + 1"

definition mh_request :: "u8 list" where
  "mh_request = (let p = [0xff, 1, 0x86, 0, 0, 0, 0, 0, 0] in p[8 := mh_checksum p])"

text \<open>\<^verbatim>\<open>read\<close> from the bytes the UART delivered: its result, and the concentration.\<close>

definition mh_read :: "u8 list \<Rightarrow> int \<times> u16 option" where
  "mh_read p =
     (if length p = 0 then (0, None)
      else if length p \<noteq> 9 then (- 1, None)
      else if mh_checksum p = 0 then (- 1, None)
      else if p ! 0 \<noteq> 0xff then (- 1, None)
      else if p ! 1 \<noteq> 0x86 then (- 1, None)
      else (9, Some (push_bit 8 (ucast (p ! 2)) + ucast (p ! 3))))"

subsection \<open>The checks as shift registers\<close>

text \<open>
  The reference: the division by the polynomial as hardware does it, one message bit at a time. For the CRC-16 the
  bits go low one first, for the CRC-8 high one first.
\<close>

definition serial16 :: "u16 \<Rightarrow> bool \<Rightarrow> u16" where
  "serial16 c b = (if bit c 0 \<noteq> b then drop_bit 1 c XOR 0xa001 else drop_bit 1 c)"

definition serial8 :: "u8 \<Rightarrow> bool \<Rightarrow> u8" where
  "serial8 c b = (if bit c 7 \<noteq> b then push_bit 1 c XOR 0x31 else push_bit 1 c)"

lemma low16: "(c AND 1 \<noteq> 0) \<longleftrightarrow> bit c 0" for c :: u16
  using and_exp_eq_0_iff_not_bit [of c 0] by simp

lemma crc16_bit_xor: "crc16_bit (c XOR x) = serial16 c (bit x 0) XOR drop_bit 1 x"
  unfolding crc16_bit_def low16 serial16_def by (simp add: drop_bit_xor bit_xor_iff ac_simps)

lemma crc16_steps: "(crc16_bit ^^ n) (c XOR x) = foldl serial16 c (map (bit x) [0..<n]) XOR drop_bit n x"
  by (induction n) (simp_all add: crc16_bit_xor bit_drop_bit_eq del: drop_bit_Suc)

lemma crc16_byte_serial: "crc16_byte c d = foldl serial16 c (lsb_bits d)"
proof -
  have "bit (ucast d :: u16) i = bit d i" if "i < 8" for i
    using that by (simp add: bit_ucast_iff)
  then have "map (bit (ucast d :: u16)) [0..<8] = map (bit d) [0..<8]"
    by (intro map_cong) auto
  note this [THEN arg_cong, of "foldl serial16 c"]
  moreover have "drop_bit 8 (ucast d :: u16) = 0"
    by (rule bit_word_eqI) (auto simp: bit_simps dest: bit_imp_le_length)
  ultimately show ?thesis
    unfolding crc16_byte_def crc16_steps lsb_bits_def by (simp only: xor.right_neutral)
qed

lemma crc8_bit_xor: "crc8_bit (c XOR x) = serial8 c (bit x 7) XOR push_bit 1 x"
  unfolding crc8_bit_def top_bit serial8_def by (simp only: push_bit_xor bit_xor_iff) (auto simp: ac_simps)

lemma crc8_steps:
  "n \<le> 8 \<Longrightarrow> (crc8_bit ^^ n) (c XOR x) = foldl serial8 c (map (\<lambda>i. bit x (7 - i)) [0..<n]) XOR push_bit n x"
proof (induction n)
  case (Suc n)
  have "bit (push_bit n x) 7 = bit x (7 - n)"
    using Suc.prems by (simp only: bit_push_bit_iff possible_bit_word) simp
  with Suc show ?case by (simp add: crc8_bit_xor del: push_bit_Suc)
qed simp

lemma crc8_byte_serial: "crc8_byte c d = foldl serial8 c (msb_bits d)"
proof -
  have "push_bit 8 d = 0" for d :: u8
    by (rule bit_word_eqI) (simp only: bit_push_bit_iff possible_bit_word bit_0_eq, simp)
  then show ?thesis
    unfolding crc8_byte_def msb_bits_def using crc8_steps [of 8 c d] by (simp only: le_refl xor.right_neutral)
qed

lemma foldl_concat: "foldl (\<lambda>c d. foldl f c (g d)) c xs = foldl f c (concat (map g xs))"
  by (induction xs arbitrary: c) simp_all

text \<open>A step of a shift register can be undone: the polynomial's outermost bit tells what was shifted out.\<close>

lemma bits_cancel: "c XOR x = c' XOR x \<Longrightarrow> c = c'" for c x :: "'a :: len word"
  by (metis xor.assoc xor.right_neutral xor_self_eq)

lemma drop_one_inj: "drop_bit 1 c = drop_bit 1 c' \<Longrightarrow> bit c 0 = bit c' 0 \<Longrightarrow> c = c'" for c :: u16
proof (rule bit_word_eqI)
  fix n
  assume "drop_bit 1 c = drop_bit 1 c'" "bit c 0 = bit c' 0"
  then show "bit c n = bit c' n"
    by (cases n) (use bit_drop_bit_eq [of 1 c] bit_drop_bit_eq [of 1 c'] in \<open>auto simp: fun_eq_iff\<close>)
qed

lemma serial16_out: "bit (serial16 c b) 15 = (bit c 0 \<noteq> b)"
proof -
  have "\<not> bit c 16" using bit_imp_le_length [of c 16] by auto
  then have "\<not> bit (drop_bit 1 c) 15" by (simp add: bit_drop_bit_eq)
  moreover have "bit (0xa001 :: u16) 15" by code_simp
  ultimately show ?thesis by (simp only: serial16_def bit_xor_iff split: if_split) auto
qed

lemma serial16_inj: "serial16 c b = serial16 c' b \<Longrightarrow> c = c'"
proof -
  assume eq: "serial16 c b = serial16 c' b"
  then have low: "bit c 0 = bit c' 0" using serial16_out [of c b] serial16_out [of c' b] by auto
  have "drop_bit 1 c = drop_bit 1 c'"
  proof (cases "bit c 0 = b")
    case True
    with eq low show ?thesis by (simp only: serial16_def simp_thms if_False)
  next
    case False
    with eq low have "drop_bit 1 c XOR 0xa001 = drop_bit 1 c' XOR 0xa001"
      by (simp only: serial16_def simp_thms if_True)
    then show ?thesis by (rule bits_cancel)
  qed
  with low show ?thesis by (rule drop_one_inj [rotated])
qed

lemma serial8_out: "bit (serial8 c b) 0 = (bit c 7 \<noteq> b)"
proof -
  have "\<not> bit (push_bit 1 c) 0" by (simp only: bit_push_bit_iff) simp
  moreover have "bit (0x31 :: u8) 0" by code_simp
  ultimately show ?thesis by (simp only: serial8_def bit_xor_iff split: if_split) auto
qed

lemma push_one_inj: "push_bit 1 c = push_bit 1 c' \<Longrightarrow> bit c 7 = bit c' 7 \<Longrightarrow> c = c'" for c :: u8
proof (rule bit_word_eqI)
  fix n
  assume eq: "push_bit 1 c = push_bit 1 c'" "bit c 7 = bit c' 7" and "n < LENGTH(8)"
  from eq(1) have "bit (push_bit 1 c) (Suc n) = bit (push_bit 1 c') (Suc n)" by simp
  with eq(2) \<open>n < LENGTH(8)\<close> show "bit c n = bit c' n"
    unfolding bit_up by (cases "n = 7") auto
qed

lemma serial8_inj: "serial8 c b = serial8 c' b \<Longrightarrow> c = c'"
proof -
  assume eq: "serial8 c b = serial8 c' b"
  then have top: "bit c 7 = bit c' 7" using serial8_out [of c b] serial8_out [of c' b] by auto
  have "push_bit 1 c = push_bit 1 c'"
  proof (cases "bit c 7 = b")
    case True
    with eq top show ?thesis by (simp only: serial8_def simp_thms if_False)
  next
    case False
    with eq top have "push_bit 1 c XOR 0x31 = push_bit 1 c' XOR 0x31"
      by (simp only: serial8_def simp_thms if_True)
    then show ?thesis by (rule bits_cancel)
  qed
  with top show ?thesis by (rule push_one_inj [rotated])
qed

text \<open>Whole bytes: neither the register nor the byte is lost.\<close>

lemma crc16_bit_inj: "inj crc16_bit"
  using crc16_bit_xor [of _ 0] serial16_inj [of _ False] by (intro injI) simp

lemma crc8_bit_inj: "inj crc8_bit"
  using crc8_bit_xor [of _ 0] serial8_inj [of _ False] by (intro injI) simp

lemma unat_ucast16: "unat (ucast d :: u16) = unat d" for d :: u8
proof -
  have "unat d < 2 ^ 16" using unsigned_less [of d, where ?'a = nat] by simp
  then show ?thesis by (simp add: unsigned_ucast_eq take_bit_nat_eq_self)
qed

interpretation crc16: byte_check crc16_byte
proof
  fix c c' d d'
  note inj = injD [OF inj_fn [OF crc16_bit_inj, of 8]]
  show "crc16_byte c d = crc16_byte c' d \<Longrightarrow> c = c'"
    unfolding crc16_byte_def by (rule bits_cancel [OF inj])
  assume "crc16_byte c d = crc16_byte c d'"
  then have "c XOR ucast d = c XOR ucast d'"
    unfolding crc16_byte_def by (rule inj)
  then have "(ucast d :: u16) = ucast d'" using bits_cancel [of "ucast d" c "ucast d'"] by (simp add: xor.commute)
  then have "unat (ucast d :: u16) = unat (ucast d' :: u16)" by simp
  then show "d = d'" by (simp add: unat_ucast16 word_unat_eq_iff)
qed

interpretation crc8: byte_check crc8_byte
proof
  fix c c' d d'
  note inj = injD [OF inj_fn [OF crc8_bit_inj, of 8]]
  show "crc8_byte c d = crc8_byte c' d \<Longrightarrow> c = c'"
    unfolding crc8_byte_def by (rule bits_cancel [OF inj])
  assume "crc8_byte c d = crc8_byte c d'"
  then have "c XOR d = c XOR d'"
    unfolding crc8_byte_def by (rule inj)
  then show "d = d'" using bits_cancel [of d c d'] by (simp add: xor.commute)
qed

interpretation sum8: byte_check "(+) :: u8 \<Rightarrow> u8 \<Rightarrow> u8"
  by unfold_locales simp_all


subsection \<open>Properties\<close>

text \<open>
  C26: the two check routines, which take in a byte at once and then shift eight times, compute the CRC as the
  shift register of the polynomial does, fed one bit at a time: Modbus CRC-16 low bit first for the PZEM-004T,
  CRC-8 high bit first for the AHT25.
\<close>

theorem crcs_are_polynomial_division:
  "pz_crc xs = foldl serial16 0xffff (concat (map lsb_bits xs)) \<and>
   aht_crc ys = foldl serial8 0xff (concat (map msb_bits ys))"
  by (simp add: pz_crc_def aht_crc_def flip: foldl_concat crc16_byte_serial crc8_byte_serial)

lemma bit_ff: "bit (0xff :: u16) n \<longleftrightarrow> n < 8"
proof -
  have "(0xff :: u16) = mask 8" by (simp add: mask_eq_exp_minus_1)
  then show ?thesis by (simp only: bit_mask_iff possible_bit_word) auto
qed

lemma bytes_of_word: "c AND 0xff = c' AND 0xff \<Longrightarrow> drop_bit 8 c = drop_bit 8 c' \<Longrightarrow> c = c'" for c :: u16
proof (rule bit_word_eqI)
  fix n
  assume lo: "c AND 0xff = c' AND 0xff" and hi: "drop_bit 8 c = drop_bit 8 c'"
  show "bit c n = bit c' n"
  proof (cases "n < 8")
    case True
    then show ?thesis using arg_cong [OF lo, of "\<lambda>w. bit w n"] by (simp only: bit_and_iff bit_ff) simp
  next
    case False
    then show ?thesis using arg_cong [OF hi, of "\<lambda>w. bit w (n - 8)"] by (simp add: bit_drop_bit_eq)
  qed
qed

lemma byte_parts: "ucast (low_byte c) = c AND 0xff" "ucast (high_byte c) = drop_bit 8 c"
proof -
  show "ucast (low_byte c) = c AND 0xff"
    by (rule bit_word_eqI) (simp only: low_byte_def bit_ucast_iff bit_and_iff bit_ff, auto)
  show "ucast (high_byte c) = drop_bit 8 c"
    by (rule bit_word_eqI) (auto simp: high_byte_def bit_ucast_iff bit_drop_bit_eq dest: bit_imp_le_length)
qed

text \<open>A block with its CRC at the end passes the check.\<close>

definition with_crc :: "u8 list \<Rightarrow> u8 list" where
  "with_crc m = m @ [low_byte (pz_crc m), high_byte (pz_crc m)]"

lemma crc_check_with_crc: "4 \<le> length m \<Longrightarrow> crc_check (with_crc m) (int (length m) + 2) = Inr True"
  by (simp add: crc_check_def with_crc_def Let_def byte_parts nth_append nat_add_distrib)

lemma ucast16_inj: "(ucast d :: u16) = ucast d' \<Longrightarrow> d = d'" for d :: u8
  by (metis unat_ucast16 word_unat_eq_iff)

lemma crc_check_iff:
  "6 \<le> length m \<Longrightarrow> crc_check m (int (length m)) =
     Inr (ucast (m ! (length m - 2)) = pz_crc (take (length m - 2) m) AND 0xff \<and>
          ucast (m ! (length m - 1)) = drop_bit 8 (pz_crc (take (length m - 2) m)))"
  by (simp add: crc_check_def Let_def)

lemma crc_check_notices:
  assumes "i < length m" "d \<noteq> m ! i" "crc_check m (int (length m)) = Inr True"
  shows "crc_check (m[i := d]) (int (length m)) = Inr False"
proof -
  have len: "6 \<le> length m" using assms(3) by (auto simp: crc_check_def split: if_splits)
  let ?k = "length m"
  let ?c = "pz_crc (take (?k - 2) m)" and ?c' = "pz_crc (take (?k - 2) (m[i := d]))"
  have old: "ucast (m ! (?k - 2)) = ?c AND 0xff" "ucast (m ! (?k - 1)) = drop_bit 8 ?c"
    using assms(3) crc_check_iff [OF len] by simp_all
  have new: "crc_check (m[i := d]) (int ?k) =
      Inr (ucast (m[i := d] ! (?k - 2)) = ?c' AND 0xff \<and> ucast (m[i := d] ! (?k - 1)) = drop_bit 8 ?c')"
    using crc_check_iff [of "m[i := d]"] len by simp
  consider (body) "i < ?k - 2" | (lo) "i = ?k - 2" | (hi) "i = ?k - 1" using assms(1) by linarith
  then show ?thesis
  proof cases
    case body
    then have "m[i := d] ! (?k - 2) = m ! (?k - 2)" "m[i := d] ! (?k - 1) = m ! (?k - 1)" by simp_all
    moreover have "?c' \<noteq> ?c"
      using crc16.detects [of i "take (?k - 2) m" "0xffff" d] body assms(2)
      by (auto simp: pz_crc_def take_update_swap)
    ultimately show ?thesis using new old bytes_of_word [of ?c' ?c] by auto
  next
    case lo
    then have "?c' = ?c" "m[i := d] ! (?k - 2) = d" using len by simp_all
    then show ?thesis using new old lo assms(2) ucast16_inj [of d "m ! i"] by auto
  next
    case hi
    then have "?c' = ?c" "m[i := d] ! (?k - 1) = d" using len by simp_all
    then show ?thesis using new old hi assms(2) ucast16_inj [of d "m ! i"] by auto
  qed
qed

lemma aht_get_notices:
  assumes "i < length m" "d \<noteq> m ! i" "aht_get m \<noteq> None"
  shows "aht_get (m[i := d]) = None"
proof (rule ccontr)
  assume "aht_get (m[i := d]) \<noteq> None"
  then have len: "length m = 7" and new: "m[i := d] ! 6 = aht_crc (take 6 (m[i := d]))"
    by (auto simp: aht_get_def Let_def split: if_splits)
  have old: "m ! 6 = aht_crc (take 6 m)" using assms(3) by (auto simp: aht_get_def Let_def split: if_splits)
  show False
  proof (cases "i = 6")
    case True
    then have "m[i := d] ! 6 = d" "take 6 (m[i := d]) = take 6 m" using len by simp_all
    then show ?thesis using new old True assms(2) by simp
  next
    case False
    then have i: "i < 6" using assms(1) len by simp
    then have "m[i := d] ! 6 = m ! 6" by simp
    then have "aht_crc ((take 6 m)[i := d]) = aht_crc (take 6 m)" using new old by (simp add: take_update_swap)
    then show ?thesis
      using crc8.detects [of i "take 6 m" "0xff" d] i len assms(2) by (simp add: aht_crc_def)
  qed
qed

text \<open>
  C27: a byte received wrong is always noticed: if a block passes the check of the PZEM-004T or the AHT25, the same
  block with any one of its bytes changed does not. This holds of these two: the driver of the MH-Z19B compares no
  check at all (\<open>mh_read_ignores_checksum\<close>).
\<close>

theorem one_wrong_byte_is_noticed:
  assumes "i < length m" "d \<noteq> m ! i"
  shows "(crc_check m (int (length m)) = Inr True \<longrightarrow> crc_check (m[i := d]) (int (length m)) = Inr False) \<and>
    (aht_get m \<noteq> None \<longrightarrow> aht_get (m[i := d]) = None)"
  using crc_check_notices [OF assms] aht_get_notices [OF assms] by blast

theorem one_wrong_byte_is_noticed_witness:
  "crc_check ((pz_request 1)[3 := 7]) 8 = Inr False"
proof -
  have "pz_request 1 = with_crc [1, 4, 0, 0, 0, 10]"
    by (simp add: pz_request_def with_crc_def Let_def READ_REGS_def)
  then have "crc_check (pz_request 1) (int (length (pz_request 1))) = Inr True"
    using crc_check_with_crc [of "[1, 4, 0, 0, 0, 10]"] by (simp add: with_crc_def)
  moreover have "3 < length (pz_request 1)" "7 \<noteq> pz_request 1 ! 3" "int (length (pz_request 1)) = 8"
    by (simp_all add: pz_request_def Let_def)
  ultimately show ?thesis using one_wrong_byte_is_noticed [of 3 "pz_request 1" 7] by simp
qed

text \<open>
  The MH-Z19B driver computes the check but never compares it: the last byte has no influence on what is accepted,
  and a good packet whose check value happens to be 0 is refused.
\<close>

theorem mh_read_ignores_checksum:
  "mh_read (p[8 := x]) = mh_read p \<and>
   mh_read [0xff, 0x86, 0, 0x7a, 0, 0, 0, 0, mh_checksum [0xff, 0x86, 0, 0x7a, 0, 0, 0, 0, 0]] = (- 1, None)"
proof
  have "mh_checksum (p[8 := x]) = mh_checksum p" by (simp add: mh_checksum_def drop_update_swap)
  then show "mh_read (p[8 := x]) = mh_read p" by (simp add: mh_read_def)
  show "mh_read [0xff, 0x86, 0, 0x7a, 0, 0, 0, 0, mh_checksum [0xff, 0x86, 0, 0x7a, 0, 0, 0, 0, 0]] = (- 1, None)"
    by code_simp
qed


subsection \<open>Reading the meter\<close>

definition big16 :: "u16 \<Rightarrow> u8 list" where
  "big16 w = [high_byte w, low_byte w]"

text \<open>The answer of the meter at address \<open>addr\<close>: ten registers, high byte first.\<close>

definition pz_response :: "u8 \<Rightarrow> u16 list \<Rightarrow> u8 list" where
  "pz_response addr rs = with_crc ([addr, READ_REGS, 20] @ concat (map big16 rs))"

lemma big16_join: "push_bit 8 (ucast (high_byte w)) + ucast (low_byte w) = w"
  unfolding byte_parts
proof -
    have "push_bit 8 (drop_bit 8 w) AND (w AND 0xff) = 0"
    by (rule bit_word_eqI) (simp only: bit_and_iff bit_push_bit_iff bit_ff, auto)
  then have "push_bit 8 (drop_bit 8 w) + (w AND 0xff) = push_bit 8 (drop_bit 8 w) OR (w AND 0xff)"
    by (simp add: disjunctive_add_eq_or)
  also have "\<dots> = w"
    by (rule bit_word_eqI) (simp only: bit_or_iff bit_and_iff bit_push_bit_iff bit_drop_bit_eq bit_ff comp_def, auto)
  finally show "push_bit 8 (drop_bit 8 w) + (w AND 0xff) = w" .
qed

lemma words_below: "unat (ucast c :: u32) < 65536" "unat (ucast c :: u32) = unat c" for c :: u16
proof -
  have "unat c < 2 ^ 16" using unsigned_less [of c, where ?'a = nat] by simp
  then show "unat (ucast c :: u32) < 65536" "unat (ucast c :: u32) = unat c" by (simp_all add: unsigned_ucast_eq take_bit_nat_eq_self)
qed

lemma ten_thousand: "(x + 10000 * ucast c :: u32) = x + push_bit 16 (ucast c) \<longleftrightarrow> c = 0" for c :: u16
proof -
  let ?c = "ucast c :: u32"
  have "x + 10000 * ?c = x + push_bit 16 ?c \<longleftrightarrow> 55536 * ?c = 0"
    by (simp add: push_bit_eq_mult algebra_simps)
  also have "\<dots> \<longleftrightarrow> unat (55536 * ?c) = 0" by (simp add: unat_eq_zero)
  also have "unat (55536 * ?c) = 55536 * unat ?c"
    using words_below(1) [of c] by (simp add: unat_word_ariths)
  also have "55536 * unat ?c = 0 \<longleftrightarrow> c = 0"
    by (simp only: words_below(2)) (simp add: unat_eq_zero)
  finally show ?thesis .
qed

text \<open>
  a meter's answer is parsed into its ten registers. The 32-bit values (current, power, energy), which the meter
  sends low word first, come out as the low word plus 10000 times the high one: that is the value sent exactly as long
  as the high word is 0.
\<close>

theorem pzem_reads_registers:
  "pz_parse addr True (pz_response addr [v, c0, c1, p0, p1, e0, e1, f, pf, al]) 25 =
      Inr (True, Some \<lparr>volts = v, current = ucast c0 + 10000 * ucast c1, power = ucast p0 + 10000 * ucast p1,
        energy = ucast e0 + 10000 * ucast e1, freq = f, power_factor = pf\<rparr>) \<and>
   ((ucast c0 + 10000 * ucast c1 :: u32) = ucast c0 + push_bit 16 (ucast c1) \<longleftrightarrow> c1 = 0)"
proof
  define c where "c = pz_crc ([addr, READ_REGS, 20] @ concat (map big16 [v, c0, c1, p0, p1, e0, e1, f, pf, al]))"
  let ?m = "pz_response addr [v, c0, c1, p0, p1, e0, e1, f, pf, al]"
  have m: "?m = [addr, READ_REGS, 20, high_byte v, low_byte v, high_byte c0, low_byte c0, high_byte c1, low_byte c1,
      high_byte p0, low_byte p0, high_byte p1, low_byte p1, high_byte e0, low_byte e0, high_byte e1, low_byte e1,
      high_byte f, low_byte f, high_byte pf, low_byte pf, high_byte al, low_byte al, low_byte c, high_byte c]"
    by (simp add: pz_response_def with_crc_def big16_def c_def)
  have "crc_check ?m 25 = Inr True"
    using crc_check_with_crc [of "[addr, READ_REGS, 20] @ concat (map big16 [v, c0, c1, p0, p1, e0, e1, f, pf, al])"]
    by (simp add: pz_response_def big16_def)
  then have "get_command addr ?m 25 = Inr READ_REGS"
    by (simp add: get_command_def m)
  moreover have "pz_status_at ?m 3 = Inr \<lparr>volts = v, current = ucast c0 + 10000 * ucast c1,
      power = ucast p0 + 10000 * ucast p1, energy = ucast e0 + 10000 * ucast e1, freq = f, power_factor = pf\<rparr>"
    by (simp add: m pz_status_at_def get32_def get16_def big16_join)
  moreover have "?m ! 2 = 20" by (simp add: m)
  ultimately show "pz_parse addr True ?m 25 =
      Inr (True, Some \<lparr>volts = v, current = ucast c0 + 10000 * ucast c1, power = ucast p0 + 10000 * ucast p1,
        energy = ucast e0 + 10000 * ucast e1, freq = f, power_factor = pf\<rparr>)"
    by (simp add: pz_parse_def)
qed (rule ten_thousand)


text \<open>
  A short block with a good CRC that claims twenty bytes of registers is read past its end: the length is never
  compared with the number of bytes.
\<close>

theorem pzem_short_block_overruns:
  "pz_parse addr True (with_crc [addr, READ_REGS, 20, x]) 6 = Inl OutOfBounds"
proof -
  have "crc_check (with_crc [addr, READ_REGS, 20, x]) 6 = Inr True"
    using crc_check_with_crc [of "[addr, READ_REGS, 20, x]"] by simp
  then show ?thesis
    by (simp add: pz_parse_def get_command_def with_crc_def pz_status_at_def get16_def get32_def)
qed

end
