(* ===== verification/Dates.thy ===== *)
theory Dates
  imports Json
begin

text \<open>
  Dates and the real-time clock: date.cpp, \<^verbatim>\<open>RTC::validate\<close> of drivers/rtc.cpp and the DS3231 of
  drivers/ds3231.cpp. An \<^verbatim>\<open>int\<close> of the date code is an integer: the fields read are at most four digits, so
  nothing overflows. What \<^verbatim>\<open>strptime\<close> does for \<^verbatim>\<open>RTC::parse_time\<close> is not modelled.
\<close>

subsection \<open>date.cpp\<close>

record date_time =
  yy :: int
  mm :: int
  dd :: int
  hh :: int
  mi :: int
  sec :: int

text \<open>The remainder of C, which has the sign of the dividend.\<close>

definition c_rem :: "int \<Rightarrow> int \<Rightarrow> int" where
  "c_rem a b = (if a < 0 then - ((- a) mod b) else a mod b)"

definition leap_year :: "int \<Rightarrow> bool" where
  "leap_year y \<longleftrightarrow> c_rem y 4 = 0"

definition days_in_month :: "int \<Rightarrow> int \<Rightarrow> int" where
  "days_in_month y m =
     (if m < 1 \<or> m > 12 then - 1
      else if y < 0 \<or> y > 99 then - 1
      else if m = 2 then (if leap_year y then 29 else 28)
      else [31, 0, 31, 30, 31, 30, 31, 31, 30, 31, 30, 31] ! nat (m - 1))"

definition days_in_year :: "int \<Rightarrow> int" where
  "days_in_year y = (if leap_year y then 366 else 365)"

function year_day_loop :: "int \<Rightarrow> int \<Rightarrow> int \<Rightarrow> int \<Rightarrow> int" where
  "year_day_loop y m k days = (if k < m then year_day_loop y m (k + 1) (days + days_in_month y k) else days)"
  by pat_completeness auto
termination
  by (relation "measure (\<lambda>(y, m, k, days). nat (m - k))") auto

declare year_day_loop.simps [simp del]

definition year_day :: "int \<Rightarrow> int \<Rightarrow> int \<Rightarrow> int" where
  "year_day y m d = year_day_loop y m 1 0 + d"

definition datetime_cmp :: "date_time \<Rightarrow> date_time \<Rightarrow> int" where
  "datetime_cmp a b =
     (if yy a \<noteq> yy b then yy a - yy b
      else if mm a \<noteq> mm b then mm a - mm b
      else if dd a \<noteq> dd b then dd a - dd b
      else if hh a \<noteq> hh b then hh a - hh b
      else if mi a \<noteq> mi b then mi a - mi b
      else if sec a \<noteq> sec b then sec a - sec b
      else 0)"

definition validate_dt :: "date_time \<Rightarrow> bool" where
  "validate_dt t =
     (let y = c_rem (yy t) 100
      in if y < 0 then False
         else if mm t < 1 \<or> mm t > 12 then False
         else if dd t < 1 \<or> dd t > days_in_month y (mm t) then False
         else if hh t < 0 \<or> hh t > 23 then False
         else if mi t < 0 \<or> mi t > 59 then False
         else if sec t < 0 \<or> sec t > 59 then False
         else True)"

text \<open>
  \<^verbatim>\<open>parse(text, digits, value)\<close> from position \<open>p\<close>: \<open>None\<close> when the text ends first. A character is a signed
  \<^verbatim>\<open>char\<close>, and none is checked to be a digit.
\<close>

definition char_val :: "char \<Rightarrow> int" where
  "char_val c = (let n = int (of_char c :: nat) in if n < 128 then n else n - 256)"

fun parse_int :: "string \<Rightarrow> int \<Rightarrow> nat \<Rightarrow> int \<Rightarrow> int option result" where
  "parse_int t p 0 v = Inr (Some v)"
| "parse_int t p (Suc n) v =
     rbind (rd t p) (\<lambda>c.
       if c = NUL then Inr None
       else parse_int t (p + 1) n (v * 10 + (char_val c - 48)))"

text \<open>A field of the date, or the answer no; the fields read so far stay assigned.\<close>

definition field ::
    "string \<Rightarrow> int \<Rightarrow> nat \<Rightarrow> (int \<Rightarrow> date_time \<Rightarrow> date_time) \<Rightarrow> date_time \<Rightarrow>
     (date_time \<Rightarrow> (bool \<times> date_time) result) \<Rightarrow> (bool \<times> date_time) result" where
  "field t p n f dt k =
     rbind (parse_int t p n 0) (\<lambda>r. case r of None \<Rightarrow> Inr (False, dt) | Some v \<Rightarrow> k (f v dt))"

definition parse_datetime :: "string \<Rightarrow> date_time \<Rightarrow> (bool \<times> date_time) result" where
  "parse_datetime t dt =
     field t 0 4 (\<lambda>v d. d\<lparr>yy := v\<rparr>) dt (\<lambda>dt.
     field t 4 2 (\<lambda>v d. d\<lparr>mm := v\<rparr>) dt (\<lambda>dt.
     field t 6 2 (\<lambda>v d. d\<lparr>dd := v\<rparr>) dt (\<lambda>dt.
     rbind (rd t 8) (\<lambda>c.
       if CHR ''T'' \<noteq> c then Inr (False, dt)
       else
         field t 9 2 (\<lambda>v d. d\<lparr>hh := v\<rparr>) dt (\<lambda>dt.
         field t 11 2 (\<lambda>v d. d\<lparr>mi := v\<rparr>) dt (\<lambda>dt.
         field t 13 2 (\<lambda>v d. d\<lparr>sec := v\<rparr>) dt (\<lambda>dt.
         Inr (validate_dt dt, dt))))))))"

subsection \<open>The clock chip\<close>

record rtc_time =
  year :: u16
  month :: u8
  day :: u8
  hour :: u8
  minute :: u8
  second :: u8

definition rtc_validate :: "rtc_time \<Rightarrow> bool" where
  "rtc_validate t =
     (if year t < 2000 \<or> year t > 2099 then False
      else if month t < 1 \<or> month t > 12 then False
      else
        let days = days_in_month (uint (year t) - 2000) (uint (month t))
        in if uint (day t) < 1 \<or> uint (day t) > days then False
           else if hour t > 23 then False
           else if minute t > 59 then False
           else if second t > 59 then False
           else True)"

definition from_bcd :: "u8 \<Rightarrow> u8" where
  "from_bcd x = (x AND 0x0f) + 10 * drop_bit 4 x"

definition to_bcd :: "u8 \<Rightarrow> u8" where
  "to_bcd x = x mod 10 + push_bit 4 (x div 10)"

text \<open>The block \<^verbatim>\<open>DS3231::set\<close> writes, register number first, and the time \<^verbatim>\<open>get\<close> reads from the seven registers.\<close>

definition ds_set :: "rtc_time \<Rightarrow> u8 list" where
  "ds_set t =
     [0, to_bcd (second t), to_bcd (minute t), to_bcd (hour t), 0, to_bcd (day t), to_bcd (month t),
      to_bcd (ucast (year t - 2000))]"

definition ds_get :: "u8 list \<Rightarrow> rtc_time" where
  "ds_get r =
     \<lparr>year = ucast (from_bcd (r ! 6)) + 2000, month = from_bcd (r ! 5 AND 0x1f), day = from_bcd (r ! 4 AND 0x3f),
      hour = from_bcd (r ! 2 AND 0x3f), minute = from_bcd (r ! 1), second = from_bcd (r ! 0)\<rparr>"

subsection \<open>The calendar\<close>

text \<open>The Gregorian calendar, as a reference.\<close>

definition gregorian_leap :: "int \<Rightarrow> bool" where
  "gregorian_leap y \<longleftrightarrow> (4 dvd y \<and> \<not> 100 dvd y) \<or> 400 dvd y"

definition month_length :: "int \<Rightarrow> int \<Rightarrow> int" where
  "month_length y m =
     (if m = 2 then (if gregorian_leap y then 29 else 28)
      else if m = 4 \<or> m = 6 \<or> m = 9 \<or> m = 11 then 30 else 31)"

definition on_calendar :: "date_time \<Rightarrow> bool" where
  "on_calendar t \<longleftrightarrow> 1 \<le> mm t \<and> mm t \<le> 12 \<and> 1 \<le> dd t \<and> dd t \<le> month_length (yy t) (mm t) \<and>
     0 \<le> hh t \<and> hh t < 24 \<and> 0 \<le> mi t \<and> mi t < 60 \<and> 0 \<le> sec t \<and> sec t < 60"

lemma month_cases:
  assumes "1 \<le> m" "m \<le> 12"
  obtains "m = 1" | "m = 2" | "m = 3" | "m = 4" | "m = 5" | "m = 6" | "m = 7" | "m = 8" | "m = 9" | "m = 10"
    | "m = 11" | "m = (12 :: int)"
proof -
  have "m = 1 \<or> m = 2 \<or> m = 3 \<or> m = 4 \<or> m = 5 \<or> m = 6 \<or> m = 7 \<or> m = 8 \<or> m = 9 \<or> m = 10 \<or> m = 11 \<or> m = 12"
    using assms by presburger
  then show ?thesis using that by blast
qed

lemma leap_agrees:
  assumes "0 \<le> y" "y \<le> 99"
  shows "leap_year y \<longleftrightarrow> gregorian_leap (2000 + y)"
proof -
  have multiple: "k dvd 2000 + y \<longleftrightarrow> y = 0" if "100 \<le> k" "k dvd 2000" for k :: int
  proof -
    have "k dvd 2000 + y \<longleftrightarrow> k dvd y" using that(2) by (simp add: dvd_add_right_iff)
    then show ?thesis using assms that(1) by (auto dest: zdvd_imp_le)
  qed
  have "4 dvd 2000 + y \<longleftrightarrow> 4 dvd y" using dvd_add_right_iff [of 4 2000 y] by simp
  moreover have "leap_year y \<longleftrightarrow> 4 dvd y" using assms(1) by (simp add: leap_year_def c_rem_def dvd_eq_mod_eq_0)
  ultimately show ?thesis
    using multiple [of 100] multiple [of 400] by (auto simp: gregorian_leap_def)
qed

lemma days_month_length:
  assumes "1 \<le> m" "m \<le> 12" "0 \<le> y" "y \<le> 99"
  shows "days_in_month y m = month_length (2000 + y) m"
  using assms(3,4) leap_agrees [OF assms(3,4)]
  by (cases rule: month_cases [OF assms(1,2)])
    (simp_all add: days_in_month_def month_length_def eval_nat_numeral)

text \<open>The only difference: the rule for centuries is ignored, so 29 February of such a year passes for a day.\<close>

definition century_leap_day :: "date_time \<Rightarrow> bool" where
  "century_leap_day t \<longleftrightarrow> 100 dvd yy t \<and> \<not> 400 dvd yy t \<and> mm t = 2 \<and> dd t = 29"

lemma days_any_year:
  assumes "1 \<le> m" "m \<le> 12" "0 \<le> c_rem y 100"
  shows "days_in_month (c_rem y 100) m = month_length y m + (if m = 2 \<and> 100 dvd y \<and> \<not> 400 dvd y then 1 else 0)"
proof -
  have "\<bar>y\<bar> mod 100 < 100" "0 \<le> \<bar>y\<bar> mod 100" by simp_all
  then have y: "0 \<le> c_rem y 100" "c_rem y 100 \<le> 99" using assms(3) by (auto simp: c_rem_def)
  have z: "4 dvd c_rem y 100 \<longleftrightarrow> 4 dvd y" by (simp add: c_rem_def dvd_mod_iff)
  have "4 dvd y" if "100 dvd y" using dvd_trans [OF _ that, of 4] by simp
  moreover have "100 dvd y" if "400 dvd y" using dvd_trans [OF _ that, of 100] by simp
  moreover have "leap_year (c_rem y 100) \<longleftrightarrow> 4 dvd y"
    unfolding z [symmetric] using y(1) by (simp add: leap_year_def c_rem_def [of "c_rem y 100"] dvd_eq_mod_eq_0)
  ultimately have l: "leap_year (c_rem y 100) \<longleftrightarrow> gregorian_leap y \<or> (100 dvd y \<and> \<not> 400 dvd y)"
    and n: "gregorian_leap y \<Longrightarrow> 100 dvd y \<Longrightarrow> 400 dvd y"
    unfolding gregorian_leap_def by blast+
  show ?thesis
  proof (cases "m = 2")
    case True
    with l n y show ?thesis by (cases "gregorian_leap y") (simp_all add: days_in_month_def month_length_def)
  next
    case False
    with y show ?thesis
      by (cases rule: month_cases [OF assms(1,2)]) (simp_all add: days_in_month_def month_length_def eval_nat_numeral)
  qed
qed

lemma validate_calendar:
  assumes "validate_dt t"
  shows "on_calendar t \<or> century_leap_day t"
proof -
  have v: "0 \<le> c_rem (yy t) 100" "1 \<le> mm t" "mm t \<le> 12" "1 \<le> dd t" "dd t \<le> days_in_month (c_rem (yy t) 100) (mm t)"
    "0 \<le> hh t" "hh t < 24" "0 \<le> mi t" "mi t < 60" "0 \<le> sec t" "sec t < 60"
    using assms by (auto simp: validate_dt_def Let_def split: if_splits)
  show ?thesis
  proof (cases "dd t \<le> month_length (yy t) (mm t)")
    case True
    with v show ?thesis by (simp add: on_calendar_def)
  next
    case False
    with v(5) days_any_year [OF v(2,3,1)]
    have c: "mm t = 2" "100 dvd yy t" "\<not> 400 dvd yy t" and d: "dd t = month_length (yy t) (mm t) + 1"
      by (simp_all split: if_splits)
    then have "\<not> gregorian_leap (yy t)" by (simp add: gregorian_leap_def)
    with c d show ?thesis by (simp add: century_leap_day_def month_length_def)
  qed
qed

subsection \<open>Reading a date\<close>

lemma parse_int_inside:
  "0 \<le> p \<Longrightarrow> p \<le> int (length t) \<Longrightarrow>
   \<exists>r. parse_int t p n v = Inr r \<and> (r \<noteq> None \<longrightarrow> p + int n \<le> int (length t))"
proof (induction n arbitrary: p v)
  case (Suc n)
  show ?case
  proof (cases "p = int (length t)")
    case True
    then show ?thesis by (simp add: rd_def)
  next
    case False
    with Suc.prems have "0 \<le> p + 1" "p + 1 \<le> int (length t)" by simp_all
    from Suc.IH [OF this, of "v * 10 + (char_val (t ! nat p) - 48)"] False Suc.prems show ?thesis
      by (auto simp: rd_def algebra_simps)
  qed
qed simp

lemma field_inside:
  assumes "0 \<le> p" "p \<le> int (length t)"
    "\<And>v. p + int n \<le> int (length t) \<Longrightarrow> \<exists>ok d. k (f v dt) = Inr (ok, d) \<and> (ok \<longrightarrow> validate_dt d)"
  shows "\<exists>ok d. field t p n f dt k = Inr (ok, d) \<and> (ok \<longrightarrow> validate_dt d)"
proof -
  from parse_int_inside [OF assms(1,2), of n 0] obtain r where
    "parse_int t p n 0 = Inr r" "r \<noteq> None \<longrightarrow> p + int n \<le> int (length t)" by blast
  with assms(3) show ?thesis by (cases r) (auto simp: field_def intro: exI [of _ False])
qed

text \<open>
  C29: whatever the text, \<^verbatim>\<open>parse_datetime\<close> reads nothing past its end and answers, and what it accepts is a day of the
  Gregorian calendar at a time of the day, in any year, but for one exception: 29 February of a century that is no leap year
  (1900, 2100) is accepted too, since the code looks at the last two digits of the year only. The text need not be of digits (\<open>parse_accepts_nonsense\<close>).
\<close>

theorem parsed_dates_are_dates:
  "\<exists>ok d. parse_datetime t dt = Inr (ok, d) \<and> (ok \<longrightarrow> on_calendar d \<or> century_leap_day d)"
proof -
  have tail: "\<exists>ok d. (rbind (rd t 8) (\<lambda>c. if CHR ''T'' \<noteq> c then Inr (False, dt) else k)) = Inr (ok, d) \<and> (ok \<longrightarrow> validate_dt d)"
    if "8 \<le> int (length t)" "9 \<le> int (length t) \<Longrightarrow> \<exists>ok d. k = Inr (ok, d) \<and> (ok \<longrightarrow> validate_dt d)" for k dt
    using that by (cases "length t = 8") (auto simp: rd_def NUL_def intro: exI [of _ False])
  have "\<exists>ok d. parse_datetime t dt = Inr (ok, d) \<and> (ok \<longrightarrow> validate_dt d)"
    unfolding parse_datetime_def by (intro field_inside tail) auto
  then show ?thesis using validate_calendar by blast
qed

theorem parsed_dates_are_dates_witness:
  "\<exists>d. parse_datetime ''20240229T235959'' \<lparr>yy = 0, mm = 0, dd = 0, hh = 0, mi = 0, sec = 0\<rparr> = Inr (True, d) \<and>
    yy d = 2024 \<and> on_calendar d"
proof -
  let ?d = "\<lparr>yy = 2024, mm = 2, dd = 29, hh = 23, mi = 59, sec = 59\<rparr>"
  have "parse_datetime ''20240229T235959'' \<lparr>yy = 0, mm = 0, dd = 0, hh = 0, mi = 0, sec = 0\<rparr> = Inr (True, ?d)"
    by code_simp
  moreover from parsed_dates_are_dates [of "''20240229T235959''" "\<lparr>yy = 0, mm = 0, dd = 0, hh = 0, mi = 0, sec = 0\<rparr>"]
  have "on_calendar ?d" unfolding calculation by (auto simp: century_leap_day_def)
  ultimately show ?thesis by auto
qed

text \<open>The exception is real.\<close>

lemma parse_accepts_1900_02_29:
  "parse_datetime ''19000229T000000'' dt = Inr (True, \<lparr>yy = 1900, mm = 2, dd = 29, hh = 0, mi = 0, sec = 0\<rparr>) \<and>
   \<not> on_calendar \<lparr>yy = 1900, mm = 2, dd = 29, hh = 0, mi = 0, sec = 0\<rparr>"
proof
  show "parse_datetime ''19000229T000000'' dt = Inr (True, \<lparr>yy = 1900, mm = 2, dd = 29, hh = 0, mi = 0, sec = 0\<rparr>)"
    by (simp add: parse_datetime_def field_def rd_def char_val_def NUL_def numeral_eq_Suc)
      (simp add: validate_dt_def days_in_month_def leap_year_def c_rem_def)
  show "\<not> on_calendar \<lparr>yy = 1900, mm = 2, dd = 29, hh = 0, mi = 0, sec = 0\<rparr>"
    by (simp add: on_calendar_def month_length_def gregorian_leap_def)
qed

text \<open>How the text is written: decimal digits, most significant first.\<close>

fun digits :: "nat \<Rightarrow> int \<Rightarrow> string" where
  "digits 0 v = []"
| "digits (Suc n) v = digits n (v div 10) @ [char_of (48 + nat (v mod 10))]"

definition print_datetime :: "date_time \<Rightarrow> string" where
  "print_datetime t = digits 4 (yy t) @ digits 2 (mm t) @ digits 2 (dd t) @ ''T'' @ digits 2 (hh t) @ digits 2 (mi t) @ digits 2 (sec t)"

lemma length_digits [simp]: "length (digits n v) = n"
  by (induction n arbitrary: v) auto

lemma digit_char:
  assumes "0 \<le> d" "d < 10"
  shows "char_val (char_of (48 + nat d)) - 48 = d \<and> (char_of (48 + nat d) :: char) \<noteq> NUL"
proof -
  have m: "(of_char (char_of (48 + nat d)) :: nat) = 48 + nat d"
    using assms by (simp add: of_char_of)
  moreover have "(of_char NUL :: nat) = 0" by (simp add: NUL_def)
  ultimately have "(char_of (48 + nat d) :: char) \<noteq> NUL" by (metis add_is_0 zero_neq_numeral)
  with m assms show ?thesis by (simp add: char_val_def Let_def)
qed

text \<open>A text that holds a number at position \<open>p\<close>.\<close>

lemma parse_int_append:
  "0 \<le> p \<Longrightarrow> p + int m + int n \<le> int (length t) \<Longrightarrow>
   parse_int t p m v = Inr (Some w) \<Longrightarrow> parse_int t p (m + n) v = parse_int t (p + int m) n w"
  by (induction m arbitrary: p v) (auto simp: rbind_Inr_conv algebra_simps split: if_splits)

lemma parse_int_digits:
  "0 \<le> v \<Longrightarrow> v < 10 ^ n \<Longrightarrow> parse_int (pre @ digits n v @ post) (int (length pre)) n 0 = Inr (Some v)"
proof (induction n arbitrary: v post)
  case 0
  then show ?case by simp
next
  case (Suc n)
  let ?c = "char_of (48 + nat (v mod 10)) :: char"
  let ?t = "pre @ digits n (v div 10) @ ?c # post"
  have "v div 10 < 10 ^ n" using Suc.prems by (auto simp: div_less_iff_less_mult)
  with Suc.IH [of "v div 10" "?c # post"] Suc.prems(1) have
    "parse_int ?t (int (length pre)) n 0 = Inr (Some (v div 10))" by simp
  from parse_int_append [OF _ _ this, of 1] have
    "parse_int ?t (int (length pre)) (n + 1) 0 = parse_int ?t (int (length pre) + int n) 1 (v div 10)" by simp
  moreover have "rd ?t (int (length pre) + int n) = Inr ?c"
    by (simp add: rd_def nth_append nat_add_distrib)
  ultimately show ?case
    using digit_char [of "v mod 10"] by simp
qed

text \<open>
  C28: a date printed in the format \<^verbatim>\<open>YYYYMMDDTHHMMSS\<close> is read back as itself, and is accepted exactly if it is
  valid.
\<close>

theorem datetime_print_parse:
  assumes "0 \<le> yy d \<and> yy d \<le> 9999" "0 \<le> mm d \<and> mm d \<le> 99" "0 \<le> dd d \<and> dd d \<le> 99" "0 \<le> hh d \<and> hh d \<le> 99"
    "0 \<le> mi d \<and> mi d \<le> 99" "0 \<le> sec d \<and> sec d \<le> 99"
  shows "parse_datetime (print_datetime d) dt = Inr (validate_dt d, d)"
proof -
  let ?y = "digits 4 (yy d)" and ?m = "digits 2 (mm d)" and ?d = "digits 2 (dd d)"
  let ?h = "digits 2 (hh d)" and ?i = "digits 2 (mi d)" and ?s = "digits 2 (sec d)"
  let ?t = "print_datetime d"
  have "parse_int ?t 0 4 0 = Inr (Some (yy d))"
    using parse_int_digits [of "yy d" 4 "[]"] assms(1) by (simp add: print_datetime_def)
  moreover have "parse_int ?t 4 2 0 = Inr (Some (mm d))"
    using parse_int_digits [of "mm d" 2 ?y] assms(2) by (simp add: print_datetime_def)
  moreover have "parse_int ?t 6 2 0 = Inr (Some (dd d))"
    using parse_int_digits [of "dd d" 2 "?y @ ?m"] assms(3) by (simp add: print_datetime_def)
  moreover have "rd ?t 8 = Inr (CHR ''T'')"
    by (simp add: rd_def print_datetime_def nth_append)
  moreover have "parse_int ?t 9 2 0 = Inr (Some (hh d))"
    using parse_int_digits [of "hh d" 2 "?y @ ?m @ ?d @ ''T''"] assms(4) by (simp add: print_datetime_def)
  moreover have "parse_int ?t 11 2 0 = Inr (Some (mi d))"
    using parse_int_digits [of "mi d" 2 "?y @ ?m @ ?d @ ''T'' @ ?h"] assms(5) by (simp add: print_datetime_def)
  moreover have "parse_int ?t 13 2 0 = Inr (Some (sec d))"
    using parse_int_digits [of "sec d" 2 "?y @ ?m @ ?d @ ''T'' @ ?h @ ?i" "[]"] assms(6) by (simp add: print_datetime_def)
  moreover have "validate_dt (dt\<lparr>yy := yy d, mm := mm d, dd := dd d, hh := hh d, mi := mi d, sec := sec d\<rparr>) = validate_dt d"
    by (simp add: validate_dt_def)
  ultimately show ?thesis
    by (simp add: parse_datetime_def field_def del: parse_int.simps)
qed

theorem datetime_print_parse_witness:
  "parse_datetime (print_datetime \<lparr>yy = 2024, mm = 2, dd = 29, hh = 23, mi = 59, sec = 58\<rparr>)
      \<lparr>yy = 0, mm = 0, dd = 0, hh = 0, mi = 0, sec = 0\<rparr> =
    Inr (True, \<lparr>yy = 2024, mm = 2, dd = 29, hh = 23, mi = 59, sec = 58\<rparr>)"
  using datetime_print_parse [of "\<lparr>yy = 2024, mm = 2, dd = 29, hh = 23, mi = 59, sec = 58\<rparr>"
    "\<lparr>yy = 0, mm = 0, dd = 0, hh = 0, mi = 0, sec = 0\<rparr>"]
  by (simp add: validate_dt_def days_in_month_def leap_year_def c_rem_def)

text \<open>The digits are not checked: a colon counts as ten.\<close>

lemma parse_accepts_nonsense:
  "parse_datetime ''20240:01T000000'' dt = Inr (True, \<lparr>yy = 2024, mm = 10, dd = 1, hh = 0, mi = 0, sec = 0\<rparr>)"
  by (simp add: parse_datetime_def field_def rd_def char_val_def NUL_def numeral_eq_Suc)
    (simp add: validate_dt_def days_in_month_def c_rem_def)

subsection \<open>Days of the year\<close>

lemma year_day_loop_step: "k < m \<Longrightarrow> year_day_loop y m k n = year_day_loop y m (k + 1) (n + days_in_month y k)"
  by (subst year_day_loop.simps) simp

lemma year_day_loop_Suc: "k \<le> m \<Longrightarrow> year_day_loop y (m + 1) k n = year_day_loop y m k n + days_in_month y m"
proof (induction y m k n rule: year_day_loop.induct)
  case (1 y m k n)
  then show ?case
    by (cases "k < m") (simp_all add: year_day_loop.simps [of y m] year_day_loop.simps [of y "m + 1"])
qed

lemma year_day_month: "1 \<le> m \<Longrightarrow> year_day y (m + 1) d = year_day y m d + days_in_month y m"
  by (simp add: year_day_def year_day_loop_Suc)

lemma days_in_month_pos: "1 \<le> m \<Longrightarrow> m \<le> 12 \<Longrightarrow> 0 \<le> y \<Longrightarrow> y \<le> 99 \<Longrightarrow> 28 \<le> days_in_month y m"
  by (simp add: days_month_length month_length_def)

text \<open>
  \<^verbatim>\<open>year_day\<close> counts the days: it is 1 on the first of January, goes up by one from a day to the next also at
  the end of a month, and is the length of the year on its last day.
\<close>

theorem year_day_counts:
  assumes "0 \<le> y" "y \<le> 99" "1 \<le> m" "m \<le> 12"
  shows "year_day y 1 1 = 1 \<and> year_day y m (d + 1) = year_day y m d + 1 \<and>
    year_day y (m + 1) 1 = year_day y m (days_in_month y m) + 1 \<and>
    year_day y 12 31 = days_in_year y"
proof (intro conjI)
  show "year_day y 1 1 = 1" by (simp add: year_day_def year_day_loop.simps)
  show "year_day y m (d + 1) = year_day y m d + 1" by (simp add: year_day_def)
  show "year_day y (m + 1) 1 = year_day y m (days_in_month y m) + 1"
    using year_day_month [OF assms(3), of y 1] by (simp add: year_day_def)
  have one: "year_day y 1 31 = 31" by (simp add: year_day_def year_day_loop.simps)
  have y12: "year_day y 12 31 = 31 + days_in_month y 1 + days_in_month y 2 + days_in_month y 3 + days_in_month y 4 +
      days_in_month y 5 + days_in_month y 6 + days_in_month y 7 + days_in_month y 8 + days_in_month y 9 +
      days_in_month y 10 + days_in_month y 11"
    using year_day_month [of 1 y 31] year_day_month [of 2 y 31] year_day_month [of 3 y 31] year_day_month [of 4 y 31]
      year_day_month [of 5 y 31] year_day_month [of 6 y 31] year_day_month [of 7 y 31] year_day_month [of 8 y 31]
      year_day_month [of 9 y 31] year_day_month [of 10 y 31] year_day_month [of 11 y 31] one
    by simp
  show "year_day y 12 31 = days_in_year y"
    unfolding y12 using assms(1,2) by (simp add: days_in_month_def days_in_year_def eval_nat_numeral)
qed

subsection \<open>The clock chip keeps the time\<close>

lemma bcd_mask: "\<forall>n\<in>set [0..<100]. from_bcd (to_bcd (of_nat n)) = (of_nat n :: u8)"
  "\<forall>n\<in>set [0..<40]. to_bcd (of_nat n) AND 0x3f = to_bcd (of_nat n :: u8)"
  "\<forall>n\<in>set [0..<20]. to_bcd (of_nat n) AND 0x1f = to_bcd (of_nat n :: u8)"
  by code_simp+

lemma bcd_ok:
  "unat x < 100 \<Longrightarrow> from_bcd (to_bcd x) = x"
  "unat x < 40 \<Longrightarrow> to_bcd x AND 0x3f = to_bcd x"
  "unat x < 20 \<Longrightarrow> to_bcd x AND 0x1f = to_bcd x"
  using bcd_mask(1) [rule_format, of "unat x"] bcd_mask(2) [rule_format, of "unat x"]
    bcd_mask(3) [rule_format, of "unat x"] by simp_all

lemma unat_below: "uint x \<le> k \<Longrightarrow> k < int n \<Longrightarrow> unat x < n"
  by (metis le_less_trans of_nat_less_iff uint_nat)

text \<open>
  a valid time set in the DS3231 and read back is the same time: each register keeps its field in decimal, and
  the masks of \<^verbatim>\<open>get\<close> cut nothing off.
\<close>

theorem ds3231_keeps_time:
  assumes "rtc_validate t"
  shows "ds_get (tl (ds_set t)) = t"
proof -
  have fields: "2000 \<le> year t" "year t \<le> 2099" "month t \<noteq> 0" "month t \<le> 12" "hour t \<le> 23" "minute t \<le> 59" "second t \<le> 59"
    "uint (day t) \<le> days_in_month (uint (year t) - 2000) (uint (month t))"
    using assms by (auto simp: rtc_validate_def Let_def word_less_1 not_less split: if_splits)
  have "0 \<le> uint (month t)" "uint (month t) \<noteq> 0" using fields(3) by (simp_all add: uint_0_iff)
  then have "1 \<le> uint (month t)" by linarith
  with fields have ints: "2000 \<le> uint (year t)" "uint (year t) \<le> 2099" "1 \<le> uint (month t)" "uint (month t) \<le> 12"
    "uint (hour t) \<le> 23" "uint (minute t) \<le> 59" "uint (second t) \<le> 59"
    by (simp_all add: word_le_def)
  have "days_in_month (uint (year t) - 2000) (uint (month t)) \<le> 31"
    using ints by (simp add: days_month_length month_length_def)
  with fields(8) ints have u: "unat (month t) < 20" "unat (day t) < 40" "unat (hour t) < 40" "unat (minute t) < 100"
    "unat (second t) < 100"
    by (auto intro: unat_below)
  define y where "y = year t - 2000"
  have "uint y = uint (year t) - 2000"
    unfolding y_def using fields(1) uint_sub_if' [of "year t" 2000] by (simp add: word_le_def)
  with ints have y: "uint y < 100" "unat y < 100" by (auto intro: unat_below)
  have "unat (ucast y :: u8) = unat y"
    using y(2) by (simp add: unsigned_ucast_eq take_bit_nat_eq_self)
  then have "unat (ucast (ucast y :: u8) :: u16) = unat y"
    using y(2) by (simp add: unsigned_ucast_eq unsigned_take_bit_eq take_bit_nat_eq_self)
  then have "ucast (ucast y :: u8) = y"
    by (rule word_unat_eq_iff [THEN iffD2])
  moreover have "unat (ucast y :: u8) < 100" using \<open>unat (ucast y :: u8) = unat y\<close> y(2) by simp
  ultimately have yr: "ucast (from_bcd (to_bcd (ucast y))) + 2000 = year t"
    by (simp add: bcd_ok y_def)
  show ?thesis
    using u yr unfolding y_def by (simp add: ds_set_def ds_get_def bcd_ok)
qed


theorem ds3231_keeps_time_witness:
  "ds_get (tl (ds_set \<lparr>year = 2024, month = 12, day = 31, hour = 23, minute = 59, second = 58\<rparr>)) =
    \<lparr>year = 2024, month = 12, day = 31, hour = 23, minute = 59, second = 58\<rparr>"
proof (rule ds3231_keeps_time)
  show "rtc_validate \<lparr>year = 2024, month = 12, day = 31, hour = 23, minute = 59, second = 58\<rparr>"
    by code_simp
qed

end
