(* ===== verification/NmeaModel.thy ===== *)
theory NmeaModel
  imports Dates
begin

text \<open>
  The GPS sentences of drivers/nmea.cpp: a line is stripped, checked and split in place, and its fields are
  converted.

  The line is a block of memory \<open>m\<close> that ends with a NUL, and a pointer into it is an index (\<open>None\<close> is null); reading
  past the block is \<open>Inl OutOfBounds\<close>, using a null pointer \<open>Inl NullDeref\<close>. The string functions of C are written
  out. \<^verbatim>\<open>strtof\<close> is a parameter \<open>conv\<close>: from a string the value and how many characters it took; the values stay
  abstract, and an angle is kept as its minutes, degrees and sign (the program computes \<^verbatim>\<open>minutes / 60 + degrees\<close>).
  Logging is left out.
\<close>

subsection \<open>The C library\<close>

definition str_at :: "string \<Rightarrow> nat \<Rightarrow> string result" where
  "str_at m p =
     (if NUL \<in> set (drop p m) then Inr (takeWhile (\<lambda>c. c \<noteq> NUL) (drop p m)) else Inl OutOfBounds)"

definition char_at :: "string \<Rightarrow> nat \<Rightarrow> char result" where
  "char_at m p = (if p < length m then Inr (m ! p) else Inl OutOfBounds)"

definition put_nul :: "string \<Rightarrow> nat \<Rightarrow> string result" where
  "put_nul m p = (if p < length m then Inr (m[p := NUL]) else Inl OutOfBounds)"

definition deref :: "nat option \<Rightarrow> (nat \<Rightarrow> 'a result) \<Rightarrow> 'a result" where
  "deref p f = (case p of None \<Rightarrow> Inl NullDeref | Some p \<Rightarrow> f p)"

text \<open>\<^verbatim>\<open>strchr(p, c)\<close> for a \<open>c\<close> that is not NUL.\<close>

definition find_char :: "string \<Rightarrow> nat \<Rightarrow> char \<Rightarrow> nat option result" where
  "find_char m p c =
     rbind (str_at m p) (\<lambda>s. Inr (if c \<in> set s then Some (p + length (takeWhile (\<lambda>x. x \<noteq> c) s)) else None))"

definition c_isspace :: "char \<Rightarrow> bool" where
  "c_isspace c \<longleftrightarrow> c \<in> set [CHR '' '', CHR 0x09, CHR 0x0A, CHR 0x0B, CHR 0x0C, CHR 0x0D]"

definition digit_val :: "char \<Rightarrow> int option" where
  "digit_val c =
     (let n = int (of_char c :: nat)
      in if 48 \<le> n \<and> n \<le> 57 then Some (n - 48)
         else if 97 \<le> n \<and> n \<le> 122 then Some (n - 87)
         else if 65 \<le> n \<and> n \<le> 90 then Some (n - 55)
         else None)"

definition is_digit :: "int \<Rightarrow> char \<Rightarrow> bool" where
  "is_digit base c = (case digit_val c of None \<Rightarrow> False | Some d \<Rightarrow> d < base)"

definition digits_val :: "int \<Rightarrow> string \<Rightarrow> int" where
  "digits_val base ds = foldl (\<lambda>v c. v * base + the (digit_val c)) 0 ds"

text \<open>\<^verbatim>\<open>strtol\<close>: the value, cut to 64 bits, and the number of characters taken.\<close>

definition c_strtol :: "int \<Rightarrow> string \<Rightarrow> int \<times> nat" where
  "c_strtol base s =
     (let t = dropWhile c_isspace s;
          neg = (t \<noteq> [] \<and> hd t = CHR ''-'');
          u = (if t \<noteq> [] \<and> (hd t = CHR ''-'' \<or> hd t = CHR ''+'') then tl t else t);
          hex = (base = 16 \<and> length u \<ge> 3 \<and> u ! 0 = CHR ''0'' \<and> (u ! 1 = CHR ''x'' \<or> u ! 1 = CHR ''X'') \<and> is_digit 16 (u ! 2));
          v = (if hex then drop 2 u else u);
          ds = takeWhile (is_digit base) v;
          x = (if neg then - digits_val base ds else digits_val base ds)
      in if ds = [] then (0, 0)
         else (max (- (2 ^ 63)) (min (2 ^ 63 - 1) x), length s - length v + length ds))"

text \<open>\<^verbatim>\<open>strstr(hay, needle) != 0\<close>.\<close>

definition c_strstr :: "string \<Rightarrow> string \<Rightarrow> bool" where
  "c_strstr hay needle = (\<exists>i\<in>set [0..<length hay + 1]. take (length needle) (drop i hay) = needle)"

definition c_div :: "int \<Rightarrow> int \<Rightarrow> int" where
  "c_div a b = (if a < 0 then - ((- a) div b) else a div b)"

subsection \<open>Fields\<close>

record nmea_date =
  nyy :: int
  nmm :: int
  ndd :: int

record nmea_time =
  nh :: int
  nm :: int
  ns :: int

record 'd angle =
  minutes :: 'd
  degrees :: int
  negated :: bool

record 'd location =
  ymd :: nmea_date
  hms :: nmea_time
  lat :: "'d angle"
  lon :: "'d angle"
  alt :: 'd

text \<open>
  \<^verbatim>\<open>split\<close>: the count returned, the line and the pointers; \<open>i\<close> is the field, \<open>k\<close> how many rounds are left.
\<close>

fun split_loop ::
    "char \<Rightarrow> nat \<Rightarrow> nat \<Rightarrow> string \<Rightarrow> nat \<Rightarrow> nat option list \<Rightarrow> (nat \<times> string \<times> nat option list) result" where
  "split_loop delim 0 i m text parts = Inr (i, m, parts)"
| "split_loop delim (Suc k) i m text parts =
     (let parts = parts[i := None]
      in rbind (find_char m text delim) (\<lambda>r.
         case r of
           None \<Rightarrow> Inr (i + 1, m, parts)
         | Some s \<Rightarrow>
             rbind (put_nul m s) (\<lambda>m.
             let parts = parts[i := Some text]
             in rbind (char_at m (s + 1)) (\<lambda>c.
                if c = NUL then Inr (i + 2, m, parts)
                else split_loop delim k (i + 1) m (s + 1) parts))))"

definition split :: "char \<Rightarrow> nat \<Rightarrow> string \<Rightarrow> nat \<Rightarrow> nat option list \<Rightarrow> (nat \<times> string \<times> nat option list) result" where
  "split delim n m text parts = split_loop delim n 0 m text parts"

definition parse_integer :: "int \<Rightarrow> string \<Rightarrow> nat option \<Rightarrow> int option result" where
  "parse_integer base m fld =
     (case fld of
        None \<Rightarrow> Inr None
      | Some p \<Rightarrow>
          rbind (str_at m p) (\<lambda>s.
          let (v, n) = c_strtol base s
          in if n < length s then Inr None
             else Inr (Some (sint (word_of_int v :: u32)))))"

definition parse_double :: "(string \<Rightarrow> 'd \<times> nat) \<Rightarrow> string \<Rightarrow> nat option \<Rightarrow> 'd option result" where
  "parse_double conv m fld =
     (case fld of
        None \<Rightarrow> Inl AssertFailed
      | Some p \<Rightarrow>
          rbind (str_at m p) (\<lambda>s. let (v, n) = conv s in if n < length s then Inr None else Inr (Some v)))"

definition parse_angle ::
    "(string \<Rightarrow> 'd \<times> nat) \<Rightarrow> string \<Rightarrow> nat option \<Rightarrow> ('d angle option \<times> string) result" where
  "parse_angle conv m fld =
     (case fld of
        None \<Rightarrow> Inl AssertFailed
      | Some p \<Rightarrow>
          rbind (find_char m p (CHR ''.'')) (\<lambda>r.
          case r of
            None \<Rightarrow> Inr (None, m)
          | Some dot \<Rightarrow>
              if int dot - 2 \<le> int p then Inr (None, m)
              else
                rbind (parse_double conv m (Some (dot - 2))) (\<lambda>r.
                case r of
                  None \<Rightarrow> Inr (None, m)
                | Some mins \<Rightarrow>
                    rbind (put_nul m (dot - 2)) (\<lambda>m.
                    rbind (parse_integer 10 m fld) (\<lambda>r.
                    case r of
                      None \<Rightarrow> Inr (None, m)
                    | Some deg \<Rightarrow> Inr (Some \<lparr>minutes = mins, degrees = deg, negated = False\<rparr>, m))))))"

text \<open>With the compass letter: the answer, and what was stored (also if the letter is none).\<close>

definition parse_latlon ::
    "(string \<Rightarrow> 'd \<times> nat) \<Rightarrow> string \<Rightarrow> nat option \<Rightarrow> nat option \<Rightarrow> (bool \<times> 'd angle option \<times> string) result" where
  "parse_latlon conv m fld rose =
     rbind (parse_angle conv m fld) (\<lambda>(r, m).
     case r of
       None \<Rightarrow> Inr (False, None, m)
     | Some a \<Rightarrow>
         (case rose of
            None \<Rightarrow> Inl AssertFailed
          | Some q \<Rightarrow>
              rbind (char_at m q) (\<lambda>c.
                if c = CHR ''N'' \<or> c = CHR ''E'' then Inr (True, Some a, m)
                else if c = CHR ''S'' \<or> c = CHR ''W'' then Inr (True, Some (a\<lparr>negated := True\<rparr>), m)
                else Inr (False, Some a, m))))"

definition parse_hms :: "string \<Rightarrow> nat option \<Rightarrow> (nmea_time option \<times> string) result" where
  "parse_hms m fld =
     deref fld (\<lambda>p.
     rbind (find_char m p (CHR ''.'')) (\<lambda>dot.
     rbind (case dot of None \<Rightarrow> Inr m | Some d \<Rightarrow> put_nul m d) (\<lambda>m.
     rbind (str_at m p) (\<lambda>s.
       if length s \<noteq> 6 then Inr (None, m)
       else
         rbind (parse_integer 10 m fld) (\<lambda>r.
         case r of
           None \<Rightarrow> Inr (None, m)
         | Some num \<Rightarrow>
             let num1 = c_div num 100
             in Inr (Some \<lparr>nh = c_div num1 100, nm = c_rem num1 100, ns = c_rem num 100\<rparr>, m))))))"

fun all_digits :: "string \<Rightarrow> nat \<Rightarrow> nat \<Rightarrow> bool result" where
  "all_digits m p 0 = Inr True"
| "all_digits m p (Suc n) = rbind (char_at m p) (\<lambda>c. if \<not> is_digit 10 c then Inr False else all_digits m (p + 1) n)"

text \<open>\<^verbatim>\<open>parse_dmy\<close>: the date it leaves, and the answer.\<close>

definition parse_dmy :: "string \<Rightarrow> nat option \<Rightarrow> (bool \<times> nmea_date) result" where
  "parse_dmy m fld =
     deref fld (\<lambda>p.
     rbind (all_digits m p 6) (\<lambda>ok.
       if \<not> ok then Inr (False, \<lparr>nyy = 0, nmm = 0, ndd = 0\<rparr>)
       else
         let d = (\<lambda>i. char_val (m ! (p + i)) - 48)
         in rbind (char_at m (p + 6)) (\<lambda>c.
            Inr (c = NUL, \<lparr>nyy = 2000 + d 4 * 10 + d 5, nmm = d 2 * 10 + d 3, ndd = d 0 * 10 + d 1\<rparr>))))"


subsection \<open>Sentences\<close>

text \<open>
  The steps of a sentence share the line and the location; a step that answers no ends the parse with what has
  been stored so far.
\<close>

type_synonym 'd nmea_state = "string \<times> 'd location"

definition on_hms :: "nat option \<Rightarrow> 'd nmea_state \<Rightarrow> (bool \<times> 'd nmea_state) result" where
  "on_hms f = (\<lambda>(m, loc).
     rbind (parse_hms m f) (\<lambda>(r, m).
       Inr (case r of None \<Rightarrow> (False, m, loc) | Some t \<Rightarrow> (True, m, loc\<lparr>hms := t\<rparr>))))"

definition on_angle ::
    "(string \<Rightarrow> 'd \<times> nat) \<Rightarrow> ('d angle \<Rightarrow> 'd location \<Rightarrow> 'd location) \<Rightarrow> nat option \<Rightarrow> nat option \<Rightarrow>
     'd nmea_state \<Rightarrow> (bool \<times> 'd nmea_state) result" where
  "on_angle conv upd f rose = (\<lambda>(m, loc).
     rbind (parse_latlon conv m f rose) (\<lambda>(ok, r, m).
       Inr (ok, m, case r of None \<Rightarrow> loc | Some a \<Rightarrow> upd a loc)))"

definition on_double ::
    "(string \<Rightarrow> 'd \<times> nat) \<Rightarrow> ('d \<Rightarrow> 'd location \<Rightarrow> 'd location) \<Rightarrow> nat option \<Rightarrow> 'd nmea_state \<Rightarrow>
     (bool \<times> 'd nmea_state) result" where
  "on_double conv upd f = (\<lambda>(m, loc).
     rbind (parse_double conv m f) (\<lambda>r.
       Inr (case r of None \<Rightarrow> (False, m, loc) | Some v \<Rightarrow> (True, m, upd v loc))))"

definition on_text :: "(string \<Rightarrow> bool) \<Rightarrow> nat option \<Rightarrow> 'd nmea_state \<Rightarrow> (bool \<times> 'd nmea_state) result" where
  "on_text P f = (\<lambda>(m, loc). deref f (\<lambda>p. rbind (str_at m p) (\<lambda>s. Inr (P s, m, loc))))"

definition on_int :: "nat option \<Rightarrow> 'd nmea_state \<Rightarrow> (bool \<times> 'd nmea_state) result" where
  "on_int f = (\<lambda>(m, loc). rbind (parse_integer 10 m f) (\<lambda>r. Inr (r \<noteq> None, m, loc)))"

definition on_dmy :: "nat option \<Rightarrow> 'd nmea_state \<Rightarrow> (bool \<times> 'd nmea_state) result" where
  "on_dmy f = (\<lambda>(m, loc). rbind (parse_dmy m f) (\<lambda>(ok, d). Inr (ok, m, loc\<lparr>ymd := d\<rparr>)))"

fun steps :: "('s \<Rightarrow> (bool \<times> 's) result) list \<Rightarrow> 's \<Rightarrow> (bool \<times> 's) result" where
  "steps [] s = Inr (True, s)"
| "steps (f # fs) s = rbind (f s) (\<lambda>(ok, s). if \<not> ok then Inr (False, s) else steps fs s)"

definition gga :: "(string \<Rightarrow> 'd \<times> nat) \<Rightarrow> nat option list \<Rightarrow> nat \<Rightarrow> 'd nmea_state \<Rightarrow> (bool \<times> 'd nmea_state) result" where
  "gga conv ps n s =
     (if ps ! 0 = None then Inl AssertFailed
      else if n \<noteq> 15 then Inr (False, s)
      else
        steps
          [on_hms (ps ! 1),
           on_angle conv (\<lambda>a l. l\<lparr>lat := a\<rparr>) (ps ! 2) (ps ! 3),
           on_angle conv (\<lambda>a l. l\<lparr>lon := a\<rparr>) (ps ! 4) (ps ! 5),
           on_text (c_strstr ''012'') (ps ! 6),
           on_int (ps ! 7),
           on_double conv (\<lambda>v l. l\<lparr>alt := v\<rparr>) (ps ! 9),
           on_text (c_strstr ''M'') (ps ! 10),
           on_double conv (\<lambda>_ l. l) (ps ! 11),
           on_text (c_strstr ''M'') (ps ! 12)] s)"

definition rmc :: "(string \<Rightarrow> 'd \<times> nat) \<Rightarrow> nat option list \<Rightarrow> nat \<Rightarrow> 'd nmea_state \<Rightarrow> (bool \<times> 'd nmea_state) result" where
  "rmc conv ps n s =
     (if ps ! 0 = None then Inl AssertFailed
      else if \<not> (n = 13 \<or> n = 12) then Inr (False, s)
      else
        rbind (on_hms (ps ! 1) s) (\<lambda>(ok, s).
        if \<not> ok then Inr (False, s)
        else
          deref (ps ! 2) (\<lambda>p.
          rbind (str_at (fst s) p) (\<lambda>v.
            if v = ''A'' then
              steps
                [on_angle conv (\<lambda>a l. l\<lparr>lat := a\<rparr>) (ps ! 3) (ps ! 4),
                 on_angle conv (\<lambda>a l. l\<lparr>lon := a\<rparr>) (ps ! 5) (ps ! 6),
                 on_double conv (\<lambda>_ l. l) (ps ! 7),
                 on_double conv (\<lambda>_ l. l) (ps ! 8),
                 on_dmy (ps ! 9)] s
            else if v = ''V'' then on_dmy (ps ! 9) s
            else Inr (False, s)))))"

definition strip_char :: "char \<Rightarrow> string \<Rightarrow> nat \<Rightarrow> string result" where
  "strip_char c m p = rbind (find_char m p c) (\<lambda>r. case r of None \<Rightarrow> Inr m | Some q \<Rightarrow> put_nul m q)"

definition strip :: "string \<Rightarrow> nat \<Rightarrow> string result" where
  "strip m p = rbind (strip_char (CHR 0x0D) m p) (\<lambda>m. strip_char (CHR 0x0A) m p)"

text \<open>
  \<^verbatim>\<open>strtok_r(line, "*", &save)\<close>: the first run of characters other than the star is cut off; \<^verbatim>\<open>save\<close> points behind the
  cut, or at the terminator when there was no star to cut at.
\<close>

definition strtok_star :: "string \<Rightarrow> nat \<Rightarrow> ((nat \<times> nat) option \<times> string) result" where
  "strtok_star m p =
     rbind (str_at m p) (\<lambda>s.
       let skip = length (takeWhile (\<lambda>c. c = CHR ''*'') s);
           tok = takeWhile (\<lambda>c. c \<noteq> CHR ''*'') (drop skip s);
           e = p + skip + length tok
       in if tok = [] then Inr (None, m)
          else if skip + length tok = length s then Inr (Some (p + skip, e), m)
          else rbind (put_nul m e) (\<lambda>m. Inr (Some (p + skip, e + 1), m)))"

text \<open>A signed \<^verbatim>\<open>char\<close> as an \<^verbatim>\<open>int\<close> of 32 bits.\<close>

definition int_char :: "char \<Rightarrow> u32" where
  "int_char c = word_of_int (char_val c)"

definition xor_chars :: "string \<Rightarrow> u32" where
  "xor_chars s = foldl (\<lambda>x c. x XOR int_char c) 0 s"

definition checksum :: "string \<Rightarrow> nat \<Rightarrow> (bool \<times> string) result" where
  "checksum m p =
     rbind (strtok_star m p) (\<lambda>(r, m).
     case r of
       None \<Rightarrow> Inr (False, m)
     | Some (_, save) \<Rightarrow>
         rbind (str_at m (p + 1)) (\<lambda>body.
         rbind (parse_integer 16 m (Some save)) (\<lambda>r.
         case r of
           None \<Rightarrow> Inr (False, m)
         | Some mcs \<Rightarrow> Inr (sint (xor_chars body) = mcs, m))))"

definition nmea_parse :: "(string \<Rightarrow> 'd \<times> nat) \<Rightarrow> 'd location \<Rightarrow> string \<Rightarrow> (bool \<times> 'd nmea_state) result" where
  "nmea_parse conv loc m =
     rbind (strip m 0) (\<lambda>m.
     rbind (checksum m 0) (\<lambda>(ok, m).
       if \<not> ok then Inr (False, m, loc)
       else
         rbind (split (CHR '','') 20 m 0 (replicate 20 None)) (\<lambda>(n, m, ps).
           if n = 0 then Inr (False, m, loc)
           else
             deref (ps ! 0) (\<lambda>p.
             rbind (str_at m p) (\<lambda>name.
               if name = ''$GPGGA'' then gga conv ps n (m, loc)
               else if name = ''$GPRMC'' then rmc conv ps n (m, loc)
               else Inr (False, m, loc))))))"

subsection \<open>Staying inside the line\<close>

definition terminated :: "nat \<Rightarrow> string \<Rightarrow> bool" where
  "terminated N m \<longleftrightarrow> length m = N \<and> 0 < N \<and> m ! (N - 1) = NUL"

lemma takeWhile_shorter: "x \<in> set xs \<Longrightarrow> \<not> P x \<Longrightarrow> length (takeWhile P xs) < length xs"
  by (induction xs) auto

lemma str_at_ok:
  assumes "terminated N m" "p < N"
  shows "\<exists>s. str_at m p = Inr s \<and> p + length s < N"
proof -
  have "drop p m ! (N - 1 - p) = NUL" "N - 1 - p < length (drop p m)" using assms by (auto simp: terminated_def)
  then have nul: "NUL \<in> set (drop p m)" by (metis nth_mem)
  then have "length (takeWhile (\<lambda>c. c \<noteq> NUL) (drop p m)) < length (drop p m)"
    by (rule takeWhile_shorter) simp
  with nul assms show ?thesis by (auto simp: str_at_def terminated_def)
qed

lemma find_char_ok:
  assumes "terminated N m" "p < N"
  shows "\<exists>r. find_char m p c = Inr r \<and> (\<forall>q. r = Some q \<longrightarrow> p \<le> q \<and> q + 1 < N)"
proof -
  from str_at_ok [OF assms] obtain s where s: "str_at m p = Inr s" "p + length s < N" by blast
  have "length (takeWhile (\<lambda>x. x \<noteq> c) s) < length s" if "c \<in> set s"
    using that by (rule takeWhile_shorter) simp
  with s show ?thesis by (auto simp: find_char_def)
qed

lemma put_nul_ok: "terminated N m \<Longrightarrow> p < N \<Longrightarrow> \<exists>m'. put_nul m p = Inr m' \<and> terminated N m'"
  by (auto simp: put_nul_def terminated_def nth_list_update)

lemma char_at_ok: "terminated N m \<Longrightarrow> p < N \<Longrightarrow> char_at m p = Inr (m ! p)"
  by (simp add: char_at_def terminated_def)

lemma parse_integer_ok:
  assumes "terminated N m" "pred_option (\<lambda>p. p < N) f"
  shows "\<exists>r. parse_integer base m f = Inr r"
proof (cases f)
  case (Some p)
  with assms str_at_ok [OF assms(1), of p] obtain s where "str_at m p = Inr s" by auto
  with Some show ?thesis by (cases "c_strtol base s") (simp add: parse_integer_def)
qed (simp add: parse_integer_def)

lemma parse_double_ok:
  assumes "terminated N m" "p < N"
  shows "\<exists>r. parse_double conv m (Some p) = Inr r"
proof -
  from str_at_ok [OF assms] obtain s where "str_at m p = Inr s" by blast
  then show ?thesis by (cases "conv s") (simp add: parse_double_def)
qed

lemma parse_angle_ok:
  assumes "terminated N m" "p < N"
  shows "\<exists>r m'. parse_angle conv m (Some p) = Inr (r, m') \<and> terminated N m'"
proof -
  from find_char_ok [OF assms] obtain r where
    r: "find_char m p (CHR ''.'') = Inr r" "\<forall>q. r = Some q \<longrightarrow> p \<le> q \<and> q + 1 < N" by blast
  show ?thesis
  proof (cases r)
    case None
    with r assms show ?thesis by (simp add: parse_angle_def)
  next
    case (Some dot)
    with r have dot: "dot - 2 < N" by auto
    from parse_double_ok [OF assms(1) dot, of conv] obtain v where v: "parse_double conv m (Some (dot - 2)) = Inr v" by blast
    from put_nul_ok [OF assms(1) dot] obtain m1 where m1: "put_nul m (dot - 2) = Inr m1" "terminated N m1" by blast
    from parse_integer_ok [OF m1(2), of "Some p" 10] assms(2) obtain d where "parse_integer 10 m1 (Some p) = Inr d" by auto
    with r Some v m1 assms(1) show ?thesis
      by (auto simp: parse_angle_def split: option.split)
  qed
qed

lemma parse_latlon_ok:
  assumes "terminated N m" "p < N" "q < N"
  shows "\<exists>ok r m'. parse_latlon conv m (Some p) (Some q) = Inr (ok, r, m') \<and> terminated N m'"
proof -
  from parse_angle_ok [OF assms(1,2), of conv] obtain r m1 where
    r: "parse_angle conv m (Some p) = Inr (r, m1)" "terminated N m1" by blast
  with char_at_ok [OF r(2) assms(3)] show ?thesis
    by (cases r) (auto simp: parse_latlon_def)
qed

lemma parse_hms_ok:
  assumes "terminated N m" "p < N"
  shows "\<exists>r m'. parse_hms m (Some p) = Inr (r, m') \<and> terminated N m'"
proof -
  from find_char_ok [OF assms] obtain r where
    r: "find_char m p (CHR ''.'') = Inr r" "\<forall>q. r = Some q \<longrightarrow> p \<le> q \<and> q + 1 < N" by blast
  obtain m1 where m1: "(case r of None \<Rightarrow> Inr m | Some d \<Rightarrow> put_nul m d) = Inr m1" "terminated N m1"
  proof (cases r)
    case None
    with that assms(1) show ?thesis by simp
  next
    case (Some d)
    with r have "d < N" by simp
    from put_nul_ok [OF assms(1) this] Some that show ?thesis by auto
  qed
  from str_at_ok [OF m1(2) assms(2)] obtain s where s: "str_at m1 p = Inr s" by blast
  from parse_integer_ok [OF m1(2), of "Some p" 10] assms(2) obtain d where "parse_integer 10 m1 (Some p) = Inr d" by auto
  with r m1 s show ?thesis
    by (cases d) (auto simp: parse_hms_def deref_def Let_def)
qed

lemma all_digits_ok:
  "terminated N m \<Longrightarrow> p < N \<Longrightarrow> \<exists>ok. all_digits m p n = Inr ok \<and> (ok \<longrightarrow> p + n < N)"
proof (induction n arbitrary: p)
  case 0
  then show ?case by (auto intro: exI [of _ True])
next
  case (Suc n)
  show ?case
  proof (cases "is_digit 10 (m ! p)")
    case True
    have "\<not> is_digit 10 NUL" by (simp add: is_digit_def digit_val_def NUL_def)
    with True Suc.prems have "p \<noteq> N - 1" by (auto simp: terminated_def)
    with Suc.prems(2) have "p + 1 < N" by linarith
    with Suc.IH [OF Suc.prems(1) this] char_at_ok [OF Suc.prems] True show ?thesis by auto
  next
    case False
    with char_at_ok [OF Suc.prems] show ?thesis by auto
  qed
qed

lemma parse_dmy_ok:
  assumes "terminated N m" "p < N"
  shows "\<exists>r. parse_dmy m (Some p) = Inr r"
proof -
  from all_digits_ok [OF assms, of 6] obtain ok where "all_digits m p 6 = Inr ok" "ok \<longrightarrow> p + 6 < N" by blast
  with char_at_ok [OF assms(1), of "p + 6"] show ?thesis
    by (cases ok) (auto simp: parse_dmy_def deref_def Let_def intro: exI [of _ False])
qed

text \<open>A step of a sentence that cannot fail.\<close>

definition safe :: "nat \<Rightarrow> ('d nmea_state \<Rightarrow> (bool \<times> 'd nmea_state) result) \<Rightarrow> bool" where
  "safe N f \<longleftrightarrow> (\<forall>m loc. terminated N m \<longrightarrow> (\<exists>ok m' loc'. f (m, loc) = Inr (ok, m', loc') \<and> terminated N m'))"

lemma safe_steps: "\<forall>f\<in>set fs. safe N f \<Longrightarrow> safe N (steps fs)"
proof (induction fs)
  case (Cons f fs)
  then have f: "safe N f" "safe N (steps fs)" by auto
  show ?case
    unfolding safe_def
  proof (intro allI impI)
    fix m and loc :: "'a location"
    assume "terminated N m"
    with f(1) obtain ok m1 loc1 where "f (m, loc) = Inr (ok, m1, loc1)" "terminated N m1"
      unfolding safe_def by blast
    with f(2) show "\<exists>ok m' loc'. steps (f # fs) (m, loc) = Inr (ok, m', loc') \<and> terminated N m'"
      by (cases ok) (auto simp: safe_def)
  qed
qed (auto simp: safe_def intro: exI [of _ True])

lemma safe_step:
  assumes "p < N"
  shows "safe N (on_hms (Some p))" "q < N \<Longrightarrow> safe N (on_angle conv upd (Some p) (Some q))"
    "safe N (on_double conv upd' (Some p))" "safe N (on_text P (Some p))" "safe N (on_int (Some p))"
    "safe N (on_dmy (Some p))"
proof -
  show "safe N (on_hms (Some p))"
    using parse_hms_ok [OF _ assms] unfolding safe_def on_hms_def by (fastforce split: option.split)
  show "safe N (on_angle conv upd (Some p) (Some q))" if "q < N"
    using parse_latlon_ok [OF _ assms that, where conv = conv] unfolding safe_def on_angle_def by fastforce
  show "safe N (on_double conv upd' (Some p))"
    using parse_double_ok [OF _ assms, where conv = conv] unfolding safe_def on_double_def by (fastforce split: option.split)
  show "safe N (on_text P (Some p))"
    using str_at_ok [OF _ assms] unfolding safe_def on_text_def deref_def by fastforce
  show "safe N (on_int (Some p))"
    using parse_integer_ok [of N _ "Some p" 10] assms unfolding safe_def on_int_def by fastforce
  show "safe N (on_dmy (Some p))"
    using parse_dmy_ok [OF _ assms] unfolding safe_def on_dmy_def by fastforce
qed

text \<open>The pointers of a split line: inside it, and all there but the last.\<close>

definition parts_ok :: "nat \<Rightarrow> nat \<Rightarrow> nat option list \<Rightarrow> bool" where
  "parts_ok N n ps \<longleftrightarrow> length ps = 20 \<and> (\<forall>j<20. j + 1 < n \<longrightarrow> (\<exists>q<N. ps ! j = Some q))"

lemma split_loop_ok:
  "terminated N m \<Longrightarrow> tx < N \<Longrightarrow> length ps = 20 \<Longrightarrow> i + k = 20 \<Longrightarrow> \<forall>j<i. \<exists>q<N. ps ! j = Some q \<Longrightarrow>
   \<exists>n m' ps'. split_loop delim k i m tx ps = Inr (n, m', ps') \<and> terminated N m' \<and> parts_ok N n ps' \<and>
     (0 < k \<longrightarrow> i < n)"
proof (induction k arbitrary: i m tx ps)
  case 0
  then show ?case by (simp add: parts_ok_def)
next
  case (Suc k)
  from find_char_ok [OF Suc.prems(1,2), of delim] obtain r where
    r: "find_char m tx delim = Inr r" "\<forall>q. r = Some q \<longrightarrow> tx \<le> q \<and> q + 1 < N" by blast
  show ?case
  proof (cases r)
    case None
    with r Suc.prems show ?thesis
      by (auto simp: parts_ok_def nth_list_update)
  next
    case (Some s)
    with r have s: "s < N" "s + 1 < N" by auto
    from put_nul_ok [OF Suc.prems(1) s(1)] obtain m1 where m1: "put_nul m s = Inr m1" "terminated N m1" by blast
    have c: "char_at m1 (s + 1) = Inr (m1 ! (s + 1))" by (rule char_at_ok [OF m1(2) s(2)])
    let ?ps = "(ps[i := None])[i := Some tx]"
    have ps: "\<forall>j<i + 1. \<exists>q<N. ?ps ! j = Some q" "length ?ps = 20"
      using Suc.prems by (auto simp: nth_list_update less_Suc_eq)
    show ?thesis
    proof (cases "m1 ! (s + 1) = NUL")
      case True
      with r Some m1 c ps show ?thesis by (auto simp: parts_ok_def)
    next
      case False
      from Suc.IH [OF m1(2) s(2) ps(2) _ ps(1)] Suc.prems(4) obtain n m' ps' where
        "split_loop delim k (i + 1) m1 (s + 1) ?ps = Inr (n, m', ps')" "terminated N m'" "parts_ok N n ps'"
        "0 < k \<longrightarrow> i + 1 < n" by auto
      moreover have "i < n" if "k = 0" using that calculation(1) by simp
      ultimately show ?thesis using r Some m1 c False by (cases k) auto
    qed
  qed
qed

text \<open>With a delimiter in the tx the first field is there; without one it is null.\<close>

lemma split_first:
  assumes "terminated N m"
  shows "\<exists>n m' ps. split delim 20 m 0 (replicate 20 None) = Inr (n, m', ps) \<and> terminated N m' \<and> parts_ok N n ps \<and>
    0 < n \<and> (if find_char m 0 delim = Inr None then ps ! 0 = None else 2 \<le> n)"
proof -
  have N: "0 < N" using assms by (simp add: terminated_def)
  from split_loop_ok [OF assms N, of "replicate 20 None" 0 20 delim] obtain n m' ps where
    s: "split_loop delim 20 0 m 0 (replicate 20 None) = Inr (n, m', ps)" "terminated N m'" "parts_ok N n ps" "0 < n"
    by auto
  from find_char_ok [OF assms N, of delim] obtain r where
    r: "find_char m 0 delim = Inr r" "\<forall>q. r = Some q \<longrightarrow> 0 \<le> q \<and> q + 1 < N" by blast
  have "split_loop delim (Suc 19) 0 m 0 (replicate 20 None) = Inr (n, m', ps)" using s(1) by simp
  note step = this [unfolded split_loop.simps Let_def]
  have "if r = None then ps ! 0 = None else 2 \<le> n"
  proof (cases r)
    case None
    with step r show ?thesis by auto
  next
    case (Some q)
    from put_nul_ok [OF assms, of q] r Some obtain m1 where m1: "put_nul m q = Inr m1" "terminated N m1" by auto
    have c: "char_at m1 (q + 1) = Inr (m1 ! (q + 1))" using r Some by (intro char_at_ok [OF m1(2)]) auto
    show ?thesis
    proof (cases "m1 ! (q + 1) = NUL")
      case True
      with step r Some m1 c show ?thesis by simp
    next
      case False
      let ?ps = "((replicate 20 None)[0 := None])[0 := Some (0 :: nat)]"
      have "\<forall>j<1. \<exists>q<N. ?ps ! j = Some q" using N by auto
      moreover have "split_loop delim 19 1 m1 (q + 1) ?ps = Inr (n, m', ps)"
        using step r Some m1 c False by simp
      ultimately show ?thesis
        using split_loop_ok [OF m1(2), of "q + 1" ?ps 1 19 delim] r Some by auto
    qed
  qed
  with s r show ?thesis unfolding split_def by auto
qed


lemma part_ok: "parts_ok N n ps \<Longrightarrow> j + 1 < n \<Longrightarrow> j < 20 \<Longrightarrow> \<exists>q<N. ps ! j = Some q"
  by (simp add: parts_ok_def)

lemma gga_ok:
  assumes "parts_ok N n ps" "2 \<le> n" "terminated N m"
  shows "\<exists>r. gga conv ps n (m, loc) = Inr r"
proof (cases "n = 15")
  case True
  note p = part_ok [OF assms(1), unfolded True]
  obtain p0 p1 p2 p3 p4 p5 p6 p7 p9 p10 p11 p12 where q:
    "ps ! 0 = Some p0" "ps ! 1 = Some p1" "ps ! 2 = Some p2" "ps ! 3 = Some p3" "ps ! 4 = Some p4" "ps ! 5 = Some p5"
    "ps ! 6 = Some p6" "ps ! 7 = Some p7" "ps ! 9 = Some p9" "ps ! 10 = Some p10" "ps ! 11 = Some p11" "ps ! 12 = Some p12"
    "p1 < N" "p2 < N" "p3 < N" "p4 < N" "p5 < N" "p6 < N" "p7 < N" "p9 < N" "p10 < N" "p11 < N" "p12 < N"
    using p [of 0] p [of 1] p [of 2] p [of 3] p [of 4] p [of 5] p [of 6] p [of 7] p [of 9] p [of 10] p [of 11] p [of 12]
    by auto
  let ?fs = "[on_hms (ps ! 1),
           on_angle conv (\<lambda>a l. l\<lparr>lat := a\<rparr>) (ps ! 2) (ps ! 3),
           on_angle conv (\<lambda>a l. l\<lparr>lon := a\<rparr>) (ps ! 4) (ps ! 5),
           on_text (c_strstr ''012'') (ps ! 6),
           on_int (ps ! 7),
           on_double conv (\<lambda>v l. l\<lparr>alt := v\<rparr>) (ps ! 9),
           on_text (c_strstr ''M'') (ps ! 10),
           on_double conv (\<lambda>_ l. l) (ps ! 11),
           on_text (c_strstr ''M'') (ps ! 12)]"
  have "safe N (steps ?fs)"
    by (rule safe_steps) (use q in \<open>simp add: safe_step\<close>)
  with assms(3) have "\<exists>r. steps ?fs (m, loc) = Inr r" unfolding safe_def by blast
  moreover have "gga conv ps n (m, loc) = steps ?fs (m, loc)"
    unfolding gga_def using True q(1) by (simp del: steps.simps)
  ultimately show ?thesis by simp
next
  case False
  with part_ok [OF assms(1), of 0] assms(2) show ?thesis by (auto simp: gga_def)
qed

lemma rmc_ok:
  assumes "parts_ok N n ps" "2 \<le> n" "terminated N m"
  shows "\<exists>r. rmc conv ps n (m, loc) = Inr r"
proof (cases "n = 13 \<or> n = 12")
  case True
  then have "12 \<le> n" by auto
  note p = part_ok [OF assms(1)]
  obtain p0 p1 p2 p3 p4 p5 p6 p7 p8 p9 where q:
    "ps ! 0 = Some p0" "ps ! 1 = Some p1" "ps ! 2 = Some p2" "ps ! 3 = Some p3" "ps ! 4 = Some p4" "ps ! 5 = Some p5"
    "ps ! 6 = Some p6" "ps ! 7 = Some p7" "ps ! 8 = Some p8" "ps ! 9 = Some p9"
    "p1 < N" "p2 < N" "p3 < N" "p4 < N" "p5 < N" "p6 < N" "p7 < N" "p8 < N" "p9 < N"
    using p [of 0] p [of 1] p [of 2] p [of 3] p [of 4] p [of 5] p [of 6] p [of 7] p [of 8] p [of 9] \<open>12 \<le> n\<close>
    by auto
  let ?fs = "[on_angle conv (\<lambda>a l. l\<lparr>lat := a\<rparr>) (ps ! 3) (ps ! 4),
                 on_angle conv (\<lambda>a l. l\<lparr>lon := a\<rparr>) (ps ! 5) (ps ! 6),
                 on_double conv (\<lambda>_ l. l) (ps ! 7),
                 on_double conv (\<lambda>_ l. l) (ps ! 8),
                 on_dmy (ps ! 9)]"
  from safe_step(1) [OF q(11)] assms(3) obtain ok m1 loc1 where
    h: "on_hms (ps ! 1) (m, loc) = Inr (ok, m1, loc1)" "terminated N m1"
    unfolding safe_def q by blast
  from str_at_ok [OF h(2) q(12)] obtain v where v: "str_at m1 p2 = Inr v" by blast
  have "safe N (steps ?fs)"
    by (rule safe_steps) (use q in \<open>simp add: safe_step\<close>)
  with h(2) have "\<exists>r. steps ?fs (m1, loc1) = Inr r" unfolding safe_def by blast
  moreover from safe_step(6) [OF q(19)] h(2) have "\<exists>r. on_dmy (ps ! 9) (m1, loc1) = Inr r"
    unfolding safe_def q by blast
  ultimately show ?thesis
    unfolding rmc_def using True q(1,3) h(1) v by (cases ok) (auto simp: deref_def simp del: steps.simps)
next
  case False
  with part_ok [OF assms(1), of 0] assms(2) show ?thesis by (auto simp: rmc_def)
qed

lemma strip_ok:
  assumes "terminated N m"
  shows "\<exists>m'. strip m 0 = Inr m' \<and> terminated N m'"
proof -
  have c: "\<exists>m'. strip_char c m 0 = Inr m' \<and> terminated N m'" if t: "terminated N m" for m c
  proof -
    have "0 < N" using t by (simp add: terminated_def)
    from find_char_ok [OF t this, of c] obtain r where
      r: "find_char m 0 c = Inr r" "\<forall>q. r = Some q \<longrightarrow> 0 \<le> q \<and> q + 1 < N" by blast
    then show ?thesis using put_nul_ok [OF t] t by (cases r) (auto simp: strip_char_def)
  qed
  from c [OF assms, of "CHR 0x0D"] obtain m1 where "strip_char (CHR 0x0D) m 0 = Inr m1" "terminated N m1" by blast
  with c [of m1 "CHR 0x0A"] show ?thesis by (auto simp: strip_def)
qed

lemma strtok_ok:
  assumes "terminated N m"
  shows "\<exists>r m'. strtok_star m 0 = Inr (r, m') \<and> terminated N m' \<and> (\<forall>a e. r = Some (a, e) \<longrightarrow> e < N \<and> 1 < N)"
proof -
  have "0 < N" using assms by (simp add: terminated_def)
  from str_at_ok [OF assms this] obtain s where s: "str_at m 0 = Inr s" "length s < N" by auto
  define k where "k = length (takeWhile (\<lambda>c. c = CHR ''*'') s)"
  define tok where "tok = takeWhile (\<lambda>c. c \<noteq> CHR ''*'') (drop k s)"
  have le: "k + length tok \<le> length s"
    unfolding tok_def k_def by (metis add_le_cancel_left le_diff_conv2 length_drop length_takeWhile_le add.commute)
  have st: "strtok_star m 0 =
     (if tok = [] then Inr (None, m)
      else if k + length tok = length s then Inr (Some (k, k + length tok), m)
      else rbind (put_nul m (k + length tok)) (\<lambda>m. Inr (Some (k, k + length tok + 1), m)))"
    using s(1) by (simp add: strtok_star_def k_def tok_def Let_def)
  show ?thesis
  proof (cases "tok = [] \<or> k + length tok = length s")
    case True
    have "tok \<noteq> [] \<Longrightarrow> 1 < N" using le s(2) by (cases tok) auto
    with True st s(2) assms show ?thesis by auto
  next
    case False
    then have lt: "k + length tok < N" "1 < N" "k + length tok + 1 < N"
      using le s(2) by (cases tok; auto)+
    from put_nul_ok [OF assms lt(1)] obtain m' where "put_nul m (k + length tok) = Inr m'" "terminated N m'" by blast
    with False st lt show ?thesis by auto
  qed
qed

lemma checksum_ok:
  assumes "terminated N m"
  shows "\<exists>ok m'. checksum m 0 = Inr (ok, m') \<and> terminated N m'"
proof -
  from strtok_ok [OF assms] obtain r m1 where
    r: "strtok_star m 0 = Inr (r, m1)" "terminated N m1" "\<forall>a e. r = Some (a, e) \<longrightarrow> e < N \<and> 1 < N" by blast
  show ?thesis
  proof (cases r)
    case None
    with r show ?thesis by (auto simp: checksum_def)
  next
    case (Some ae)
    obtain a e where ae: "ae = (a, e)" by (cases ae)
    with Some r have e: "e < N" "1 < N" by auto
    from str_at_ok [OF r(2) e(2)] obtain body where b: "str_at m1 1 = Inr body" by blast
    from parse_integer_ok [OF r(2), of "Some e" 16] e obtain v where "parse_integer 16 m1 (Some e) = Inr v" by auto
    with r Some ae b show ?thesis by (cases v) (auto simp: checksum_def)
  qed
qed

subsection \<open>Properties\<close>

text \<open>
  C30: on any terminated line the parser reads and writes only the line and uses no null pointer, whatever the
  fields hold, with one exception: a sentence that passes the check and has no comma. Then the name of the sentence is
  compared through a null pointer.
\<close>

theorem nmea_crashes_only_without_comma:
  assumes "m \<noteq> []" "last m = NUL"
  shows "(\<exists>r. nmea_parse conv loc m = Inr r) \<or>
    (nmea_parse conv loc m = Inl NullDeref \<and>
     (\<exists>m1 m2. strip m 0 = Inr m1 \<and> checksum m1 0 = Inr (True, m2) \<and> find_char m2 0 (CHR '','') = Inr None))"
proof -
  have t: "terminated (length m) m" using assms by (simp add: terminated_def last_conv_nth)
  from strip_ok [OF t] obtain m1 where m1: "strip m 0 = Inr m1" "terminated (length m) m1" by blast
  from checksum_ok [OF m1(2)] obtain ok m2 where m2: "checksum m1 0 = Inr (ok, m2)" "terminated (length m) m2" by blast
  show ?thesis
  proof (cases ok)
    case False
    with m1 m2 have "nmea_parse conv loc m = Inr (False, m2, loc)" by (simp add: nmea_parse_def)
    then show ?thesis by blast
  next
    case True
    from split_first [OF m2(2), of "CHR '',''"] obtain n m3 ps where
      s: "split (CHR '','') 20 m2 0 (replicate 20 None) = Inr (n, m3, ps)" "terminated (length m) m3"
        "parts_ok (length m) n ps" "0 < n"
        "if find_char m2 0 (CHR '','') = Inr None then ps ! 0 = None else 2 \<le> n" by blast
    show ?thesis
    proof (cases "find_char m2 0 (CHR '','') = Inr None")
      case c: True
      with s m1 m2 True show ?thesis by (simp add: nmea_parse_def deref_def)
    next
      case False
      with s(5) have "2 \<le> n" by simp
      with part_ok [OF s(3), of 0] obtain q where q: "q < length m" "ps ! 0 = Some q" by auto
      from str_at_ok [OF s(2) q(1)] obtain name where "str_at m3 q = Inr name" by blast
      with gga_ok [OF s(3) \<open>2 \<le> n\<close> s(2), of conv loc] rmc_ok [OF s(3) \<open>2 \<le> n\<close> s(2), of conv loc] s m1 m2 True q
      show ?thesis by (auto simp: nmea_parse_def deref_def)
    qed
  qed
qed

text \<open>That exception is reached: two bytes of text and no star at all.\<close>

lemma nmea_no_comma_crashes:
  "nmea_parse conv loc (''$AA'' @ [NUL]) = Inl NullDeref"
  by (simp add: nmea_parse_def strip_def strip_char_def find_char_def str_at_def checksum_def strtok_star_def
      parse_integer_def c_strtol_def xor_chars_def int_char_def char_val_def NUL_def split_def deref_def numeral_eq_Suc)

definition nowhere :: "nat location" where
  "nowhere =
     (let a = \<lparr>minutes = 0, degrees = 0, negated = False\<rparr>
      in \<lparr>ymd = \<lparr>nyy = 0, nmm = 0, ndd = 0\<rparr>, hms = \<lparr>nh = 0, nm = 0, ns = 0\<rparr>, lat = a, lon = a, alt = 0\<rparr>)"

theorem nmea_crashes_only_without_comma_witness:
  "nmea_parse (\<lambda>s. (0, length s)) nowhere (''$AA'' @ [NUL]) = Inl NullDeref \<and>
   (\<exists>m1 m2. strip (''$AA'' @ [NUL]) 0 = Inr m1 \<and> checksum m1 0 = Inr (True, m2) \<and>
      find_char m2 0 (CHR '','') = Inr None)"
  using nmea_crashes_only_without_comma [of "''$AA'' @ [NUL]" "\<lambda>s. (0, length s)" nowhere]
    nmea_no_comma_crashes [of "\<lambda>s. (0, length s)" nowhere]
  by auto


subsection \<open>Time and date fields\<close>

lemma digit_val_char: "0 \<le> d \<Longrightarrow> d < 10 \<Longrightarrow> digit_val (char_of (48 + nat d)) = Some d"
  by (simp add: digit_val_def of_char_of Let_def)

lemma digits_are_digits: "c \<in> set (digits n v) \<Longrightarrow> \<exists>d. 0 \<le> d \<and> d < 10 \<and> c = char_of (48 + nat d)"
  by (induction n arbitrary: v) (auto intro: exI [of _ "_ mod 10"])

lemma digit_props:
  assumes "c \<in> set (digits n v)"
  shows "is_digit 10 c" "\<not> c_isspace c" "c \<noteq> CHR ''-''" "c \<noteq> CHR ''+''" "c \<noteq> NUL" "c \<noteq> CHR ''.''"
proof -
  from digits_are_digits [OF assms] obtain d where d: "0 \<le> d" "d < 10" "c = char_of (48 + nat d)" by blast
  then have c: "digit_val c = Some d" by (simp add: digit_val_char)
  then show "is_digit 10 c" using d by (simp add: is_digit_def)
  have "digit_val x = None" if "c_isspace x" for x
    using that by (auto simp: c_isspace_def digit_val_def)
  with c show "\<not> c_isspace c" by auto
  have "digit_val (CHR ''-'') = None" "digit_val (CHR ''+'') = None" "digit_val NUL = None" "digit_val (CHR ''.'') = None"
    by (simp_all add: digit_val_def NUL_def)
  with c show "c \<noteq> CHR ''-''" "c \<noteq> CHR ''+''" "c \<noteq> NUL" "c \<noteq> CHR ''.''" by auto
qed

lemma digits_val_snoc: "digits_val b (xs @ [y]) = digits_val b xs * b + the (digit_val y)"
  by (simp add: digits_val_def)

lemma digits_val_append: "digits_val b (xs @ ys) = digits_val b xs * b ^ length ys + digits_val b ys"
proof (induction ys rule: rev_induct)
  case Nil
  then show ?case by (simp add: digits_val_def)
next
  case (snoc y ys)
  have "digits_val b (xs @ ys @ [y]) = digits_val b (xs @ ys) * b + the (digit_val y)"
    using digits_val_snoc [of b "xs @ ys"] by simp
  with snoc show ?case by (simp add: digits_val_snoc algebra_simps)
qed

lemma digits_val_digits: "0 \<le> v \<Longrightarrow> v < 10 ^ n \<Longrightarrow> digits_val 10 (digits n v) = v"
proof (induction n arbitrary: v)
  case (Suc n)
  then have "v div 10 < 10 ^ n" by (auto simp: div_less_iff_less_mult)
  with Suc have "digits_val 10 (digits n (v div 10)) = v div 10" by simp
  moreover have "digits_val 10 [char_of (48 + nat (v mod 10))] = v mod 10"
    by (simp add: digits_val_def digit_val_char)
  ultimately show ?case by (simp add: digits_val_append)
qed (simp add: digits_val_def)

text \<open>A string of decimal digits is its value.\<close>

lemma strtol_digits:
  assumes "ds \<noteq> []" "\<And>c. c \<in> set ds \<Longrightarrow> \<exists>n v. c \<in> set (digits n v)" "0 \<le> digits_val 10 ds" "digits_val 10 ds < 2 ^ 63"
  shows "c_strtol 10 ds = (digits_val 10 ds, length ds)"
proof -
  have d: "is_digit 10 c" "\<not> c_isspace c" "c \<noteq> CHR ''-''" "c \<noteq> CHR ''+''" if "c \<in> set ds" for c
    using assms(2) [OF that] digit_props by blast+
  have tw: "takeWhile (is_digit 10) ds = ds" using d(1) by simp
  have "dropWhile c_isspace ds = ds" using d(2) assms(1) by (cases ds) auto
  moreover have "hd ds \<noteq> CHR ''-''" "hd ds \<noteq> CHR ''+''" using d(3,4) assms(1) by auto
  ultimately show ?thesis
    using assms by (simp add: c_strtol_def Let_def tw)
qed

text \<open>
  The time and date fields: \<^verbatim>\<open>hhmmss\<close>, with or without a fraction (which is cut off the line), and \<^verbatim>\<open>ddmmyy\<close> give the
  numbers written there, the year in this century.
\<close>

theorem nmea_reads_time_and_date:
  assumes "0 \<le> hr \<and> hr < 100" "0 \<le> mn \<and> mn < 100" "0 \<le> s \<and> s < 100" "0 \<le> y \<and> y < 100" "NUL \<notin> set frac"
  shows "parse_hms (digits 2 hr @ digits 2 mn @ digits 2 s @ ''.'' @ frac @ [NUL]) (Some 0) =
      Inr (Some \<lparr>nh = hr, nm = mn, ns = s\<rparr>, digits 2 hr @ digits 2 mn @ digits 2 s @ NUL # frac @ [NUL]) \<and>
    parse_dmy (digits 2 hr @ digits 2 mn @ digits 2 y @ [NUL]) (Some 0) =
      Inr (True, \<lparr>nyy = 2000 + y, nmm = mn, ndd = hr\<rparr>)"
proof
  let ?ds = "digits 2 hr @ digits 2 mn @ digits 2 s"
  let ?m = "?ds @ ''.'' @ frac @ [NUL]" and ?m' = "?ds @ NUL # frac @ [NUL]"
  have len: "length ?ds = 6" by simp
  have ds: "c \<in> set ?ds \<Longrightarrow> \<exists>n v. c \<in> set (digits n v)" for c by auto
  have props: "c \<noteq> NUL" "c \<noteq> CHR ''.''" if "c \<in> set ?ds" for c
    using ds [OF that] digit_props(5,6) by blast+
  have val: "digits_val 10 ?ds = hr * 10000 + mn * 100 + s"
    using assms by (simp add: digits_val_append digits_val_digits del: digits.simps)
  have tw: "takeWhile P (xs @ c # ys) = xs" if "\<forall>x\<in>set xs. P x" "\<not> P c" for P xs c and ys :: string
    using that by (induction xs) auto
  have line: "str_at ?m 0 = Inr (?ds @ ''.'' @ frac)"
  proof -
    have "takeWhile (\<lambda>c. c \<noteq> NUL) ((?ds @ ''.'' @ frac) @ NUL # []) = ?ds @ ''.'' @ frac"
      by (rule tw) (use props assms(5) in \<open>auto simp: NUL_def\<close>)
    then show ?thesis by (simp add: str_at_def del: digits.simps)
  qed
  have dot: "find_char ?m 0 (CHR ''.'') = Inr (Some 6)"
  proof -
    have "takeWhile (\<lambda>x. x \<noteq> CHR ''.'') (?ds @ CHR ''.'' # frac) = ?ds"
      by (rule tw) (use props in auto)
    with len show ?thesis unfolding find_char_def line rbind.simps by (simp del: digits.simps)
  qed
  have put: "put_nul ?m 6 = Inr ?m'"
    using len by (simp add: put_nul_def list_update_append del: digits.simps)
  have fld: "str_at ?m' 0 = Inr ?ds"
  proof -
    have "takeWhile (\<lambda>c. c \<noteq> NUL) (?ds @ NUL # (frac @ [NUL])) = ?ds"
      by (rule tw) (use props in auto)
    then show ?thesis by (simp add: str_at_def del: digits.simps)
  qed
  have "c_strtol 10 ?ds = (hr * 10000 + mn * 100 + s, 6)"
  proof -
    have "?ds \<noteq> []" using len by (metis list.size(3) zero_neq_numeral)
    from strtol_digits [OF this ds] show ?thesis
      unfolding val len using assms by simp
  qed
  moreover have "sint (word_of_int (hr * 10000 + mn * 100 + s) :: u32) = hr * 10000 + mn * 100 + s"
  proof -
    have "signed_take_bit 31 (hr * 10000 + mn * 100 + s) = hr * 10000 + mn * 100 + s"
      using assms by (intro signed_take_bit_int_eq_self) auto
    then show ?thesis by (simp only: sint_sbintrunc') simp
  qed
  ultimately have num: "parse_integer 10 ?m' (Some 0) = Inr (Some (hr * 10000 + mn * 100 + s))"
    unfolding parse_integer_def using fld len by (simp del: digits.simps)
  have two: "(a * 100 + b) div 100 = a \<and> (a * 100 + b) mod 100 = b" if "0 \<le> b \<and> b < 100" for a b :: int
    using that by simp
  have "hr * 10000 + mn * 100 + s = (hr * 100 + mn) * 100 + s" by simp
  with two [of s "hr * 100 + mn"] assms have
    "(hr * 10000 + mn * 100 + s) div 100 = hr * 100 + mn" "(hr * 10000 + mn * 100 + s) mod 100 = s"
    by metis+
  moreover have "(hr * 100 + mn) div 100 = hr" "(hr * 100 + mn) mod 100 = mn"
    using two [of mn hr] assms by metis+
  moreover note dot put fld num len assms
  ultimately have "parse_hms ?m (Some 0) = Inr (Some \<lparr>nh = hr, nm = mn, ns = s\<rparr>, ?m')"
    unfolding parse_hms_def deref_def by (simp add: c_div_def c_rem_def Let_def del: digits.simps append_assoc)
  then show "parse_hms (digits 2 hr @ digits 2 mn @ digits 2 s @ ''.'' @ frac @ [NUL]) (Some 0) =
      Inr (Some \<lparr>nh = hr, nm = mn, ns = s\<rparr>, digits 2 hr @ digits 2 mn @ digits 2 s @ NUL # frac @ [NUL])"
    by (simp del: digits.simps)
next
  let ?m = "digits 2 hr @ digits 2 mn @ digits 2 y @ [NUL]"
  have two: "\<exists>a b. digits 2 v = [a, b] \<and> is_digit 10 a \<and> is_digit 10 b \<and> (char_val a - 48) * 10 + (char_val b - 48) = v"
    if "0 \<le> v \<and> v < 100" for v
  proof (intro exI conjI)
    show "digits 2 v = [char_of (48 + nat (v div 10 mod 10)), char_of (48 + nat (v mod 10))]"
      by (simp add: numeral_2_eq_2)
    show "is_digit 10 (char_of (48 + nat (v div 10 mod 10)))" "is_digit 10 (char_of (48 + nat (v mod 10)))"
      by (simp_all add: is_digit_def digit_val_char)
    have "v div 10 mod 10 * 10 + v mod 10 = v" using that by presburger
    then show "(char_val (char_of (48 + nat (v div 10 mod 10))) - 48) * 10 + (char_val (char_of (48 + nat (v mod 10))) - 48) = v"
      using digit_char [of "v div 10 mod 10"] digit_char [of "v mod 10"] by simp
  qed
  from two [of hr] two [of mn] two [of y] assms obtain a b c d e f where
    ds: "digits 2 hr = [a, b]" "digits 2 mn = [c, d]" "digits 2 y = [e, f]"
    and dig: "is_digit 10 a" "is_digit 10 b" "is_digit 10 c" "is_digit 10 d" "is_digit 10 e" "is_digit 10 f"
    and val: "(char_val a - 48) * 10 + (char_val b - 48) = hr" "(char_val c - 48) * 10 + (char_val d - 48) = mn"
      "(char_val e - 48) * 10 + (char_val f - 48) = y"
    by blast
  have m: "?m = [a, b, c, d, e, f, NUL]" by (simp add: ds)
  have "all_digits [a, b, c, d, e, f, NUL] 0 6 = Inr True" by (simp add: dig char_at_def eval_nat_numeral)
  moreover have "char_at [a, b, c, d, e, f, NUL] 6 = Inr NUL" by (simp add: char_at_def)
  ultimately have "parse_dmy [a, b, c, d, e, f, NUL] (Some 0) =
      Inr (True, \<lparr>nyy = 2000 + ((char_val e - 48) * 10 + (char_val f - 48)),
        nmm = (char_val c - 48) * 10 + (char_val d - 48), ndd = (char_val a - 48) * 10 + (char_val b - 48)\<rparr>)"
    unfolding parse_dmy_def deref_def by simp
  then show "parse_dmy ?m (Some 0) = Inr (True, \<lparr>nyy = 2000 + y, nmm = mn, ndd = hr\<rparr>)"
    unfolding m val .
qed

theorem nmea_reads_time_and_date_witness:
  "parse_dmy (digits 2 23 @ digits 2 3 @ digits 2 94 @ [NUL]) (Some 0) = Inr (True, \<lparr>nyy = 2094, nmm = 3, ndd = 23\<rparr>)"
  using nmea_reads_time_and_date [of 23 3 0 94 "[]"] by simp

end
