(* ===== verification/Displays.thy ===== *)
theory Displays
  imports Spi
begin

text \<open>
  The displays: seven-segment digits (drivers/7-segment.cpp) and the two drivers that show text on them over other
  buses (drivers/max7219.cpp over SPI, drivers/tm1637.cpp over the two-wire bus).

  A text is the list of its characters, without the terminator; reading the terminator is the case of the
  empty list. The buses are those of \<open>Buses\<close> and \<open>Spi\<close>, with what their lines answer as a parameter.
\<close>

subsection \<open>Seven segments\<close>

datatype segment = SA | SB | SC | SD | SE | SF | SG | DP

text \<open>The two wirings \<^verbatim>\<open>SevenSegment::seg\<close> knows: the value of a segment is a bit of the byte.\<close>

definition seg_pos :: "bool \<Rightarrow> segment \<Rightarrow> nat" where
  "seg_pos mir s =
     (if mir then (case s of SA \<Rightarrow> 6 | SB \<Rightarrow> 5 | SC \<Rightarrow> 4 | SD \<Rightarrow> 3 | SE \<Rightarrow> 2 | SF \<Rightarrow> 1 | SG \<Rightarrow> 0 | DP \<Rightarrow> 7)
      else (case s of SA \<Rightarrow> 0 | SB \<Rightarrow> 1 | SC \<Rightarrow> 2 | SD \<Rightarrow> 3 | SE \<Rightarrow> 4 | SF \<Rightarrow> 5 | SG \<Rightarrow> 6 | DP \<Rightarrow> 7))"

definition seg_bit :: "bool \<Rightarrow> segment \<Rightarrow> u8" where
  "seg_bit mir s =
     (if mir then (case s of SA \<Rightarrow> 0x40 | SB \<Rightarrow> 0x20 | SC \<Rightarrow> 0x10 | SD \<Rightarrow> 0x08 | SE \<Rightarrow> 0x04 | SF \<Rightarrow> 0x02 | SG \<Rightarrow> 0x01 | DP \<Rightarrow> 0x80)
      else (case s of SA \<Rightarrow> 0x01 | SB \<Rightarrow> 0x02 | SC \<Rightarrow> 0x04 | SD \<Rightarrow> 0x08 | SE \<Rightarrow> 0x10 | SF \<Rightarrow> 0x20 | SG \<Rightarrow> 0x40 | DP \<Rightarrow> 0x80))"

text \<open>The cases of its switch, character by character: the segments summed.\<close>

definition seg_table :: "(char \<times> segment list) list" where
  "seg_table =
    [(CHR 0x01, [SA]), (CHR 0x02, [SB]), (CHR 0x03, [SC]), (CHR 0x04, [SD]), (CHR 0x05, [SE]), (CHR 0x06, [SF]),
     (CHR 0x07, [SG]),
     (CHR ''0'', [SA, SB, SC, SD, SE, SF]), (CHR ''1'', [SB, SC]), (CHR ''2'', [SA, SB, SG, SE, SD]),
     (CHR ''3'', [SA, SB, SG, SC, SD]), (CHR ''4'', [SF, SB, SG, SC]), (CHR ''5'', [SA, SF, SG, SC, SD]),
     (CHR ''6'', [SA, SF, SG, SE, SC, SD]), (CHR ''7'', [SA, SB, SC]), (CHR ''8'', [SA, SF, SB, SG, SE, SC, SD]),
     (CHR ''9'', [SA, SF, SB, SG, SC, SD]),
     (CHR '' '', []), (CHR ''.'', [DP]), (CHR '','', [DP]), (CHR ''+'', [SB, SG, SC]), (CHR ''-'', [SG]),
     (CHR ''='', [SG, SD]), (CHR 0x22, [SF, SB]), (CHR 0x27, [SB]), (CHR ''!'', [SB, SC, DP]), (CHR ''|'', [SF, SE]),
     (CHR ''('', [SA, SF, SE, SD]), (CHR ''{'', [SA, SF, SE, SD]), (CHR ''['', [SA, SF, SE, SD]),
     (CHR '')'', [SA, SB, SC, SD]), (CHR ''}'', [SA, SB, SC, SD]), (CHR '']'', [SA, SB, SC, SD]),
     (CHR ''?'', [SA, SB, SG, SE]), (CHR ''*'', [SF, SB, SG, SE, SC]), (CHR ''#'', [SA, SF, SB, SG]),
     (CHR ''/'', [SB, SG, SE]), (CHR 0x5C, [SF, SG, SC]), (CHR '':'', [SG, SD]), (CHR '';'', [SG, SD]),
     (CHR ''$'', [SA, SF, SG, SC, SD]), (CHR ''%'', [SB, SG, SE]), (CHR ''&'', [SA, SF, SB, SG, SE]), (CHR ''_'', [SD]),
     (CHR ''^'', [SA, SF, SB]), (CHR 0x60, [SF]), (CHR ''@'', [SA, SF, SB, SG, SE, SD]), (CHR ''>'', [SG, SC, SD]),
     (CHR ''<'', [SG, SE, SD]), (CHR ''~'', [SA]),
     (CHR ''a'', [SA, SF, SB, SG, SE, SC]), (CHR ''A'', [SA, SF, SB, SG, SE, SC]), (CHR ''b'', [SF, SG, SE, SC, SD]),
     (CHR ''B'', [SF, SG, SE, SC, SD]), (CHR ''c'', [SG, SE, SD]), (CHR ''C'', [SA, SF, SE, SD]),
     (CHR ''d'', [SB, SG, SE, SC, SD]), (CHR ''D'', [SA, SF, SB, SE, SC, SD]), (CHR ''e'', [SA, SF, SG, SE, SD]),
     (CHR ''E'', [SA, SF, SG, SE, SD]), (CHR ''f'', [SA, SF, SG, SE]), (CHR ''F'', [SA, SF, SG, SE]),
     (CHR ''g'', [SA, SF, SB, SG, SC, SD]), (CHR ''G'', [SA, SF, SB, SG, SC, SD]), (CHR ''h'', [SF, SG, SE, SC]),
     (CHR ''H'', [SF, SB, SG, SE, SC]), (CHR ''i'', [SB, SC]), (CHR ''I'', [SB, SC]), (CHR ''j'', [SB, SC, SD]),
     (CHR ''J'', [SB, SC, SD]), (CHR ''k'', [SF, SB, SG, SE, SC]), (CHR ''K'', [SF, SB, SG, SE, SC]),
     (CHR ''l'', [SF, SE, SD]), (CHR ''L'', [SF, SE, SD]), (CHR ''m'', [SG, SE, SC]), (CHR ''M'', [SA, SF, SB, SE, SC]),
     (CHR ''n'', [SG, SE, SC]), (CHR ''N'', [SA, SF, SB, SE, SC]), (CHR ''o'', [SG, SE, SC, SD]),
     (CHR ''O'', [SA, SF, SB, SE, SC, SD]), (CHR ''p'', [SA, SF, SB, SG, SE]), (CHR ''P'', [SA, SF, SB, SG, SE]),
     (CHR ''q'', [SA, SF, SB, SG, SC]), (CHR ''Q'', [SA, SF, SB, SG, SC]), (CHR ''r'', [SG, SE]), (CHR ''R'', [SG, SE]),
     (CHR ''s'', [SA, SF, SG, SC, SD]), (CHR ''S'', [SA, SF, SG, SC, SD]), (CHR ''t'', [SF, SG, SE, SD]),
     (CHR ''T'', [SF, SG, SE, SD]), (CHR ''u'', [SE, SC, SD]), (CHR ''U'', [SF, SB, SE, SC, SD]), (CHR ''v'', [SE, SC, SD]),
     (CHR ''V'', [SF, SB, SE, SC, SD]), (CHR ''w'', [SE, SC, SD]), (CHR ''W'', [SF, SB, SE, SC, SD]),
     (CHR ''x'', [SF, SB, SG, SE, SC]), (CHR ''X'', [SF, SB, SG, SE, SC]), (CHR ''y'', [SF, SB, SG, SC, SD]),
     (CHR ''Y'', [SF, SB, SG, SC, SD]), (CHR ''z'', [SA, SB, SG, SE, SD]), (CHR ''Z'', [SA, SB, SG, SE, SD])]"

definition segs :: "char \<Rightarrow> segment list" where
  "segs c = (case map_of seg_table c of None \<Rightarrow> [] | Some ss \<Rightarrow> ss)"

definition seg :: "char \<Rightarrow> bool \<Rightarrow> u8" where
  "seg c mir = sum_list (map (seg_bit mir) (segs c))"

text \<open>One digit: a character and the dot behind it; the rest of the text.\<close>

definition next_seg :: "string \<Rightarrow> string \<times> u8" where
  "next_seg t =
     (let (c, t) = (case t of [] \<Rightarrow> (CHR 0x00, []) | c # t \<Rightarrow> (c, t));
          s = seg c False
      in case t of
           [] \<Rightarrow> (t, s)
         | d # t' \<Rightarrow> if d = CHR ''.'' then (t', s OR seg d False) else (t, s))"

text \<open>\<^verbatim>\<open>write\<close>: the block that goes out on the I2C bus, and \<^verbatim>\<open>init\<close>.\<close>

definition seven_write :: "bool \<Rightarrow> string \<Rightarrow> u8 list" where
  "seven_write colon t =
     (let c = (if colon then 0x02 else 0);
          (t, s0) = next_seg t; (t, s1) = next_seg t; (t, s2) = next_seg t; (t, s3) = next_seg t
      in [0, s0, 0, s1, 0, c, 0, s2, 0, s3, 0])"

definition seven_init :: "u8 list list" where
  "seven_init = [[0x21], [0x81]]"

subsection \<open>MAX7219\<close>

definition max_write :: "(nat \<Rightarrow> bool) \<Rightarrow> u8 \<Rightarrow> u8 \<Rightarrow> spi \<Rightarrow> bool \<times> spi" where
  "max_write ins reg v s = dev_write True ins [reg, v] s"

text \<open>The loop of \<^verbatim>\<open>write(text)\<close>: \<open>n\<close> rounds left, at the digit register \<open>addr\<close>.\<close>

fun max_digits :: "(nat \<Rightarrow> bool) \<Rightarrow> nat \<Rightarrow> u8 \<Rightarrow> string \<Rightarrow> spi \<Rightarrow> spi" where
  "max_digits ins 0 addr t s = s"
| "max_digits ins (Suc n) addr t s =
     (let c = (case t of [] \<Rightarrow> CHR '' '' | c # _ \<Rightarrow> c);
          s = snd (max_write ins addr (seg c True) s);
          t = (case t of [] \<Rightarrow> [] | _ # t \<Rightarrow> t);
          addr = addr - 1
      in if addr < 1 then s else max_digits ins n addr t s)"

definition max_text :: "(nat \<Rightarrow> bool) \<Rightarrow> string \<Rightarrow> spi \<Rightarrow> spi" where
  "max_text ins t s = max_digits ins 8 8 t s"

definition max_brightness :: "(nat \<Rightarrow> bool) \<Rightarrow> u8 \<Rightarrow> spi \<Rightarrow> spi" where
  "max_brightness ins level s = snd (max_write ins 0x0a (drop_bit 4 level) s)"

definition max_init :: "(nat \<Rightarrow> bool) \<Rightarrow> spi \<Rightarrow> bool \<times> spi" where
  "max_init ins s =
     (let (ok1, s) = max_write ins 0x0c 0x01 s;
          (ok2, s) = max_write ins 0x09 0x00 s;
          (ok3, s) = max_write ins 0x0b 0x07 s
      in (ok1 \<and> ok2 \<and> ok3, max_brightness ins 0xff s))"

subsection \<open>TM1637\<close>

text \<open>\<^verbatim>\<open>snprintf(buff, 5, "%*s", 4, text)\<close>: padded on the left to four characters, cut after four.\<close>

definition pad_left :: "nat \<Rightarrow> string \<Rightarrow> string" where
  "pad_left n t = replicate (n - length t) (CHR '' '') @ t"

definition tm_block :: "string \<Rightarrow> u8 list" where
  "tm_block t = 0xC0 # map (\<lambda>c. seg c False) (take 4 (pad_left 4 t))"

definition tm_text :: "(nat \<Rightarrow> bool) \<Rightarrow> string \<Rightarrow> wires \<Rightarrow> wires" where
  "tm_text ins t w = snd (tw_write ins (tm_block t) w)"

definition tm_command :: "(nat \<Rightarrow> bool) \<Rightarrow> u8 \<Rightarrow> u8 \<Rightarrow> wires \<Rightarrow> bool \<times> wires" where
  "tm_command ins cmd d w = (let (n, w) = tw_write ins [cmd, d] w in (n = 2, w))"

definition tm_init :: "(nat \<Rightarrow> bool) \<Rightarrow> wires \<Rightarrow> bool \<times> wires" where
  "tm_init ins w =
     (let (n, w) = tw_write ins [0x40] w
      in if n \<noteq> 1 then (False, w)
         else
           let w = tm_text ins ''    '' w;
               (n, w) = tw_write ins [0x80 + 0xf] w
           in (n = 1, w))"

subsection \<open>What a byte shows\<close>

text \<open>The segments lit by a byte.\<close>

definition lit :: "bool \<Rightarrow> u8 \<Rightarrow> segment set" where
  "lit mir x = {s. bit x (seg_pos mir s)}"

lemma seg_bit_exp: "seg_bit mir s = push_bit (seg_pos mir s) 1"
  by (cases s; simp add: seg_bit_def seg_pos_def push_bit_eq_mult)

lemma seg_pos_less: "seg_pos mir s < 8"
  by (cases s) (simp_all add: seg_pos_def)

lemma seg_pos_inj: "seg_pos mir s = seg_pos mir t \<longleftrightarrow> s = t"
  by (cases s; cases t; simp add: seg_pos_def)

lemma bit_seg_bit: "bit (seg_bit mir s) n \<longleftrightarrow> n = seg_pos mir s"
  using seg_pos_less [of mir s]
  by (auto simp: seg_bit_exp push_bit_of_1 bit_exp_iff)

text \<open>A sum of different segments lights exactly these: no carry.\<close>

lemma lit_sum:
  "distinct ss \<Longrightarrow> lit mir (sum_list (map (seg_bit mir) ss)) = set ss"
proof (induction ss)
  case Nil
  then show ?case by (simp add: lit_def)
next
  case (Cons s ss)
  let ?x = "sum_list (map (seg_bit mir) ss)"
  from Cons have IH: "bit ?x (seg_pos mir t) \<longleftrightarrow> t \<in> set ss" for t
    by (auto simp: lit_def)
  with Cons.prems have "\<not> bit ?x (seg_pos mir s)" by simp
  then have "seg_bit mir s + ?x = seg_bit mir s OR ?x"
    by (intro disjunctive_add) (auto simp: bit_seg_bit)
  with IH show ?case
    by (auto simp: lit_def bit_or_iff bit_seg_bit seg_pos_inj)
qed

lemma segs_distinct: "distinct (segs c)"
proof -
  have "list_all (\<lambda>(_, ss). distinct ss) seg_table" by code_simp
  then show ?thesis
    by (auto simp: segs_def list_all_iff dest: map_of_SomeD split: option.splits)
qed

lemma lit_seg: "lit mir (seg c mir) = set (segs c)"
  by (simp add: seg_def lit_sum segs_distinct)

lemma lit_or: "lit mir (x OR y) = lit mir x \<union> lit mir y"
  by (auto simp: lit_def bit_or_iff)

subsection \<open>Properties\<close>

text \<open>A text as a display shows it: characters, each with or without a dot behind it.\<close>

fun cells :: "string \<Rightarrow> (char \<times> bool) list" where
  "cells [] = []"
| "cells [c] = [(c, False)]"
| "cells (c # d # t) = (if d = CHR ''.'' then (c, True) # cells t else (c, False) # cells (d # t))"

definition shown :: "string \<Rightarrow> nat \<Rightarrow> segment set" where
  "shown t k =
     (case drop k (cells t) of [] \<Rightarrow> {} | (c, dot) # _ \<Rightarrow> set (segs c) \<union> (if dot then {DP} else {}))"

lemma next_seg_cell:
  "cells (fst (next_seg t)) = tl (cells t)" "lit False (snd (next_seg t)) = shown t 0"
  by (cases t rule: cells.cases; simp add: next_seg_def shown_def lit_or lit_seg segs_def seg_table_def)+

lemma shown_next: "shown (fst (next_seg t)) k = shown t (Suc k)"
  by (simp add: shown_def next_seg_cell(1) drop_Suc)

text \<open>
  a seven-segment display shows the text. The block \<^verbatim>\<open>write\<close> sends has one byte for each of the four digits,
  between zeros, and the colon in the middle; the k-th digit lights exactly the segments of the k-th character of the
  text, with its dot if one follows, and nothing past the end of the text. A character lights the same segments in both
  wirings.
\<close>

theorem seven_segment_shows:
  "\<exists>d0 d1 d2 d3. seven_write colon t = [0, d0, 0, d1, 0, if colon then 2 else 0, 0, d2, 0, d3, 0] \<and>
     map (lit False) [d0, d1, d2, d3] = map (shown t) [0, 1, 2, 3] \<and>
     lit True (seg c True) = lit False (seg c False)"
proof -
  let ?n = "\<lambda>t. fst (next_seg t)"
  have "map (lit False) (map snd [next_seg t, next_seg (?n t), next_seg (?n (?n t)), next_seg (?n (?n (?n t)))]) =
      map (shown t) [0, 1, 2, 3]"
    by (simp add: next_seg_cell shown_next numeral_2_eq_2 numeral_3_eq_3)
  then show ?thesis
    by (simp add: seven_write_def split_beta Let_def lit_seg)
qed

text \<open>A write of \<^verbatim>\<open>SpiDevice\<close>, as \<open>spi_frame\<close> has it for a transfer.\<close>

lemma dev_write_frame:
  assumes "\<not> sel (spi_decode (spi_trace s))" "\<not> ck (spi_decode (spi_trace s))"
  shows "frames (spi_decode (spi_trace (snd (dev_write c ins xs s)))) =
      frames (spi_decode (spi_trace s)) @ [concat (map msb_bits xs)]"
    "\<not> sel (spi_decode (spi_trace (snd (dev_write c ins xs s))))" "\<not> ck (spi_decode (spi_trace (snd (dev_write c ins xs s))))"
proof -
  let ?d = "(spi_decode (spi_trace s))\<lparr>sel := True, shifted := []\<rparr>"
  obtain v where v: "fold spi_decode_step (concat (map (\<lambda>b. [Copi b, Ck True, Ck False]) (concat (map msb_bits xs)))) ?d =
      ?d\<lparr>copi := v, ck := False, shifted := concat (map msb_bits xs)\<rparr>"
    using spi_decode_bits [of ?d "concat (map msb_bits xs)"] assms(2) by auto
  have "spi_trace (snd (dev_write c ins xs s)) = spi_trace s @ [Cs False] @
      concat (map (\<lambda>b. [Copi b, Ck True, Ck False]) (concat (map msb_bits xs))) @ [Copi False, Cs True]"
    by (simp add: dev_write_def spi_write_def spi_bytes_result spi_set_def)
  then have "spi_decode (spi_trace (snd (dev_write c ins xs s))) =
      fold spi_decode_step [Copi False, Cs True] (?d\<lparr>copi := v, ck := False, shifted := concat (map msb_bits xs)\<rparr>)"
    using v assms(1) by (simp add: spi_decode_def)
  then show "frames (spi_decode (spi_trace (snd (dev_write c ins xs s)))) =
      frames (spi_decode (spi_trace s)) @ [concat (map msb_bits xs)]"
    "\<not> sel (spi_decode (spi_trace (snd (dev_write c ins xs s))))" "\<not> ck (spi_decode (spi_trace (snd (dev_write c ins xs s))))"
    by simp_all
qed

text \<open>The character a display of \<open>n\<close> places shows at place \<open>k\<close>.\<close>

definition char_at_place :: "string \<Rightarrow> nat \<Rightarrow> char" where
  "char_at_place t k = (if k < length t then t ! k else CHR '' '')"

lemma char_at_place_tl: "char_at_place (tl t) k = char_at_place t (Suc k)"
  by (cases t) (simp_all add: char_at_place_def)

lemma max_digits_frames:
  assumes "\<not> sel (spi_decode (spi_trace s))" "\<not> ck (spi_decode (spi_trace s))" "unat addr = n" "n \<le> 8"
  shows "frames (spi_decode (spi_trace (max_digits ins n addr t s))) = frames (spi_decode (spi_trace s)) @
      map (\<lambda>k. msb_bits (of_nat (n - k)) @ msb_bits (seg (char_at_place t k) True)) [0..<n] \<and>
    \<not> sel (spi_decode (spi_trace (max_digits ins n addr t s)))"
  using assms
proof (induction n arbitrary: addr t s)
  case 0
  then show ?case by simp
next
  case (Suc n)
  let ?s = "snd (max_write ins addr (seg (char_at_place t 0) True) s)"
  have first: "(case t of [] \<Rightarrow> CHR '' '' | c # _ \<Rightarrow> c) = char_at_place t 0" "(case t of [] \<Rightarrow> [] | _ # t \<Rightarrow> t) = tl t"
    by (cases t; simp add: char_at_place_def)+
  have a: "addr = of_nat (Suc n)" using Suc.prems(3) by (metis of_nat_unat ucast_id)
  have f: "frames (spi_decode (spi_trace ?s)) =
      frames (spi_decode (spi_trace s)) @ [msb_bits (of_nat (Suc n)) @ msb_bits (seg (char_at_place t 0) True)]"
    "\<not> sel (spi_decode (spi_trace ?s))" "\<not> ck (spi_decode (spi_trace ?s))"
    using dev_write_frame [OF Suc.prems(1,2), of True ins "[addr, seg (char_at_place t 0) True]"]
    by (simp_all add: max_write_def a)
  have "take_bit 8 n = n" using Suc.prems(4) by (intro take_bit_nat_eq_self) simp
  then have u: "unat (addr - 1) = n" by (simp add: a unsigned_of_nat)
  then have z: "addr - 1 < 1 \<longleftrightarrow> n = 0"
    by (simp add: word_less_nat_alt)
  have split: "map (\<lambda>k. msb_bits (of_nat (Suc n - k)) @ msb_bits (seg (char_at_place t k) True)) [0..<Suc n] =
      (msb_bits (of_nat (Suc n)) @ msb_bits (seg (char_at_place t 0) True)) #
      map (\<lambda>k. msb_bits (of_nat (n - k)) @ msb_bits (seg (char_at_place (tl t) k) True)) [0..<n]"
    by (simp add: upt_conv_Cons map_Suc_upt [symmetric] char_at_place_tl comp_def del: upt_Suc of_nat_Suc)
  show ?case
  proof (cases "n = 0")
    case True
    with f z first split show ?thesis by (simp add: Let_def)
  next
    case False
    with Suc.IH [OF f(2,3) u, of "tl t"] Suc.prems(4) f z first split show ?thesis
      by (simp add: Let_def del: upt_Suc of_nat_Suc)
  qed
qed

text \<open>
  \<^verbatim>\<open>MAX7219::write\<close> fills the eight digit registers from the left: eight frames on the SPI bus, register 8 down
  to 1, with the segments of the first eight characters, blanks behind the end of the text.
\<close>

theorem max7219_shows:
  assumes "\<not> sel (spi_decode (spi_trace s))" "\<not> ck (spi_decode (spi_trace s))"
  shows "frames (spi_decode (spi_trace (max_text ins t s))) = frames (spi_decode (spi_trace s)) @
    map (\<lambda>k. msb_bits (of_nat (8 - k)) @ msb_bits (seg (char_at_place t k) True)) [0..<8]"
  using max_digits_frames [OF assms, of 8 8 ins t] by (simp add: max_text_def)

theorem max7219_shows_witness:
  "frames (spi_decode (spi_trace (max_text (\<lambda>_. True) ''12'' \<lparr>spi_trace = [], spi_sampled = 0\<rparr>))) =
     map (\<lambda>(r, x). msb_bits r @ msb_bits x) [(8, 0x30), (7, 0x6d), (6, 0), (5, 0), (4, 0), (3, 0), (2, 0), (1, 0)]"
proof -
  have "map (\<lambda>k. msb_bits (of_nat (8 - k)) @ msb_bits (seg (char_at_place ''12'' k) True)) [0..<8] =
      map (\<lambda>(r, x). msb_bits r @ msb_bits x) [(8, 0x30), (7, 0x6d), (6, 0), (5, 0), (4, 0), (3, 0), (2, 0), (1, 0)]"
    by code_simp
  with max7219_shows [of "\<lparr>spi_trace = [], spi_sampled = 0\<rparr>" "\<lambda>_. True" "''12''"] show ?thesis
    by (simp add: spi_decode_def spi_idle_def)
qed

text \<open>
  \<^verbatim>\<open>TM1637::write\<close> is one transfer on the two-wire bus: the address command and, as long as the display acknowledges,
  the segments of the last places of the text, padded with blanks on the left.
\<close>

theorem tm1637_shows:
  assumes "decode (trace w) = idle" "all_acked ins (sampled w) 5"
  shows "seen (decode (trace (tm_text ins t w))) =
      [Start] @ concat (map lsb_syms (0xC0 # map (\<lambda>c. seg c False) (take 4 (pad_left 4 t)))) @ [Stop]"
proof -
  have len: "length (tm_block t) = 5" by (simp add: tm_block_def pad_left_def)
  obtain r rds w' where io: "tw_write_read ins (tm_block t) 0 w = (r, rds, w')"
    by (cases "tw_write_read ins (tm_block t) 0 w") auto
  have "sent ins (sampled w) (tm_block t) = tm_block t"
    using sent_append [of ins "sampled w" "tm_block t" "[]"] assms(2) by (simp add: len)
  with tw_transfer [OF assms(1) io] io show ?thesis
    by (simp add: tm_text_def tw_write_def) (simp add: tm_block_def)
qed

end
