(* ===== verification/Panels.thy ===== *)
theory Panels
  imports Prelude
begin

text \<open>
  Panels of pixels: the round OLED of drivers/oled_GC9A01A.cpp, and strips of coloured LEDs, as the ring of
  drivers/led_strip.cpp draws them and esp32/rmt_strip.cpp turns them into pulses.

  The OLED hangs on a chip select, a line that tells commands from data, and an SPI bus that carries whole
  blocks; the model keeps what the program does to them, in order. A listener written from the data sheet of the
  controller collects the commands and the data that belong to each.
\<close>

subsection \<open>OLED\<close>

datatype oled_ev = OCs bool | ODc bool | OLight bool | OReset bool | OBytes "u8 list" | OSleep nat

record oled =
  oled_trace :: "oled_ev list"
  owidth :: int
  oheight :: int

definition oled_do :: "oled_ev list \<Rightarrow> oled \<Rightarrow> oled" where
  "oled_do es p = p\<lparr>oled_trace := oled_trace p @ es\<rparr>"

definition oled_backlight :: "bool \<Rightarrow> oled \<Rightarrow> oled" where
  "oled_backlight on = oled_do [OLight on]"

definition oled_send :: "u8 \<Rightarrow> u8 list \<Rightarrow> oled \<Rightarrow> oled" where
  "oled_send cmd d =
     oled_do ([OCs True, ODc False, OCs False, OBytes [cmd], ODc True] @
       (if length d \<noteq> 0 then [OBytes d] else []) @ [OCs True, OCs False])"

text \<open>The table of \<^verbatim>\<open>init\<close>: command, number of bytes, bytes; a zero ends it.\<close>

definition initcmd :: "u8 list" where
  "initcmd =
    [0xEF, 0,
     0xEB, 1, 0x14,
     0xFE, 0,
     0xEF, 0,
     0xEB, 1, 0x14,
     0x84, 1, 0x40,
     0x85, 1, 0xFF,
     0x86, 1, 0xFF,
     0x87, 1, 0xFF,
     0x88, 1, 0x0A,
     0x89, 1, 0x21,
     0x8A, 1, 0x00,
     0x8B, 1, 0x80,
     0x8C, 1, 0x01,
     0x8D, 1, 0x01,
     0x8E, 1, 0xFF,
     0x8F, 1, 0xFF,
     0xB6, 2, 0x00, 0x20,
     0x36, 1, 0x08,
     0x3A, 1, 0x05,
     0x90, 4, 0x08, 0x08, 0x08, 0x08,
     0xBD, 1, 0x06,
     0xBC, 1, 0x00,
     0xFF, 3, 0x60, 0x01, 0x04,
     0xC3, 1, 0x13,
     0xC4, 1, 0x13,
     0xC9, 1, 0x22,
     0xBE, 1, 0x11,
     0xE1, 2, 0x10, 0x0E,
     0xDF, 3, 0x21, 0x0c, 0x02,
     0xF0, 6, 0x45, 0x09, 0x08, 0x08, 0x26, 0x2A,
     0xF1, 6, 0x43, 0x70, 0x72, 0x36, 0x37, 0x6F,
     0xF2, 6, 0x45, 0x09, 0x08, 0x08, 0x26, 0x2A,
     0xF3, 6, 0x43, 0x70, 0x72, 0x36, 0x37, 0x6F,
     0xED, 2, 0x1B, 0x0B,
     0xAE, 1, 0x77,
     0xCD, 1, 0x63,
     0x70, 9, 0x07, 0x07, 0x04, 0x0E, 0x0F, 0x09, 0x07, 0x08, 0x03,
     0xE8, 1, 0x34,
     0x62, 12, 0x18, 0x0D, 0x71, 0xED, 0x70, 0x70,
               0x18, 0x0F, 0x71, 0xEF, 0x70, 0x70,
     0x63, 12, 0x18, 0x11, 0x71, 0xF1, 0x70, 0x70,
               0x18, 0x13, 0x71, 0xF3, 0x70, 0x70,
     0x64, 7, 0x28, 0x29, 0xF1, 0x01, 0xF1, 0x00, 0x07,
     0x66, 10, 0x3C, 0x00, 0xCD, 0x67, 0x45, 0x45, 0x10, 0x00, 0x00, 0x00,
     0x67, 10, 0x00, 0x3C, 0x00, 0x00, 0x00, 0x01, 0x54, 0x10, 0x32, 0x98,
     0x74, 7, 0x10, 0x85, 0x80, 0x00, 0x00, 0x4E, 0x00,
     0x98, 2, 0x3e, 0x07,
     0x35, 0,
     0x21, 0,
     0x00]"

function oled_table :: "u8 list \<Rightarrow> oled \<Rightarrow> oled result" where
  "oled_table [] p = Inl OutOfBounds"
| "oled_table [c] p = (if c = 0 then Inr p else Inl OutOfBounds)"
| "oled_table (c # n # t) p =
     (if c = 0 then Inr p
      else if length t < unat n then Inl OutOfBounds
      else oled_table (drop (unat n) t) (oled_send c (take (unat n) t) p))"
  by pat_completeness auto
termination by (relation "measure (\<lambda>(t, _). length t)") auto

definition oled_reset :: "bool \<Rightarrow> oled \<Rightarrow> oled result" where
  "oled_reset has_re p =
     (if \<not> has_re then Inl AssertFailed
      else Inr (oled_do [OReset True, OSleep 150, OReset False, OSleep 150, OReset True, OSleep 150] p))"

definition oled_rotation :: "int \<Rightarrow> oled \<Rightarrow> oled result" where
  "oled_rotation n p =
     (if \<not> (n \<ge> 0 \<and> n < 4) then Inl AssertFailed
      else
        let d = (if n = 0 then 0x08 else if n = 1 then 0x40 OR 0x20 OR 0x08 else if n = 2 then 0x40 OR 0x80 OR 0x08
                 else 0x80 OR 0x20 OR 0x08)
        in Inr (oled_send 0x36 [d] (p\<lparr>owidth := 240, oheight := 240\<rparr>)))"

definition oled_init :: "bool \<Rightarrow> oled \<Rightarrow> oled result" where
  "oled_init has_re p =
     rbind (oled_reset has_re p) (\<lambda>p.
     rbind (oled_table initcmd p) (\<lambda>p.
       oled_rotation 0 (oled_send 0x29 [0x80] (oled_do [OSleep 5] (oled_send 0x11 [0x80] p)))))"

definition oled_invert :: "bool \<Rightarrow> oled \<Rightarrow> oled" where
  "oled_invert on = oled_send (if on then 0x21 else 0x20) []"

definition hi :: "u16 \<Rightarrow> u8" where "hi x = ucast (drop_bit 8 x)"

definition lo :: "u16 \<Rightarrow> u8" where "lo x = ucast x"

definition oled_window :: "u16 \<Rightarrow> u16 \<Rightarrow> u16 \<Rightarrow> u16 \<Rightarrow> oled \<Rightarrow> oled" where
  "oled_window x1 y1 w h p =
     (let x2 = x1 + w - 1; y2 = y1 + h - 1
      in oled_send 0x2C [] (oled_send 0x2B [hi y1, lo y1, hi y2, lo y2] (oled_send 0x2A [hi x1, lo x1, hi x2, lo x2] p)))"

text \<open>\<^verbatim>\<open>write\<close>: the pixels in blocks of at most 64 bytes.\<close>

function oled_blocks :: "u8 list \<Rightarrow> oled_ev list" where
  "oled_blocks d =
     (if length d = 0 then []
      else
        let block = (if length d < 64 then length d else 64)
        in OBytes (take block d) # oled_blocks (drop block d))"
  by pat_completeness auto
termination by (relation "measure length") (auto split: if_splits)

declare oled_blocks.simps [simp del]

definition oled_write :: "u8 list \<Rightarrow> oled \<Rightarrow> oled" where
  "oled_write d = oled_do ([ODc True, OCs False] @ oled_blocks d @ [OCs True, OCs False])"

subsection \<open>The listener\<close>

record listener =
  osel :: bool
  odata :: bool
  ocmds :: "(u8 \<times> u8 list) list"   \<comment> \<open>newest first\<close>

fun heard_data :: "u8 list \<Rightarrow> (u8 \<times> u8 list) list \<Rightarrow> (u8 \<times> u8 list) list" where
  "heard_data d [] = []"
| "heard_data d ((c, xs) # cs) = (c, xs @ d) # cs"

fun listen :: "oled_ev \<Rightarrow> listener \<Rightarrow> listener" where
  "listen (OCs v) l = l\<lparr>osel := \<not> v\<rparr>"
| "listen (ODc v) l = l\<lparr>odata := v\<rparr>"
| "listen (OBytes d) l =
     (if \<not> osel l then l
      else if odata l then l\<lparr>ocmds := heard_data d (ocmds l)\<rparr>
      else l\<lparr>ocmds := rev (map (\<lambda>c. (c, [])) d) @ ocmds l\<rparr>)"
| "listen _ l = l"

definition heard :: "oled \<Rightarrow> listener" where
  "heard p = fold listen (oled_trace p) \<lparr>osel = False, odata = False, ocmds = []\<rparr>"

lemma heard_do: "heard (oled_do es p) = fold listen es (heard p)"
  by (simp add: heard_def oled_do_def)

lemma heard_size [simp]: "heard (p\<lparr>owidth := x, oheight := y\<rparr>) = heard p"
  by (simp add: heard_def)

lemma heard_send:
  "heard (oled_send c d p) = \<lparr>osel = True, odata = True, ocmds = (c, d) # ocmds (heard p)\<rparr>"
  by (cases "heard p") (simp add: oled_send_def heard_do)

lemma heard_blocks:
  "osel l \<Longrightarrow> odata l \<Longrightarrow> fold listen (oled_blocks d) l = l\<lparr>ocmds := (if d = [] then ocmds l else heard_data d (ocmds l))\<rparr>"
proof (induction "length d" arbitrary: d l rule: less_induct)
  case less
  have hd: "heard_data ys (heard_data xs cs) = heard_data (xs @ ys) cs" for xs ys cs
    by (cases cs) auto
  show ?case
  proof (cases "length d < 64")
    case True
    then show ?thesis using less.prems
      by (cases "d = []") (simp_all add: oled_blocks.simps [of d] oled_blocks.simps [of "[]"])
  next
    case False
    then have "length (drop 64 d) < length d" "take 64 d @ drop 64 d = d" "d \<noteq> []" "take 64 d \<noteq> []" by auto
    with less.hyps [of "drop 64 d" "l\<lparr>ocmds := heard_data (take 64 d) (ocmds l)\<rparr>"] less.prems False show ?thesis
      by (auto simp: oled_blocks.simps [of d] Let_def hd)
  qed
qed

text \<open>Tables of commands, and what the initialisation makes of them.\<close>

fun table_of :: "(u8 \<times> u8 list) list \<Rightarrow> u8 list" where
  "table_of [] = []"
| "table_of ((c, d) # cs) = c # of_nat (length d) # d @ table_of cs"

definition table_ok :: "(u8 \<times> u8 list) list \<Rightarrow> bool" where
  "table_ok cs \<longleftrightarrow> (\<forall>(c, d) \<in> set cs. c \<noteq> 0 \<and> length d < 256)"

lemma oled_table_runs:
  "table_ok cs \<Longrightarrow>
   \<exists>p'. oled_table (table_of cs @ 0 # t) p = Inr p' \<and> ocmds (heard p') = rev cs @ ocmds (heard p)"
proof (induction cs arbitrary: p rule: table_of.induct)
  case 1
  then show ?case by (cases t) auto
next
  case (2 c d cs)
  then have ok: "c \<noteq> 0" "table_ok cs" "unat (of_nat (length d) :: u8) = length d"
    by (auto simp: table_ok_def unsigned_of_nat take_bit_nat_eq_self)
  from 2(1) [OF ok(2), of "oled_send c d p"] obtain p' where
    "oled_table (table_of cs @ 0 # t) (oled_send c d p) = Inr p'" "ocmds (heard p') = rev cs @ (c, d) # ocmds (heard p)"
    by (auto simp: heard_send)
  with ok show ?case by simp
qed

definition init_commands :: "(u8 \<times> u8 list) list" where
  "init_commands =
    [(0xEF, []), (0xEB, [0x14]), (0xFE, []), (0xEF, []), (0xEB, [0x14]), (0x84, [0x40]), (0x85, [0xFF]), (0x86, [0xFF]),
     (0x87, [0xFF]), (0x88, [0x0A]), (0x89, [0x21]), (0x8A, [0]), (0x8B, [0x80]), (0x8C, [1]), (0x8D, [1]), (0x8E, [0xFF]),
     (0x8F, [0xFF]), (0xB6, [0, 0x20]), (0x36, [8]), (0x3A, [5]), (0x90, [8, 8, 8, 8]), (0xBD, [6]), (0xBC, [0]),
     (0xFF, [0x60, 1, 4]), (0xC3, [0x13]), (0xC4, [0x13]), (0xC9, [0x22]), (0xBE, [0x11]), (0xE1, [0x10, 0x0E]),
     (0xDF, [0x21, 0x0C, 2]), (0xF0, [0x45, 9, 8, 8, 0x26, 0x2A]), (0xF1, [0x43, 0x70, 0x72, 0x36, 0x37, 0x6F]),
     (0xF2, [0x45, 9, 8, 8, 0x26, 0x2A]), (0xF3, [0x43, 0x70, 0x72, 0x36, 0x37, 0x6F]), (0xED, [0x1B, 0x0B]),
     (0xAE, [0x77]), (0xCD, [0x63]), (0x70, [7, 7, 4, 0x0E, 0x0F, 9, 7, 8, 3]), (0xE8, [0x34]),
     (0x62, [0x18, 0x0D, 0x71, 0xED, 0x70, 0x70, 0x18, 0x0F, 0x71, 0xEF, 0x70, 0x70]),
     (0x63, [0x18, 0x11, 0x71, 0xF1, 0x70, 0x70, 0x18, 0x13, 0x71, 0xF3, 0x70, 0x70]),
     (0x64, [0x28, 0x29, 0xF1, 1, 0xF1, 0, 7]), (0x66, [0x3C, 0, 0xCD, 0x67, 0x45, 0x45, 0x10, 0, 0, 0]),
     (0x67, [0, 0x3C, 0, 0, 0, 1, 0x54, 0x10, 0x32, 0x98]), (0x74, [0x10, 0x85, 0x80, 0, 0, 0x4E, 0]),
     (0x98, [0x3E, 7]), (0x35, []), (0x21, [])]"

lemma initcmd_table: "initcmd = table_of init_commands @ [0]" "table_ok init_commands"
  by code_simp+

text \<open>
  C0: the panel gets what the program means. Initialisation ends without leaving its table, and the controller has
  then heard exactly the commands of the table, each with its own bytes, and after them sleep out, display on and the
  orientation. A window set and pixels written reach it as the column and row addresses of the window's corners, high
  byte first, and all the pixels in order as data of the memory write.
\<close>

theorem oled_hears:
  "(\<exists>p'. oled_init True p = Inr p' \<and>
     rev (ocmds (heard p')) = rev (ocmds (heard p)) @ init_commands @ [(0x11, [0x80]), (0x29, [0x80]), (0x36, [0x08])]) \<and>
   rev (ocmds (heard (oled_write d (oled_window x y w h p)))) = rev (ocmds (heard p)) @
     [(0x2A, [hi x, lo x, hi (x + w - 1), lo (x + w - 1)]), (0x2B, [hi y, lo y, hi (y + h - 1), lo (y + h - 1)]), (0x2C, d)]"
proof
  let ?p = "oled_do [OReset True, OSleep 150, OReset False, OSleep 150, OReset True, OSleep 150] p"
  from oled_table_runs [OF initcmd_table(2), of "[]" ?p] obtain p' where
    "oled_table initcmd ?p = Inr p'" "ocmds (heard p') = rev init_commands @ ocmds (heard p)"
    unfolding initcmd_table(1) by (auto simp: heard_do)
  then show "\<exists>p'. oled_init True p = Inr p' \<and>
     rev (ocmds (heard p')) = rev (ocmds (heard p)) @ init_commands @ [(0x11, [0x80]), (0x29, [0x80]), (0x36, [0x08])]"
    by (simp add: oled_init_def oled_reset_def oled_rotation_def heard_send heard_do)
next
  show "rev (ocmds (heard (oled_write d (oled_window x y w h p)))) = rev (ocmds (heard p)) @
     [(0x2A, [hi x, lo x, hi (x + w - 1), lo (x + w - 1)]), (0x2B, [hi y, lo y, hi (y + h - 1), lo (y + h - 1)]), (0x2C, d)]"
    by (simp add: oled_write_def oled_window_def heard_do heard_send heard_blocks Let_def)
qed

subsection \<open>LED strips\<close>

text \<open>
  \<^verbatim>\<open>BaseRmt\<close>: one pulse for each bit of each LED. Of a pulse the model keeps whether it is the long one (\<^verbatim>\<open>on\<close>)
  or the short one (\<^verbatim>\<open>off\<close>); their durations are constants of the chip.
\<close>

datatype strip_type = SK68XX | WS2812B

record rmt_strip =
  nleds :: int
  bits_per_led :: nat
  stype_of :: strip_type
  pulses :: "bool list"

definition strip_init :: "nat \<Rightarrow> nat \<Rightarrow> strip_type \<Rightarrow> bool list \<Rightarrow> rmt_strip" where
  "strip_init n b ty junk = \<lparr>nleds = int n, bits_per_led = b, stype_of = ty, pulses = take (n * b) junk\<rparr>"

definition strip_rgb :: "u8 \<Rightarrow> u8 \<Rightarrow> u8 \<Rightarrow> u32" where
  "strip_rgb r g b = push_bit 16 (ucast (g AND 0xff)) + push_bit 8 (ucast (r AND 0xff)) + ucast (b AND 0xff)"

text \<open>The loop of \<^verbatim>\<open>set\<close>: from the bit of \<open>mask\<close> down, at the pulse \<open>i\<close>.\<close>

function strip_loop :: "u32 \<Rightarrow> u32 \<Rightarrow> nat \<Rightarrow> bool list \<Rightarrow> bool list result" where
  "strip_loop mk st i ps =
     (if mk = 0 then Inr ps
      else if \<not> i < length ps then Inl OutOfBounds
      else strip_loop (drop_bit 1 mk) st (i + 1) (ps[i := (st AND mk \<noteq> 0)]))"
  by pat_completeness auto
termination
proof (relation "measure (\<lambda>(mk, _). unat mk)", goal_cases)
  case (2 mk st i ps)
  then have "0 < unat mk" by (simp add: unat_gt_0)
  then have "unat mk div 2 < unat mk" by simp
  then show ?case by (simp add: drop_bit_eq_div unat_div)
qed simp

declare strip_loop.simps [simp del]

definition strip_set :: "int \<Rightarrow> u8 \<Rightarrow> u8 \<Rightarrow> u8 \<Rightarrow> rmt_strip \<Rightarrow> rmt_strip result" where
  "strip_set led r g b s =
     (if \<not> led \<ge> 0 then Inl AssertFailed
      else if \<not> led < nleds s then Inl AssertFailed
      else
        let i = nat led * bits_per_led s;
            mk = push_bit (bits_per_led s - 1) 1;
            st = (case stype_of s of SK68XX \<Rightarrow> strip_rgb g r b | WS2812B \<Rightarrow> strip_rgb r g b)
        in rbind (strip_loop mk st i (pulses s)) (\<lambda>ps. Inr (s\<lparr>pulses := ps\<rparr>)))"

fun strip_each :: "(int \<times> u8 \<times> u8 \<times> u8) list \<Rightarrow> rmt_strip \<Rightarrow> rmt_strip result" where
  "strip_each [] s = Inr s"
| "strip_each ((i, r, g, b) # xs) s = rbind (strip_set i r g b s) (strip_each xs)"

definition strip_set_all :: "u8 \<Rightarrow> u8 \<Rightarrow> u8 \<Rightarrow> rmt_strip \<Rightarrow> rmt_strip result" where
  "strip_set_all r g b s = strip_each (map (\<lambda>i. (i, r, g, b)) [0..nleds s - 1]) s"

text \<open>\<^verbatim>\<open>LedCircle\<close>: the colours to draw, one for each LED; two LEDs that share a hand of a clock.\<close>

record rgbw =
  rr :: u8
  gg :: u8
  bb :: u8
  ww :: u8

datatype colour = CR | CG | CB

record hand =
  idx0 :: nat
  bright0 :: u8
  idx1 :: nat
  bright1 :: u8

definition circle_paint :: "nat \<Rightarrow> (rgbw \<Rightarrow> rgbw) \<Rightarrow> rgbw list \<Rightarrow> rgbw list result" where
  "circle_paint i f c = (if i < length c then Inr (c[i := f (c ! i)]) else Inl OutOfBounds)"

definition circle_angle :: "colour \<Rightarrow> hand \<Rightarrow> rgbw list \<Rightarrow> rgbw list result" where
  "circle_angle col h c =
     (let put = (\<lambda>v x. case col of CR \<Rightarrow> x\<lparr>rr := v\<rparr> | CG \<Rightarrow> x\<lparr>gg := v\<rparr> | CB \<Rightarrow> x\<lparr>bb := v\<rparr>)
      in rbind (circle_paint (idx0 h) (put (bright0 h)) c) (circle_paint (idx1 h) (put (bright1 h))))"

definition circle_set :: "int \<Rightarrow> u8 \<Rightarrow> u8 \<Rightarrow> u8 \<Rightarrow> rgbw list \<Rightarrow> rgbw list result" where
  "circle_set i r g b c =
     (if \<not> i < int (length c) then Inl AssertFailed
      else if i < 0 then Inl OutOfBounds
      else Inr (c[nat i := \<lparr>rr = r, gg = g, bb = b, ww = 0\<rparr>]))"

definition circle_set_all :: "u8 \<Rightarrow> u8 \<Rightarrow> u8 \<Rightarrow> rgbw list \<Rightarrow> rgbw list" where
  "circle_set_all r g b c = map (\<lambda>_. \<lparr>rr = r, gg = g, bb = b, ww = 0\<rparr>) c"

definition circle_clear :: "rgbw list \<Rightarrow> rgbw list" where
  "circle_clear = circle_set_all 0 0 0"

definition circle_draw :: "rgbw list \<Rightarrow> rmt_strip \<Rightarrow> rmt_strip result" where
  "circle_draw c s = strip_each (map (\<lambda>i. (int i, rr (c ! i), gg (c ! i), bb (c ! i))) [0..<length c]) s"

subsection \<open>What the LEDs show\<close>

text \<open>An LED takes in its pulses, high bit first.\<close>

definition led_bits :: "rmt_strip \<Rightarrow> nat \<Rightarrow> bool list" where
  "led_bits s k = take (bits_per_led s) (drop (k * bits_per_led s) (pulses s))"

definition strip_ok :: "rmt_strip \<Rightarrow> bool" where
  "strip_ok s \<longleftrightarrow> 0 \<le> nleds s \<and> length (pulses s) = nat (nleds s) * bits_per_led s \<and>
     1 \<le> bits_per_led s \<and> bits_per_led s \<le> 32"

text \<open>The bits of a word as sent over \<open>n\<close> pulses.\<close>

definition word_bits :: "nat \<Rightarrow> u32 \<Rightarrow> bool list" where
  "word_bits n x = map (\<lambda>i. bit x (n - 1 - i)) [0..<n]"

lemma length_word_bits [simp]: "length (word_bits n x) = n"
  by (simp add: word_bits_def)

lemma word_bits_Suc: "word_bits (Suc n) x = bit x n # word_bits n x"
  by (simp add: word_bits_def upt_conv_Cons map_Suc_upt [symmetric] comp_def del: upt_Suc)

lemma bit_one: "n < 32 \<Longrightarrow> bit (push_bit n 1 :: u32) k \<longleftrightarrow> k = n"
  by (auto simp: push_bit_of_1 bit_exp_iff)

lemma strip_loop_bits:
  "n \<le> 32 \<Longrightarrow> i + n \<le> length ps \<Longrightarrow> mk = (if n = 0 then 0 else push_bit (n - 1) 1) \<Longrightarrow>
   strip_loop mk st i ps = Inr (take i ps @ word_bits n st @ drop (i + n) ps)"
proof (induction n arbitrary: mk i ps)
  case 0
  then show ?case by (simp add: strip_loop.simps [of 0] word_bits_def)
next
  case (Suc n)
  have mk: "mk = push_bit n 1" "mk \<noteq> 0"
    using Suc.prems bit_one [of n n] by auto
  have d: "drop_bit 1 mk = (if n = 0 then 0 else push_bit (n - 1) 1)"
  proof (cases n)
    case (Suc m)
    have "bit (drop_bit 1 (push_bit (Suc m) 1 :: u32)) k = bit (push_bit m 1 :: u32) k" for k
      using bit_one [of "Suc m" "1 + k"] bit_one [of m k] Suc.prems(1) Suc
      by (simp only: bit_drop_bit_eq comp_apply) simp
    then show ?thesis
      unfolding mk(1) Suc by (simp only: bit_eqI diff_Suc_1 nat.distinct if_False)
  qed (simp add: mk(1))
  let ?ps = "ps[i := bit st n]"
  have "strip_loop mk st i ps = strip_loop (drop_bit 1 mk) st (i + 1) ?ps"
    using Suc.prems mk by (subst strip_loop.simps) (simp add: and_exp_eq_0_iff_not_bit)
  also have "\<dots> = Inr (take (i + 1) ?ps @ word_bits n st @ drop (i + 1 + n) ?ps)"
  proof (rule Suc.IH)
    show "drop_bit 1 mk = (if n = 0 then 0 else push_bit (n - 1) 1)" by (rule d)
  qed (use Suc.prems in auto)
  also have "take (i + 1) ?ps = take i ps @ [bit st n]"
    using Suc.prems by (simp add: take_update_nth)
  finally show ?case by (simp add: word_bits_Suc)
qed

lemma nth_chunk: "j < b \<Longrightarrow> m + b \<le> length xs \<Longrightarrow> take b (drop m xs) ! j = xs ! (m + j)"
  by simp

lemma strip_set_ok:
  assumes "strip_ok s" "0 \<le> led" "led < nleds s"
  shows "\<exists>s'. strip_set led r g b s = Inr s' \<and> strip_ok s' \<and> nleds s' = nleds s \<and> bits_per_led s' = bits_per_led s \<and>
    stype_of s' = stype_of s \<and>
    led_bits s' (nat led) = word_bits (bits_per_led s) (case stype_of s of SK68XX \<Rightarrow> strip_rgb g r b | WS2812B \<Rightarrow> strip_rgb r g b) \<and>
    (\<forall>k < nat (nleds s). k \<noteq> nat led \<longrightarrow> led_bits s' k = led_bits s k)"
proof -
  let ?b = "bits_per_led s" and ?i = "nat led * bits_per_led s"
  let ?st = "case stype_of s of SK68XX \<Rightarrow> strip_rgb g r b | WS2812B \<Rightarrow> strip_rgb r g b"
  let ?ps = "take ?i (pulses s) @ word_bits ?b ?st @ drop (?i + ?b) (pulses s)"
  have len: "length (pulses s) = nat (nleds s) * ?b" "1 \<le> ?b" "?b \<le> 32" using assms(1) by (auto simp: strip_ok_def)
  have "(nat led + 1) * ?b \<le> nat (nleds s) * ?b" using assms(2,3) by (intro mult_right_mono) auto
  then have fit: "?i + ?b \<le> length (pulses s)" using len by (simp add: algebra_simps)
  then have "strip_set led r g b s = Inr (s\<lparr>pulses := ?ps\<rparr>)"
    using assms(2,3) len strip_loop_bits [of ?b ?i "pulses s" "push_bit (?b - 1) 1" ?st]
    by (simp add: strip_set_def Let_def)
  moreover have "strip_ok (s\<lparr>pulses := ?ps\<rparr>)"
    using assms(1) fit by (simp add: strip_ok_def)
  moreover have "led_bits (s\<lparr>pulses := ?ps\<rparr>) (nat led) = word_bits ?b ?st"
    using fit by (simp add: led_bits_def)
  moreover have "led_bits (s\<lparr>pulses := ?ps\<rparr>) k = led_bits s k" if nk: "k < nat (nleds s)" and ne: "k \<noteq> nat led" for k
  proof (rule nth_equalityI)
    have "(k + 1) * ?b \<le> nat (nleds s) * ?b" using nk by (intro mult_right_mono) auto
    then have k: "k * ?b + ?b \<le> length (pulses s)" using len(1) by (simp add: algebra_simps)
    have sz: "length ?ps = length (pulses s)" using fit by simp
    have bits: "led_bits (s\<lparr>pulses := ps\<rparr>) k = take ?b (drop (k * ?b) ps)" "led_bits s k = take ?b (drop (k * ?b) (pulses s))"
      for ps by (simp_all add: led_bits_def)
    show "length (led_bits (s\<lparr>pulses := ?ps\<rparr>) k) = length (led_bits s k)"
      by (simp only: bits length_take length_drop sz)
    fix j
    assume "j < length (led_bits (s\<lparr>pulses := ?ps\<rparr>) k)"
    then have j: "j < ?b" by (simp only: bits length_take min_less_iff_conj)
    consider "k + 1 \<le> nat led" | "nat led + 1 \<le> k" using ne by linarith
    then have "?ps ! (k * ?b + j) = pulses s ! (k * ?b + j)"
    proof cases
      case 1
      then have "(k + 1) * ?b \<le> ?i" by (intro mult_right_mono) auto
      with j have "k * ?b + j < ?i" by (simp add: algebra_simps)
      then show ?thesis using fit by (simp add: nth_append)
    next
      case 2
      then have "(nat led + 1) * ?b \<le> k * ?b" by (intro mult_right_mono) auto
      then have "?i + ?b \<le> k * ?b + j" by (simp add: algebra_simps)
      then obtain m where m: "k * ?b + j = ?i + ?b + m" using le_Suc_ex by blast
      show ?thesis unfolding m using fit m k j by (simp add: nth_append)
    qed
    then show "led_bits (s\<lparr>pulses := ?ps\<rparr>) k ! j = led_bits s k ! j"
      using nth_chunk [OF j, of "k * ?b" ?ps] nth_chunk [OF j k] k by (simp only: bits sz)
  qed
  ultimately show ?thesis by auto
qed

lemma strip_each_ok:
  assumes "strip_ok s" "\<forall>(i, _) \<in> set xs. 0 \<le> i \<and> i < nleds s" "distinct (map fst xs)"
  shows "\<exists>s'. strip_each xs s = Inr s' \<and> strip_ok s' \<and> nleds s' = nleds s \<and> bits_per_led s' = bits_per_led s \<and>
    stype_of s' = stype_of s \<and>
    (\<forall>(i, r, g, b) \<in> set xs. led_bits s' (nat i) =
       word_bits (bits_per_led s) (case stype_of s of SK68XX \<Rightarrow> strip_rgb g r b | WS2812B \<Rightarrow> strip_rgb r g b)) \<and>
    (\<forall>k < nat (nleds s). int k \<notin> fst ` set xs \<longrightarrow> led_bits s' k = led_bits s k)"
  using assms
proof (induction xs s rule: strip_each.induct)
  case 1
  then show ?case by auto
next
  case (2 i r g b xs s)
  then have i: "0 \<le> i" "i < nleds s" by auto
  from strip_set_ok [OF 2(2) i, of r g b] obtain s1 where s1: "strip_set i r g b s = Inr s1" "strip_ok s1"
    "nleds s1 = nleds s" "bits_per_led s1 = bits_per_led s" "stype_of s1 = stype_of s"
    "led_bits s1 (nat i) = word_bits (bits_per_led s) (case stype_of s of SK68XX \<Rightarrow> strip_rgb g r b | WS2812B \<Rightarrow> strip_rgb r g b)"
    "\<forall>k < nat (nleds s). k \<noteq> nat i \<longrightarrow> led_bits s1 k = led_bits s k" by blast
  from 2(1) [OF s1(1,2)] 2(3,4) s1(3) obtain s2 where s2: "strip_each xs s1 = Inr s2" "strip_ok s2"
    "nleds s2 = nleds s" "bits_per_led s2 = bits_per_led s" "stype_of s2 = stype_of s"
    "\<forall>(i, r, g, b) \<in> set xs. led_bits s2 (nat i) =
       word_bits (bits_per_led s) (case stype_of s of SK68XX \<Rightarrow> strip_rgb g r b | WS2812B \<Rightarrow> strip_rgb r g b)"
    "\<forall>k < nat (nleds s). int k \<notin> fst ` set xs \<longrightarrow> led_bits s2 k = led_bits s1 k"
    using s1(4,5) by auto
  have "nat i < nat (nleds s)" "int (nat i) \<notin> fst ` set xs" using i 2(4) by auto
  with s2(7) s1(6) have "led_bits s2 (nat i) =
      word_bits (bits_per_led s) (case stype_of s of SK68XX \<Rightarrow> strip_rgb g r b | WS2812B \<Rightarrow> strip_rgb r g b)" by metis
  moreover have "led_bits s2 k = led_bits s k" if "k < nat (nleds s)" "int k \<notin> fst ` set ((i, r, g, b) # xs)" for k
    using that s2(7) s1(7) i by force
  ultimately show ?case using s1(1) s2 by auto
qed

text \<open>
  what is drawn on the ring is what its LEDs take in. On a strip with as many LEDs as the ring has colours,
  \<^verbatim>\<open>draw\<close> never leaves the array of pulses, and each LED then has its colour as its bits, high bit first: green, red,
  blue on a WS2812B and red, green, blue on a SK68XX.
\<close>

theorem ring_is_drawn:
  assumes "strip_ok s" "nleds s = int (length c)"
  shows "\<exists>s'. circle_draw c s = Inr s' \<and> strip_ok s' \<and>
    (\<forall>k < length c. led_bits s' k = word_bits (bits_per_led s)
       (case stype_of s of SK68XX \<Rightarrow> strip_rgb (gg (c ! k)) (rr (c ! k)) (bb (c ! k))
        | WS2812B \<Rightarrow> strip_rgb (rr (c ! k)) (gg (c ! k)) (bb (c ! k))))"
proof -
  let ?xs = "map (\<lambda>i. (int i, rr (c ! i), gg (c ! i), bb (c ! i))) [0..<length c]"
  have "\<forall>(i, _) \<in> set ?xs. 0 \<le> i \<and> i < nleds s" "distinct (map fst ?xs)"
    using assms(2) by (auto simp: distinct_map comp_def inj_on_def)
  from strip_each_ok [OF assms(1) this] obtain s' where s': "strip_each ?xs s = Inr s'" "strip_ok s'"
    "\<forall>(i, r, g, b) \<in> set ?xs. led_bits s' (nat i) =
       word_bits (bits_per_led s) (case stype_of s of SK68XX \<Rightarrow> strip_rgb g r b | WS2812B \<Rightarrow> strip_rgb r g b)" by blast
  have "(int k, rr (c ! k), gg (c ! k), bb (c ! k)) \<in> set ?xs" if "k < length c" for k using that by auto
  with s'(3) have "led_bits s' k = word_bits (bits_per_led s)
      (case stype_of s of SK68XX \<Rightarrow> strip_rgb (gg (c ! k)) (rr (c ! k)) (bb (c ! k))
       | WS2812B \<Rightarrow> strip_rgb (rr (c ! k)) (gg (c ! k)) (bb (c ! k)))" if "k < length c" for k
    using that by fastforce
  with s'(1,2) show ?thesis by (auto simp: circle_draw_def)
qed

theorem ring_is_drawn_witness:
  "\<exists>s'. circle_draw [\<lparr>rr = 1, gg = 0x80, bb = 0, ww = 0\<rparr>] (strip_init 1 24 WS2812B (replicate 24 False)) = Inr s' \<and>
    led_bits s' 0 = True # replicate 14 False @ True # replicate 8 False"
proof -
  let ?s = "strip_init 1 24 WS2812B (replicate 24 False)"
  have "strip_ok ?s" "nleds ?s = int (length [\<lparr>rr = 1, gg = 0x80, bb = 0, ww = (0 :: u8)\<rparr>])"
    by (simp_all add: strip_ok_def strip_init_def)
  note ring_is_drawn [OF this]
  moreover have "word_bits 24 (strip_rgb 1 0x80 0) = True # replicate 14 False @ True # replicate 8 False"
    by code_simp
  ultimately show ?thesis by (auto simp: strip_init_def)
qed

end
