(* ===== verification/Barometer.thy ===== *)
theory Barometer
  imports Prelude Complex_Main
begin

text \<open>
  The BMP280 barometer (drivers/bmp280.cpp). Its compensation is done in signed integers of 32 and 64 bits, where an overflow is
  undefined: every operation that could overflow goes through a check of its width, and \<open>None\<close> is an overflow. A
  shift to the right of a negative number rounds down, as every compiler the program is built with has it. The final
  scaling into floating point is left out.
\<close>

subsection \<open>Signed arithmetic\<close>

definition chk :: "nat \<Rightarrow> int \<Rightarrow> int option" where
  "chk w x = (if - (2 ^ (w - 1)) \<le> x \<and> x < 2 ^ (w - 1) then Some x else None)"

abbreviation c32 :: "int \<Rightarrow> (int \<Rightarrow> 'b option) \<Rightarrow> 'b option" where
  "c32 x f \<equiv> Option.bind (chk 32 x) f"

abbreviation c64 :: "int \<Rightarrow> (int \<Rightarrow> 'b option) \<Rightarrow> 'b option" where
  "c64 x f \<equiv> Option.bind (chk 64 x) f"

lemma c32_fits: "\<bar>x\<bar> < 2 ^ 31 \<Longrightarrow> c32 x f = f x"
  by (auto simp: chk_def)

lemma c64_fits: "\<bar>x\<bar> < 2 ^ 63 \<Longrightarrow> c64 x f = f x"
  by (auto simp: chk_def)

definition trunc_quot :: "int \<Rightarrow> int \<Rightarrow> int" where
  "trunc_quot a b = sgn a * sgn b * (\<bar>a\<bar> div \<bar>b\<bar>)"

subsection \<open>BMP280\<close>

record bmp_cal =
  dig_T1 :: u16
  dig_T2 :: u16
  dig_T3 :: u16
  dig_P1 :: u16
  dig_P2 :: u16
  dig_P3 :: u16
  dig_P4 :: u16
  dig_P5 :: u16
  dig_P6 :: u16
  dig_P7 :: u16
  dig_P8 :: u16
  dig_P9 :: u16

definition get_16 :: "u8 list \<Rightarrow> nat \<Rightarrow> u16" where
  "get_16 d i = ucast (d ! i) + push_bit 8 (ucast (d ! (i + 1)))"

definition get_24 :: "u8 list \<Rightarrow> nat \<Rightarrow> u32" where
  "get_24 d i =
     (let r = ucast (d ! i); r = push_bit 8 r; r = r + ucast (d ! (i + 1)); r = push_bit 4 r
      in r + drop_bit 4 (ucast (d ! (i + 2))))"

text \<open>\<^verbatim>\<open>compensate_T\<close>: the temperature in hundredths of a degree, and \<^verbatim>\<open>t_fine\<close>.\<close>

definition compensate_T :: "bmp_cal \<Rightarrow> int \<Rightarrow> (int \<times> int) option" where
  "compensate_T c adc =
     (let T1 = uint (dig_T1 c); T2 = sint (dig_T2 c); T3 = sint (dig_T3 c) in
      c32 (adc div 2 ^ 3 - T1 * 2) (\<lambda>a.
      c32 (a * T2) (\<lambda>m.
      let var1 = m div 2 ^ 11 in
      c32 (adc div 2 ^ 4 - T1) (\<lambda>d.
      c32 (d * d) (\<lambda>m.
      c32 (m div 2 ^ 12 * T3) (\<lambda>m.
      let var2 = m div 2 ^ 14 in
      c32 (var1 + var2) (\<lambda>t_fine.
      c32 (t_fine * 5) (\<lambda>m.
      c32 (m + 128) (\<lambda>m.
      Some (m div 2 ^ 8, t_fine))))))))))"

text \<open>\<^verbatim>\<open>compensate_P\<close>: the pressure in 1/256 Pa.\<close>

definition compensate_P :: "bmp_cal \<Rightarrow> int \<Rightarrow> int \<Rightarrow> u32 option" where
  "compensate_P c t_fine adc =
     (let P1 = uint (dig_P1 c); P2 = sint (dig_P2 c); P3 = sint (dig_P3 c); P4 = sint (dig_P4 c); P5 = sint (dig_P5 c);
          P6 = sint (dig_P6 c); P7 = sint (dig_P7 c); P8 = sint (dig_P8 c); P9 = sint (dig_P9 c) in
      c64 (t_fine - 128000) (\<lambda>var1.
      c64 (var1 * var1) (\<lambda>sq.
      c64 (sq * P6) (\<lambda>var2.
      c64 (var1 * P5) (\<lambda>m.
      c64 (m * 2 ^ 17) (\<lambda>m.
      c64 (var2 + m) (\<lambda>var2.
      c64 (P4 * 2 ^ 35) (\<lambda>m.
      c64 (var2 + m) (\<lambda>var2.
      c64 (sq * P3) (\<lambda>m3.
      c64 (var1 * P2) (\<lambda>m.
      c64 (m * 2 ^ 12) (\<lambda>m.
      c64 (m3 div 2 ^ 8 + m) (\<lambda>var1.
      c64 (2 ^ 47 + var1) (\<lambda>var1.
      c64 (var1 * P1) (\<lambda>m.
      let var1 = m div 2 ^ 33 in
      if var1 = 0 then Some 0
      else
      c32 (1048576 - adc) (\<lambda>p.
      c64 (p * 2 ^ 31) (\<lambda>p.
      c64 (p - var2) (\<lambda>p.
      c64 (p * 3125) (\<lambda>p.
      let p = trunc_quot p var1 in
      c64 (P9 * (p div 2 ^ 13)) (\<lambda>m.
      c64 (m * (p div 2 ^ 13)) (\<lambda>m.
      let var1 = m div 2 ^ 25 in
      c64 (P8 * p) (\<lambda>m.
      let var2 = m div 2 ^ 19 in
      c64 (p + var1) (\<lambda>q.
      c64 (q + var2) (\<lambda>q.
      c64 (P7 * 2 ^ 4) (\<lambda>m.
      c64 (q div 2 ^ 8 + m) (\<lambda>p.
      Some (word_of_int p)))))))))))))))))))))))))))"

text \<open>
  The bus: \<open>wr block\<close> writes and answers how many bytes went, \<open>rd block n\<close> writes, reads
  into a buffer of \<open>n\<close> bytes, and answers how many came and the buffer.
\<close>

definition bmp_read_cal :: "(u8 list \<Rightarrow> nat \<Rightarrow> 's \<Rightarrow> int \<times> u8 list \<times> 's) \<Rightarrow> 's \<Rightarrow> bmp_cal option \<times> 's" where
  "bmp_read_cal rd s =
     (let (n, d, s) = rd [0x88] 26 s
      in if n \<noteq> 26 then (None, s)
         else
           (Some \<lparr>dig_T1 = get_16 d 0, dig_T2 = get_16 d 2, dig_T3 = get_16 d 4, dig_P1 = get_16 d 6, dig_P2 = get_16 d 8,
              dig_P3 = get_16 d 10, dig_P4 = get_16 d 12, dig_P5 = get_16 d 14, dig_P6 = get_16 d 16, dig_P7 = get_16 d 18,
              dig_P8 = get_16 d 20, dig_P9 = get_16 d 22\<rparr>, s))"

definition bmp_get_id :: "(u8 list \<Rightarrow> nat \<Rightarrow> 's \<Rightarrow> int \<times> u8 list \<times> 's) \<Rightarrow> 's \<Rightarrow> u8 \<times> 's" where
  "bmp_get_id rd s = (let (n, d, s) = rd [0xD0] 1 s in (case d of [] \<Rightarrow> 0 | x # _ \<Rightarrow> x, s))"

definition bmp_probe :: "(u8 list \<Rightarrow> 's \<Rightarrow> int \<times> 's) \<Rightarrow> 's \<Rightarrow> bool \<times> 's" where
  "bmp_probe wr s = (let (n, s) = wr [0] s in (n = 1, s))"

fun bmp_pairs :: "(u8 list \<Rightarrow> 's \<Rightarrow> int \<times> 's) \<Rightarrow> (u8 \<times> u8) list \<Rightarrow> 's \<Rightarrow> bool \<times> 's" where
  "bmp_pairs wr [] s = (True, s)"
| "bmp_pairs wr ((r, d) # ps) s =
     (if r = 0 then (True, s)
      else let (n, s) = wr [r, d] s in if n \<noteq> 2 then (False, s) else bmp_pairs wr ps s)"

definition bmp_init ::
    "(u8 list \<Rightarrow> 's \<Rightarrow> int \<times> 's) \<Rightarrow> (u8 list \<Rightarrow> nat \<Rightarrow> 's \<Rightarrow> int \<times> u8 list \<times> 's) \<Rightarrow> 's \<Rightarrow> bmp_cal option \<times> 's" where
  "bmp_init wr rd s =
     (let (i, s) = bmp_get_id rd s
      in if i \<noteq> 0x58 then (None, s)
         else
           let (ok, s) = bmp_pairs wr [(0xE0, 0xb6), (0xf4, 0x27), (0xf5, 0x00), (0, 0)] s
           in if \<not> ok then (None, s) else bmp_read_cal rd s)"

text \<open>
  \<^verbatim>\<open>read\<close>: raw values, compensated. Its answer compares the number of bytes read with the size of a pointer
  (\<open>ptr\<close> bytes on the target) and one: it reads 6.
\<close>

definition bmp_read ::
    "nat \<Rightarrow> bmp_cal \<Rightarrow> (u8 list \<Rightarrow> nat \<Rightarrow> 's \<Rightarrow> int \<times> u8 list \<times> 's) \<Rightarrow> 's \<Rightarrow> (bool \<times> int \<times> u32 option) option \<times> 's" where
  "bmp_read ptr c rd s =
     (let (n, d, s) = rd [0xf7] 6 s;
          p_adc = get_24 d 0; t_adc = get_24 d 3
      in (Option.bind (compensate_T c (sint t_adc)) (\<lambda>(t, t_fine).
            Some (n = int ptr + 1, t, compensate_P c t_fine (sint p_adc))), s))"

lemma bmp_read_refuses:
  assumes "rd [0xf7] 6 s = (6, d, s')" "ptr = 4 \<or> ptr = 8" "bmp_read ptr c rd s = (Some (ok, r), s'')"
  shows "\<not> ok"
  using assms by (auto simp: bmp_read_def Let_def bind_eq_Some_conv)

text \<open>The raw values have 20 bits.\<close>

lemma get_24_value: "uint (get_24 d i) = uint (d ! i) * 2 ^ 12 + uint (d ! (i + 1)) * 2 ^ 4 + uint (d ! (i + 2)) div 2 ^ 4"
proof -
  have b: "uint x < 256" "0 \<le> uint x" for x :: u8 using uint_lt2p [of x] by simp_all
  have u: "uint (ucast x :: u32) = uint x" for x :: u8
    using b [of x] by (simp add: unsigned_ucast_eq take_bit_int_eq_self)
  have "uint (drop_bit 4 (ucast (d ! (i + 2)) :: u32)) = uint (d ! (i + 2)) div 16"
    by (simp add: drop_bit_eq_div uint_div u)
  note q = this
  have add: "uint (x + y) = uint x + uint y" if "uint x + uint y < 2 ^ 32" for x y :: u32
    using that by (simp add: uint_word_ariths)
  have mul: "uint (x * y) = uint x * uint y" if "uint x * uint y < 2 ^ 32" for x y :: u32
    using that by (simp add: uint_word_ariths)
  have "uint (ucast (d ! i) * 256 :: u32) = uint (d ! i) * 256"
    using b [of "d ! i"] by (subst mul) (simp_all add: u)
  then have "uint (ucast (d ! i) * 256 + ucast (d ! (i + 1)) :: u32) = uint (d ! i) * 256 + uint (d ! (i + 1))"
    using b [of "d ! i"] b [of "d ! (i + 1)"] by (subst add) (simp_all add: u)
  then have "uint ((ucast (d ! i) * 256 + ucast (d ! (i + 1))) * 16 :: u32) = (uint (d ! i) * 256 + uint (d ! (i + 1))) * 16"
    using b [of "d ! i"] b [of "d ! (i + 1)"] by (subst mul) simp_all
  then have "uint ((ucast (d ! i) * 256 + ucast (d ! (i + 1))) * 16 + drop_bit 4 (ucast (d ! (i + 2))) :: u32) =
      (uint (d ! i) * 256 + uint (d ! (i + 1))) * 16 + uint (d ! (i + 2)) div 16"
    using b [of "d ! i"] b [of "d ! (i + 1)"] b [of "d ! (i + 2)"] q by (subst add) simp_all
  then show ?thesis by (simp add: get_24_def Let_def push_bit_eq_mult)
qed

subsection \<open>The temperature\<close>

text \<open>The calibrations the data sheet expects (its example is 27504, 26435, -1000), and its formula.\<close>

definition usual_T :: "bmp_cal \<Rightarrow> bool" where
  "usual_T c \<longleftrightarrow> 26000 \<le> uint (dig_T1 c) \<and> uint (dig_T1 c) \<le> 29000 \<and>
     \<bar>sint (dig_T2 c)\<bar> \<le> 27000 \<and> \<bar>sint (dig_T3 c)\<bar> \<le> 1100"

definition exact_fine :: "bmp_cal \<Rightarrow> int \<Rightarrow> real" where
  "exact_fine c adc =
     (let T1 = real_of_int (uint (dig_T1 c)); T2 = real_of_int (sint (dig_T2 c)); T3 = real_of_int (sint (dig_T3 c));
          x = real_of_int adc
      in (x / 8 - 2 * T1) * T2 / 2048 + (x / 16 - T1)\<^sup>2 * T3 / 67108864)"

lemma div_real: "0 < n \<Longrightarrow> real_of_int m / real_of_int n - 1 < real_of_int (m div n) \<and> real_of_int (m div n) \<le> real_of_int m / real_of_int n"
  unfolding floor_divide_of_int_eq [symmetric, where ?'a = real] by linarith

lemma abs_prod_le: "\<bar>x\<bar> \<le> a \<Longrightarrow> \<bar>y\<bar> \<le> b \<Longrightarrow> \<bar>x * y\<bar> \<le> a * b" for x y :: "'a::linordered_idom"
  by (auto simp: abs_mult intro: mult_mono)

lemma first_term:
  fixes adc T1 T2 :: int
  assumes "\<bar>T2\<bar> \<le> 27000"
  shows "\<bar>real_of_int ((adc div 8 - T1 * 2) * T2 div 2048) - (real_of_int adc / 8 - 2 * real_of_int T1) * real_of_int T2 / 2048\<bar> \<le> 15"
proof -
  let ?x = "real_of_int adc / 8" and ?A = "real_of_int (adc div 8)" and ?t = "real_of_int T2"
  have x: "\<bar>?x - ?A\<bar> \<le> 1" using div_real [of 8 adc] by simp
  have t: "\<bar>?t\<bar> \<le> 27000" using assms by linarith
  from abs_prod_le [OF x t] have "\<bar>(?x - ?A) * ?t\<bar> \<le> 27000" by simp
  then have e: "\<bar>(?x - 2 * real_of_int T1) * ?t - real_of_int ((adc div 8 - T1 * 2) * T2)\<bar> \<le> 27000"
    by (simp add: algebra_simps)
  show ?thesis
    using e div_real [of 2048 "(adc div 8 - T1 * 2) * T2"] by (simp add: abs_le_iff divide_simps)
qed

lemma second_term:
  fixes adc T1 T3 :: int
  assumes "0 \<le> adc" "adc < 2 ^ 20" "26000 \<le> T1" "T1 \<le> 29000" "\<bar>T3\<bar> \<le> 1100"
  shows "\<bar>real_of_int ((adc div 16 - T1) * (adc div 16 - T1) div 4096 * T3 div 16384) -
      (real_of_int adc / 16 - real_of_int T1)\<^sup>2 * real_of_int T3 / 67108864\<bar> \<le> 3"
proof -
  let ?y = "real_of_int adc / 16" and ?B = "real_of_int (adc div 16)" and ?T = "real_of_int T1" and ?t = "real_of_int T3"
  let ?d = "adc div 16 - T1" and ?q = "(adc div 16 - T1) * (adc div 16 - T1) div 4096"
  have y: "\<bar>?y - ?B\<bar> \<le> 1" using div_real [of 16 adc] by simp
  have t: "\<bar>?t\<bar> \<le> 1100" using assms(5) by linarith
  have "0 \<le> adc div 16" "adc div 16 \<le> 65535" using assms(1,2) by auto
  then have "\<bar>?y + ?B - 2 * ?T\<bar> \<le> 80000" using y assms(3,4) by linarith
  from abs_prod_le [OF y this] have "\<bar>(?y - ?B) * (?y + ?B - 2 * ?T)\<bar> \<le> 80000" by simp
  moreover have "(?y - ?B) * (?y + ?B - 2 * ?T) = (?y - ?T)\<^sup>2 - real_of_int (?d * ?d)"
    by (simp add: power2_eq_square algebra_simps)
  ultimately have sq: "\<bar>(?y - ?T)\<^sup>2 - real_of_int (?d * ?d)\<bar> \<le> 80000" by simp
  then have "\<bar>(?y - ?T)\<^sup>2 / 4096 - real_of_int ?q\<bar> \<le> 21"
    using div_real [of 4096 "?d * ?d"] by (simp add: abs_le_iff divide_simps)
  from abs_prod_le [OF this t] have "\<bar>(?y - ?T)\<^sup>2 * ?t / 4096 - real_of_int (?q * T3)\<bar> \<le> 23100"
    by (simp add: algebra_simps)
  then show ?thesis
    using div_real [of 16384 "?q * T3"] by (simp add: abs_le_iff divide_simps)
qed

lemma compensate_T_runs:
  assumes "usual_T c" "0 \<le> adc" "adc < 2 ^ 20"
  shows "let T1 = uint (dig_T1 c); T2 = sint (dig_T2 c); T3 = sint (dig_T3 c);
      f = (adc div 8 - T1 * 2) * T2 div 2048 + (adc div 16 - T1) * (adc div 16 - T1) div 4096 * T3 div 16384
    in compensate_T c adc = Some ((f * 5 + 128) div 256, f)"
proof -
  let ?T1 = "uint (dig_T1 c)" and ?T2 = "sint (dig_T2 c)" and ?T3 = "sint (dig_T3 c)"
  let ?a = "adc div 8 - ?T1 * 2" and ?d = "adc div 16 - ?T1"
  let ?v1 = "?a * ?T2 div 2048" and ?v2 = "?d * ?d div 4096 * ?T3 div 16384"
  have r: "0 \<le> adc div 8" "adc div 8 \<le> 131071" "0 \<le> adc div 16" "adc div 16 \<le> 65535" using assms(2,3) by auto
  have T: "26000 \<le> ?T1" "?T1 \<le> 29000" "\<bar>?T2\<bar> \<le> 27000" "\<bar>?T3\<bar> \<le> 1100" using assms(1) by (auto simp: usual_T_def)
  have a: "\<bar>?a\<bar> \<le> 79071" and d: "\<bar>?d\<bar> \<le> 39535" using r T by linarith+
  have p1: "\<bar>?a * ?T2\<bar> \<le> 2134917000" using abs_prod_le [OF a T(3)] by simp
  have dd: "\<bar>?d * ?d\<bar> \<le> 1563016225" using abs_prod_le [OF d d] by simp
  moreover have "\<bar>x div 4096\<bar> \<le> 381596" if "\<bar>x\<bar> \<le> 1563016225" for x :: int using that by linarith
  ultimately have "\<bar>?d * ?d div 4096\<bar> \<le> 381596" by blast
  from abs_prod_le [OF this T(4)] have p2: "\<bar>?d * ?d div 4096 * ?T3\<bar> \<le> 419755600" by simp
  have "\<bar>x div 2048\<bar> \<le> 1042441" if "\<bar>x\<bar> \<le> 2134917000" for x :: int using that by linarith
  moreover have "\<bar>x div 16384\<bar> \<le> 25621" if "\<bar>x\<bar> \<le> 419755600" for x :: int using that by linarith
  ultimately have v: "\<bar>?v1\<bar> \<le> 1042441" "\<bar>?v2\<bar> \<le> 25621" using p1 p2 by blast+
  have "\<bar>x + y\<bar> < 2 ^ 31 \<and> \<bar>(x + y) * 5\<bar> < 2 ^ 31 \<and> \<bar>(x + y) * 5 + 128\<bar> < 2 ^ 31"
    if "\<bar>x\<bar> \<le> 1042441" "\<bar>y\<bar> \<le> 25621" for x y :: int
    using that by (auto simp: abs_le_iff abs_less_iff)
  from this [OF v]
  have s: "\<bar>?v1 + ?v2\<bar> < 2 ^ 31" "\<bar>(?v1 + ?v2) * 5\<bar> < 2 ^ 31" "\<bar>(?v1 + ?v2) * 5 + 128\<bar> < 2 ^ 31"
    by blast+
  have w: "\<bar>x\<bar> < 2 ^ 31" if "\<bar>x\<bar> \<le> k" "k < 2147483648" for x k :: int using that by simp
  have b: "\<bar>?a\<bar> < 2 ^ 31" "\<bar>?a * ?T2\<bar> < 2 ^ 31" "\<bar>?d\<bar> < 2 ^ 31" "\<bar>?d * ?d\<bar> < 2 ^ 31" "\<bar>?d * ?d div 4096 * ?T3\<bar> < 2 ^ 31"
    by (rule w [OF a] w [OF p1] w [OF d] w [OF dd] w [OF p2], simp)+
  have "(2 :: int) ^ 3 = 8" "(2 :: int) ^ 11 = 2048" "(2 :: int) ^ 4 = 16" "(2 :: int) ^ 12 = 4096" "(2 :: int) ^ 14 = 16384"
    "(2 :: int) ^ 8 = 256" by simp_all
  note n = this
  show ?thesis
    unfolding compensate_T_def Let_def n
    by (simp only: c32_fits b s)
qed

lemma add_errors: "\<bar>a - x\<bar> \<le> d \<Longrightarrow> \<bar>b - y\<bar> \<le> e \<Longrightarrow> \<bar>(a + b) - (x + y)\<bar> \<le> d + e" for a b :: real
  by linarith

lemma scaled_error:
  "\<bar>real_of_int f - e\<bar> \<le> 18 \<Longrightarrow> \<bar>real_of_int ((f * 5 + 128) div 256) - (e * 5 / 256 + 1 / 2)\<bar> \<le> 3 / 2"
  using div_real [of 256 "f * 5 + 128"] by (simp add: abs_le_iff divide_simps)

text \<open>
  the barometer's temperature is right and its arithmetic safe: for a calibration as the data sheet expects it
  and every raw value of 20 bits, no operation of 32 bits overflows, and the result is within 1.5 hundredths of a
  degree of the exact formula.
\<close>

theorem bmp_temperature_accurate:
  assumes "usual_T c" "0 \<le> adc" "adc < 2 ^ 20"
  shows "\<exists>T t_fine. compensate_T c adc = Some (T, t_fine) \<and>
    \<bar>real_of_int T - (exact_fine c adc * 5 / 256 + 1 / 2)\<bar> \<le> 3 / 2"
proof -
  let ?T1 = "uint (dig_T1 c)" and ?T2 = "sint (dig_T2 c)" and ?T3 = "sint (dig_T3 c)"
  let ?f = "(adc div 8 - ?T1 * 2) * ?T2 div 2048 + (adc div 16 - ?T1) * (adc div 16 - ?T1) div 4096 * ?T3 div 16384"
  have T: "26000 \<le> ?T1" "?T1 \<le> 29000" "\<bar>?T2\<bar> \<le> 27000" "\<bar>?T3\<bar> \<le> 1100" using assms(1) by (auto simp: usual_T_def)
  have "\<bar>real_of_int ?f - exact_fine c adc\<bar> \<le> 15 + 3"
    unfolding exact_fine_def Let_def of_int_add
    by (rule add_errors [OF first_term [OF T(3)] second_term [OF assms(2,3) T(1,2,4)]])
  then have "\<bar>real_of_int ?f - exact_fine c adc\<bar> \<le> 18" by (rule order_trans) simp
  note scaled_error [OF this]
  with compensate_T_runs [OF assms] show ?thesis unfolding Let_def by blast
qed

theorem bmp_temperature_accurate_witness:
  "\<exists>T t_fine. compensate_T \<lparr>dig_T1 = 27504, dig_T2 = 26435, dig_T3 = - 1000, dig_P1 = 36477, dig_P2 = - 10685, dig_P3 = 3024,
      dig_P4 = 2855, dig_P5 = 140, dig_P6 = - 7, dig_P7 = 15500, dig_P8 = - 14600, dig_P9 = 6000\<rparr> 519888 = Some (T, t_fine) \<and>
    T \<in> {2507..2510}"
proof -
  let ?c = "\<lparr>dig_T1 = 27504, dig_T2 = 26435, dig_T3 = - 1000, dig_P1 = 36477, dig_P2 = - 10685, dig_P3 = 3024,
      dig_P4 = 2855, dig_P5 = 140, dig_P6 = - 7, dig_P7 = 15500, dig_P8 = - 14600, dig_P9 = 6000 :: u16\<rparr>"
  have s: "sint (26435 :: u16) = 26435" "sint (- 1000 :: u16) = - 1000" by simp_all
  then have "usual_T ?c" by (simp add: usual_T_def)
  from bmp_temperature_accurate [OF this, of 519888] obtain T t_fine where
    T: "compensate_T ?c 519888 = Some (T, t_fine)" "\<bar>real_of_int T - (exact_fine ?c 519888 * 5 / 256 + 1 / 2)\<bar> \<le> 3 / 2"
    by auto
  have "2508 \<le> exact_fine ?c 519888 * 5 / 256 + 1 / 2" "exact_fine ?c 519888 * 5 / 256 + 1 / 2 \<le> 2509"
    using s by (simp_all add: exact_fine_def power2_eq_square)
  with T(2) have "2507 \<le> T" "T \<le> 2510" by linarith+
  with T(1) show ?thesis by auto
qed

subsection \<open>The pressure\<close>

lemma c64I:
  "\<bar>x\<bar> \<le> k \<Longrightarrow> k < 2 ^ 63 \<Longrightarrow> (\<And>y. y = x \<Longrightarrow> \<bar>y\<bar> \<le> k \<Longrightarrow> \<exists>r. f y = Some r) \<Longrightarrow> \<exists>r. c64 x f = Some r"
  by (simp add: c64_fits)

lemma c32I:
  "\<bar>x\<bar> \<le> k \<Longrightarrow> k < 2 ^ 31 \<Longrightarrow> (\<And>y. y = x \<Longrightarrow> \<bar>y\<bar> \<le> k \<Longrightarrow> \<exists>r. f y = Some r) \<Longrightarrow> \<exists>r. c32 x f = Some r"
  by (simp add: c32_fits)

lemma abs_div_le: "\<bar>x\<bar> \<le> a \<Longrightarrow> \<bar>x div 2 ^ n\<bar> \<le> a div 2 ^ n + 1" for x a :: int
proof -
  assume "\<bar>x\<bar> \<le> a"
  then have "x div 2 ^ n \<le> a div 2 ^ n" "- a div 2 ^ n \<le> x div 2 ^ n" by (auto intro: zdiv_mono1)
  moreover have "- (a div 2 ^ n) - 1 \<le> - a div 2 ^ n" by (simp add: zdiv_zminus1_eq_if)
  ultimately show ?thesis by linarith
qed

lemma abs_add_le: "\<bar>x\<bar> \<le> a \<Longrightarrow> \<bar>y\<bar> \<le> b \<Longrightarrow> \<bar>x + y\<bar> \<le> a + b" for x y :: int by linarith

lemma abs_diff_le: "\<bar>x\<bar> \<le> a \<Longrightarrow> \<bar>y\<bar> \<le> b \<Longrightarrow> \<bar>x - y\<bar> \<le> a + b" for x y :: int by linarith

lemma abs_shift_le: "\<bar>x\<bar> \<le> a \<Longrightarrow> \<bar>x * 2 ^ n\<bar> \<le> a * 2 ^ n" for x :: int
  by (simp add: abs_mult)

lemmas magnitudes = abs_shift_le abs_prod_le abs_div_le abs_add_le abs_diff_le

lemma abs_quot_le:
  assumes "\<bar>p\<bar> \<le> k" "0 < l" "l \<le> v"
  shows "\<bar>trunc_quot p v\<bar> \<le> k div l"
proof -
  have "\<bar>p\<bar> div v \<le> k div l"
    using assms by (meson abs_ge_zero div_le_mono2 order_trans zdiv_mono1 zdiv_mono2 less_le_trans)
  moreover have "\<bar>trunc_quot p v\<bar> \<le> \<bar>p\<bar> div v"
    using assms by (auto simp: trunc_quot_def abs_mult sgn_if pos_imp_zdiv_nonneg_iff)
  ultimately show ?thesis by linarith
qed

lemma let_sameI: "\<exists>r. f x = Some r \<Longrightarrow> \<exists>r. Let x f = Some r"
  by (simp add: Let_def)

lemma let_boundI:
  "\<bar>x\<bar> \<le> k \<Longrightarrow> (\<And>y. y = x \<Longrightarrow> \<bar>y\<bar> \<le> k \<Longrightarrow> \<exists>r. f y = Some r) \<Longrightarrow> \<exists>r. Let x f = Some r"
  by (simp add: Let_def)

lemma if_someI: "(\<exists>r. x = Some r) \<Longrightarrow> \<exists>r. (if b then Some y else x) = Some r"
  by simp

definition usual_P :: "bmp_cal \<Rightarrow> bool" where
  "usual_P c \<longleftrightarrow> 30000 \<le> uint (dig_P1 c) \<and> uint (dig_P1 c) \<le> 45000 \<and> \<bar>sint (dig_P2 c)\<bar> \<le> 12000 \<and>
     \<bar>sint (dig_P3 c)\<bar> \<le> 3500 \<and> \<bar>sint (dig_P4 c)\<bar> \<le> 5000 \<and> \<bar>sint (dig_P5 c)\<bar> \<le> 500 \<and> \<bar>sint (dig_P6 c)\<bar> \<le> 20 \<and>
     \<bar>sint (dig_P7 c)\<bar> \<le> 32768 \<and> \<bar>sint (dig_P8 c)\<bar> \<le> 16000 \<and> \<bar>sint (dig_P9 c)\<bar> \<le> 7000"

text \<open>
  C34: nor does the pressure overflow its 64 bits, or divide by zero, for a calibration as the data sheet expects it,
  any raw value of 20 bits, and temperatures from -40 to 85 degrees, the range the chip is made for.
\<close>

theorem bmp_pressure_safe:
  assumes "usual_P c" "- 204800 \<le> t_fine" "t_fine \<le> 435200" "0 \<le> adc" "adc < 2 ^ 20"
  shows "\<exists>p. compensate_P c t_fine adc = Some p"
proof -
  let ?P1 = "uint (dig_P1 c)"
  have P: "\<bar>?P1\<bar> \<le> 45000" "30000 \<le> ?P1" "\<bar>sint (dig_P2 c)\<bar> \<le> 12000" "\<bar>sint (dig_P3 c)\<bar> \<le> 3500" "\<bar>sint (dig_P4 c)\<bar> \<le> 5000"
    "\<bar>sint (dig_P5 c)\<bar> \<le> 500" "\<bar>sint (dig_P6 c)\<bar> \<le> 20" "\<bar>sint (dig_P7 c)\<bar> \<le> 32768" "\<bar>sint (dig_P8 c)\<bar> \<le> 16000"
    "\<bar>sint (dig_P9 c)\<bar> \<le> 7000"
    using assms(1) by (auto simp: usual_P_def)
  have t: "\<bar>t_fine - 128000\<bar> \<le> 332800" and a: "\<bar>1048576 - adc\<bar> \<le> 1048576" using assms by auto
  have two: "\<bar>2 ^ 47 :: int\<bar> \<le> 140737488355328" "\<bar>3125 :: int\<bar> \<le> 3125" by simp_all
  have low: "400000000 \<le> m div 2 ^ 33" if "v = 2 ^ 47 + w" "\<bar>w\<bar> \<le> 20000000000000" "m = v * ?P1" for v w m :: int
  proof -
    from that have "120000000000000 \<le> v" by auto
    with P(2) have "120000000000000 * 30000 \<le> m" unfolding that(3) by (intro mult_mono) auto
    then show ?thesis by simp
  qed
  show ?thesis
    unfolding compensate_P_def
    apply (rule let_sameI)+
    apply (rule c64I, rule t, simp (no_asm))
    apply (rule c64I, rule magnitudes, assumption, assumption, simp (no_asm))
    apply (rule c64I, rule magnitudes, assumption, rule P, simp (no_asm))
    apply (rule c64I, rule magnitudes, assumption, rule P, simp (no_asm))
    apply (rule c64I, rule abs_shift_le, assumption, simp (no_asm))
    apply (rule c64I, rule abs_add_le, assumption, assumption, simp (no_asm))
    apply (rule c64I, rule abs_shift_le, rule P, simp (no_asm))
    apply (rule c64I, rule abs_add_le, assumption, assumption, simp (no_asm))
    apply (rule c64I, rule magnitudes, assumption, rule P, simp (no_asm))
    apply (rule c64I, rule magnitudes, assumption, rule P, simp (no_asm))
    apply (rule c64I, rule abs_shift_le, assumption, simp (no_asm))
    apply (rule c64I, rule abs_add_le, rule abs_div_le, assumption, assumption, simp (no_asm))
    apply (rule c64I, rule abs_add_le, rule two, assumption, simp (no_asm))
    apply (rule c64I, rule abs_prod_le, assumption, rule P(1), simp (no_asm))
    apply (rule let_sameI, rule if_someI)
    apply (rule c32I, rule a, simp (no_asm))
    apply (rule c64I, rule abs_shift_le, assumption, simp (no_asm))
    apply (rule c64I, rule abs_diff_le, assumption, assumption, simp (no_asm))
    apply (rule c64I, rule abs_prod_le, assumption, rule two, simp (no_asm))
    apply (rule let_boundI, rule abs_quot_le, assumption)
      prefer 2
      apply (rule low, assumption, erule order_trans, simp (no_asm), assumption)
     apply (simp (no_asm))
    apply (rule c64I, rule abs_prod_le, rule P, rule abs_div_le, assumption, simp (no_asm))
    apply (rule c64I, rule abs_prod_le, assumption, rule abs_div_le, assumption, simp (no_asm))
    apply (rule let_boundI, rule abs_div_le, assumption)
    apply (rule c64I, rule abs_prod_le, rule P, assumption, simp (no_asm))
    apply (rule let_boundI, rule abs_div_le, assumption)
    apply (rule c64I, rule abs_add_le, assumption, assumption, simp (no_asm))
    apply (rule c64I, rule abs_add_le, assumption, assumption, simp (no_asm))
    apply (rule c64I, rule abs_shift_le, rule P, simp (no_asm))
    apply (rule c64I, rule abs_add_le, rule abs_div_le, assumption, assumption, simp (no_asm))
    apply (rule exI, rule refl)
    done
qed

text \<open>The data sheet's example.\<close>

theorem bmp_pressure_safe_witness:
  "\<exists>p. compensate_P \<lparr>dig_T1 = 27504, dig_T2 = 26435, dig_T3 = - 1000, dig_P1 = 36477, dig_P2 = - 10685, dig_P3 = 3024,
      dig_P4 = 2855, dig_P5 = 140, dig_P6 = - 7, dig_P7 = 15500, dig_P8 = - 14600, dig_P9 = 6000\<rparr> 128422 415148 = Some p"
  by (rule bmp_pressure_safe) (simp_all add: usual_P_def)

end
