(* ===== verification/Converters.thy ===== *)
theory Converters
  imports TimeEvents Buses
begin

text \<open>
  The MCP3002 converter (drivers/mcp3002.cpp), the MCP6S9x amplifier (drivers/mcp6s91.cpp), the AMG88xx camera
  (drivers/amg88xx.cpp) and the DS18B20 thermometer (drivers/ds18b20.cpp), each over a bus that is a parameter.
\<close>

subsection \<open>MCP3002 and MCP6S9x\<close>

text \<open>\<open>io cmd\<close> exchanges as many bytes: whether it worked, and what came back.\<close>

definition mcp3002_read :: "(u8 list \<Rightarrow> 's \<Rightarrow> bool \<times> u8 list \<times> 's) \<Rightarrow> u8 \<Rightarrow> 's \<Rightarrow> (u16 \<times> 's) result" where
  "mcp3002_read io chan s =
     (if \<not> chan < 2 then Inl AssertFailed
      else
        let (ok, rd, s) = io [0x68 + push_bit 4 chan, 0] s
        in if \<not> ok then Inl AssertFailed
           else Inr (push_bit 8 (ucast (rd ! 0) AND 3) + ucast (rd ! 1), s))"

definition gain_table :: "(u8 \<times> u8) list" where
  "gain_table = [(7, 32), (6, 16), (5, 10), (4, 8), (3, 5), (2, 4), (1, 2), (0, 1), (0, 0)]"

fun gain_scan :: "u8 \<Rightarrow> (u8 \<times> u8) list \<Rightarrow> (u8 \<times> u8) option" where
  "gain_scan g [] = None"
| "gain_scan g ((code, gn) # t) = (if gn = 0 then None else if g \<ge> gn then Some (code, gn) else gain_scan g t)"

text \<open>\<^verbatim>\<open>set_gain\<close>: the answer, the new gain, and what is written.\<close>

definition set_gain :: "u8 \<Rightarrow> u8 \<Rightarrow> (u8 \<times> u8 \<times> u8 list) result" where
  "set_gain gain g =
     (if gain = 0 then Inl AssertFailed
      else case gain_scan g gain_table of
        Some (code, gn) \<Rightarrow> Inr (gn, gn, [0x40 + 0, code])
      | None \<Rightarrow> Inr (0, gain, []))"

definition set_chan :: "u8 \<Rightarrow> u8 list" where
  "set_chan chan = [0x40 + 1, chan]"

lemma mcp3002_reads:
  assumes "chan < 2" "io [if chan = 0 then 0x68 else 0x78, 0] s = (True, [hi, lo], s')"
  shows "mcp3002_read io chan s = Inr (of_nat ((unat hi mod 4) * 256 + unat lo), s')"
proof -
  have "chan = 0 \<or> chan = 1"
    using assms(1) by (auto simp: word_less_nat_alt word_unat_eq_iff)
  then have c: "(104 :: u8) + push_bit 4 chan = (if chan = 0 then 0x68 else 0x78)" by auto
  have h: "unat hi < 256" by (rule order_less_le_trans [OF unsigned_less]) simp
  have "(ucast hi :: u16) AND 3 = ucast hi mod 4"
    using take_bit_eq_mask [of 2 "ucast hi :: u16"] by (simp add: take_bit_eq_mod mask_eq_exp_minus_1)
  moreover have "(ucast hi :: u16) mod 4 = of_nat (unat hi mod 4)"
    using h by (intro word_unat_eq_iff [THEN iffD2])
      (simp add: unat_mod unsigned_ucast_eq unsigned_of_nat take_bit_nat_def)
  moreover have "(ucast lo :: u16) = of_nat (unat lo)" by (metis of_nat_unat ucast_id)
  ultimately have "push_bit 8 ((ucast hi :: u16) AND 3) + ucast lo = of_nat ((unat hi mod 4) * 256 + unat lo)"
    by (simp add: push_bit_eq_mult)
  then show ?thesis using assms by (simp add: mcp3002_read_def c)
qed

text \<open>The gains the amplifier has, and the code of each.\<close>

lemma gain_is_best:
  assumes "gain \<noteq> 0" "set_gain gain g = Inr (r, gain', out)"
  shows "(g = 0 \<longrightarrow> r = 0 \<and> gain' = gain \<and> out = []) \<and>
    (g \<noteq> 0 \<longrightarrow> gain' = r \<and> r \<le> g \<and> (\<exists>code. (code, r) \<in> set gain_table \<and> out = [0x40, code]) \<and>
      (\<forall>(c, x) \<in> set gain_table. x \<le> g \<longrightarrow> x \<le> r))"
proof -
  have one: "1 \<le> g" if "g \<noteq> 0" using that by (simp add: word_le_nat_alt unat_gt_0 Suc_le_eq)
  show ?thesis
    using assms one by (auto simp: set_gain_def gain_table_def not_le split: if_splits intro: less_imp_le order.strict_trans1)
qed

subsection \<open>AMG88xx\<close>

text \<open>The bus answers how many bytes it read. \<^verbatim>\<open>init\<close>: the messages it writes; their outcome is not looked at.\<close>

definition amg_read_frame :: "(u8 list \<Rightarrow> nat \<Rightarrow> 's \<Rightarrow> (int \<times> u8 list \<times> 's) result) \<Rightarrow> nat \<Rightarrow> 's \<Rightarrow> (bool \<times> u8 list \<times> 's) result" where
  "amg_read_frame wr_rd len s =
     (case wr_rd [0x80] len s of Inl e \<Rightarrow> Inl e | Inr (n, d, s) \<Rightarrow> Inr (n = int len + 1, d, s))"

definition amg_probe :: "(nat \<Rightarrow> 's \<Rightarrow> bool \<times> 's) \<Rightarrow> 's \<Rightarrow> bool \<times> 's" where
  "amg_probe pr s = pr 2 s"

definition amg_init :: "(u8 list \<Rightarrow> 's \<Rightarrow> 's) \<Rightarrow> 's \<Rightarrow> 's" where
  "amg_init wr s = fold wr [[0, 0], [2, 0]] (wr [1, 0x3f] s)"

text \<open>
  The bit-banged bus answers the number of bytes read, without the command: a frame it delivers whole
  is reported as a failure.
\<close>

lemma amg_never_ok:
  assumes "amg_read_frame (i2c_write_read ins addr) len w = Inr (ok, d, w')"
  shows "\<not> ok"
  using assms by (auto simp: amg_read_frame_def i2c_write_read_def Let_def split: sum.splits prod.splits if_splits)

subsection \<open>DS18B20\<close>

datatype resolution = R_9_BIT | R_10_BIT | R_11_BIT | R_12_BIT

text \<open>The temperature is kept in sixteenths of a degree, which are exact in the source's floating point.\<close>

record ds18 =
  dev_addr :: u64
  resolution :: resolution
  req_time :: u32
  temperature :: int

definition ds18_new :: "u64 \<Rightarrow> ds18" where
  "ds18_new address = \<lparr>dev_addr = address, resolution = R_12_BIT, req_time = 0, temperature = 85 * 16\<rparr>"

definition addr_bytes :: "u64 \<Rightarrow> u8 list" where
  "addr_bytes a = map (\<lambda>i. ucast (drop_bit (8 * i) a)) [0..<8]"

text \<open>The wire: reset, write and read change its state \<open>'s\<close>.\<close>

record 's one_wire =
  ow_reset :: "'s \<Rightarrow> bool \<times> 's"
  ow_write :: "u8 list \<Rightarrow> 's \<Rightarrow> bool \<times> 's"
  ow_read :: "nat \<Rightarrow> 's \<Rightarrow> u8 list \<times> 's"
  ow_crc8 :: "u8 list \<Rightarrow> u8"

definition ds_command :: "'s one_wire \<Rightarrow> ds18 \<Rightarrow> u8 list \<Rightarrow> 's \<Rightarrow> bool \<times> 's" where
  "ds_command ow d buff s =
     (let (ok, s) = ow_reset ow s
      in if \<not> ok then (False, s)
         else
           let (ok, s) = ow_write ow (0x55 # addr_bytes (dev_addr d)) s
           in if \<not> ok then (False, s) else ow_write ow buff s)"

definition ds_start_conversion :: "'s one_wire \<Rightarrow> u32 \<Rightarrow> ds18 \<Rightarrow> 's \<Rightarrow> bool \<times> ds18 \<times> 's" where
  "ds_start_conversion ow now d s =
     (let d = d\<lparr>req_time := now\<rparr>; (ok, s) = ds_command ow d [0x44] s in (ok, d, s))"

fun ds_wait :: "resolution \<Rightarrow> u32" where
  "ds_wait R_9_BIT = 10"
| "ds_wait R_10_BIT = 20"
| "ds_wait R_11_BIT = 40"
| "ds_wait R_12_BIT = 80"

definition ds_ready :: "u32 \<Rightarrow> ds18 \<Rightarrow> bool" where
  "ds_ready now d = time_elapsed now (req_time d) (ds_wait (resolution d))"

text \<open>What one unit of the reading is worth, in sixteenths of a degree.\<close>

fun ds_mul :: "resolution \<Rightarrow> int" where
  "ds_mul R_9_BIT = 8"
| "ds_mul R_10_BIT = 4"
| "ds_mul R_11_BIT = 2"
| "ds_mul R_12_BIT = 1"

definition ds_value :: "u8 list \<Rightarrow> int" where
  "ds_value rx = sint (ucast (rx ! 0) + push_bit 8 (ucast (rx ! 1)) :: u16)"

definition ds_read :: "'s one_wire \<Rightarrow> ds18 \<Rightarrow> 's \<Rightarrow> int option \<times> 's" where
  "ds_read ow d s =
     (let (ok, s) = ow_reset ow s
      in if \<not> ok then (None, s)
         else
           let (_, s) = ds_command ow d [0xbe] s;
               (rx, s) = ow_read ow 9 s
           in (if ow_crc8 ow rx \<noteq> 0 then None else Some (ds_mul (resolution d) * ds_value rx), s))"

definition ds_get_temp :: "'s one_wire \<Rightarrow> u32 \<Rightarrow> ds18 \<Rightarrow> 's \<Rightarrow> int option \<times> ds18 \<times> 's" where
  "ds_get_temp ow now d s =
     (if \<not> ds_ready now d then (None, d, s)
      else case ds_read ow d s of
        (None, s) \<Rightarrow> (None, d, s)
      | (Some t, s) \<Rightarrow>
          let d = d\<lparr>temperature := t\<rparr>
          in if t \<ge> 85 * 16 then (None, d, s) else (Some t, d, s))"

fun ds_code :: "resolution \<Rightarrow> u8" where
  "ds_code R_9_BIT = 0x1F"
| "ds_code R_10_BIT = 0x3F"
| "ds_code R_11_BIT = 0x5F"
| "ds_code R_12_BIT = 0x7F"

definition ds_set_resolution :: "'s one_wire \<Rightarrow> resolution \<Rightarrow> ds18 \<Rightarrow> 's \<Rightarrow> bool \<times> ds18 \<times> 's" where
  "ds_set_resolution ow r d s =
     (let d = d\<lparr>resolution := r\<rparr>; (ok, s) = ds_command ow d [0x4e, 0, 0, ds_code r] s in (ok, d, s))"

definition ds_init :: "'s one_wire \<Rightarrow> u32 \<Rightarrow> ds18 \<Rightarrow> 's \<Rightarrow> bool \<times> ds18 \<times> 's" where
  "ds_init ow now d s =
     (let (ok, s) = ow_reset ow s
      in if \<not> ok then (False, d, s)
         else
           let (ok, d, s) = ds_set_resolution ow (resolution d) d s
           in if \<not> ok then (False, d, s) else ds_start_conversion ow now d s)"

text \<open>\<^verbatim>\<open>init_ds18b20\<close>: \<open>wire\<close> is what the table of objects holds under the name, \<open>found\<close> what its search for a
  device of code 0x28 gives.\<close>

definition init_ds18b20 ::
    "'s one_wire option \<Rightarrow> (u8 \<Rightarrow> 's \<Rightarrow> u64 option \<times> 's) \<Rightarrow> u32 \<Rightarrow> 's \<Rightarrow> (ds18 option \<times> 's)" where
  "init_ds18b20 wire found now s =
     (case wire of None \<Rightarrow> (None, s)
      | Some ow \<Rightarrow>
          (case found 0x28 s of
             (None, s) \<Rightarrow> (None, s)
           | (Some a, s) \<Rightarrow>
               let (ok, d, s) = ds_init ow now (ds18_new a) s
               in if \<not> ok then (None, s) else (Some d, s)))"

text \<open>
  The devices on a wire, \<open>found\<close> in this order by the search at its start, and \<^verbatim>\<open>find\<close>: the first device
  of a type. Nothing marks a device as taken.
\<close>

definition ow_scan :: "u64 list \<Rightarrow> u64 list" where
  "ow_scan found = fold (#) found []"

definition ow_find :: "u64 list \<Rightarrow> u8 \<Rightarrow> u64 option" where
  "ow_find devs type = find (\<lambda>a. a AND 0xff = ucast type) devs"

text \<open>The device, by its data sheet: it listens to its own address, and each command.\<close>

record ds_slave =
  rom :: u64
  selected :: bool
  answering :: bool
  sensed :: u16
  latched :: u16
  config :: u8

definition slave_reset :: "ds_slave \<Rightarrow> bool \<times> ds_slave" where
  "slave_reset sl = (True, sl\<lparr>selected := False, answering := False\<rparr>)"

definition slave_write :: "u8 list \<Rightarrow> ds_slave \<Rightarrow> bool \<times> ds_slave" where
  "slave_write xs sl =
     (True,
      if \<not> selected sl then sl\<lparr>selected := (xs = 0x55 # addr_bytes (rom sl))\<rparr>
      else if xs = [0x44] then sl\<lparr>latched := sensed sl\<rparr>
      else if xs = [0xbe] then sl\<lparr>answering := True\<rparr>
      else if length xs = 4 \<and> hd xs = 0x4e then sl\<lparr>config := last xs\<rparr>
      else sl)"

definition slave_read :: "(u8 list \<Rightarrow> u8) \<Rightarrow> nat \<Rightarrow> ds_slave \<Rightarrow> u8 list \<times> ds_slave" where
  "slave_read crc n sl =
     (let b = [ucast (latched sl), ucast (drop_bit 8 (latched sl)), 0, 0, config sl, 0xff, 0, 0x10]
      in (take n (if answering sl then b @ [crc b] else replicate n 0xff), sl))"

definition slave_wire :: "(u8 list \<Rightarrow> u8) \<Rightarrow> ds_slave one_wire" where
  "slave_wire crc = \<lparr>ow_reset = slave_reset, ow_write = slave_write, ow_read = slave_read crc, ow_crc8 = crc\<rparr>"

lemma word_of_bytes: "ucast (ucast w :: u8) + push_bit 8 (ucast (ucast (drop_bit 8 w) :: u8)) = w" for w :: u16
proof -
  have w: "unat w < 65536" by (rule order_less_le_trans [OF unsigned_less]) simp
  have u: "unat (ucast x :: u16) = unat x" for x :: u8
    using unsigned_less [of x, where ?'a = nat] by (simp add: unsigned_ucast_eq take_bit_nat_eq_self)
  have "unat (ucast w :: u8) = unat w mod 256" "unat (ucast (drop_bit 8 w) :: u8) = unat w div 256"
    using w by (simp_all add: unsigned_ucast_eq take_bit_nat_def drop_bit_eq_div unat_div unsigned_drop_bit_eq)
  then have "unat (ucast (ucast w :: u8) + push_bit 8 (ucast (ucast (drop_bit 8 w) :: u8)) :: u16) = unat w"
    using w by (simp add: push_bit_eq_mult unat_word_ariths u)
  then show ?thesis by (simp add: word_unat_eq_iff)
qed

text \<open>
  a thermometer brought up on a wire it was found on measures: its first conversion starts with
  it; for 80 ticks of the clock, across its wrap, it answers nothing; then the temperature that was sensed, in
  sixteenths of a degree, unless that is the 85 degrees or more it takes for an error.
\<close>

theorem thermometer_measures:
  assumes "\<And>b. crc (b @ [crc b]) = 0" "ow_find (ow_scan devs) 0x28 = Some (rom sl)"
  shows "\<exists>d sl'. init_ds18b20 (Some (slave_wire crc)) (\<lambda>type s. (ow_find (ow_scan devs) type, s)) t0 sl = (Some d, sl') \<and>
    (\<forall>now. fst (ds_get_temp (slave_wire crc) now d sl') =
      (if unat (now - t0) < 80 \<or> 85 * 16 \<le> sint (sensed sl) then None else Some (sint (sensed sl))))"
proof -
  have r: "crc [a, b, c, d, e, f, g, h, crc [a, b, c, d, e, f, g, h]] = 0" for a b c d e f g h
    using assms(1) [of "[a, b, c, d, e, f, g, h]"] by simp
  have e: "80 \<le> now - t0 \<longleftrightarrow> \<not> unat (now - t0) < 80" for now :: u32 by (simp add: word_le_nat_alt not_less)
  show ?thesis
    using assms(2)
    by (simp add: init_ds18b20_def ds_init_def ds_set_resolution_def ds_start_conversion_def ds_command_def slave_wire_def
        slave_reset_def slave_write_def slave_read_def ds_get_temp_def ds_ready_def ds_read_def time_elapsed_def Let_def
        ds18_new_def ds_value_def word_of_bytes r e)
qed

theorem thermometer_measures_witness:
  "\<exists>d sl'. init_ds18b20 (Some (slave_wire (\<lambda>b. - sum_list b)))
      (\<lambda>type s. (ow_find (ow_scan [0xAB01, 0x0300000112233428]) type, s)) 0xFFFFFFF0
      \<lparr>rom = 0x0300000112233428, selected = False, answering = False, sensed = 0xFF5E, latched = 0x0550, config = 0\<rparr> = (Some d, sl') \<and>
    fst (ds_get_temp (slave_wire (\<lambda>b. - sum_list b)) 0x30 d sl') = None \<and>
    fst (ds_get_temp (slave_wire (\<lambda>b. - sum_list b)) 0x40 d sl') = Some (- 162)"
proof -
  let ?sl = "\<lparr>rom = 0x0300000112233428, selected = False, answering = False, sensed = 0xFF5E, latched = 0x0550, config = 0 :: u8\<rparr>"
  have f: "ow_find (ow_scan [0xAB01, 0x0300000112233428]) 0x28 = Some (rom ?sl)"
    by (simp add: ow_find_def ow_scan_def)
  show ?thesis
    using thermometer_measures [where crc = "\<lambda>b. - sum_list b", OF _ f, of "0xFFFFFFF0"] by force
qed

end
