(* ===== verification/Logger.thy ===== *)
theory Logger
  imports IntrusiveList
begin

text \<open>
  Logging (logger.cpp): a message of some severity goes to every output that was added with that severity or a
  weaker one, unless the whole logger is set to less; in an interrupt only to the one output set aside for it.

  Outputs and mutexes are numbers (their addresses). The list of loggers is a sequence, newest first. A
  message is its format with the \<^verbatim>\<open>va_list\<close> of its arguments, which \<^verbatim>\<open>log\<close> hands to \<^verbatim>\<open>printf\<close> once for each output
  without a \<^verbatim>\<open>va_copy\<close>: what \<^verbatim>\<open>printf\<close> makes of it the second time is not determined. What the logger does is kept as a
  trace of locks taken and released and of messages printed.
\<close>

subsection \<open>Tables\<close>

text \<open>A \<^verbatim>\<open>LUT\<close> is the list of its entries before the null text that ends it.\<close>

fun lut :: "(string \<times> int) list \<Rightarrow> int \<Rightarrow> string" where
  "lut [] err = ''unknown''"
| "lut ((text, code) # codes) err = (if code = err then text else lut codes err)"

fun rlut :: "(string \<times> int) list \<Rightarrow> string \<Rightarrow> int" where
  "rlut [] s = 0"
| "rlut ((text, code) # codes) s = (if text = s then code else rlut codes s)"

datatype severity = S_NONE | S_CRITICAL | S_ERROR | S_WARNING | S_NOTICE | S_INFO | S_DEBUG

fun sev_code :: "severity \<Rightarrow> int" where
  "sev_code S_NONE = 0"
| "sev_code S_CRITICAL = 2"
| "sev_code S_ERROR = 3"
| "sev_code S_WARNING = 4"
| "sev_code S_NOTICE = 5"
| "sev_code S_INFO = 6"
| "sev_code S_DEBUG = 7"

definition Severity_lut :: "(string \<times> int) list" where
  "Severity_lut =
    [(''NONE'', sev_code S_NONE), (''CRITICAL'', sev_code S_CRITICAL), (''ERROR'', sev_code S_ERROR),
     (''WARNING'', sev_code S_WARNING), (''NOTICE'', sev_code S_NOTICE), (''INFO'', sev_code S_INFO),
     (''DEBUG'', sev_code S_DEBUG)]"

text \<open>A table without repetitions translates both ways.\<close>

lemma lut_rlut:
  "distinct (map fst t) \<Longrightarrow> distinct (map snd t) \<Longrightarrow> (s, c) \<in> set t \<Longrightarrow> lut t c = s \<and> rlut t s = c"
  by (induction t) (force simp: image_iff)+

lemma severity_names: "rlut Severity_lut (lut Severity_lut (sev_code s)) = sev_code s"
proof -
  have "\<exists>n. (n, sev_code s) \<in> set Severity_lut" by (cases s) (auto simp: Severity_lut_def)
  moreover have "distinct (map fst Severity_lut)" "distinct (map snd Severity_lut)" by (simp_all add: Severity_lut_def)
  ultimately show ?thesis using lut_rlut by metis
qed

subsection \<open>Logging\<close>

record log_entry =
  lout :: nat
  lmutex :: "nat option"
  lsev :: severity

record logging =
  severity :: severity
  loggers :: "log_entry list"
  irq_logger :: "log_entry option"
  list_mutex :: "nat option"

text \<open>
  A message \<open>m\<close>: \<open>m n\<close> is the text \<^verbatim>\<open>printf\<close> makes of the format when its \<^verbatim>\<open>va_list\<close> was read \<open>n\<close> times before. \<open>m 0\<close> is the
  text that is meant; the others are whatever the machine's \<^verbatim>\<open>va_list\<close> gives, and the same where the format takes no
  argument. \<open>LPrint ou m n\<close> prints the text \<open>m n\<close> on the output \<open>ou\<close>.
\<close>

type_synonym message = "nat \<Rightarrow> string"

datatype log_ev = LLock "nat option" | LUnlock "nat option" | LPrint nat message nat

definition log_new :: "severity \<Rightarrow> nat option \<Rightarrow> logging" where
  "log_new s m = \<lparr>severity = s, loggers = [], irq_logger = None, list_mutex = m\<rparr>"

definition add_irq :: "nat \<Rightarrow> severity \<Rightarrow> logging \<Rightarrow> logging result" where
  "add_irq ou s l =
     (if irq_logger l \<noteq> None then Inl AssertFailed
      else Inr (l\<lparr>irq_logger := Some \<lparr>lout = ou, lmutex = None, lsev = s\<rparr>\<rparr>))"

definition log_add :: "nat \<Rightarrow> severity \<Rightarrow> nat option \<Rightarrow> logging \<Rightarrow> logging" where
  "log_add ou s m l = l\<lparr>loggers := \<lparr>lout = ou, lmutex = m, lsev = s\<rparr> # loggers l\<rparr>"

definition match_out :: "nat \<Rightarrow> log_entry \<Rightarrow> bool" where
  "match_out ou e \<longleftrightarrow> lout e = ou"

definition log_remove :: "nat \<Rightarrow> logging \<Rightarrow> bool \<times> logging" where
  "log_remove ou l =
     (case find (match_out ou) (loggers l) of
        None \<Rightarrow> (False, l)
      | Some e \<Rightarrow> (True, l\<lparr>loggers := remove1 e (loggers l)\<rparr>))"

text \<open>The loop of \<^verbatim>\<open>log\<close> over the list; \<open>n\<close> counts the prints that have read the arguments.\<close>

fun log_each :: "severity \<Rightarrow> message \<Rightarrow> nat \<Rightarrow> log_entry list \<Rightarrow> log_ev list" where
  "log_each s m n [] = []"
| "log_each s m n (e # es) =
     (if sev_code s > sev_code (lsev e) then log_each s m n es
      else [LLock (lmutex e), LPrint (lout e) m n, LUnlock (lmutex e)] @ log_each s m (Suc n) es)"

definition log_msg :: "bool \<Rightarrow> severity \<Rightarrow> message \<Rightarrow> logging \<Rightarrow> log_ev list" where
  "log_msg in_irq s m l =
     (if sev_code s > sev_code (severity l) then []
      else if in_irq then
        (case irq_logger l of
           Some e \<Rightarrow> if sev_code s \<le> sev_code (lsev e) then [LPrint (lout e) m 0] else []
         | None \<Rightarrow> [])
      else [LLock (list_mutex l)] @ log_each s m 0 (loggers l) @ [LUnlock (list_mutex l)])"

definition log_count :: "logging \<Rightarrow> nat" where
  "log_count l = length (loggers l)"

definition set_severity :: "severity \<Rightarrow> logging \<Rightarrow> severity \<times> logging" where
  "set_severity s l = (severity l, l\<lparr>severity := s\<rparr>)"

definition log_printf :: "logging option \<Rightarrow> bool \<Rightarrow> severity \<Rightarrow> message \<Rightarrow> log_ev list result" where
  "log_printf l in_irq s m = (case l of None \<Rightarrow> Inl AssertFailed | Some l \<Rightarrow> Inr (log_msg in_irq s m l))"

subsection \<open>What an output sees\<close>

datatype log_op =
    LogAdd nat severity "nat option"
  | LogAddIrq nat severity
  | LogRemove nat
  | LogSet severity
  | LogText bool severity message   \<comment> \<open>from an interrupt; severity; message\<close>

fun log_step :: "log_op \<Rightarrow> logging \<Rightarrow> (log_ev list \<times> logging) result option" where
  "log_step (LogAdd ou s m) l = Some (Inr ([], log_add ou s m l))"
| "log_step (LogAddIrq ou s) l = Some (rbind (add_irq ou s l) (\<lambda>l. Inr ([], l)))"
| "log_step (LogRemove ou) l = Some (Inr ([], snd (log_remove ou l)))"
| "log_step (LogSet s) l = Some (Inr ([], snd (set_severity s l)))"
| "log_step (LogText irq s m) l = Some (Inr (log_msg irq s m l, l))"

text \<open>The messages an output prints; and how often the arguments were read before, print by print.\<close>

fun printed_on :: "nat \<Rightarrow> log_ev list \<Rightarrow> message list" where
  "printed_on ou [] = []"
| "printed_on ou (LPrint p m n # es) = (if p = ou then m # printed_on ou es else printed_on ou es)"
| "printed_on ou (_ # es) = printed_on ou es"

fun reads_before :: "log_ev list \<Rightarrow> nat list" where
  "reads_before [] = []"
| "reads_before (LPrint p m n # es) = n # reads_before es"
| "reads_before (_ # es) = reads_before es"

lemma printed_on_append [simp]: "printed_on ou (xs @ ys) = printed_on ou xs @ printed_on ou ys"
  by (induction ou xs rule: printed_on.induct) simp_all

lemma reads_before_append [simp]: "reads_before (xs @ ys) = reads_before xs @ reads_before ys"
  by (induction xs rule: reads_before.induct) simp_all

lemma log_each_reads: "\<exists>k. reads_before (log_each s m n es) = [n..<n + k]"
proof (induction es arbitrary: n)
  case Nil
  show ?case by (intro exI [of _ 0]) simp
next
  case (Cons e es)
  show ?case
  proof (cases "sev_code s > sev_code (lsev e)")
    case True
    with Cons [of n] show ?thesis by simp
  next
    case False
    obtain k where "reads_before (log_each s m (Suc n) es) = [Suc n..<Suc n + k]" using Cons by blast
    with False show ?thesis by (intro exI [of _ "Suc k"]) (simp add: upt_conv_Cons del: upt_Suc)
  qed
qed

lemma log_msg_reads: "reads_before (log_msg irq s m l) = [0..<length (reads_before (log_msg irq s m l))]"
  using log_each_reads [of s m 0 "loggers l"] by (auto simp: log_msg_def split: option.splits)

text \<open>
  The specification, from one output's point of view: the severity of the logger, the severities it was added
  with and not removed again, last first, and those for interrupts. A removal takes the last.
\<close>

record view =
  vsev :: severity
  vadded :: "severity list"
  virq :: "(bool \<times> severity) option"   \<comment> \<open>whether the interrupt output is this one\<close>

definition view_of :: "nat \<Rightarrow> logging \<Rightarrow> view" where
  "view_of ou l =
     \<lparr>vsev = severity l, vadded = map lsev (filter (match_out ou) (loggers l)),
      virq = map_option (\<lambda>e. (match_out ou e, lsev e)) (irq_logger l)\<rparr>"

fun view_step :: "nat \<Rightarrow> log_op \<Rightarrow> view \<Rightarrow> message list \<times> view" where
  "view_step ou (LogAdd p s m) v = ([], if p = ou then v\<lparr>vadded := s # vadded v\<rparr> else v)"
| "view_step ou (LogAddIrq p s) v = ([], v\<lparr>virq := Some (p = ou, s)\<rparr>)"
| "view_step ou (LogRemove p) v = ([], if p = ou then v\<lparr>vadded := tl (vadded v)\<rparr> else v)"
| "view_step ou (LogSet s) v = ([], v\<lparr>vsev := s\<rparr>)"
| "view_step ou (LogText irq s m) v =
     (if sev_code s > sev_code (vsev v) then []
      else if irq then (case virq v of Some (True, t) \<Rightarrow> if sev_code s \<le> sev_code t then [m] else [] | _ \<Rightarrow> [])
      else map (\<lambda>_. m) (filter (\<lambda>t. sev_code s \<le> sev_code t) (vadded v)), v)"

fun irq_free :: "log_op \<Rightarrow> view \<Rightarrow> bool" where
  "irq_free (LogAddIrq p s) v \<longleftrightarrow> virq v = None"
| "irq_free _ v \<longleftrightarrow> True"

lemma log_each_printed:
  "printed_on ou (log_each s m n es) =
     map (\<lambda>_. m) (filter (\<lambda>t. sev_code s \<le> sev_code t) (map lsev (filter (match_out ou) es)))"
  by (induction es arbitrary: n) (auto simp: match_out_def)

lemma log_printed: "printed_on ou (log_msg irq s m l) = fst (view_step ou (LogText irq s m) (view_of ou l))"
  by (auto simp: log_msg_def view_of_def log_each_printed match_out_def split: option.splits)

lemma filter_remove1_found:
  "find P xs = Some x \<Longrightarrow> filter P (remove1 x xs) = tl (filter P xs) \<and> (\<forall>Q. \<not> Q x \<longrightarrow> filter Q (remove1 x xs) = filter Q xs)"
  by (induction xs) (auto split: if_splits)

lemma log_remove_view:
  "view_of ou (snd (log_remove p l)) =
     (if p = ou then (view_of ou l)\<lparr>vadded := tl (vadded (view_of ou l))\<rparr> else view_of ou l)"
proof (cases "find (match_out p) (loggers l)")
  case None
  then have "filter (match_out p) (loggers l) = []"
    by (auto simp: find_None_iff filter_empty_conv)
  with None show ?thesis by (auto simp: log_remove_def view_of_def)
next
  case (Some e)
  note f = filter_remove1_found [OF Some]
  from Some have e: "match_out p e" by (auto simp: find_Some_iff)
  show ?thesis
  proof (cases "p = ou")
    case True
    with Some f show ?thesis by (simp add: log_remove_def view_of_def map_tl)
  next
    case False
    with e have "\<not> match_out ou e" by (simp add: match_out_def)
    with f have "filter (match_out ou) (remove1 e (loggers l)) = filter (match_out ou) (loggers l)" by blast
    with Some False show ?thesis by (simp add: log_remove_def view_of_def)
  qed
qed

interpretation logs: simulation "\<lambda>l v. view_of ou l = v" "\<lambda>c l. map_option (map_sum id (map_prod (printed_on ou) id)) (log_step c l)"
    "view_step ou" irq_free for ou
proof
  fix l v c
  assume "view_of ou l = v" "irq_free c v"
  then show "\<exists>l'. map_option (map_sum id (map_prod (printed_on ou) id)) (log_step c l) = Some (Inr (fst (view_step ou c v), l')) \<and>
      view_of ou l' = snd (view_step ou c v)"
  proof (cases c)
    case (LogText irq s msg)
    with \<open>view_of ou l = v\<close> show ?thesis
      using log_printed [of ou irq s msg l] by auto
  next
    case (LogRemove p)
    with \<open>view_of ou l = v\<close> show ?thesis
      by (auto simp: log_remove_view)
  qed (auto simp: view_of_def log_add_def add_irq_def set_severity_def match_out_def)
qed

text \<open>
  C22: each output sees its own view of the logging: whatever outputs are added and removed, and messages logged
  from threads and interrupts, the messages printed on an output are what the specification says for it alone. Only a second
  output for interrupts is excluded. Of the texts, only that of the first print of each message is certain: the print after
  \<open>n\<close> others takes its arguments from a \<^verbatim>\<open>va_list\<close> that was read \<open>n\<close> times. In an interrupt there is only one.
\<close>

theorem logger_views:
  assumes "run_ok (view_step ou) irq_free cs (view_of ou l)"
  shows "(\<exists>l'. run_impl (\<lambda>c l. map_option (map_sum id (map_prod (printed_on ou) id)) (log_step c l)) cs l =
      Some (Inr (fst (run_spec (view_step ou) cs (view_of ou l)), l')) \<and>
    view_of ou l' = snd (run_spec (view_step ou) cs (view_of ou l))) \<and>
    reads_before (log_msg irq s m k) = [0..<length (reads_before (log_msg irq s m k))] \<and>
    length (reads_before (log_msg True s m k)) \<le> 1"
proof (intro conjI)
  show "reads_before (log_msg irq s m k) = [0..<length (reads_before (log_msg irq s m k))]"
    by (rule log_msg_reads)
  show "length (reads_before (log_msg True s m k)) \<le> 1"
    by (simp add: log_msg_def split: option.splits)
qed (rule logs.run_sim [OF refl assms])

theorem logger_views_witness:
  "\<exists>l'. run_impl (\<lambda>c l. map_option (map_sum id (map_prod (printed_on 7) id)) (log_step c l))
      [LogAdd 7 S_INFO None, LogAdd 8 S_DEBUG None, LogText False S_ERROR (\<lambda>_. ''a''), LogText False S_DEBUG (\<lambda>_. ''b''),
       LogAddIrq 7 S_ERROR, LogText True S_INFO (\<lambda>_. ''c''), LogText True S_ERROR (\<lambda>_. ''d''), LogRemove 7,
       LogText False S_ERROR (\<lambda>_. ''e'')] (log_new S_DEBUG None) =
      Some (Inr ([[], [], [\<lambda>_. ''a''], [], [], [], [\<lambda>_. ''d''], [], []], l'))"
  using conjunct1 [OF logger_views [of 7 "[LogAdd 7 S_INFO None, LogAdd 8 S_DEBUG None, LogText False S_ERROR (\<lambda>_. ''a''),
       LogText False S_DEBUG (\<lambda>_. ''b''), LogAddIrq 7 S_ERROR, LogText True S_INFO (\<lambda>_. ''c''), LogText True S_ERROR (\<lambda>_. ''d''),
       LogRemove 7, LogText False S_ERROR (\<lambda>_. ''e'')]" "log_new S_DEBUG None"]]
  by (auto simp: view_of_def log_new_def)

text \<open>With two outputs that listen, the older one prints from arguments the newer one has used up.\<close>

lemma second_output_reads_used_arguments:
  "log_msg False S_ERROR m (log_add 8 S_INFO None (log_add 7 S_INFO None (log_new S_DEBUG None))) =
     [LLock None, LLock None, LPrint 8 m 0, LUnlock None, LLock None, LPrint 7 m 1, LUnlock None, LUnlock None]"
  by (simp add: log_msg_def log_add_def log_new_def)

end
