(* ===== verification/Networks.thy ===== *)
theory Networks
  imports IntrusiveList
begin

text \<open>
  Interfaces, access points and connections (network.cpp), joining a wireless network (esp32/network.cpp) and the
  subscriptions of the MQTT client (esp32/mqtt.cpp).

  Lists are the sequences they stand for. Interfaces, access points, connections and subscriptions
  carry a number, their address. What the platform does with a request to connect, to subscribe or to publish comes back as
  the events the program handles.
\<close>

subsection \<open>Interfaces\<close>

record iface =
  if_id :: nat
  if_name :: string

definition first_of :: "'a list \<Rightarrow> 'a option" where
  "first_of xs = (case xs of [] \<Rightarrow> None | x # _ \<Rightarrow> Some x)"

text \<open>The item an item of a list points to.\<close>

fun succ_in :: "'a \<Rightarrow> 'a list \<Rightarrow> 'a option" where
  "succ_in x [] = None"
| "succ_in x (y # ys) = (if x = y then first_of ys else succ_in x ys)"

definition add_interface :: "iface \<Rightarrow> iface list \<Rightarrow> iface list" where
  "add_interface i ifs = ifs @ [i]"

definition get_interface :: "string option \<Rightarrow> iface list \<Rightarrow> iface option" where
  "get_interface name ifs =
     (case name of None \<Rightarrow> first_of ifs | Some n \<Rightarrow> find (\<lambda>i. n = if_name i) ifs)"

text \<open>\<^verbatim>\<open>get_interface(Iterator)\<close>: the answer, and the iterator.\<close>

definition iter_interface :: "iface option \<Rightarrow> iface list \<Rightarrow> iface option \<times> iface option" where
  "iter_interface it ifs =
     (case it of
        None \<Rightarrow> (first_of ifs, first_of ifs)
      | Some i \<Rightarrow> if i \<notin> set ifs then (None, it) else (succ_in i ifs, succ_in i ifs))"

subsection \<open>Access points\<close>

record access_point =
  ap_id :: nat
  ssid :: string
  pw :: string

definition add_ap :: "nat \<Rightarrow> string \<Rightarrow> string \<Rightarrow> access_point list \<Rightarrow> access_point list" where
  "add_ap a s p aps = aps @ [\<lparr>ap_id = a, ssid = s, pw = p\<rparr>]"

definition del_ap :: "string \<Rightarrow> access_point list \<Rightarrow> access_point list" where
  "del_ap s aps = (case find (\<lambda>a. s = ssid a) aps of None \<Rightarrow> aps | Some a \<Rightarrow> remove1 a aps)"

definition get_ap :: "access_point option \<Rightarrow> access_point list \<Rightarrow> access_point option" where
  "get_ap it aps =
     (case it of
        None \<Rightarrow> first_of aps
      | Some a \<Rightarrow> if a \<in> set aps then succ_in a aps else it)"

subsection \<open>Iterating\<close>

lemma succ_in_nth:
  "distinct xs \<Longrightarrow> i < length xs \<Longrightarrow> succ_in (xs ! i) xs = (if Suc i < length xs then Some (xs ! Suc i) else None)"
proof (induction xs arbitrary: i)
  case (Cons x xs)
  then show ?case
    by (cases i; cases xs) (auto simp: first_of_def nth_Cons')
qed simp

text \<open>Calling an iterator \<open>n\<close> times: the answers, and the iterator.\<close>

fun iterate :: "('i \<Rightarrow> 'a option \<times> 'i) \<Rightarrow> nat \<Rightarrow> 'i \<Rightarrow> 'a option list \<times> 'i" where
  "iterate f 0 it = ([], it)"
| "iterate f (Suc n) it = (let (r, it) = f it; (rs, it) = iterate f n it in (r # rs, it))"

locale list_iterator =
  fixes f :: "'a list \<Rightarrow> 'a option \<Rightarrow> 'a option \<times> 'a option"
  assumes first: "f xs None = (first_of xs, first_of xs)"
    and next_one: "x \<in> set xs \<Longrightarrow> f xs (Some x) = (succ_in x xs, succ_in x xs)"
begin

lemma from_nth:
  "distinct xs \<Longrightarrow> i < length xs \<Longrightarrow> iterate (f xs) (length xs - i) (Some (xs ! i)) = (map Some (drop (Suc i) xs) @ [None], None)"
proof (induction "length xs - i" arbitrary: i)
  case (Suc n)
  show ?case
  proof (cases "Suc i < length xs")
    case True
    then have "length xs - i = Suc (length xs - Suc i)" by simp
    moreover have "n = length xs - Suc i" using Suc.hyps(2) True by simp
    moreover have "drop (Suc i) xs = xs ! Suc i # drop (Suc (Suc i)) xs" using True by (simp add: Cons_nth_drop_Suc)
    ultimately show ?thesis
      using Suc.hyps(1) [of "Suc i"] Suc.prems True by (simp add: next_one succ_in_nth)
  next
    case False
    with Suc have "length xs - i = Suc 0" by simp
    with Suc False show ?thesis by (simp add: next_one succ_in_nth)
  qed
qed simp

lemma complete: "distinct xs \<Longrightarrow> iterate (f xs) (Suc (length xs)) None = (map Some xs @ [None], None)"
proof (cases xs)
  case Nil
  then show ?thesis by (simp add: first first_of_def)
next
  case (Cons x ys)
  assume "distinct xs"
  with from_nth [of xs 0] Cons show ?thesis by (simp add: first first_of_def)
qed

end

interpretation interfaces: list_iterator "\<lambda>ifs it. iter_interface it ifs"
  by unfold_locales (simp_all add: iter_interface_def)

interpretation access_points: list_iterator "\<lambda>aps it. (get_ap it aps, get_ap it aps)"
  by unfold_locales (simp_all add: get_ap_def)

text \<open>
  both iterators go through their whole list in the order it was built, say that it ends, and
  are then where they started.
\<close>

theorem iterators_complete:
  assumes "distinct ifs" "distinct aps"
  shows "iterate (\<lambda>it. iter_interface it ifs) (Suc (length ifs)) None = (map Some ifs @ [None], None) \<and>
    iterate (\<lambda>it. (get_ap it aps, get_ap it aps)) (Suc (length aps)) None = (map Some aps @ [None], None)"
  using interfaces.complete [OF assms(1)] access_points.complete [OF assms(2)] by blast

theorem iterators_complete_witness:
  "iterate (\<lambda>it. iter_interface it [\<lparr>if_id = 1, if_name = ''wifi''\<rparr>, \<lparr>if_id = 2, if_name = ''eth''\<rparr>]) 3 None =
     ([Some \<lparr>if_id = 1, if_name = ''wifi''\<rparr>, Some \<lparr>if_id = 2, if_name = ''eth''\<rparr>, None], None)"
  using iterators_complete [of "[\<lparr>if_id = 1, if_name = ''wifi''\<rparr>, \<lparr>if_id = 2, if_name = ''eth''\<rparr>]" "[]"]
  by (simp add: numeral_eq_Suc)

text \<open>
  An access point taken away between two calls, whose memory is freed, is given out again, and from then on at
  every call.
\<close>

lemma deleted_ap_stays:
  assumes "distinct (map ssid aps)" "a \<in> set aps"
  shows "get_ap (Some a) (del_ap (ssid a) aps) = Some a"
proof -
  have "distinct aps" using assms(1) by (simp add: distinct_map)
  moreover have "find (\<lambda>x. ssid a = ssid x) aps = Some a"
    using assms by (induction aps) (auto simp: image_iff)
  ultimately show ?thesis by (simp add: get_ap_def del_ap_def)
qed

subsection \<open>Connections\<close>

text \<open>
  The observers of an interface, newest first, and the state of each \<^verbatim>\<open>ConnectionWaiter\<close>: its semaphore and the
  interface it was last told of.
\<close>

record waiter =
  wsem :: nat
  wiface :: "nat option"

record wifi =
  wf_id :: nat
  aps :: "access_point list"
  cons :: "nat list"
  waiters :: "nat \<Rightarrow> waiter"
  up :: bool                              \<comment> \<open>the address of its state is set\<close>
  joining :: "string option"              \<comment> \<open>\<^verbatim>\<open>ssid\<close>\<close>
  requests :: "(string \<times> string) list"   \<comment> \<open>what was asked of the platform, newest first\<close>

definition add_connection :: "nat \<Rightarrow> wifi \<Rightarrow> wifi" where
  "add_connection c w = w\<lparr>cons := c # cons w\<rparr>"

definition del_connection :: "nat \<Rightarrow> wifi \<Rightarrow> wifi" where
  "del_connection c w = w\<lparr>cons := remove1 c (cons w)\<rparr>"

definition waiter_told :: "nat option \<Rightarrow> waiter \<Rightarrow> waiter" where
  "waiter_told i x = x\<lparr>wiface := i, wsem := wsem x + 1\<rparr>"

fun visit_waiters :: "nat option \<Rightarrow> nat list \<Rightarrow> (nat \<Rightarrow> waiter) \<Rightarrow> nat \<Rightarrow> waiter" where
  "visit_waiters i [] ws = ws"
| "visit_waiters i (c # cs) ws = visit_waiters i cs (ws(c := waiter_told i (ws c)))"

definition if_on_connect :: "wifi \<Rightarrow> wifi" where
  "if_on_connect w = w\<lparr>waiters := visit_waiters (Some (wf_id w)) (cons w) (waiters w)\<rparr>"

definition if_on_disconnect :: "wifi \<Rightarrow> wifi" where
  "if_on_disconnect w = w\<lparr>waiters := visit_waiters None (cons w) (waiters w)\<rparr>"

text \<open>\<^verbatim>\<open>wait\<close>; \<open>None\<close> when it blocks.\<close>

definition waiter_wait :: "nat \<Rightarrow> wifi \<Rightarrow> (bool \<times> wifi) option" where
  "waiter_wait c w =
     (let x = waiters w c
      in if wsem x = 0 then None
         else Some (case wiface x of None \<Rightarrow> False | Some i \<Rightarrow> up w, w\<lparr>waiters := (waiters w)(c := x\<lparr>wsem := wsem x - 1\<rparr>)\<rparr>))"

subsection \<open>Joining a network\<close>

definition is_connected :: "wifi \<Rightarrow> bool" where
  "is_connected w = up w"

definition wifi_request :: "string \<Rightarrow> string \<Rightarrow> wifi \<Rightarrow> wifi" where
  "wifi_request s p w = w\<lparr>joining := Some s, requests := (s, p) # requests w\<rparr>"

text \<open>The platform's events: an address on this interface or another one, and the loss of the connection.\<close>

definition wifi_on_connect :: "bool \<Rightarrow> wifi \<Rightarrow> wifi" where
  "wifi_on_connect ours w = (if \<not> ours then w else if_on_connect (w\<lparr>up := True\<rparr>))"

definition wifi_on_disconnect :: "wifi \<Rightarrow> wifi" where
  "wifi_on_disconnect w = (if_on_disconnect w)\<lparr>up := False, joining := None\<rparr>"

datatype wifi_ev = GotIp bool | Lost

fun wifi_event :: "wifi_ev \<Rightarrow> wifi \<Rightarrow> wifi" where
  "wifi_event (GotIp ours) w = wifi_on_connect ours w"
| "wifi_event Lost w = wifi_on_disconnect w"

text \<open>
  \<^verbatim>\<open>do_connect\<close> with a fresh waiter \<open>c\<close>, whose construction clears it; \<open>env\<close> is how the platform answers a
  request for an access point. \<open>None\<close> when the wait never ends.
\<close>

definition do_connect :: "(access_point \<Rightarrow> wifi_ev list) \<Rightarrow> nat \<Rightarrow> access_point \<Rightarrow> wifi \<Rightarrow> (bool \<times> wifi) option" where
  "do_connect env c ap w =
     (let w = w\<lparr>waiters := (waiters w)(c := \<lparr>wsem = 0, wiface = None\<rparr>)\<rparr>;
          w = add_connection c w;
          w = wifi_request (ssid ap) (pw ap) w;
          w = fold wifi_event (env ap) w
      in case waiter_wait c w of None \<Rightarrow> None | Some (ok, w) \<Rightarrow> Some (ok, del_connection c w))"

fun visit_aps :: "(access_point \<Rightarrow> wifi_ev list) \<Rightarrow> nat \<Rightarrow> access_point list \<Rightarrow> wifi \<Rightarrow> wifi option" where
  "visit_aps env c [] w = Some w"
| "visit_aps env c (a # as) w =
     (case do_connect env c a w of None \<Rightarrow> None | Some (ok, w) \<Rightarrow> if ok then Some w else visit_aps env c as w)"

definition wifi_connect :: "(access_point \<Rightarrow> wifi_ev list) \<Rightarrow> nat \<Rightarrow> wifi \<Rightarrow> wifi option" where
  "wifi_connect env c w = visit_aps env c (aps w) w"

lemma visit_waiters_told:
  "distinct cs \<Longrightarrow> visit_waiters i cs ws c = (if c \<in> set cs then waiter_told i (ws c) else ws c)"
  by (induction cs arbitrary: ws) auto

lemma do_connect_answer:
  assumes "c \<notin> set (cons w)" "distinct (cons w)" "env ap = (if good ap then [GotIp True] else [Lost])"
  shows "\<exists>w'. do_connect env c ap w = Some (good ap, w') \<and> cons w' = cons w \<and> aps w' = aps w \<and> up w' = good ap \<and>
    requests w' = (ssid ap, pw ap) # requests w \<and> (good ap \<longrightarrow> joining w' = Some (ssid ap))"
proof (cases "good ap")
  case True
  with assms show ?thesis
    by (simp add: do_connect_def Let_def add_connection_def wifi_request_def wifi_on_connect_def if_on_connect_def waiter_wait_def
        visit_waiters_told waiter_told_def del_connection_def)
next
  case False
  with assms show ?thesis
    by (simp add: do_connect_def Let_def add_connection_def wifi_request_def wifi_on_disconnect_def if_on_disconnect_def waiter_wait_def
        visit_waiters_told waiter_told_def del_connection_def)
qed

lemma visit_aps_first:
  assumes "\<And>ap. env ap = (if good ap then [GotIp True] else [Lost])"
  shows "c \<notin> set (cons w) \<Longrightarrow> distinct (cons w) \<Longrightarrow> \<not> up w \<Longrightarrow>
    \<exists>w'. visit_aps env c as w = Some w' \<and> cons w' = cons w \<and> up w' = (\<exists>a \<in> set as. good a) \<and>
      rev (requests w') = rev (requests w) @
        map (\<lambda>a. (ssid a, pw a)) (takeWhile (\<lambda>a. \<not> good a) as @ take 1 (dropWhile (\<lambda>a. \<not> good a) as)) \<and>
      (\<forall>a. find good as = Some a \<longrightarrow> joining w' = Some (ssid a))"
proof (induction as arbitrary: w)
  case (Cons a as)
  from do_connect_answer [where env = env and good = good, OF Cons.prems(1,2) assms] obtain w1 where
    w1: "do_connect env c a w = Some (good a, w1)" "cons w1 = cons w" "up w1 = good a"
      "requests w1 = (ssid a, pw a) # requests w" "good a \<longrightarrow> joining w1 = Some (ssid a)"
    by blast
  show ?case
  proof (cases "good a")
    case True
    with w1 show ?thesis by auto
  next
    case False
    with w1 Cons.prems Cons.IH [of w1] show ?thesis by auto
  qed
qed simp

text \<open>
  joining a wireless network tries the known access points in the order they were added, up to the first one
  that lets it in, and no further; the observers of the interface are as before.
\<close>

theorem wifi_joins_first:
  assumes "\<And>ap. env ap = (if good ap then [GotIp True] else [Lost])"
    and "c \<notin> set (cons w)" "distinct (cons w)" "\<not> up w"
  shows "\<exists>w'. wifi_connect env c w = Some w' \<and> cons w' = cons w \<and> is_connected w' = (\<exists>a \<in> set (aps w). good a) \<and>
    rev (requests w') = rev (requests w) @
      map (\<lambda>a. (ssid a, pw a)) (takeWhile (\<lambda>a. \<not> good a) (aps w) @ take 1 (dropWhile (\<lambda>a. \<not> good a) (aps w))) \<and>
    (\<forall>a. find good (aps w) = Some a \<longrightarrow> joining w' = Some (ssid a))"
  unfolding wifi_connect_def is_connected_def using visit_aps_first [OF assms] .

theorem wifi_joins_first_witness:
  "\<exists>w'. wifi_connect (\<lambda>a. if ssid a = ''home'' then [GotIp True] else [Lost]) 3
      \<lparr>wf_id = 1, aps = add_ap 12 ''home'' ''y'' (add_ap 11 ''work'' ''x'' []), cons = [2],
       waiters = (\<lambda>_. \<lparr>wsem = 0, wiface = None\<rparr>), up = False, joining = None, requests = []\<rparr> = Some w' \<and>
    up w' \<and> joining w' = Some ''home'' \<and> rev (requests w') = [(''work'', ''x''), (''home'', ''y'')]"
proof -
  let ?w = "\<lparr>wf_id = 1, aps = add_ap 12 ''home'' ''y'' (add_ap 11 ''work'' ''x'' []), cons = [2],
       waiters = (\<lambda>_. \<lparr>wsem = 0, wiface = None\<rparr>), up = False, joining = None, requests = []\<rparr>"
  from wifi_joins_first [where good = "\<lambda>a. ssid a = ''home''" and c = 3 and w = ?w, OF refl]
  show ?thesis by (auto simp: add_ap_def is_connected_def)
qed

subsection \<open>MQTT\<close>

record mqtt_sub =
  sub_id :: nat
  topic :: string

record mqtt =
  connected :: bool
  next_sub :: "mqtt_sub option"
  subs :: "mqtt_sub list"
  asked :: "mqtt_sub list"   \<comment> \<open>the subscriptions requested of the broker, newest first\<close>

definition mqtt_new :: mqtt where
  "mqtt_new = \<lparr>connected = False, next_sub = None, subs = [], asked = []\<rparr>"

definition mqtt_subscribe :: "mqtt_sub \<Rightarrow> mqtt \<Rightarrow> mqtt" where
  "mqtt_subscribe x m = m\<lparr>asked := x # asked m\<rparr>"

definition mqtt_add :: "mqtt_sub \<Rightarrow> mqtt \<Rightarrow> mqtt" where
  "mqtt_add x m = (let m = m\<lparr>subs := subs m @ [x]\<rparr> in if connected m then mqtt_subscribe x m else m)"



definition on_connected :: "mqtt \<Rightarrow> mqtt" where
  "on_connected m =
     (case first_of (subs m) of
        None \<Rightarrow> m
      | Some x \<Rightarrow> (mqtt_subscribe x m)\<lparr>next_sub := succ_in x (subs m)\<rparr>)"

definition on_subscribed :: "mqtt \<Rightarrow> mqtt" where
  "on_subscribed m =
     (let m = (case next_sub m of None \<Rightarrow> m | Some x \<Rightarrow> (mqtt_subscribe x m)\<lparr>next_sub := succ_in x (subs m)\<rparr>)
      in m\<lparr>connected := (next_sub m = None)\<rparr>)"

definition on_disconnected :: "mqtt \<Rightarrow> mqtt" where
  "on_disconnected m = m\<lparr>connected := False\<rparr>"








text \<open>
  A subscription added after the last request went out and before it was confirmed is never requested; nor is
  one that is added to a client that connected without any.
\<close>

lemma mqtt_late_subscription_lost:
  assumes "subs m = [x]" "x \<noteq> y"
  shows "let m' = on_subscribed (mqtt_add y (on_connected (m\<lparr>connected := False\<rparr>)))
    in connected m' \<and> y \<in> set (subs m') \<and> asked m' = x # asked m"
  using assms by (simp add: on_connected_def on_subscribed_def mqtt_add_def mqtt_subscribe_def first_of_def Let_def)

lemma mqtt_first_subscription_lost:
  "let m' = mqtt_add y (on_connected mqtt_new) in \<not> connected m' \<and> asked m' = []"
  by (simp add: on_connected_def mqtt_add_def mqtt_new_def first_of_def Let_def)

end
