(* ===== verification/Threads.thy ===== *)
theory Threads
  imports IntrusiveList
begin

text \<open>
  Threads of the Linux and the FreeRTOS port (linux/thread.cpp, freertos/thread.cpp), the look-up by name and
  the pools of thread.cpp, and the batch task (batch.cpp), which is one thread that runs jobs from a queue.

  Each action of a thread that others can see is a step: it links itself into the list of threads, runs its function,
  on FreeRTOS posts its semaphore, and unlinks itself. \<^verbatim>\<open>join\<close> waits for the end of a pthread, or for that semaphore.
  Whoever joined a thread may delete it.
\<close>

subsection \<open>The life of a thread\<close>

datatype thread_port = Linux | FreeRTOS

datatype tphase = TNew | TStarted | TListed | TReturned | TPosted | TEnded

record threads =
  tlist :: "nat list"
  phase :: "nat \<Rightarrow> tphase"
  dead_sem :: "nat \<Rightarrow> nat"
  joined :: "nat set"
  freed :: "nat set"

definition threads_init :: threads where
  "threads_init = \<lparr>tlist = [], phase = (\<lambda>_. TNew), dead_sem = (\<lambda>_. 0), joined = {}, freed = {}\<rparr>"

datatype thread_ev = TStart nat | TRun nat | TJoin nat | TDelete nat

text \<open>What a thread does next: \<^verbatim>\<open>wrap\<close> on Linux, \<^verbatim>\<open>run\<close> on FreeRTOS.\<close>

definition thread_run :: "thread_port \<Rightarrow> nat \<Rightarrow> threads \<Rightarrow> threads option" where
  "thread_run p t s =
     (case phase s t of
        TStarted \<Rightarrow> Some (s\<lparr>tlist := t # tlist s, phase := (phase s)(t := TListed)\<rparr>)
      | TListed \<Rightarrow> Some (s\<lparr>phase := (phase s)(t := TReturned)\<rparr>)
      | TReturned \<Rightarrow>
          (case p of
             Linux \<Rightarrow> Some (s\<lparr>tlist := remove1 t (tlist s), phase := (phase s)(t := TEnded)\<rparr>)
           | FreeRTOS \<Rightarrow> Some (s\<lparr>dead_sem := (dead_sem s)(t := dead_sem s t + 1), phase := (phase s)(t := TPosted)\<rparr>))
      | TPosted \<Rightarrow> Some (s\<lparr>tlist := remove1 t (tlist s), phase := (phase s)(t := TEnded)\<rparr>)
      | _ \<Rightarrow> None)"

definition thread_join :: "thread_port \<Rightarrow> nat \<Rightarrow> threads \<Rightarrow> threads option" where
  "thread_join p t s =
     (case p of
        Linux \<Rightarrow> if phase s t = TEnded then Some (s\<lparr>joined := insert t (joined s)\<rparr>) else None
      | FreeRTOS \<Rightarrow>
          if dead_sem s t = 0 then None
          else Some (s\<lparr>dead_sem := (dead_sem s)(t := dead_sem s t - 1), joined := insert t (joined s)\<rparr>))"

fun thread_step :: "thread_port \<Rightarrow> thread_ev \<Rightarrow> threads \<Rightarrow> threads option" where
  "thread_step p (TStart t) s = (if phase s t = TNew then Some (s\<lparr>phase := (phase s)(t := TStarted)\<rparr>) else None)"
| "thread_step p (TRun t) s = thread_run p t s"
| "thread_step p (TJoin t) s = thread_join p t s"
| "thread_step p (TDelete t) s = (if t \<in> joined s then Some (s\<lparr>freed := insert t (freed s)\<rparr>) else None)"

inductive thread_reach :: "thread_port \<Rightarrow> threads \<Rightarrow> bool" for p where
  init: "thread_reach p threads_init"
| step: "thread_reach p s \<Longrightarrow> thread_step p e s = Some s' \<Longrightarrow> thread_reach p s'"

text \<open>\<^verbatim>\<open>get_by_name\<close> over the list of threads: the visit stops at the first thread of the name.\<close>

definition get_by_name :: "(nat \<Rightarrow> string) \<Rightarrow> string \<Rightarrow> threads \<Rightarrow> nat option" where
  "get_by_name name_of n s = find (\<lambda>t. n = name_of t) (tlist s)"

lemma find_first: "find P xs = None \<and> (\<forall>x \<in> set xs. \<not> P x) \<or> (\<exists>x \<in> set xs. find P xs = Some x \<and> P x)"
  by (induction xs) auto

definition linux_inv :: "threads \<Rightarrow> bool" where
  "linux_inv s \<longleftrightarrow> distinct (tlist s) \<and> set (tlist s) = {t. phase s t = TListed \<or> phase s t = TReturned} \<and>
     (\<forall>t. phase s t \<noteq> TPosted) \<and> freed s \<subseteq> joined s \<and> (\<forall>t \<in> joined s. phase s t = TEnded)"

lemma linux_step_inv [inv_intros]:
  assumes "linux_inv s" "thread_step Linux e s = Some s'"
  shows "linux_inv s'"
proof (cases e)
  case (TRun t)
  with assms show ?thesis
    by (auto simp: linux_inv_def thread_run_def distinct_remove1 split: tphase.splits if_splits)
qed (use assms in \<open>auto simp: linux_inv_def thread_join_def split: if_splits\<close>)

lemma linux_reach_inv: "thread_reach Linux s \<Longrightarrow> linux_inv s"
proof (induction rule: thread_reach.induct)
  case init
  then show ?case by (simp add: linux_inv_def threads_init_def)
qed (rule linux_step_inv)

text \<open>
  on Linux the list of threads never holds a deleted thread: it holds exactly the threads that run, each
  once, and a look-up by name finds one whenever there is one.
\<close>

theorem linux_threads_listed_while_running:
  assumes "thread_reach Linux s"
  shows "set (tlist s) \<inter> freed s = {} \<and> distinct (tlist s) \<and>
    (\<forall>t. t \<in> set (tlist s) \<longleftrightarrow> phase s t \<in> {TListed, TReturned}) \<and>
    ((\<exists>t. get_by_name name_of n s = Some t \<and> name_of t = n \<and> phase s t \<in> {TListed, TReturned}) \<or>
     get_by_name name_of n s = None \<and> (\<forall>t. phase s t \<in> {TListed, TReturned} \<longrightarrow> name_of t \<noteq> n))"
proof -
  from linux_reach_inv [OF assms] have i: "linux_inv s" .
  then have "set (tlist s) \<inter> freed s = {}" by (auto simp: linux_inv_def)
  moreover have "get_by_name name_of n s = None \<and> (\<forall>t \<in> set (tlist s). \<not> n = name_of t) \<or>
      (\<exists>t \<in> set (tlist s). get_by_name name_of n s = Some t \<and> n = name_of t)"
    unfolding get_by_name_def by (rule find_first)
  ultimately show ?thesis using i by (auto simp: linux_inv_def)
qed

fun thread_script :: "thread_port \<Rightarrow> thread_ev list \<Rightarrow> threads \<Rightarrow> threads option" where
  "thread_script p [] s = Some s"
| "thread_script p (e # es) s = (case thread_step p e s of None \<Rightarrow> None | Some s \<Rightarrow> thread_script p es s)"

lemma thread_script_reach: "thread_reach p s \<Longrightarrow> thread_script p es s = Some s' \<Longrightarrow> thread_reach p s'"
  by (induction es arbitrary: s) (auto split: option.splits intro: thread_reach.step)

theorem linux_threads_listed_while_running_witness:
  "\<exists>s. thread_reach Linux s \<and> tlist s = [2] \<and> freed s = {1} \<and> set (tlist s) \<inter> freed s = {}"
proof -
  let ?es = "[TStart 1, TStart 2, TRun 1, TRun 2, TRun 1, TRun 1, TJoin 1, TDelete 1]"
  obtain s where s: "thread_script Linux ?es threads_init = Some s" "tlist s = [2]" "freed s = {1}"
    by (simp add: threads_init_def thread_run_def thread_join_def)
  from thread_script_reach [OF thread_reach.init s(1)] have r: "thread_reach Linux s" .
  from linux_threads_listed_while_running [OF r] s show ?thesis using r by blast
qed

text \<open>
  On FreeRTOS a thread posts before it leaves the list: whoever joins and deletes it in between leaves
  a freed thread in the list, which the next look-up reads.
\<close>

lemma freertos_join_races:
  "\<exists>s. thread_reach FreeRTOS s \<and> 1 \<in> freed s \<and> get_by_name (\<lambda>_. ''batch'') ''batch'' s = Some 1"
proof -
  let ?es = "[TStart 1, TRun 1, TRun 1, TRun 1, TJoin 1, TDelete 1]"
  obtain s where s: "thread_script FreeRTOS ?es threads_init = Some s" "tlist s = [1]" "freed s = {1}"
    by (simp add: threads_init_def thread_run_def thread_join_def)
  with thread_script_reach [OF thread_reach.init s(1)] show ?thesis by (auto simp: get_by_name_def)
qed

subsection \<open>Pools\<close>

text \<open>\<^verbatim>\<open>%d\<close> in a name is replaced by the number of the thread; a label has room for 8 characters more than the name.\<close>

function decimal :: "nat \<Rightarrow> string" where
  "decimal n = (if n < 10 then [char_of (48 + n)] else decimal (n div 10) @ [char_of (48 + n mod 10)])"
  by pat_completeness auto
termination by (relation "measure id") auto

declare decimal.simps [simp del]

fun split_d :: "string \<Rightarrow> (string \<times> string) option" where
  "split_d [] = None"
| "split_d (c # cs) =
     (if c = CHR ''%'' \<and> cs \<noteq> [] \<and> hd cs = CHR ''d'' then Some ([], tl cs)
      else case split_d cs of None \<Rightarrow> None | Some (a, b) \<Rightarrow> Some (c # a, b))"

definition pool_labels :: "string \<Rightarrow> nat \<Rightarrow> string list" where
  "pool_labels name n =
     (case split_d name of
        None \<Rightarrow> replicate n name
      | Some (a, b) \<Rightarrow> let len = length name + 8 in map (\<lambda>i. take (len - 1) (a @ decimal i @ b)) [0..<n])"

definition pool_threads :: "nat \<Rightarrow> string \<Rightarrow> nat \<Rightarrow> (nat \<times> string) list" where
  "pool_threads t0 name n = map (\<lambda>i. (t0 + i, pool_labels name n ! i)) [0..<n]"

definition pool_start :: "nat list \<Rightarrow> thread_ev list" where
  "pool_start ts = map TStart ts"

definition pool_join :: "nat list \<Rightarrow> thread_ev list" where
  "pool_join ts = map TJoin ts"

lemma decimal_value: "foldl (\<lambda>v c. 10 * v + (of_char c - 48)) 0 (decimal n) = n"
proof (induction n rule: decimal.induct)
  case (1 n)
  then show ?case by (subst decimal.simps) (simp add: of_char_of)
qed

lemma decimal_inj: "decimal m = decimal n \<longleftrightarrow> m = n"
  by (metis decimal_value)

lemma decimal_length: "n < 10 ^ Suc k \<Longrightarrow> length (decimal n) \<le> Suc k"
proof (induction k arbitrary: n)
  case (Suc k)
  then have "n div 10 < 10 ^ Suc k" by (simp add: less_mult_imp_div_less mult.commute)
  with Suc.IH show ?case by (subst decimal.simps) auto
qed (simp add: decimal.simps)

lemma split_d_parts: "split_d name = Some (a, b) \<Longrightarrow> length name = length a + length b + 2"
  by (induction name arbitrary: a b) (auto split: if_splits option.splits simp: neq_Nil_conv)

text \<open>
  the threads of a pool have names of their own: each label is the name with the number in the place of its
  \<^verbatim>\<open>%d\<close>, never cut short, and no two are the same, for up to a thousand million threads.
\<close>

theorem pool_names_distinct:
  assumes "split_d name = Some (a, b)" "n \<le> 10 ^ 9"
  shows "pool_labels name n = map (\<lambda>i. a @ decimal i @ b) [0..<n] \<and> distinct (pool_labels name n)"
proof -
  have "take (length name + 7) (a @ decimal i @ b) = a @ decimal i @ b" if "i < n" for i
    using decimal_length [of i 8] that assms(2) split_d_parts [OF assms(1)] by (intro take_all) simp
  then have l: "pool_labels name n = map (\<lambda>i. a @ decimal i @ b) [0..<n]"
    using assms(1) by (simp add: pool_labels_def Let_def add.commute del: take_append)
  then show ?thesis by (simp add: distinct_map inj_on_def decimal_inj)
qed

theorem pool_names_distinct_witness:
  "pool_labels ''client_%d'' 12 ! 11 = ''client_11'' \<and> distinct (pool_labels ''client_%d'' 12)"
proof -
  have d: "decimal 11 = ''11''" by (simp add: decimal.simps) code_simp
  have "split_d ''client_%d'' = Some (''client_'', '''')" "(12 :: nat) \<le> 10 ^ 9" by simp_all
  note p = pool_names_distinct [OF this]
  from conjunct1 [OF p] d have "pool_labels ''client_%d'' 12 ! 11 = ''client_11''" by simp
  with conjunct2 [OF p] show ?thesis by blast
qed

end
