(* ===== verification/Handlers.thy ===== *)
theory Handlers
  imports Devices LinuxQueue Logger
begin

text \<open>
  Application events (app/event.cpp) and the main loop that serves them (app/cli.cpp), and the batch task (batch.cpp).

  Handlers are kept newest first, in the sequence their list stands for; each has a number, its address, and an argument.
  What a handler does is a parameter: it changes some state \<open>'s\<close> and says whether it dealt with the event. It does not
  add or delete handlers.
\<close>

subsection \<open>Events and their handlers\<close>

datatype ev_type = IDLE | INIT | STOP | KEY | UART | MQTT | DISPLAY | DATE_TIME | LOCATION | USER nat

text \<open>\<open>USER 0\<close> is the enumeration's \<^verbatim>\<open>USER\<close>; \<^verbatim>\<open>get_user_code\<close> hands out the ones after it.\<close>

fun ev_code :: "ev_type \<Rightarrow> int" where
  "ev_code IDLE = 0"
| "ev_code INIT = 1"
| "ev_code STOP = 2"
| "ev_code KEY = 3"
| "ev_code UART = 4"
| "ev_code MQTT = 5"
| "ev_code DISPLAY = 6"
| "ev_code DATE_TIME = 7"
| "ev_code LOCATION = 8"
| "ev_code (USER n) = 9 + int n"

definition type_lut :: "(string \<times> int) list" where
  "type_lut =
    [(''KEY'', ev_code KEY), (''UART'', ev_code UART), (''MQTT'', ev_code MQTT), (''DISPLAY'', ev_code DISPLAY),
     (''DATE_TIME'', ev_code DATE_TIME), (''INIT'', ev_code INIT), (''IDLE'', ev_code IDLE),
     (''LOCATION'', ev_code LOCATION), (''STOP'', ev_code STOP), (''USER'', ev_code (USER 0))]"

record 'p app_event =
  etype :: ev_type
  payload :: 'p

record ev_handler =
  h_id :: nat
  h_type :: ev_type
  h_fn :: "nat option"
  h_arg :: nat

definition add_handler :: "nat \<Rightarrow> ev_type \<Rightarrow> nat option \<Rightarrow> nat \<Rightarrow> ev_handler list \<Rightarrow> ev_handler list" where
  "add_handler a t f x hs = \<lparr>h_id = a, h_type = t, h_fn = f, h_arg = x\<rparr> # hs"

definition del_handler :: "ev_handler \<Rightarrow> ev_handler list \<Rightarrow> bool \<times> ev_handler list" where
  "del_handler h hs = (h \<in> set hs, remove1 h hs)"

text \<open>The loop of \<^verbatim>\<open>handle_event\<close>.\<close>

fun handle_event ::
    "(nat \<Rightarrow> nat \<Rightarrow> 'p app_event \<Rightarrow> 's \<Rightarrow> bool \<times> 's) \<Rightarrow> 'p app_event \<Rightarrow> ev_handler list \<Rightarrow> 's \<Rightarrow> (ev_handler option \<times> 's) result" where
  "handle_event run ev [] s = Inr (None, s)"
| "handle_event run ev (h # hs) s =
     (if h_type h \<noteq> etype ev then handle_event run ev hs s
      else case h_fn h of
        None \<Rightarrow> Inl AssertFailed
      | Some f \<Rightarrow> let (ok, s) = run f (h_arg h) ev s in if ok then Inr (Some h, s) else handle_event run ev hs s)"

function unlink_handlers :: "ev_type \<Rightarrow> ev_handler list \<Rightarrow> ev_handler list" where
  "unlink_handlers t hs = (case find (\<lambda>h. h_type h = t) hs of None \<Rightarrow> hs | Some h \<Rightarrow> unlink_handlers t (remove1 h hs))"
  by pat_completeness auto
termination
proof (relation "measure (\<lambda>(_, hs). length hs)", goal_cases)
  case (2 t hs h)
  then have "h \<in> set hs" by (auto simp: find_Some_iff)
  then show ?case using length_pos_if_in_set [of h hs] by (simp add: length_remove1)
qed simp

declare unlink_handlers.simps [simp del]

definition get_user_code :: "nat \<Rightarrow> ev_type \<times> nat" where
  "get_user_code n = (USER (n + 1), n + 1)"

text \<open>Events through the queue of the platform; \<open>on_uart\<close> is the interrupt of a serial port.\<close>

definition event_put :: "'p app_event \<Rightarrow> 'p app_event lqueue \<Rightarrow> (bool \<times> 'p app_event lqueue) result" where
  "event_put ev q = lq_put ev q"

definition event_get :: "'p app_event lqueue \<Rightarrow> ('p app_event option \<times> 'p app_event lqueue) result" where
  "event_get q = lq_poll q"

definition event_stop :: "'p \<Rightarrow> 'p app_event lqueue \<Rightarrow> (bool \<times> 'p app_event lqueue) result" where
  "event_stop p q = event_put \<lparr>etype = STOP, payload = p\<rparr> q"

definition on_uart :: "'p \<Rightarrow> 'p app_event lqueue \<Rightarrow> (bool \<times> 'p app_event lqueue) result" where
  "on_uart uart q = event_put \<lparr>etype = UART, payload = uart\<rparr> q"

text \<open>
  \<^verbatim>\<open>run_cli\<close>: the INIT event at the start, and one round of its loop after the event queue, the lamp and the watchdog
  were served, with what the queue gave. A handler that takes an IDLE event is deleted.
\<close>

definition cli_start ::
    "(nat \<Rightarrow> nat \<Rightarrow> 'p app_event \<Rightarrow> 's \<Rightarrow> bool \<times> 's) \<Rightarrow> 'p \<Rightarrow> ev_handler list \<Rightarrow> 's \<Rightarrow> (ev_handler list \<times> 's) result" where
  "cli_start run p hs s =
     rbind (handle_event run \<lparr>etype = INIT, payload = p\<rparr> hs s) (\<lambda>(_, s). Inr (unlink_handlers INIT hs, s))"

definition cli_round ::
    "(nat \<Rightarrow> nat \<Rightarrow> 'p app_event \<Rightarrow> 's \<Rightarrow> bool \<times> 's) \<Rightarrow> 'p \<Rightarrow> 'p app_event option \<Rightarrow> ev_handler list \<Rightarrow> 's \<Rightarrow> (bool \<times> ev_handler list \<times> 's) result" where
  "cli_round run p got hs s =
     (case got of
        None \<Rightarrow>
          rbind (handle_event run \<lparr>etype = IDLE, payload = p\<rparr> hs s) (\<lambda>(h, s).
            case h of None \<Rightarrow> Inr (True, hs, s) | Some h \<Rightarrow> Inr (True, snd (del_handler h hs), s))
      | Some ev \<Rightarrow>
          rbind (handle_event run ev hs s) (\<lambda>(h, s). Inr (h \<noteq> None, hs, s)))"

subsection \<open>Who is called\<close>

text \<open>The handlers registered for an event, and the state after some of them ran.\<close>

definition for_type :: "ev_type \<Rightarrow> ev_handler list \<Rightarrow> ev_handler list" where
  "for_type t hs = filter (\<lambda>h. h_type h = t) hs"

fun run_all :: "(nat \<Rightarrow> nat \<Rightarrow> 'p app_event \<Rightarrow> 's \<Rightarrow> bool \<times> 's) \<Rightarrow> 'p app_event \<Rightarrow> ev_handler list \<Rightarrow> 's \<Rightarrow> 's" where
  "run_all run ev [] s = s"
| "run_all run ev (h # hs) s = run_all run ev hs (snd (run (the (h_fn h)) (h_arg h) ev s))"

text \<open>Whether a handler takes the event, when those before it ran.\<close>

definition takes :: "(nat \<Rightarrow> nat \<Rightarrow> 'p app_event \<Rightarrow> 's \<Rightarrow> bool \<times> 's) \<Rightarrow> 'p app_event \<Rightarrow> ev_handler list \<Rightarrow> 's \<Rightarrow> nat \<Rightarrow> bool" where
  "takes run ev hs s i = fst (run (the (h_fn (hs ! i))) (h_arg (hs ! i)) ev (run_all run ev (take i hs) s))"

lemma unlink_is_filter: "unlink_handlers t hs = filter (\<lambda>h. h_type h \<noteq> t) hs"
proof (induction t hs rule: unlink_handlers.induct)
  case (1 t hs)
  show ?case
  proof (cases "find (\<lambda>h. h_type h = t) hs")
    case None
    then have "\<forall>h \<in> set hs. h_type h \<noteq> t" by (auto simp: find_None_iff)
    with None show ?thesis by (simp add: unlink_handlers.simps [of t hs])
  next
    case (Some h)
    then have "h_type h = t" by (auto simp: find_Some_iff)
    then have "filter (\<lambda>h. h_type h \<noteq> t) (remove1 h hs) = filter (\<lambda>h. h_type h \<noteq> t) hs"
      by (induction hs) auto
    with Some 1 show ?thesis by (simp add: unlink_handlers.simps [of t hs])
  qed
qed

lemma handle_event_for_type:
  "handle_event run ev hs s = handle_event run ev (for_type (etype ev) hs) s"
  by (induction hs arbitrary: s) (auto simp: for_type_def split: option.splits prod.splits)

lemma handle_event_cases:
  assumes "\<forall>h \<in> set hs. h_type h = etype ev \<and> h_fn h \<noteq> None"
  shows "(\<exists>i < length hs. takes run ev hs s i \<and> (\<forall>j < i. \<not> takes run ev hs s j) \<and>
      handle_event run ev hs s = Inr (Some (hs ! i), run_all run ev (take (Suc i) hs) s)) \<or>
    (\<forall>i < length hs. \<not> takes run ev hs s i) \<and> handle_event run ev hs s = Inr (None, run_all run ev hs s)"
  using assms
proof (induction hs arbitrary: s)
  case (Cons h hs)
  obtain ok s1 where r: "run (the (h_fn h)) (h_arg h) ev s = (ok, s1)" by fastforce
  from Cons.prems obtain f where f: "h_type h = etype ev" "h_fn h = Some f" by auto
  have shift: "takes run ev (h # hs) s (Suc i) = takes run ev hs s1 i" for i using r by (simp add: takes_def)
  show ?case
  proof (cases ok)
    case True
    then have "takes run ev (h # hs) s 0" using r by (simp add: takes_def)
    moreover have "handle_event run ev (h # hs) s = Inr (Some h, s1)" using True r f by simp
    ultimately show ?thesis using r by (intro disjI1 exI [of _ 0]) simp
  next
    case False
    then have z: "\<not> takes run ev (h # hs) s 0" using r by (simp add: takes_def)
    have e: "handle_event run ev (h # hs) s = handle_event run ev hs s1" using False r f by simp
    from Cons.prems have "\<forall>h \<in> set hs. h_type h = etype ev \<and> h_fn h \<noteq> None" by simp
    from Cons.IH [OF this, of s1] consider
        (some) i where "i < length hs" "takes run ev hs s1 i" "\<forall>j < i. \<not> takes run ev hs s1 j"
          "handle_event run ev hs s1 = Inr (Some (hs ! i), run_all run ev (take (Suc i) hs) s1)"
      | (none) "\<forall>i < length hs. \<not> takes run ev hs s1 i" "handle_event run ev hs s1 = Inr (None, run_all run ev hs s1)"
      by blast
    then show ?thesis
    proof cases
      case some
      then have "\<forall>j < Suc i. \<not> takes run ev (h # hs) s j" using z shift by (metis less_Suc_eq_0_disj)
      with some e r shift show ?thesis by (intro disjI1 exI [of _ "Suc i"]) simp
    next
      case none
      then have "\<forall>j < length (h # hs). \<not> takes run ev (h # hs) s j" using z shift by (metis less_Suc_eq_0_disj length_Cons)
      with none e r show ?thesis by simp
    qed
  qed
qed (simp add: takes_def)

text \<open>
  C33: an event goes to the handlers of its type only, the last registered first, until one of them takes it.
  What was asked of the others is nothing; and taking the handlers of a type away leaves all others, in order.
\<close>

theorem events_reach_their_handlers:
  assumes "\<forall>h \<in> set hs. h_fn h \<noteq> None"
  shows "((\<exists>i < length (for_type (etype ev) hs). takes run ev (for_type (etype ev) hs) s i \<and>
        (\<forall>j < i. \<not> takes run ev (for_type (etype ev) hs) s j) \<and>
        handle_event run ev hs s =
          Inr (Some (for_type (etype ev) hs ! i), run_all run ev (take (Suc i) (for_type (etype ev) hs)) s)) \<or>
      (\<forall>i < length (for_type (etype ev) hs). \<not> takes run ev (for_type (etype ev) hs) s i) \<and>
        handle_event run ev hs s = Inr (None, run_all run ev (for_type (etype ev) hs) s)) \<and>
    unlink_handlers t hs = filter (\<lambda>h. h_type h \<noteq> t) hs"
proof
  have "\<forall>h \<in> set (for_type (etype ev) hs). h_type h = etype ev \<and> h_fn h \<noteq> None"
    using assms by (auto simp: for_type_def)
  from handle_event_cases [OF this] show "(\<exists>i < length (for_type (etype ev) hs). takes run ev (for_type (etype ev) hs) s i \<and>
        (\<forall>j < i. \<not> takes run ev (for_type (etype ev) hs) s j) \<and>
        handle_event run ev hs s =
          Inr (Some (for_type (etype ev) hs ! i), run_all run ev (take (Suc i) (for_type (etype ev) hs)) s)) \<or>
      (\<forall>i < length (for_type (etype ev) hs). \<not> takes run ev (for_type (etype ev) hs) s i) \<and>
        handle_event run ev hs s = Inr (None, run_all run ev (for_type (etype ev) hs) s)"
    unfolding handle_event_for_type [of run ev hs s] .
qed (rule unlink_is_filter)

theorem events_reach_their_handlers_witness:
  "handle_event (\<lambda>f a ev s. (f = 7, a # s)) \<lparr>etype = KEY, payload = ()\<rparr>
      [\<lparr>h_id = 1, h_type = KEY, h_fn = Some 5, h_arg = 10\<rparr>, \<lparr>h_id = 2, h_type = UART, h_fn = Some 7, h_arg = 20\<rparr>,
       \<lparr>h_id = 3, h_type = KEY, h_fn = Some 7, h_arg = 30\<rparr>] [] =
    Inr (Some \<lparr>h_id = 3, h_type = KEY, h_fn = Some 7, h_arg = 30\<rparr>, [30, 10]) \<and>
   unlink_handlers KEY
      [\<lparr>h_id = 1, h_type = KEY, h_fn = Some 5, h_arg = 10\<rparr>, \<lparr>h_id = 2, h_type = UART, h_fn = Some 7, h_arg = 20\<rparr>] =
    [\<lparr>h_id = 2, h_type = UART, h_fn = Some 7, h_arg = 20\<rparr>]"
proof -
  let ?hs = "[\<lparr>h_id = 1, h_type = KEY, h_fn = Some 5, h_arg = 10\<rparr>, \<lparr>h_id = 2, h_type = UART, h_fn = Some 7, h_arg = 20\<rparr>]"
  have "\<forall>h \<in> set ?hs. h_fn h \<noteq> None" by simp
  from conjunct2 [OF events_reach_their_handlers [OF this, of _ _ _ KEY]] show ?thesis by simp
qed

end
