(* ===== verification/Batches.thy ===== *)
theory Batches
  imports Devices
begin

text \<open>
  The batch task (batch.cpp): one thread takes jobs from a queue, first come first served, until it takes the null
  job of the destructor. \<^verbatim>\<open>execute\<close> waits while the queue is full: it is a step that is not possible then.
  A \<^verbatim>\<open>WaitJob\<close> posts its semaphore when it is run, and \<^verbatim>\<open>wait\<close> takes it.
\<close>

datatype job = Work nat | WaitJob nat

datatype batch_pc = AtGet | Running job | Ended

record batch =
  bqueue :: "job option list"
  bpc :: batch_pc
  wait_sem :: "nat \<Rightarrow> nat"
  passed :: "nat set"          \<comment> \<open>the wait jobs whose \<^verbatim>\<open>wait\<close> returned\<close>
  handed :: "job option list"  \<comment> \<open>what was given to \<^verbatim>\<open>execute\<close>\<close>
  jobs_run :: "job list"            \<comment> \<open>what was run\<close>

definition batch_init :: batch where
  "batch_init = \<lparr>bqueue = [], bpc = AtGet, wait_sem = (\<lambda>_. 0), passed = {}, handed = [], jobs_run = []\<rparr>"

datatype batch_ev = Execute "job option" | Turn | Wait nat

definition batch_execute :: "nat \<Rightarrow> job option \<Rightarrow> batch \<Rightarrow> batch option" where
  "batch_execute cap j b =
     (if length (bqueue b) < cap then Some (b\<lparr>bqueue := bqueue b @ [j], handed := handed b @ [j]\<rparr>) else None)"

text \<open>\<^verbatim>\<open>run\<close> of a job.\<close>

fun job_run :: "job \<Rightarrow> batch \<Rightarrow> batch" where
  "job_run (Work n) b = b\<lparr>jobs_run := jobs_run b @ [Work n]\<rparr>"
| "job_run (WaitJob w) b = b\<lparr>jobs_run := jobs_run b @ [WaitJob w], wait_sem := (wait_sem b)(w := wait_sem b w + 1)\<rparr>"

text \<open>One turn of the thread: a wait for the queue that times out, or gives a job, or the job.\<close>

definition batch_turn :: "batch \<Rightarrow> batch option" where
  "batch_turn b =
     (case bpc b of
        AtGet \<Rightarrow>
          (case bqueue b of
             [] \<Rightarrow> Some b
           | None # q \<Rightarrow> Some (b\<lparr>bqueue := q, bpc := Ended\<rparr>)
           | Some j # q \<Rightarrow> Some (b\<lparr>bqueue := q, bpc := Running j\<rparr>))
      | Running j \<Rightarrow> Some ((job_run j b)\<lparr>bpc := AtGet\<rparr>)
      | Ended \<Rightarrow> None)"

definition batch_wait :: "nat \<Rightarrow> batch \<Rightarrow> batch option" where
  "batch_wait w b =
     (if wait_sem b w = 0 then None
      else Some (b\<lparr>wait_sem := (wait_sem b)(w := wait_sem b w - 1), passed := insert w (passed b)\<rparr>))"

fun batch_step :: "nat \<Rightarrow> batch_ev \<Rightarrow> batch \<Rightarrow> batch option" where
  "batch_step cap (Execute j) b = batch_execute cap j b"
| "batch_step cap Turn b = batch_turn b"
| "batch_step cap (Wait w) b = batch_wait w b"

inductive batch_reach :: "nat \<Rightarrow> batch \<Rightarrow> bool" for cap where
  start: "batch_reach cap batch_init"
| step: "batch_reach cap b \<Longrightarrow> batch_step cap e b = Some b' \<Longrightarrow> batch_reach cap b'"

text \<open>\<^verbatim>\<open>start\<close>: one task for all, kept in the registry; whether a thread was started.\<close>

definition batch_start :: "nat \<Rightarrow> objects \<Rightarrow> nat \<times> bool \<times> objects" where
  "batch_start new os =
     (case objects_get ''batch_task'' os of
        Some t \<Rightarrow> (t, False, os)
      | None \<Rightarrow> (new, True, objects_add ''batch_task'' new os))"

text \<open>The destructor hands over the null job and waits for the thread's end.\<close>

definition batch_close :: "nat \<Rightarrow> batch \<Rightarrow> batch option" where
  "batch_close cap b = batch_execute cap None b"

definition batch_stop :: "objects \<Rightarrow> bool \<times> objects" where
  "batch_stop os = objects_remove ''batch_task'' os"

fun in_progress :: "batch_pc \<Rightarrow> job option list" where
  "in_progress AtGet = []"
| "in_progress (Running j) = [Some j]"
| "in_progress Ended = [None]"

definition batch_inv :: "batch \<Rightarrow> bool" where
  "batch_inv b \<longleftrightarrow> handed b = map Some (jobs_run b) @ in_progress (bpc b) @ bqueue b \<and>
     (\<forall>w. 0 < wait_sem b w \<or> w \<in> passed b \<longrightarrow> WaitJob w \<in> set (jobs_run b))"

lemma batch_step_inv [inv_intros]:
  assumes "batch_inv b" "batch_step cap e b = Some b'"
  shows "batch_inv b'"
proof (cases e)
  case Turn
  show ?thesis
  proof (cases "bpc b")
    case AtGet
    with assms Turn show ?thesis
      by (auto simp: batch_inv_def batch_turn_def split: list.splits option.splits)
  next
    case (Running j)
    with assms Turn show ?thesis by (cases j) (auto simp: batch_inv_def batch_turn_def split: if_splits)
  qed (use assms Turn in \<open>auto simp: batch_turn_def\<close>)
qed (use assms in \<open>auto simp: batch_inv_def batch_execute_def batch_wait_def split: if_splits\<close>)

lemma batch_reach_inv: "batch_reach cap b \<Longrightarrow> batch_inv b"
proof (induction rule: batch_reach.induct)
  case start
  then show ?case by (simp add: batch_inv_def batch_init_def)
qed (rule batch_step_inv)

lemma takeWhile_jobs: "takeWhile (\<lambda>j. j \<noteq> None) (map Some xs @ None # ys) = map Some xs"
  by (induction xs) simp_all

text \<open>
  C23: the batch task runs every job it is handed, in order, each once. A \<^verbatim>\<open>wait\<close> that returned is a barrier: its job
  and all that were handed over before it have run. When the task has ended, everything handed over before
  its null job has run. And while it has not, and something is queued or in hand, its next turn gets on with it.
\<close>

theorem batch_is_in_order:
  assumes "batch_reach cap b"
  shows "map Some (jobs_run b) = take (length (jobs_run b)) (handed b) \<and>
    (\<forall>w \<in> passed b. \<exists>i < length (jobs_run b). handed b ! i = Some (WaitJob w) \<and> (\<forall>k \<le> i. handed b ! k = Some (jobs_run b ! k))) \<and>
    (bpc b = Ended \<longrightarrow> map Some (jobs_run b) = takeWhile (\<lambda>j. j \<noteq> None) (handed b)) \<and>
    (bpc b \<noteq> Ended \<longrightarrow> length (jobs_run b) < length (handed b) \<longrightarrow>
      (\<exists>b'. batch_turn b = Some b' \<and> (length (bqueue b') < length (bqueue b) \<or> length (jobs_run b) < length (jobs_run b'))))"
proof -
  from batch_reach_inv [OF assms] have h: "handed b = map Some (jobs_run b) @ in_progress (bpc b) @ bqueue b"
    and w: "\<forall>w \<in> passed b. WaitJob w \<in> set (jobs_run b)"
    by (auto simp: batch_inv_def)
  have nth: "handed b ! k = Some (jobs_run b ! k)" if "k < length (jobs_run b)" for k
    using that by (simp add: h nth_append)
  have barrier: "\<exists>i < length (jobs_run b). handed b ! i = Some (WaitJob v) \<and> (\<forall>k \<le> i. handed b ! k = Some (jobs_run b ! k))"
    if "v \<in> passed b" for v
    using w that nth by (metis in_set_conv_nth le_less_trans)
  have turn: "\<exists>b'. batch_turn b = Some b' \<and> (length (bqueue b') < length (bqueue b) \<or> length (jobs_run b) < length (jobs_run b'))"
    if "bpc b \<noteq> Ended" "length (jobs_run b) < length (handed b)"
  proof (cases "bpc b")
    case AtGet
    with that h obtain j q where q: "bqueue b = j # q" by (cases "bqueue b") auto
    with AtGet show ?thesis by (cases j) (auto simp: batch_turn_def)
  next
    case (Running j)
    then show ?thesis by (cases j) (auto simp: batch_turn_def)
  qed (use that in simp)
  have "takeWhile (\<lambda>j. j \<noteq> None) (handed b) = map Some (jobs_run b)" if "bpc b = Ended"
    using that by (simp only: h in_progress.simps append_Cons append_Nil takeWhile_jobs)
  with h barrier turn show ?thesis by auto
qed

fun batch_script :: "nat \<Rightarrow> batch_ev list \<Rightarrow> batch \<Rightarrow> batch option" where
  "batch_script cap [] b = Some b"
| "batch_script cap (e # es) b = (case batch_step cap e b of None \<Rightarrow> None | Some b \<Rightarrow> batch_script cap es b)"

lemma batch_script_reach: "batch_reach cap b \<Longrightarrow> batch_script cap es b = Some b' \<Longrightarrow> batch_reach cap b'"
  by (induction es arbitrary: b) (auto split: option.splits intro: batch_reach.step)

theorem batch_is_in_order_witness:
  "\<exists>b. batch_reach 10 b \<and> passed b = {3} \<and> jobs_run b = [Work 1, WaitJob 3] \<and> bpc b = Ended \<and>
     map Some (jobs_run b) = takeWhile (\<lambda>j. j \<noteq> None) (handed b)"
proof -
  let ?es = "[Execute (Some (Work 1)), Execute (Some (WaitJob 3)), Turn, Turn, Turn, Turn, Wait 3, Execute None,
      Execute (Some (Work 2)), Turn]"
  obtain b where b: "batch_script 10 ?es batch_init = Some b" "passed b = {3}" "jobs_run b = [Work 1, WaitJob 3]" "bpc b = Ended"
    by (simp add: batch_init_def batch_execute_def batch_turn_def batch_wait_def)
  from batch_script_reach [OF batch_reach.start b(1)] have r: "batch_reach 10 b" .
  from batch_is_in_order [OF r] b r show ?thesis by blast
qed

text \<open>A second start finds the first task.\<close>

lemma batch_started_once:
  "batch_start new os = (t, fresh, os') \<Longrightarrow> batch_start new' os' = (t, False, os')"
  by (auto simp: batch_start_def objects_get_def objects_add_def split: option.splits)

end
