(* ===== verification/Servers.thy ===== *)
theory Servers
  imports IntrusiveList "HOL-Library.Multiset"
begin

text \<open>
  The socket server (socket.cpp) with its clients, each a thread of its own.

  The system moves in steps: the server's loop, each client's thread, and connections that come in. A step is what
  one party does between two points where others can see it: a list operation under the mutex, a post, a wait, an
  \<^verbatim>\<open>accept\<close>. A client is a number; \<open>CNone\<close> is one that was not created yet.
\<close>

datatype client_phase =
    CNone
  | CStarted     \<comment> \<open>the thread runs; \<^verbatim>\<open>add_client\<close> and the post are to come\<close>
  | CRunning     \<comment> \<open>in \<^verbatim>\<open>run\<close>\<close>
  | CLeaving     \<comment> \<open>\<^verbatim>\<open>run\<close> returned; \<^verbatim>\<open>del_client\<close> is to come\<close>
  | CReturning   \<comment> \<open>\<^verbatim>\<open>del_client\<close> is done; the thread has still to return\<close>
  | CEnded       \<comment> \<open>the thread has ended\<close>

text \<open>
  The server: \<open>Check\<close> tests \<^verbatim>\<open>dead\<close>, \<open>Accepting\<close> is inside \<^verbatim>\<open>accept\<close>, whatever \<^verbatim>\<open>dead\<close> has become since. \<^verbatim>\<open>tidy_clients\<close>
  runs in the loop and for each of the lists at the end. It asks for the size (\<open>Tidy\<close>) and takes a client (\<open>Popping\<close>)
  under two separate locks, then stops the client (\<open>Stopping\<close>) and waits for its thread (\<open>Joining\<close>). \<open>Crashed\<close> is the use
  of the null pointer that \<^verbatim>\<open>pop\<close> answers when the list has become empty in between.
\<close>

datatype tidy = InLoop | AtEndClients | AtEndEx

datatype server_pc =
  Check | Accepting | Push nat | AwaitStart nat | Tidy tidy | Popping tidy | Stopping tidy nat | Joining tidy nat
| Finished | Asserted | Crashed

record server =
  spc :: server_pc
  dead :: bool
  clients :: "nat list"
  ex_clients :: "nat list"
  start_sem :: nat
  cphase :: "nat \<Rightarrow> client_phase"
  has_sock :: "nat set"       \<comment> \<open>the clients whose \<^verbatim>\<open>sock\<close> is not null\<close>
  deleted :: "nat list"       \<comment> \<open>the clients deleted\<close>

definition server_init :: server where
  "server_init = \<lparr>spc = Check, dead = False, clients = [], ex_clients = [], start_sem = 0, cphase = (\<lambda>_. CNone),
     has_sock = {}, deleted = []\<rparr>"

datatype accepted = Connection nat | SocketClosed | OtherError

datatype server_ev = Accept accepted | ServerStep | ClientStep nat | KillServer

text \<open>\<^verbatim>\<open>accept\<close> with its outcomes; a new client is created and started.\<close>

definition server_accept :: "accepted \<Rightarrow> server \<Rightarrow> server option" where
  "server_accept a s =
     (if spc s \<noteq> Accepting then None
      else case a of
        Connection c \<Rightarrow>
          if cphase s c \<noteq> CNone then None
          else Some (s\<lparr>cphase := (cphase s)(c := CStarted), has_sock := insert c (has_sock s), spc := Push c\<rparr>)
      | SocketClosed \<Rightarrow> Some (s\<lparr>dead := True, spc := Check\<rparr>)
      | OtherError \<Rightarrow> Some (s\<lparr>spc := Asserted\<rparr>))"

text \<open>\<^verbatim>\<open>tidy_clients\<close>, on the list it was called with.\<close>

definition tidy_next :: "tidy \<Rightarrow> server_pc" where
  "tidy_next t = (case t of InLoop \<Rightarrow> Check | AtEndClients \<Rightarrow> Tidy AtEndEx | AtEndEx \<Rightarrow> Finished)"

definition tidy_list :: "tidy \<Rightarrow> server \<Rightarrow> nat list" where
  "tidy_list t s = (if t = AtEndClients then clients s else ex_clients s)"

definition server_tidy :: "tidy \<Rightarrow> server \<Rightarrow> server" where
  "server_tidy t s = s\<lparr>spc := (if tidy_list t s = [] then tidy_next t else Popping t)\<rparr>"

definition server_pop :: "tidy \<Rightarrow> server \<Rightarrow> server" where
  "server_pop t s =
     (case tidy_list t s of
        [] \<Rightarrow> s\<lparr>spc := Crashed\<rparr>
      | c # cs \<Rightarrow> (if t = AtEndClients then s\<lparr>clients := cs\<rparr> else s\<lparr>ex_clients := cs\<rparr>)\<lparr>spc := Stopping t c\<rparr>)"

text \<open>\<^verbatim>\<open>Client::stop\<close>; then \<^verbatim>\<open>kill\<close>, whose own delete of the socket has nothing left to do, joins the thread, and the client is deleted.\<close>

definition server_step :: "server \<Rightarrow> server option" where
  "server_step s =
     (case spc s of
        Check \<Rightarrow> Some (s\<lparr>spc := if dead s then Tidy AtEndClients else Accepting\<rparr>)
      | Push c \<Rightarrow> Some (s\<lparr>clients := c # clients s, spc := AwaitStart c\<rparr>)
      | AwaitStart c \<Rightarrow> if start_sem s = 0 then None else Some (s\<lparr>start_sem := start_sem s - 1, spc := Tidy InLoop\<rparr>)
      | Tidy t \<Rightarrow> Some (server_tidy t s)
      | Popping t \<Rightarrow> Some (server_pop t s)
      | Stopping t c \<Rightarrow> Some (s\<lparr>has_sock := has_sock s - {c}, spc := Joining t c\<rparr>)
      | Joining t c \<Rightarrow> if cphase s c \<noteq> CEnded then None else Some (s\<lparr>deleted := c # deleted s, spc := Tidy t\<rparr>)
      | _ \<Rightarrow> None)"

text \<open>\<^verbatim>\<open>Client::runner\<close>; \<^verbatim>\<open>add_client\<close> does nothing.\<close>

definition client_step :: "nat \<Rightarrow> server \<Rightarrow> server option" where
  "client_step c s =
     (case cphase s c of
        CStarted \<Rightarrow> Some (s\<lparr>start_sem := start_sem s + 1, cphase := (cphase s)(c := CRunning)\<rparr>)
      | CRunning \<Rightarrow> Some (s\<lparr>cphase := (cphase s)(c := CLeaving)\<rparr>)
      | CLeaving \<Rightarrow>
          let s = (if c \<in> set (clients s) then s\<lparr>clients := remove1 c (clients s), ex_clients := c # ex_clients s\<rparr> else s)
          in Some (s\<lparr>cphase := (cphase s)(c := CReturning)\<rparr>)
      | CReturning \<Rightarrow> Some (s\<lparr>cphase := (cphase s)(c := CEnded)\<rparr>)
      | _ \<Rightarrow> None)"

fun socket_step :: "server_ev \<Rightarrow> server \<Rightarrow> server option" where
  "socket_step (Accept a) s = server_accept a s"
| "socket_step ServerStep s = server_step s"
| "socket_step (ClientStep c) s = client_step c s"
| "socket_step KillServer s = Some (s\<lparr>dead := True\<rparr>)"

inductive server_reach :: "server \<Rightarrow> bool" where
  init: "server_reach server_init"
| step: "server_reach s \<Longrightarrow> socket_step e s = Some s' \<Longrightarrow> server_reach s'"

subsection \<open>What holds throughout\<close>

fun in_hand :: "server_pc \<Rightarrow> nat list" where
  "in_hand (Push c) = [c]"
| "in_hand (Stopping t c) = [c]"
| "in_hand (Joining t c) = [c]"
| "in_hand _ = []"

text \<open>The clients that exist are in one place each: a list, the server's hand, or deleted.\<close>

definition places :: "server \<Rightarrow> nat list" where
  "places s = in_hand (spc s) @ clients s @ ex_clients s @ deleted s"

definition starting :: "server_pc \<Rightarrow> nat option" where
  "starting p = (case p of Push c \<Rightarrow> Some c | AwaitStart c \<Rightarrow> Some c | _ \<Rightarrow> None)"

text \<open>The semaphore counts the start that the server still has to take.\<close>

definition sem_ok :: "server \<Rightarrow> bool" where
  "sem_ok s \<longleftrightarrow>
     (case starting (spc s) of
        None \<Rightarrow> start_sem s = 0 \<and> (\<forall>c. cphase s c \<noteq> CStarted)
      | Some c \<Rightarrow> cphase s c \<noteq> CNone \<and> (\<forall>d. d \<noteq> c \<longrightarrow> cphase s d \<noteq> CStarted) \<and> start_sem s = (if cphase s c = CStarted then 0 else 1))"

text \<open>The list the server works on, and whether it has left its loop.\<close>

fun tidying :: "server_pc \<Rightarrow> tidy option" where
  "tidying (Tidy t) = Some t"
| "tidying (Popping t) = Some t"
| "tidying (Stopping t c) = Some t"
| "tidying (Joining t c) = Some t"
| "tidying _ = None"

definition ending :: "server_pc \<Rightarrow> bool" where
  "ending p \<longleftrightarrow> p = Finished \<or> p = Crashed \<or> tidying p = Some AtEndClients \<or> tidying p = Some AtEndEx"

definition server_inv :: "server \<Rightarrow> bool" where
  "server_inv s \<longleftrightarrow> distinct (places s) \<and> set (places s) = {c. cphase s c \<noteq> CNone} \<and>
     (\<forall>c \<in> set (deleted s). cphase s c = CEnded) \<and>
     (tidying (spc s) = Some AtEndEx \<or> spc s = Finished \<longrightarrow> clients s = []) \<and>
     (\<forall>t. spc s = Popping t \<longrightarrow> t \<noteq> AtEndClients \<longrightarrow> ex_clients s \<noteq> []) \<and>
     (spc s = Finished \<longrightarrow> ex_clients s = []) \<and> (ending (spc s) \<longrightarrow> dead s)"

lemma accept_inv: "server_inv s \<Longrightarrow> server_accept a s = Some s' \<Longrightarrow> server_inv s'"
  by (auto simp: server_accept_def server_inv_def places_def ending_def split: if_splits accepted.splits)

lemma tidy_inv: "server_inv s \<Longrightarrow> spc s = Tidy t \<Longrightarrow> server_inv (server_tidy t s)"
  by (cases t) (auto simp: server_tidy_def tidy_list_def tidy_next_def server_inv_def places_def ending_def)

lemma pop_inv: "server_inv s \<Longrightarrow> spc s = Popping t \<Longrightarrow> server_inv (server_pop t s)"
  by (cases t) (auto simp: server_pop_def tidy_list_def server_inv_def places_def ending_def split: list.splits)

text \<open>The invariant looks at \<^verbatim>\<open>dead\<close>, the lists and the place of the server; a step that leaves the lists alone keeps it.\<close>

lemma server_move_inv:
  assumes i: "server_inv s" and p: "in_hand p = in_hand (spc s)" and t: "tidying p = tidying (spc s)"
    and n: "p \<noteq> Finished" "\<forall>t. p \<noteq> Popping t" and e: "ending p \<longrightarrow> dead s"
  shows "server_inv (s\<lparr>spc := p\<rparr>)"
proof -
  have q: "places (s\<lparr>spc := p\<rparr>) = places s" using p by (simp add: places_def)
  have l: "tidying p = Some AtEndEx \<Longrightarrow> clients s = []" using i t by (simp add: server_inv_def)
  show ?thesis using i n e l unfolding server_inv_def q by simp
qed

lemma server_step_inv:
  assumes i: "server_inv s" and st: "server_step s = Some s'"
  shows "server_inv s'"
proof (cases "spc s")
  case Check
  with i st show ?thesis
    by (cases "dead s") (simp add: server_step_def, drule sym, simp add: server_inv_def places_def ending_def)+
next
  case (Push c)
  with i st show ?thesis by (auto simp: server_step_def server_inv_def places_def ending_def)
next
  case (AwaitStart c)
  with i st show ?thesis by (auto simp: server_step_def server_inv_def places_def ending_def split: if_splits)
next
  case (Tidy t)
  with i st tidy_inv show ?thesis by (auto simp: server_step_def)
next
  case (Popping t)
  with i st pop_inv show ?thesis by (auto simp: server_step_def)
next
  case (Stopping t c)
  with st have s': "s' = (s\<lparr>has_sock := has_sock s - {c}\<rparr>)\<lparr>spc := Joining t c\<rparr>" by (simp add: server_step_def)
  have "server_inv (s\<lparr>has_sock := has_sock s - {c}\<rparr>)" using i by (simp add: server_inv_def places_def)
  from server_move_inv [OF this, of "Joining t c"] show ?thesis using i Stopping
    unfolding s' by (simp add: server_inv_def ending_def)
next
  case (Joining t c)
  with st have e: "cphase s c = CEnded" and s': "s' = s\<lparr>deleted := c # deleted s, spc := Tidy t\<rparr>"
    by (simp_all add: server_step_def split: if_splits)
  have m: "mset (places s') = mset (places s)" using Joining s' by (simp add: places_def)
  have p: "distinct (places s')" "set (places s') = {c. cphase s c \<noteq> CNone}"
    using mset_eq_imp_distinct_iff [OF m] mset_eq_setD [OF m] i unfolding server_inv_def by blast+
  show ?thesis using i p e Joining unfolding s' server_inv_def by (simp add: ending_def)
qed (use st in \<open>simp_all add: server_step_def\<close>)

lemma places_moved:
  assumes "c \<in> set (clients s)"
  shows "mset (in_hand (spc s) @ remove1 c (clients s) @ (c # ex_clients s) @ deleted s) = mset (places s)"
  using assms by (simp add: places_def)

lemma client_step_inv: "server_inv s \<Longrightarrow> client_step c s = Some s' \<Longrightarrow> server_inv s'"
proof -
  assume i: "server_inv s" and st: "client_step c s = Some s'"
  show "server_inv s'"
  proof (cases "cphase s c = CLeaving \<and> c \<in> set (clients s)")
    case True
    note m = places_moved [OF conjunct2 [OF True]]
    have s': "places s' = in_hand (spc s) @ remove1 c (clients s) @ (c # ex_clients s) @ deleted s"
      "cphase s' = (cphase s)(c := CReturning)" "spc s' = spc s" "deleted s' = deleted s" "ex_clients s' = c # ex_clients s"
      "clients s' = remove1 c (clients s)" "dead s' = dead s"
      using st True by (auto simp: client_step_def Let_def places_def)
    have p: "distinct (places s')" "set (places s') = set (places s)"
      using m i mset_eq_imp_distinct_iff [OF m] mset_eq_setD [OF m] unfolding s'(1) server_inv_def by blast+
    show ?thesis using i True unfolding server_inv_def p(2) s'(2-)
      by (intro conjI p(1)) auto
  next
    case False
    then have s': "places s' = places s" "spc s' = spc s" "deleted s' = deleted s" "ex_clients s' = ex_clients s"
        "clients s' = clients s" "dead s' = dead s" "cphase s' = (cphase s)(c := cphase s' c)" "cphase s c \<noteq> CNone" "cphase s c \<noteq> CEnded"
        "cphase s' c \<noteq> CNone"
      using st by (auto simp: client_step_def Let_def places_def split: client_phase.splits if_splits)
    then have q: "d \<noteq> c \<Longrightarrow> cphase s' d = cphase s d" for d by (metis fun_upd_apply)
    have e: "cphase s' d = CEnded" if "cphase s d = CEnded" for d using that q [of d] s'(9) by (cases "d = c") simp_all
    have n: "{d. cphase s' d \<noteq> CNone} = {d. cphase s d \<noteq> CNone}"
      using q s'(8,10) by (intro Collect_cong) metis
    show ?thesis using i e unfolding server_inv_def s'(1-6) n by blast
  qed
qed

lemma socket_step_inv [inv_intros]:
  assumes "server_inv s" "socket_step e s = Some s'"
  shows "server_inv s'"
proof (cases e)
  case (Accept a)
  with assms accept_inv show ?thesis by simp
next
  case ServerStep
  with assms server_step_inv show ?thesis by simp
next
  case (ClientStep c)
  with assms client_step_inv show ?thesis by simp
next
  case KillServer
  with assms have "s' = s\<lparr>dead := True\<rparr>" by simp
  with assms(1) show ?thesis by (simp add: server_inv_def places_def)
qed

lemma client_step_sem:
  assumes "sem_ok s" "client_step c s = Some s'"
  shows "sem_ok s'"
proof (cases "cphase s c = CStarted")
  case True
  have "starting (spc s) \<noteq> None" using assms(1) True by (auto simp: sem_ok_def split: option.splits)
  moreover have "x = c" if "starting (spc s) = Some x" for x using assms(1) True that by (auto simp: sem_ok_def)
  ultimately have st: "starting (spc s) = Some c" by auto
  then have "start_sem s = 0" "\<forall>d. d \<noteq> c \<longrightarrow> cphase s d \<noteq> CStarted" using assms(1) True by (simp_all add: sem_ok_def)
  note st this
  with True assms(2) show ?thesis by (auto simp: client_step_def sem_ok_def)
next
  case False
  then have "spc s' = spc s" "start_sem s' = start_sem s" and
    p: "(cphase s' d = CStarted) = (cphase s d = CStarted)" "(cphase s' d = CNone) = (cphase s d = CNone)" for d
    using assms(2) by (auto simp: client_step_def Let_def split: client_phase.splits if_splits)
  with assms(1) show ?thesis by (cases "starting (spc s)") (simp_all add: sem_ok_def)
qed

lemma server_step_sem:
  assumes i: "server_inv s" and m: "sem_ok s" and st: "server_step s = Some s'"
  shows "sem_ok s'"
proof -
  have k: "cphase s' = cphase s"
    using st by (auto simp: server_step_def server_tidy_def server_pop_def split: server_pc.splits if_splits list.splits)
  show ?thesis
  proof (cases "starting (spc s)")
    case None
    with st have "starting (spc s') = None \<and> start_sem s' = start_sem s"
      by (auto simp: starting_def server_step_def server_tidy_def server_pop_def tidy_next_def
          split: server_pc.splits if_splits list.splits tidy.splits)
    with m None k show ?thesis by (simp add: sem_ok_def)
  next
    case (Some c)
    then have "spc s = Push c \<or> spc s = AwaitStart c" by (auto simp: starting_def split: server_pc.splits)
    then show ?thesis
    proof
      assume "spc s = Push c"
      with m st k Some show ?thesis by (auto simp: sem_ok_def starting_def server_step_def)
    next
      assume a: "spc s = AwaitStart c"
      then have z: "start_sem s = 1" "cphase s c \<noteq> CStarted" "\<forall>d. d \<noteq> c \<longrightarrow> cphase s d \<noteq> CStarted"
        using m st Some by (auto simp: sem_ok_def server_step_def split: if_splits)
      then have "\<forall>d. cphase s d \<noteq> CStarted" by metis
      with a st z k show ?thesis by (auto simp: sem_ok_def starting_def server_step_def)
    qed
  qed
qed

lemma socket_step_sem [inv_intros]: "server_inv s \<Longrightarrow> sem_ok s \<Longrightarrow> socket_step e s = Some s' \<Longrightarrow> sem_ok s'"
proof (cases e)
  case (Accept a)
  then show "sem_ok s \<Longrightarrow> socket_step e s = Some s' \<Longrightarrow> sem_ok s'"
    by (auto simp: server_accept_def sem_ok_def starting_def split: if_splits accepted.splits)
next
  case ServerStep
  then show "server_inv s \<Longrightarrow> sem_ok s \<Longrightarrow> socket_step e s = Some s' \<Longrightarrow> sem_ok s'"
    using server_step_sem by simp
next
  case (ClientStep c)
  then show "sem_ok s \<Longrightarrow> socket_step e s = Some s' \<Longrightarrow> sem_ok s'"
    by (auto intro: client_step_sem)
next
  case KillServer
  then show "sem_ok s \<Longrightarrow> socket_step e s = Some s' \<Longrightarrow> sem_ok s'"
    by (auto simp: sem_ok_def split: option.splits)
qed

lemma server_reach_inv: "server_reach s \<Longrightarrow> server_inv s \<and> sem_ok s"
proof (induction rule: server_reach.induct)
  case init
  then show ?case by (simp add: server_inv_def sem_ok_def server_init_def places_def starting_def ending_def)
next
  case (step s e s')
  then show ?case using socket_step_inv socket_step_sem by blast
qed


text \<open>
  the server never gets stuck: as long as it has not ended, and is not waiting for a connection, it can take
  its next step, or the client whose start or end it waits for can; and no client takes more than four
  steps to its end, if its \<^verbatim>\<open>run\<close> returns.
\<close>

theorem server_never_stuck:
  assumes "server_reach s" "spc s \<notin> {Finished, Asserted, Crashed, Accepting}"
  shows "server_step s \<noteq> None \<or>
    (\<exists>c. (spc s = AwaitStart c \<or> (\<exists>t. spc s = Joining t c)) \<and> client_step c s \<noteq> None)"
proof (cases "spc s")
  case (AwaitStart c)
  with server_reach_inv [OF assms(1)] show ?thesis
    by (auto simp: sem_ok_def starting_def server_step_def client_step_def split: if_splits)
next
  case (Joining t c)
  with server_reach_inv [OF assms(1)] have "cphase s c \<noteq> CNone"
    by (auto simp: server_inv_def places_def)
  with Joining show ?thesis
    by (cases "cphase s c") (auto simp: server_step_def client_step_def Let_def)
qed (use assms in \<open>auto simp: server_step_def\<close>)

fun server_script :: "server_ev list \<Rightarrow> server \<Rightarrow> server option" where
  "server_script [] s = Some s"
| "server_script (e # es) s = (case socket_step e s of None \<Rightarrow> None | Some s \<Rightarrow> server_script es s)"

lemma server_script_reach: "server_reach s \<Longrightarrow> server_script es s = Some s' \<Longrightarrow> server_reach s'"
  by (induction es arbitrary: s) (auto split: option.splits intro: server_reach.step)

lemmas server_run = server_init_def server_accept_def server_step_def server_tidy_def server_pop_def tidy_list_def
  tidy_next_def client_step_def


theorem server_never_stuck_witness:
  "\<exists>s. server_reach s \<and> spc s = AwaitStart 1 \<and> start_sem s = 0 \<and> client_step 1 s \<noteq> None"
proof -
  let ?es = "[ServerStep, Accept (Connection 1), ServerStep]"
  obtain s where s: "server_script ?es server_init = Some s" "spc s = AwaitStart 1" "start_sem s = 0"
    by (simp add: server_run)
  from server_script_reach [OF server_reach.init s(1)] have r: "server_reach s" .
  from server_never_stuck [OF r] s have "server_step s \<noteq> None \<or> client_step 1 s \<noteq> None" by auto
  with s r show ?thesis by (auto simp: server_step_def)
qed

text \<open>
  A client whose thread ends before the server has put it on its list is not moved to the list that is tidied: it
  stays, with its memory, until the server ends.
\<close>

lemma early_client_stays:
  "\<exists>s. server_reach s \<and> spc s = Check \<and> cphase s 1 = CEnded \<and> clients s = [1] \<and> ex_clients s = [] \<and> deleted s = []"
proof -
  let ?es = "[ServerStep, Accept (Connection 1), ClientStep 1, ClientStep 1, ClientStep 1, ClientStep 1, ServerStep, ServerStep, ServerStep]"
  obtain s where "server_script ?es server_init = Some s" "spc s = Check" "cphase s 1 = CEnded" "clients s = [1]"
      "ex_clients s = []" "deleted s = []"
    by (simp add: server_run)
  with server_script_reach [OF server_reach.init] show ?thesis by blast
qed

text \<open>
  While the server joins its clients, the last of them ends by itself between the size and the pop: \<^verbatim>\<open>pop\<close> answers the
  null pointer, and \<^verbatim>\<open>stop\<close> is called on it.
\<close>

lemma join_can_crash:
  "\<exists>s. server_reach s \<and> spc s = Crashed \<and> cphase s 1 = CReturning \<and> ex_clients s = [1] \<and> deleted s = []"
proof -
  let ?es = "[ServerStep, Accept (Connection 1), ServerStep, ClientStep 1, ServerStep, ServerStep, ServerStep,
      Accept SocketClosed, ServerStep, ServerStep, ClientStep 1, ClientStep 1, ServerStep]"
  obtain s where "server_script ?es server_init = Some s" "spc s = Crashed" "cphase s 1 = CReturning" "ex_clients s = [1]"
      "deleted s = []"
    by (simp add: server_run)
  with server_script_reach [OF server_reach.init] show ?thesis by blast
qed

text \<open>A connection that \<^verbatim>\<open>accept\<close> was already waiting for is still taken on after \<^verbatim>\<open>kill\<close>.\<close>

lemma accept_outlives_kill:
  "\<exists>s. server_reach s \<and> dead s \<and> spc s = Push 1 \<and> cphase s 1 = CStarted"
proof -
  let ?es = "[ServerStep, KillServer, Accept (Connection 1)]"
  obtain s where "server_script ?es server_init = Some s" "dead s" "spc s = Push 1" "cphase s 1 = CStarted"
    by (simp add: server_run)
  with server_script_reach [OF server_reach.init] show ?thesis by blast
qed

end
