(* ===== verification/CliNet.thy ===== *)
theory CliNet
  imports Servers Logger
begin

text \<open>
  What the clients of socket servers do: a shell over the network (cli_net.cpp), which can have the log sent to it, and
  the transmitter (tx_net.cpp), which sends to every client.

  The shell itself is a library outside the repository: \<open>process\<close> gives, for a byte and its state, the commands of this
  file that the byte sets off. What \<^verbatim>\<open>recv\<close> gives is a sequence: \<open>None\<close> for an error, else the bytes; no bytes at all is how
  a peer that closed the connection reads.
\<close>

subsection \<open>The shell\<close>

datatype net_cmd = NetExit | NetLog

record cli_client =
  cc_dead :: bool
  cc_logging :: bool
  cc_log :: logging

definition net_exit :: "cli_client \<Rightarrow> cli_client" where
  "net_exit c = c\<lparr>cc_dead := True\<rparr>"

definition net_log :: "nat \<Rightarrow> cli_client \<Rightarrow> cli_client" where
  "net_log ou c =
     (if cc_logging c then c
      else c\<lparr>cc_log := log_add ou S_DEBUG None (cc_log c), cc_logging := True\<rparr>)"

fun net_do :: "nat \<Rightarrow> net_cmd list \<Rightarrow> cli_client \<Rightarrow> cli_client" where
  "net_do ou [] c = c"
| "net_do ou (NetExit # cs) c = net_do ou cs (net_exit c)"
| "net_do ou (NetLog # cs) c = net_do ou cs (net_log ou c)"

fun feed :: "(char \<Rightarrow> 's \<Rightarrow> net_cmd list \<times> 's) \<Rightarrow> nat \<Rightarrow> char list \<Rightarrow> cli_client \<times> 's \<Rightarrow> cli_client \<times> 's" where
  "feed process ou [] cs = cs"
| "feed process ou (b # bs) (c, s) = (let (cmds, s) = process b s in feed process ou bs (net_do ou cmds c, s))"

text \<open>\<^verbatim>\<open>run\<close> while it has something to receive; \<open>None\<close> while it has not ended.\<close>

definition cc_leave :: "nat \<Rightarrow> cli_client \<Rightarrow> cli_client" where
  "cc_leave ou c =
     (if cc_logging c then c\<lparr>cc_log := snd (log_remove ou (cc_log c)), cc_logging := False\<rparr> else c)"

fun cc_run :: "(char \<Rightarrow> 's \<Rightarrow> net_cmd list \<times> 's) \<Rightarrow> nat \<Rightarrow> char list option list \<Rightarrow> cli_client \<times> 's \<Rightarrow> cli_client option" where
  "cc_run process ou rs (c, s) =
     (if cc_dead c then Some (cc_leave ou c)
      else case rs of
        [] \<Rightarrow> None
      | None # _ \<Rightarrow> Some (cc_leave ou c)
      | Some bs # rs \<Rightarrow> cc_run process ou rs (feed process ou bs (c, s)))"

declare cc_run.simps [simp del]

text \<open>The logger has, of this client's output, what it had before, and once more while the client wants the log.\<close>

definition cc_inv :: "nat \<Rightarrow> logging \<Rightarrow> cli_client \<Rightarrow> bool" where
  "cc_inv ou l c \<longleftrightarrow> cc_log c = (if cc_logging c then log_add ou S_DEBUG None l else l)"

lemma net_do_inv [inv_intros]: "cc_inv ou l c \<Longrightarrow> cc_inv ou l (net_do ou cmds c)"
  by (induction ou cmds c rule: net_do.induct) (auto simp: cc_inv_def net_exit_def net_log_def)

lemma feed_inv [inv_intros]: "cc_inv ou l (fst cs) \<Longrightarrow> cc_inv ou l (fst (feed process ou bs cs))"
  by (induction process ou bs cs rule: feed.induct) (auto simp: net_do_inv split: prod.splits)

lemma cc_leave_restores: "cc_inv ou l c \<Longrightarrow> cc_log (cc_leave ou c) = l"
  by (auto simp: cc_inv_def cc_leave_def log_add_def log_remove_def match_out_def)

text \<open>
  a session over the network leaves no trace: whatever is typed, and however it ends, the logger is then exactly
  as before; in between it has the session's output once at most.
\<close>

theorem session_leaves_logger_as_it_was:
  assumes "cc_run process ou rs (\<lparr>cc_dead = False, cc_logging = False, cc_log = l\<rparr>, s) = Some c"
  shows "cc_log c = l \<and> cc_inv ou l (fst (feed process ou bs (\<lparr>cc_dead = False, cc_logging = False, cc_log = l\<rparr>, s)))"
proof -
  have run: "cc_inv ou l (fst cs) \<Longrightarrow> cc_run process ou rs cs = Some c \<Longrightarrow> cc_log c = l" for cs
  proof (induction process ou rs cs rule: cc_run.induct)
    case (1 process ou rs c' s')
    then show ?case
      by (auto simp: cc_run.simps [of process ou rs] cc_leave_restores feed_inv split: if_splits list.splits option.splits)
  qed
  have i: "cc_inv ou l (fst (\<lparr>cc_dead = False, cc_logging = False, cc_log = l\<rparr>, s))" by (simp add: cc_inv_def)
  from run [OF i assms] feed_inv [OF i] show ?thesis by blast
qed

text \<open>A peer that closes its side is read as no bytes, again and again: the session does not end.\<close>

lemma closed_session_spins:
  "\<not> cc_dead c \<Longrightarrow> cc_run process ou (replicate n (Some [])) (c, s) = None"
  by (induction n) (simp_all add: cc_run.simps)

subsection \<open>The transmitter\<close>

text \<open>
  Its list of clients and the lists of the server are linked by the same member of the client. So they are lists
  over one store, with a head each.
\<close>

datatype tx_head = HTx | HClients | HEx

type_synonym tx_store = "(tx_head, nat) store"

definition server_del_client :: "nat \<Rightarrow> tx_store \<Rightarrow> tx_store result option" where
  "server_del_client c \<sigma> =
     obind (list_remove \<sigma> (Head HClients) (Some c)) (\<lambda>(found, \<sigma>).
       if found then Some (list_push \<sigma> (Head HEx) (Some c)) else Some (Inr \<sigma>))"

definition tx_add_client :: "nat \<Rightarrow> tx_store \<Rightarrow> tx_store result" where
  "tx_add_client c \<sigma> = list_push \<sigma> (Head HTx) (Some c)"

definition tx_del_client :: "nat \<Rightarrow> tx_store \<Rightarrow> tx_store result option" where
  "tx_del_client c \<sigma> =
     obind (list_remove \<sigma> (Head HTx) (Some c)) (\<lambda>(_, \<sigma>). server_del_client c \<sigma>)"

text \<open>The server's own \<^verbatim>\<open>clients.push\<close>.\<close>

definition server_push :: "nat \<Rightarrow> tx_store \<Rightarrow> tx_store result" where
  "server_push c \<sigma> = list_push \<sigma> (Head HClients) (Some c)"

text \<open>\<^verbatim>\<open>send\<close>: who got the data, in order; a client without a socket is a null pointer.\<close>

definition tx_send :: "nat set \<Rightarrow> tx_store \<Rightarrow> nat list result option" where
  "tx_send socks \<sigma> =
     map_option (\<lambda>cs. if set cs \<subseteq> socks then Inr cs else Inl NullDeref)
       (list_visit (\<lambda>c cs. (False, cs @ [c])) \<sigma> (Head HTx) [])"

lemma visit_collect: "chain \<sigma> p xs \<Longrightarrow> list_find (\<lambda>c cs. (False, cs @ [c])) \<sigma> p ys = Some (None, ys @ xs)"
  by (induction xs arbitrary: p ys) (simp_all add: list_find.simps)

text \<open>Clients that come one after the other get onto both lists, in the same order.\<close>

lemma tx_lists_agree:
  assumes "chain \<sigma> (Head HTx) xs" "chain \<sigma> (Head HClients) xs" "c \<notin> set xs"
    "tx_add_client c \<sigma> = Inr \<sigma>1" "server_push c \<sigma>1 = Inr \<sigma>2"
  shows "chain \<sigma>2 (Head HTx) (c # xs) \<and> chain \<sigma>2 (Head HClients) (c # xs)"
proof -
  have s: "\<sigma>2 = \<sigma>(Next c := \<sigma> (Head HTx), Head HTx := Some c, Next c := \<sigma> (Head HClients), Head HClients := Some c)"
    using assms(4,5) by (auto simp: tx_add_client_def server_push_def list_push_def list_insert_def Let_def)
  have e: "\<sigma> (Head HTx) = \<sigma> (Head HClients)" using assms(1,2) by (cases xs) auto
  have t: "chain (\<sigma>(Head h := v, Next c := w, Head k := u)) (Next c) xs" if "w = \<sigma> (Head HTx)" for h k u v w
  proof (cases xs)
    case Nil
    with assms(1) that show ?thesis by simp
  next
    case (Cons x ys)
    with assms(1,3) that show ?thesis by (auto simp: chain_upd image_iff)
  qed
  from t [OF refl, of HTx "Some c" HClients "Some c"] show ?thesis by (simp add: s e fun_upd_twist)
qed

text \<open>
  the two lists of the transmitter share their links, and the first client to leave takes the server's whole list
  with it: of clients on both lists, the newest goes to the list of those to be deleted, and all others are
  no longer on the server's list, which finds and deletes them never; they stay on the transmitter's.
\<close>

theorem transmitter_loses_clients:
  assumes "chain \<sigma> (Head HTx) (c # xs)" "chain \<sigma> (Head HClients) (c # xs)" "chain \<sigma> (Head HEx) es" "c \<notin> set es"
  shows "\<exists>\<sigma>'. tx_del_client c \<sigma> = Some (Inr \<sigma>') \<and> chain \<sigma>' (Head HTx) xs \<and> chain \<sigma>' (Head HClients) [] \<and>
    chain \<sigma>' (Head HEx) (c # es)"
proof -
  have c: "c \<notin> set xs" using chain_distinct [OF assms(1)] by simp
  have h: "\<sigma> (Head HTx) = Some c" "\<sigma> (Head HClients) = Some c" "chain \<sigma> (Next c) xs" using assms(1,2) by simp_all
  let ?s1 = "\<sigma>(Head HTx := \<sigma> (Next c), Next c := None)"
  let ?s2 = "?s1(Head HClients := None, Next c := None)"
  let ?s3 = "?s2(Next c := \<sigma> (Head HEx), Head HEx := Some c)"
  have r1: "list_remove \<sigma> (Head HTx) (Some c) = Some (Inr (True, ?s1))"
    using h(1) by (simp add: list_remove_def list_walk.simps list_pop_def Let_def)
  have r2: "list_remove ?s1 (Head HClients) (Some c) = Some (Inr (True, ?s2))"
    using h(2) by (simp add: list_remove_def list_walk.simps list_pop_def Let_def)
  have d: "tx_del_client c \<sigma> = Some (Inr ?s3)"
    by (simp add: tx_del_client_def server_del_client_def r1 r2 list_push_def list_insert_def Let_def)
  have tx: "chain ?s3 (Head HTx) xs"
  proof (cases xs)
    case Nil
    with h(3) show ?thesis by simp
  next
    case (Cons x ys)
    with h(3) c show ?thesis by (auto simp: chain_upd image_iff)
  qed
  have "chain ?s3 (Next c) es"
  proof (cases es)
    case Nil
    with assms(3) show ?thesis by simp
  next
    case (Cons x ys)
    with assms(3,4) show ?thesis by (auto simp: chain_upd image_iff)
  qed
  with d tx show ?thesis by simp
qed

text \<open>Two clients; the second leaves, and the first is lost.\<close>

theorem transmitter_loses_clients_witness:
  "\<exists>\<sigma>1 \<sigma>2 \<sigma>3 \<sigma>4 \<sigma>5. tx_add_client 1 (\<lambda>_. None) = Inr \<sigma>1 \<and> server_push 1 \<sigma>1 = Inr \<sigma>2 \<and> tx_add_client 2 \<sigma>2 = Inr \<sigma>3 \<and>
     server_push 2 \<sigma>3 = Inr \<sigma>4 \<and> tx_del_client 2 \<sigma>4 = Some (Inr \<sigma>5) \<and>
     chain \<sigma>5 (Head HTx) [1] \<and> chain \<sigma>5 (Head HClients) [] \<and> chain \<sigma>5 (Head HEx) [2]"
proof -
  have e: "chain (\<lambda>_. None) (Head h) []" for h :: tx_head by simp
  obtain \<sigma>1 \<sigma>2 where a: "tx_add_client 1 (\<lambda>_. None) = Inr \<sigma>1" "server_push 1 \<sigma>1 = Inr \<sigma>2" and ex: "\<sigma>2 (Head HEx) = None"
    by (simp add: tx_add_client_def server_push_def list_push_def list_insert_def Let_def)
  from tx_lists_agree [OF e e _ a] have c1: "chain \<sigma>2 (Head HTx) [1]" "chain \<sigma>2 (Head HClients) [1]" by simp_all
  obtain \<sigma>3 \<sigma>4 where b: "tx_add_client 2 \<sigma>2 = Inr \<sigma>3" "server_push 2 \<sigma>3 = Inr \<sigma>4" and ex4: "\<sigma>4 (Head HEx) = None"
    using ex by (simp add: tx_add_client_def server_push_def list_push_def list_insert_def Let_def)
  from tx_lists_agree [OF c1 _ b] have c2: "chain \<sigma>4 (Head HTx) [2, 1]" "chain \<sigma>4 (Head HClients) [2, 1]" by simp_all
  from transmitter_loses_clients [OF c2, of "[]"] ex4 obtain \<sigma>5 where
    "tx_del_client 2 \<sigma>4 = Some (Inr \<sigma>5)" "chain \<sigma>5 (Head HTx) [1]" "chain \<sigma>5 (Head HClients) []" "chain \<sigma>5 (Head HEx) [2]"
    by auto
  with a b show ?thesis by blast
qed

text \<open>What is sent goes to all clients on the list, newest first; one that is being stopped has no socket any more.\<close>

lemma tx_send_all: "chain \<sigma> (Head HTx) xs \<Longrightarrow> tx_send socks \<sigma> = Some (if set xs \<subseteq> socks then Inr xs else Inl NullDeref)"
  by (simp add: tx_send_def list_visit_def visit_collect)

end
