(* ===== verification/Keyboards.thy ===== *)
theory Keyboards
  imports Mcp23s17
begin

text \<open>
  The keyboard of drivers/keyboard.cpp: keys on port A of a port expander, lamps on port B, lit when their pin is
  low. Every access to the chip goes through the model of theory Mcp23s17; the calls do not fail. \<open>irq\<close> is whether there is
  an interrupt line.
\<close>

record keyboard =
  kleds :: u8
  kirq :: bool
  on_key :: "(nat \<times> nat) option"   \<comment> \<open>function and argument\<close>

definition kb_new :: "bool \<Rightarrow> keyboard" where
  "kb_new irq = \<lparr>kleds = 0xff, kirq = irq, on_key = None\<rparr>"

definition kb_set_key_event :: "(nat \<times> nat) option \<Rightarrow> keyboard \<Rightarrow> keyboard" where
  "kb_set_key_event f k = k\<lparr>on_key := f\<rparr>"

text \<open>\<^verbatim>\<open>on_interrupt\<close>: the call it makes.\<close>

definition kb_on_interrupt :: "keyboard \<Rightarrow> (nat \<times> nat) option" where
  "kb_on_interrupt k = on_key k"

text \<open>\<^verbatim>\<open>init\<close>. A negative number of keys passes the test and is shifted by, which is undefined.\<close>

definition kb_init :: "int \<Rightarrow> keyboard \<Rightarrow> chip \<Rightarrow> (bool \<times> chip) result" where
  "kb_init nkeys k c =
     (if nkeys = 0 \<or> \<not> nkeys \<le> 8 then Inl AssertFailed
      else if nkeys < 0 then Inl OutOfBounds
      else
        let m = word_of_int (2 ^ nat nkeys - 1)
        in if m = 0 then Inl AssertFailed
           else
             let c = mcp_write R_IODIRA m c;
                 c = mcp_write R_GPPUA m c;
                 c = mcp_write R_GPIOB (kleds k) c;
                 c = mcp_write R_IODIRB 0x00 c;
                 c = mcp_write R_IOCON 0x00 c;
                 c = (if kirq k then mcp_write R_GPINTENA m (mcp_write R_INTCONA 0 (mcp_write R_DEFVALA 0 c)) else c)
             in Inr (True, c))"

definition kb_led_flush :: "keyboard \<Rightarrow> chip \<Rightarrow> chip" where
  "kb_led_flush k c = mcp_write R_GPIOB (kleds k) c"

definition kb_set_led :: "int \<Rightarrow> bool \<Rightarrow> bool \<Rightarrow> keyboard \<Rightarrow> chip \<Rightarrow> (keyboard \<times> chip) result" where
  "kb_set_led i state fl k c =
     (if \<not> (i \<ge> 0 \<and> i \<le> 8) then Inl AssertFailed
      else
        let m = word_of_int (2 ^ nat i);
            k = k\<lparr>kleds := (if \<not> state then kleds k OR m else kleds k AND NOT m)\<rparr>
        in Inr (k, if fl then mcp_write R_GPIOB (kleds k) c else c))"

definition kb_get_led :: "int \<Rightarrow> chip \<Rightarrow> bool result" where
  "kb_get_led i c =
     (if \<not> (i \<ge> 0 \<and> i \<le> 8) then Inl AssertFailed
      else Inr (chip_read R_GPIOB c AND word_of_int (2 ^ nat i) \<noteq> 0))"

definition kb_read_keys :: "chip \<Rightarrow> u8" where
  "kb_read_keys c = chip_read R_GPIOA c"

definition kb_clear_interrupt :: "chip \<Rightarrow> u8" where
  "kb_clear_interrupt c = chip_read R_INTCAPA c"

subsection \<open>The lamps\<close>

fun kb_leds :: "(int \<times> bool \<times> bool) list \<Rightarrow> keyboard \<Rightarrow> chip \<Rightarrow> (keyboard \<times> chip) result" where
  "kb_leds [] k c = Inr (k, c)"
| "kb_leds ((i, s, fl) # xs) k c = rbind (kb_set_led i s fl k c) (\<lambda>(k, c). kb_leds xs k c)"

text \<open>What a script of \<^verbatim>\<open>set_led\<close> asks for: the last word on each lamp.\<close>

definition lamp :: "(int \<times> bool \<times> bool) list \<Rightarrow> nat \<Rightarrow> bool \<Rightarrow> bool" where
  "lamp xs n was = fold (\<lambda>(i, s, _) b. if i = int n then s else b) xs was"

lemma bit_pow8: "n < 8 \<Longrightarrow> bit (word_of_int (2 ^ m) :: u8) n = (m = n)"
  by (auto simp: bit_exp_iff possible_bit_def)

lemma set_led_bit:
  assumes "kb_set_led i s fl k c = Inr (k', c')" "n < 8"
  shows "bit (kleds k') n = (if i = int n then \<not> s else bit (kleds k) n)"
proof -
  have e: "nat i = n \<longleftrightarrow> i = int n" using assms(1) by (auto simp: kb_set_led_def split: if_splits)
  show ?thesis
    using assms bit_pow8 [OF assms(2), of "nat i"] e
    by (auto simp: kb_set_led_def Let_def bit_or_iff bit_and_iff bit_not_iff possible_bit_def split: if_splits)
qed

lemma kb_leds_runs:
  "\<forall>(i, _, _) \<in> set xs. 0 \<le> i \<and> i < 8 \<Longrightarrow>
   \<exists>k' c'. kb_leds xs k c = Inr (k', c') \<and> (\<forall>n < 8. bit (kleds k') n = (\<not> lamp xs n (\<not> bit (kleds k) n)))"
proof (induction xs arbitrary: k c)
  case (Cons x xs)
  obtain i s fl where x: "x = (i, s, fl)" by (cases x)
  with Cons.prems have r: "0 \<le> i" "i < 8" by auto
  obtain k1 c1 where s1: "kb_set_led i s fl k c = Inr (k1, c1)" using r by (auto simp: kb_set_led_def Let_def)
  from Cons.IH [of k1 c1] Cons.prems obtain k' c' where
    k': "kb_leds xs k1 c1 = Inr (k', c')" "\<forall>n < 8. bit (kleds k') n = (\<not> lamp xs n (\<not> bit (kleds k1) n))"
    by auto
  have l: "lamp (x # xs) n b = lamp xs n (if i = int n then s else b)" for n b by (simp add: lamp_def x)
  have "kb_leds (x # xs) k c = Inr (k', c')" using k'(1) s1 by (simp add: x)
  moreover have "bit (kleds k') n = (\<not> lamp (x # xs) n (\<not> bit (kleds k) n))" if "n < 8" for n
  proof -
    have "bit (kleds k') n = (\<not> lamp xs n (\<not> bit (kleds k1) n))" using k'(2) that by blast
    moreover have "(\<not> bit (kleds k1) n) = (if i = int n then s else \<not> bit (kleds k) n)"
      using set_led_bit [OF s1 that] by simp
    ultimately show ?thesis unfolding l by simp
  qed
  ultimately show ?case by blast
qed (simp add: lamp_def)

text \<open>
  the lamps show what was asked for. After any script of \<^verbatim>\<open>set_led\<close> on a new keyboard, flushed at its end,
  the pin of every lamp is low, which lights it, exactly if the last word on it was to light it; and the chip's cache
  agrees with its register.
\<close>

theorem keyboard_lamps:
  assumes "\<forall>(i, _, _) \<in> set xs. 0 \<le> i \<and> i < 8"
  shows "\<exists>k c'. kb_leds xs (kb_new irq) c = Inr (k, c') \<and>
    (\<forall>n < 8. bit (regs (kb_led_flush k c') R_GPIOB) n = (\<not> lamp xs n False)) \<and>
    cdata (caches (kb_led_flush k c') PORTB) = regs (kb_led_flush k c') R_GPIOB"
proof -
  from kb_leds_runs [OF assms, of "kb_new irq" c] obtain k c' where
    k: "kb_leds xs (kb_new irq) c = Inr (k, c')" "\<forall>n < 8. bit (kleds k) n = (\<not> lamp xs n (\<not> bit (kleds (kb_new irq)) n))"
    by blast
  have "bit (0xff :: u8) n" if "n < 8" for n
    using that by (auto simp: bit_mask_iff simp flip: mask_eq_exp_minus_1 [of 8, where ?'a = "8 word", simplified])
  with k show ?thesis
    by (auto simp: kb_new_def kb_led_flush_def mcp_write_def reg_write_def get_cache_def on_cache_def cache_write_def Let_def)
qed

theorem keyboard_lamps_witness:
  "\<exists>k c'. kb_leds [(1, True, False), (3, True, True), (1, False, False)] (kb_new False)
       \<lparr>regs = (\<lambda>_. 0), levels_in = (\<lambda>_. 0), bus = [], caches = (\<lambda>_. cache_init), chip_pins = []\<rparr> = Inr (k, c') \<and>
     bit (regs (kb_led_flush k c') R_GPIOB) 1 \<and> \<not> bit (regs (kb_led_flush k c') R_GPIOB) 3"
proof -
  let ?xs = "[(1, True, False), (3, True, True), (1 :: int, False, False)]"
    and ?c = "\<lparr>regs = (\<lambda>_. 0), levels_in = (\<lambda>_. 0), bus = [], caches = (\<lambda>_. cache_init), chip_pins = []\<rparr>"
  have "\<forall>(i, _, _) \<in> set ?xs. 0 \<le> i \<and> i < 8" by simp
  from keyboard_lamps [OF this, of False ?c] obtain k c' where
    r: "kb_leds ?xs (kb_new False) ?c = Inr (k, c')" "\<forall>n < 8. bit (regs (kb_led_flush k c') R_GPIOB) n = (\<not> lamp ?xs n False)"
    by blast
  have "\<not> lamp ?xs 1 False" "lamp ?xs 3 False" by (simp_all add: lamp_def)
  with r(2) have "bit (regs (kb_led_flush k c') R_GPIOB) 1" "\<not> bit (regs (kb_led_flush k c') R_GPIOB) 3" by simp_all
  with r(1) show ?thesis by blast
qed

text \<open>
  \<^verbatim>\<open>get_led\<close> answers the level of the pin, which is the opposite of what \<^verbatim>\<open>set_led\<close> was given; and both accept a ninth lamp,
  which is not there.
\<close>

lemma get_led_is_inverted:
  assumes "0 \<le> i" "i < 8" "kb_set_led i s True k c = Inr (k', c')" "levels_in c' PORTB = regs c' R_GPIOB"
  shows "kb_get_led i c' = Inr (\<not> s)"
proof -
  have n: "nat i < 8" using assms(1,2) by simp
  have "regs c' R_GPIOB = kleds k'"
    using assms(3) by (auto simp: kb_set_led_def mcp_write_def reg_write_def get_cache_def on_cache_def Let_def split: if_splits)
  moreover have "bit (kleds k') (nat i) = (\<not> s)" using set_led_bit [OF assms(3) n] assms(1) by simp
  moreover have "(x AND word_of_int (2 ^ nat i) \<noteq> 0) = bit x (nat i)" for x :: u8
    using n by (simp add: and_exp_eq_0_iff_not_bit)
  ultimately show ?thesis
    using assms(1,2,4) by (simp add: kb_get_led_def chip_read_def get_cache_def)
qed

lemma ninth_lamp: "kb_set_led 8 s False k c = Inr (k, c) \<and> kb_get_led 8 c = Inr False"
proof -
  have "(word_of_int (2 ^ 8) :: u8) = 0" by simp
  then have z: "(word_of_int (2 ^ nat 8) :: u8) = 0" by simp
  show ?thesis unfolding kb_set_led_def kb_get_led_def Let_def z by simp
qed

end
