(* ===== verification/Tracing.thy ===== *)
theory Tracing
  imports Threads Storage
begin

text \<open>
  Traces of signals as value change dumps (vcd.cpp), and the switches that make parts of the program talk
  (verbose.cpp), which are kept in the storage.

  The dump is a sequence of lines. The list of traces is a sequence, newest first. Time counts up from 0 and is a number;
  the source's \<^verbatim>\<open>int\<close> has room for two million ticks.
\<close>

subsection \<open>Writing\<close>

record trace =
  t_name :: string
  t_width :: int
  t_state :: bool
  t_id :: char

record vcd =
  vid :: char
  vtime :: nat
  vtraces :: "trace list"
  vopen :: bool     \<comment> \<open>\<^verbatim>\<open>file\<close> is not null\<close>
  vclose :: bool    \<comment> \<open>\<^verbatim>\<open>close_file\<close> is not null\<close>
  vout :: "string list"

text \<open>\<open>opened\<close>: whether a file was asked for, and whether it could be opened; without one the dump goes to the terminal.\<close>

definition vcd_new :: "bool option \<Rightarrow> vcd" where
  "vcd_new opened =
     (case opened of
        Some ok \<Rightarrow> \<lparr>vid = CHR ''!'', vtime = 0, vtraces = [], vopen = ok, vclose = ok, vout = []\<rparr>
      | None \<Rightarrow> \<lparr>vid = CHR ''!'', vtime = 0, vtraces = [], vopen = True, vclose = False, vout = []\<rparr>)"

definition dec_int :: "int \<Rightarrow> string" where
  "dec_int v = (if v < 0 then CHR ''-'' # decimal (nat (- v)) else decimal (nat v))"

definition vcd_emit :: "string list \<Rightarrow> vcd \<Rightarrow> vcd result" where
  "vcd_emit ls v = (if vopen v then Inr (v\<lparr>vout := vout v @ ls\<rparr>) else Inl NullDeref)"

definition vcd_change :: "nat \<Rightarrow> trace \<Rightarrow> bool \<Rightarrow> string list" where
  "vcd_change t x st = [''#'' @ decimal t, (if st then ''1'' else ''0'') @ [t_id x]]"

definition vcd_print :: "trace \<Rightarrow> bool \<Rightarrow> vcd \<Rightarrow> vcd result" where
  "vcd_print x st v = vcd_emit (vcd_change (vtime v) x st) v"

definition vcd_tick :: "vcd \<Rightarrow> vcd" where
  "vcd_tick v = v\<lparr>vtime := vtime v + 1000\<rparr>"

definition vcd_find :: "string \<Rightarrow> vcd \<Rightarrow> trace option" where
  "vcd_find n v = find (\<lambda>x. n = t_name x) (vtraces v)"

definition vcd_decls :: "trace list \<Rightarrow> string list" where
  "vcd_decls xs =
     [''$version Generated by panglos $end'', ''$date Sat Jun  11 12:00:00 2022'', '' $end'', ''$timescale 1ns $end'',
      ''$scope module TOP $end''] @
     map (\<lambda>x. ''$var wire '' @ dec_int (t_width x) @ '' '' @ [t_id x] @ '' '' @ t_name x @ '' $end'') xs @
     [''$upscope $end'', ''$enddefinitions $end'', ''#0'', ''$dumpvars'']"

definition vcd_header :: "vcd \<Rightarrow> vcd result" where
  "vcd_header v =
     vcd_emit
       (vcd_decls (vtraces v) @ concat (map (\<lambda>x. vcd_change (vtime v) x (t_state x)) (vtraces v)) @ [''$end'']) v"

definition vcd_add :: "string \<Rightarrow> bool \<Rightarrow> int \<Rightarrow> vcd \<Rightarrow> vcd" where
  "vcd_add n st w v =
     v\<lparr>vtraces := \<lparr>t_name = n, t_width = w, t_state = st, t_id = vid v\<rparr> # vtraces v, vid := char_of (of_char (vid v) + 1 :: nat)\<rparr>"

definition vcd_set :: "string \<Rightarrow> bool \<Rightarrow> vcd \<Rightarrow> vcd result" where
  "vcd_set n st v = (case vcd_find n v of None \<Rightarrow> Inl AssertFailed | Some x \<Rightarrow> vcd_print x st v)"

definition vcd_finish :: "vcd \<Rightarrow> vcd" where
  "vcd_finish v =
     (let v = (if vopen v then v\<lparr>vout := vout v @ [''#'' @ decimal (vtime v + 100)]\<rparr> else v)
      in if vclose v then v\<lparr>vclose := False, vopen := False\<rparr> else v)"

subsection \<open>Reading\<close>

text \<open>A reader of dumps: the value of each identifier after the lines read.\<close>

fun read_line :: "string \<Rightarrow> (char \<Rightarrow> bool option) \<Rightarrow> char \<Rightarrow> bool option" where
  "read_line [c, i] f = (if c = CHR ''0'' then f(i := Some False) else if c = CHR ''1'' then f(i := Some True) else f)"
| "read_line _ f = f"

definition read_vcd :: "string list \<Rightarrow> char \<Rightarrow> bool option" where
  "read_vcd ls = fold read_line ls (\<lambda>_. None)"

datatype vcd_op = VSet string bool | VTick

fun vcd_script :: "vcd_op list \<Rightarrow> vcd \<Rightarrow> vcd result" where
  "vcd_script [] v = Inr v"
| "vcd_script (VTick # ops) v = vcd_script ops (vcd_tick v)"
| "vcd_script (VSet n st # ops) v = rbind (vcd_set n st v) (vcd_script ops)"

fun last_set :: "string \<Rightarrow> vcd_op list \<Rightarrow> bool \<Rightarrow> bool" where
  "last_set n [] b = b"
| "last_set n (VSet m st # ops) b = last_set n ops (if m = n then st else b)"
| "last_set n (VTick # ops) b = last_set n ops b"

definition vcd_adds :: "(string \<times> bool \<times> int) list \<Rightarrow> vcd \<Rightarrow> vcd" where
  "vcd_adds xs v = fold (\<lambda>(n, st, w). vcd_add n st w) xs v"

lemma read_line_long: "length l \<noteq> 2 \<Longrightarrow> read_line l f = f"
  by (cases "(l, f)" rule: read_line.cases) auto

lemma read_line_mark: "hd l \<in> {CHR ''#'', CHR ''$'', CHR '' ''} \<Longrightarrow> read_line l f = f"
  by (cases "(l, f)" rule: read_line.cases) auto

lemma read_change: "fold read_line (vcd_change t x st) f = f(t_id x := Some st)"
  by (auto simp: vcd_change_def read_line_mark)

lemma read_marks: "\<forall>l \<in> set ls. hd l \<in> {CHR ''#'', CHR ''$'', CHR '' ''} \<Longrightarrow> fold read_line ls f = f"
  by (induction ls) (auto simp: read_line_mark)

lemma read_changes:
  "distinct (map t_id xs) \<Longrightarrow> x \<in> set xs \<Longrightarrow>
   fold read_line (concat (map (\<lambda>x. vcd_change t x (t_state x)) xs)) f (t_id x) = Some (t_state x)"
proof (induction xs arbitrary: f rule: rev_induct)
  case (snoc y ys)
  then show ?case by (cases "x = y") (auto simp: read_change image_iff)
qed simp

text \<open>What holds of a writer whose dump has been read to the values \<open>val\<close>.\<close>

definition shows_values :: "trace list \<Rightarrow> (string \<Rightarrow> bool) \<Rightarrow> vcd \<Rightarrow> bool" where
  "shows_values xs val v \<longleftrightarrow> vtraces v = xs \<and> vopen v \<and> (\<forall>x \<in> set xs. read_vcd (vout v) (t_id x) = Some (val (t_name x)))"

lemma vcd_set_shows:
  assumes "shows_values xs val v" "distinct (map t_id xs)" "distinct (map t_name xs)" "n \<in> t_name ` set xs"
  shows "\<exists>v'. vcd_set n st v = Inr v' \<and> shows_values xs (val(n := st)) v'"
proof -
  obtain y where y: "find (\<lambda>x. n = t_name x) xs = Some y" "y \<in> set xs" "t_name y = n"
    using assms(4) find_first [of "\<lambda>x. n = t_name x" xs] by auto
  have same: "x = y" if "x \<in> set xs" "t_id x = t_id y \<or> t_name x = n" for x
    using that y(2,3) assms(2,3) by (auto simp: distinct_map inj_on_def)
  have "vcd_set n st v = Inr (v\<lparr>vout := vout v @ vcd_change (vtime v) y st\<rparr>)"
    using assms(1) y(1) by (simp add: vcd_set_def vcd_find_def vcd_print_def vcd_emit_def shows_values_def)
  moreover have "shows_values xs (val(n := st)) (v\<lparr>vout := vout v @ vcd_change (vtime v) y st\<rparr>)"
    using assms(1) same y(2,3) by (auto simp: shows_values_def read_vcd_def read_change)
  ultimately show ?thesis by blast
qed

lemma vcd_script_shows:
  "shows_values xs val v \<Longrightarrow> distinct (map t_id xs) \<Longrightarrow> distinct (map t_name xs) \<Longrightarrow>
   \<forall>n st. VSet n st \<in> set ops \<longrightarrow> n \<in> t_name ` set xs \<Longrightarrow>
   \<exists>v'. vcd_script ops v = Inr v' \<and> shows_values xs (\<lambda>n. last_set n ops (val n)) v'"
proof (induction ops arbitrary: v val)
  case Nil
  then show ?case by simp
next
  case (Cons op ops)
  show ?case
  proof (cases op)
    case VTick
    from Cons.prems(1) have "shows_values xs val (vcd_tick v)" by (simp add: shows_values_def vcd_tick_def)
    from Cons.IH [OF this] Cons.prems VTick show ?thesis by simp
  next
    case (VSet n st)
    with Cons.prems have "n \<in> t_name ` set xs" by auto
    from vcd_set_shows [OF Cons.prems(1-3) this, of st] obtain v1 where
      v1: "vcd_set n st v = Inr v1" "shows_values xs (val(n := st)) v1" by blast
    from Cons.IH [OF v1(2)] Cons.prems obtain v' where
      "vcd_script ops v1 = Inr v'" "shows_values xs (\<lambda>m. last_set m ops ((val(n := st)) m)) v'" by auto
    moreover have "(\<lambda>m. last_set m ops ((val(n := st)) m)) = (\<lambda>m. last_set m (op # ops) (val m))"
      by (auto simp: VSet fun_eq_iff)
    ultimately show ?thesis using v1(1) VSet by simp
  qed
qed

lemma vcd_adds_traces:
  "length (vtraces v) + length xs \<le> 94 \<Longrightarrow> of_char (vid v) = (33 :: nat) + length (vtraces v) \<Longrightarrow>
   map (\<lambda>x. of_char (t_id x)) (rev (vtraces v)) = map (\<lambda>i. 33 + i :: nat) [0..<length (vtraces v)] \<Longrightarrow>
   map (\<lambda>x. of_char (t_id x)) (rev (vtraces (vcd_adds xs v))) = map (\<lambda>i. 33 + i :: nat) [0..<length (vtraces v) + length xs] \<and>
   map t_name (rev (vtraces (vcd_adds xs v))) = map t_name (rev (vtraces v)) @ map fst xs \<and>
   vopen (vcd_adds xs v) = vopen v \<and> vout (vcd_adds xs v) = vout v \<and> vtime (vcd_adds xs v) = vtime v \<and>
   map t_state (rev (vtraces (vcd_adds xs v))) = map t_state (rev (vtraces v)) @ map (\<lambda>(_, st, _). st) xs"
proof (induction xs arbitrary: v)
  case (Cons x xs)
  obtain n st w where x: "x = (n, st, w)" by (cases x)
  let ?v = "vcd_add n st w v"
  have "of_char (vid ?v) = (33 :: nat) + length (vtraces ?v)"
    using Cons.prems by (simp add: vcd_add_def of_char_of)
  moreover have "map (\<lambda>x. of_char (t_id x)) (rev (vtraces ?v)) = map (\<lambda>i. 33 + i :: nat) [0..<length (vtraces ?v)]"
    using Cons.prems by (simp add: vcd_add_def)
  moreover have "length (vtraces ?v) + length xs \<le> 94" using Cons.prems by (simp add: vcd_add_def)
  ultimately have "map (\<lambda>x. of_char (t_id x)) (rev (vtraces (vcd_adds xs ?v))) = map (\<lambda>i. 33 + i :: nat) [0..<length (vtraces ?v) + length xs] \<and>
   map t_name (rev (vtraces (vcd_adds xs ?v))) = map t_name (rev (vtraces ?v)) @ map fst xs \<and>
   vopen (vcd_adds xs ?v) = vopen ?v \<and> vout (vcd_adds xs ?v) = vout ?v \<and> vtime (vcd_adds xs ?v) = vtime ?v \<and>
   map t_state (rev (vtraces (vcd_adds xs ?v))) = map t_state (rev (vtraces ?v)) @ map (\<lambda>(_, st, _). st) xs"
    by (intro Cons.IH)
  then show ?case by (simp add: vcd_adds_def x) (simp add: vcd_add_def)
qed (simp add: vcd_adds_def)

lemma header_shows:
  assumes "vopen v" "vout v = []" "distinct (map t_id (vtraces v))" "\<forall>x \<in> set (vtraces v). val (t_name x) = t_state x"
  shows "\<exists>v'. vcd_header v = Inr v' \<and> shows_values (vtraces v) val v'"
proof -
  let ?c = "concat (map (\<lambda>x. vcd_change (vtime v) x (t_state x)) (vtraces v))"
  let ?a = "vcd_decls (vtraces v)"
  have a: "\<forall>l \<in> set ?a. hd l \<in> {CHR ''#'', CHR ''$'', CHR '' ''}" by (auto simp: vcd_decls_def)
  have "read_vcd (?a @ ?c @ [''$end'']) (t_id x) = Some (val (t_name x))" if "x \<in> set (vtraces v)" for x
    using that assms(4) read_changes [OF assms(3) that] by (simp add: read_vcd_def read_marks [OF a] read_line_mark)
  with assms(1,2) show ?thesis by (simp add: vcd_header_def vcd_emit_def shows_values_def)
qed

text \<open>
  C31: a dump is read back as what was traced. For up to 94 signals with different names, whose identifiers are then
  different printable characters, a reader of the dump ends, for every signal, with the value it was last set to, or
  with its first value.
\<close>

theorem dump_shows_signals:
  assumes "length xs \<le> 94" "distinct (map fst xs)" "\<forall>n st. VSet n st \<in> set ops \<longrightarrow> n \<in> fst ` set xs" "opened \<noteq> Some False"
  shows "\<exists>v v'. vcd_header (vcd_adds xs (vcd_new opened)) = Inr v \<and> vcd_script ops v = Inr v' \<and>
    map t_name (rev (vtraces v')) = map fst xs \<and>
    map (\<lambda>x. of_char (t_id x)) (rev (vtraces v')) = map (\<lambda>i. 33 + i :: nat) [0..<length xs] \<and>
    (\<forall>i < length xs. read_vcd (vout (vcd_finish v')) (t_id (rev (vtraces v') ! i)) =
       Some (last_set (fst (xs ! i)) ops (fst (snd (xs ! i)))))"
proof -
  let ?v = "vcd_adds xs (vcd_new opened)"
  have new: "vtraces (vcd_new opened) = []" "vid (vcd_new opened) = CHR ''!''" "vopen (vcd_new opened)" "vout (vcd_new opened) = []"
    using assms(4) by (auto simp: vcd_new_def split: option.splits)
  have tr: "map (\<lambda>x. of_char (t_id x)) (rev (vtraces ?v)) = map (\<lambda>i. 33 + i :: nat) [0..<length xs]"
    "map t_name (rev (vtraces ?v)) = map fst xs" "map t_state (rev (vtraces ?v)) = map (\<lambda>(_, st, _). st) xs"
    "vopen ?v" "vout ?v = []"
    using vcd_adds_traces [of "vcd_new opened" xs] assms(1) by (simp_all add: new)
  have len: "length (vtraces ?v) = length xs" using arg_cong [OF tr(2), of length] by simp
  have "distinct (map of_char (map t_id (rev (vtraces ?v))) :: nat list)" using tr(1) by (simp add: o_def distinct_map)
  then have ids: "distinct (map t_id (vtraces ?v))"
    by (auto simp: distinct_map rev_map [symmetric] intro: inj_on_imageI2)
  have "distinct (map t_name (rev (vtraces ?v)))" using tr(2) assms(2) by simp
  then have names: "distinct (map t_name (vtraces ?v))" by (simp add: rev_map [symmetric])
  have nth: "t_name (rev (vtraces ?v) ! i) = fst (xs ! i)" "t_state (rev (vtraces ?v) ! i) = fst (snd (xs ! i))" if "i < length xs" for i
    using that arg_cong [OF tr(2), of "\<lambda>l. l ! i"] arg_cong [OF tr(3), of "\<lambda>l. l ! i"] by (simp_all add: len split_beta)
  define val where "val n = fst (the (map_of xs n))" for n
  have val: "val (fst (xs ! i)) = fst (snd (xs ! i))" if "i < length xs" for i
    
  proof -
    have "map_of xs (fst (xs ! i)) = Some (snd (xs ! i))"
      using that assms(2) by (intro map_of_is_SomeI) simp_all
    then show ?thesis by (simp add: val_def)
  qed
  have "\<forall>x \<in> set (vtraces ?v). val (t_name x) = t_state x"
  proof
    fix x assume "x \<in> set (vtraces ?v)"
    then obtain i where "i < length xs" "x = rev (vtraces ?v) ! i" by (metis in_set_conv_nth len length_rev set_rev)
    with nth val show "val (t_name x) = t_state x" by simp
  qed
  from header_shows [OF tr(4,5) ids this] obtain v where
    v: "vcd_header ?v = Inr v" "shows_values (vtraces ?v) val v" by blast
  have "t_name ` set (vtraces ?v) = fst ` set xs" using arg_cong [OF tr(2), of set] by simp
  with assms(3) have "\<forall>n st. VSet n st \<in> set ops \<longrightarrow> n \<in> t_name ` set (vtraces ?v)" by simp
  from vcd_script_shows [OF v(2) ids names this] obtain v' where
    v': "vcd_script ops v = Inr v'" "shows_values (vtraces ?v) (\<lambda>n. last_set n ops (val n)) v'" by blast
  have e: "vtraces v' = vtraces ?v" using v'(2) by (simp add: shows_values_def)
  have fin: "read_vcd (vout (vcd_finish v')) = read_vcd (vout v')"
    by (simp add: vcd_finish_def read_vcd_def read_line_mark Let_def)
  have "read_vcd (vout (vcd_finish v')) (t_id (rev (vtraces v') ! i)) = Some (last_set (fst (xs ! i)) ops (fst (snd (xs ! i))))"
    if "i < length xs" for i
  proof -
    have "rev (vtraces ?v) ! i \<in> set (vtraces ?v)" using that len by (metis length_rev nth_mem set_rev)
    with v'(2) that show ?thesis by (simp add: fin e shows_values_def nth val)
  qed
  with v(1) v'(1) tr(1,2) show ?thesis unfolding e [symmetric] by blast
qed

theorem dump_shows_signals_witness:
  "\<exists>v v'. vcd_header (vcd_adds [(''sda'', True, 1), (''scl'', True, 1)] (vcd_new None)) = Inr v \<and>
     vcd_script [VSet ''sda'' False, VTick, VSet ''scl'' False, VTick, VSet ''scl'' True] v = Inr v' \<and>
     map t_name (rev (vtraces v')) = [''sda'', ''scl''] \<and>
     read_vcd (vout (vcd_finish v')) (t_id (rev (vtraces v') ! 0)) = Some False \<and>
     read_vcd (vout (vcd_finish v')) (t_id (rev (vtraces v') ! 1)) = Some True"
proof -
  let ?xs = "[(''sda'', True, 1 :: int), (''scl'', True, 1)]"
    and ?ops = "[VSet ''sda'' False, VTick, VSet ''scl'' False, VTick, VSet ''scl'' True]"
  have "length ?xs \<le> 94" "distinct (map fst ?xs)" "\<forall>n st. VSet n st \<in> set ?ops \<longrightarrow> n \<in> fst ` set ?xs" "None \<noteq> Some False"
    by auto
  note d = dump_shows_signals [OF this]
  obtain v v' where
    r: "vcd_header (vcd_adds ?xs (vcd_new None)) = Inr v" "vcd_script ?ops v = Inr v'" "map t_name (rev (vtraces v')) = map fst ?xs"
    "\<forall>i < length ?xs. read_vcd (vout (vcd_finish v')) (t_id (rev (vtraces v') ! i)) =
       Some (last_set (fst (?xs ! i)) ?ops (fst (snd (?xs ! i))))"
    using d by blast
  have q: "read_vcd (vout (vcd_finish v')) (t_id (rev (vtraces v') ! 0)) = Some (last_set (fst (?xs ! 0)) ?ops (fst (snd (?xs ! 0))))"
    "read_vcd (vout (vcd_finish v')) (t_id (rev (vtraces v') ! 1)) = Some (last_set (fst (?xs ! 1)) ?ops (fst (snd (?xs ! 1))))"
    by (rule r(4) [rule_format], simp)+
  have l: "last_set (fst (?xs ! 0)) ?ops (fst (snd (?xs ! 0))) = False" "last_set (fst (?xs ! 1)) ?ops (fst (snd (?xs ! 1))) = True"
    "map fst ?xs = [''sda'', ''scl'']"
    by simp_all
  show ?thesis using r(1-3) q unfolding l by (intro exI conjI)
qed

subsection \<open>Switches\<close>

record verbose =
  vb_name :: string
  vb_on :: bool

definition verbose_load :: "Storage.store \<Rightarrow> verbose \<Rightarrow> verbose" where
  "verbose_load st v =
     (case get_int32 (Some ''verbose'') (Some (vb_name v)) st of
        None \<Rightarrow> v
      | Some x \<Rightarrow> v\<lparr>vb_on := (x \<noteq> 0)\<rparr>)"

definition verbose_init :: "Storage.store \<Rightarrow> verbose list \<Rightarrow> verbose list" where
  "verbose_init st vs = map (verbose_load st) vs"

end
