(* ===== verification/Settings.thy ===== *)
theory Settings
  imports JsonFmt Storage Logger
begin

text \<open>
  The commands of the shell on the key-value store (the first half of app/cli_cmd.cpp): \<^verbatim>\<open>db list\<close>,
  \<^verbatim>\<open>set\<close>, \<^verbatim>\<open>get\<close>, \<^verbatim>\<open>del\<close> and \<^verbatim>\<open>blob\<close>, over the store of \<open>Storage\<close>.

  The command line library is not in the repository. What its \<^verbatim>\<open>cli_get_arg\<close> answers for each index is the parameter
  \<open>ga\<close> (\<open>None\<close> is null), its \<^verbatim>\<open>cli_parse_int\<close> is the parameter \<open>pint\<close>, and what goes to its
  \<^verbatim>\<open>cli_print\<close> is text appended to the output, of which \<open>eol\<close> ends a line.
\<close>

subsection \<open>Printing\<close>

definition hex_digit :: "nat \<Rightarrow> char" where
  "hex_digit d = char_of (if d < 10 then 48 + d else 87 + d)"

fun hex_nat :: "nat \<Rightarrow> string" where
  "hex_nat n = (if n < 16 then [hex_digit n] else hex_nat (n div 16) @ [hex_digit (n mod 16)])"

declare hex_nat.simps [simp del]

text \<open>\<^verbatim>\<open>%0wx\<close> and \<^verbatim>\<open>%#0wx\<close> of an \<^verbatim>\<open>int\<close>, which is read as unsigned; the prefix counts for the width.\<close>

definition fmt_0x :: "nat \<Rightarrow> u32 \<Rightarrow> string" where
  "fmt_0x w v = (let h = hex_nat (unat v) in replicate (w - length h) (CHR ''0'') @ h)"

definition fmt_ax :: "nat \<Rightarrow> u32 \<Rightarrow> string" where
  "fmt_ax w v = (if v = 0 then fmt_0x w 0 else ''0x'' @ fmt_0x (w - 2) v)"

text \<open>\<^verbatim>\<open>%s\<close> of a pointer, and of a buffer that may lack its terminator.\<close>

definition fmt_s :: "string option \<Rightarrow> string result" where
  "fmt_s s = (case s of None \<Rightarrow> Inl NullDeref | Some s \<Rightarrow> Inr s)"

definition fmt_buf :: "string \<Rightarrow> string result" where
  "fmt_buf b = (if NUL \<in> set b then Inr (c_str b) else Inl OutOfBounds)"

subsection \<open>The shell\<close>

record capture =
  c_last :: char
  c_chunk :: nat
  c_size :: nat
  c_ns :: string
  c_key :: string
  c_data :: string

record shell =
  sh_out :: string
  sh_store :: Storage.store
  sh_capture :: "capture option"

type_synonym args = "nat \<Rightarrow> string option"
type_synonym ints = "string option \<Rightarrow> int option"

definition say :: "string \<Rightarrow> shell \<Rightarrow> shell" where
  "say x s = s\<lparr>sh_out := sh_out s @ x\<rparr>"

fun stype_code :: "stype \<Rightarrow> int" where
  "stype_code VAL_NONE = 0"
| "stype_code VAL_INT8 = 1"
| "stype_code VAL_INT16 = 2"
| "stype_code VAL_INT32 = 3"
| "stype_code VAL_STR = 4"
| "stype_code VAL_BLOB = 5"
| "stype_code VAL_OTHER = 6"

definition st_lut :: "(string \<times> int) list" where
  "st_lut =
    [(''NONE'', stype_code VAL_NONE), (''INT8'', stype_code VAL_INT8), (''INT16'', stype_code VAL_INT16),
     (''INT32'', stype_code VAL_INT32), (''STR'', stype_code VAL_STR), (''BLOB'', stype_code VAL_BLOB),
     (''OTHER'', stype_code VAL_OTHER)]"

subsection \<open>Listing, setting, getting, deleting\<close>

fun list_lines :: "string \<Rightarrow> (string \<times> string \<times> stype) list \<Rightarrow> string result" where
  "list_lines eol [] = Inr []"
| "list_lines eol ((n, k, t) # rs) =
     rbind (fmt_buf n) (\<lambda>n. rbind (fmt_buf k) (\<lambda>k. rbind (list_lines eol rs) (\<lambda>text.
       Inr (n @ '' '' @ k @ '' '' @ lut st_lut (stype_code t) @ eol @ text))))"

text \<open>\<open>nb\<close> and \<open>kb\<close> are the buffers of 24 characters on the stack, as they happen to be.\<close>

definition cmd_storage_list :: "args \<Rightarrow> string \<Rightarrow> string \<Rightarrow> string \<Rightarrow> shell \<Rightarrow> shell result" where
  "cmd_storage_list ga eol nb kb s =
     rbind (list_all (ga 0) 24 nb kb (sh_store s)) (\<lambda>rs.
     rbind (list_lines eol rs) (\<lambda>text. Inr (say text s)))"

text \<open>The end of \<^verbatim>\<open>cmd_storage_set\<close>: store, complain or commit (which does nothing here).\<close>

definition set_done :: "string option \<Rightarrow> string option \<Rightarrow> string \<Rightarrow> string \<Rightarrow> (bool \<times> Storage.store) result \<Rightarrow> shell \<Rightarrow> shell result" where
  "set_done ns key v eol m s =
     rbind m (\<lambda>(ok, st).
       let s = s\<lparr>sh_store := st\<rparr>
       in if \<not> ok then
            rbind (fmt_s ns) (\<lambda>ns. rbind (fmt_s key) (\<lambda>key.
              Inr (say (''Error writing '' @ ns @ '' '' @ key @ '' '' @ v @ eol) s)))
          else Inr s)"

definition cmd_storage_set :: "args \<Rightarrow> ints \<Rightarrow> string \<Rightarrow> shell \<Rightarrow> shell result" where
  "cmd_storage_set ga pint eol s =
     (let ns = ga 0; key = ga 1
      in if \<not> (ns \<noteq> None \<or> key \<noteq> None \<or> ga 2 \<noteq> None) then Inr (say (''expects: ns key value'' @ eol) s)
         else
           case ga 2 of
             None \<Rightarrow> Inl NullDeref
           | Some v \<Rightarrow>
               if v \<noteq> [] \<and> hd v = CHR 0x27 then
                 (if CHR 0x27 \<notin> set (tl v) then Inr (say (''no terminating \"'\" in value'' @ eol) s)
                  else let v = takeWhile (\<lambda>c. c \<noteq> CHR 0x27) (tl v)
                       in set_done ns key v eol (set_str ns key (Some v) (sh_store s)) s)
               else (case pint (Some v) of
                       None \<Rightarrow> set_done ns key v eol (set_str ns key (Some v) (sh_store s)) s
                     | Some i \<Rightarrow> set_done ns key v eol (set_int32 ns key (word_of_int i) (sh_store s)) s))"

text \<open>What is printed of a value, and whether it could be read. \<open>junk\<close> is the buffer of 64 characters on the stack.\<close>

definition show_value :: "string option \<Rightarrow> string option \<Rightarrow> string \<Rightarrow> Storage.store \<Rightarrow> (bool \<times> string) result" where
  "show_value ns key junk st =
     (let int_text = (\<lambda>w v. (v \<noteq> None, fmt_ax w (case v of None \<Rightarrow> 0 | Some v \<Rightarrow> v)))
      in case get_type ns key st of
           VAL_INT8 \<Rightarrow> Inr (int_text 2 (map_option scast (get_int8 ns key st)))
         | VAL_INT16 \<Rightarrow> Inr (int_text 4 (map_option scast (get_int16 ns key st)))
         | VAL_INT32 \<Rightarrow> Inr (int_text 8 (get_int32 ns key st))
         | VAL_STR \<Rightarrow>
             rbind (get_str ns key (Some junk) (Some 64) st) (\<lambda>(ok, b, _).
               if key = Some ''pw'' then Inr (ok, ''********'')
               else rbind (fmt_buf b) (\<lambda>x. Inr (ok, x)))
         | t \<Rightarrow> Inr (False, ''Unknown type='' @ fmt_d (stype_code t)))"

definition cmd_storage_get :: "args \<Rightarrow> string \<Rightarrow> string \<Rightarrow> shell \<Rightarrow> shell result" where
  "cmd_storage_get ga eol junk s =
     (let ns = ga 0; key = ga 1
      in if \<not> (ns \<noteq> None \<or> key \<noteq> None) then Inr (say (''expects: ns key'' @ eol) s)
         else
           rbind (show_value ns key junk (sh_store s)) (\<lambda>(ok, x).
             let s = say (x @ eol) s
             in if \<not> ok then rbind (fmt_s key) (\<lambda>k. Inr (say (''Error reading '' @ k @ eol) s)) else Inr s))"

definition cmd_storage_del :: "args \<Rightarrow> string \<Rightarrow> shell \<Rightarrow> shell result" where
  "cmd_storage_del ga eol s =
     (let ns = ga 0; key = ga 1
      in if \<not> (ns \<noteq> None \<or> key \<noteq> None) then Inr (say (''expects: ns key'' @ eol) s)
         else
           case erase ns key (sh_store s) of (ok, st) \<Rightarrow>
             let s = s\<lparr>sh_store := st\<rparr>
             in if ok then Inr s else rbind (fmt_s key) (\<lambda>k. Inr (say (''Error deleting '' @ k @ eol) s)))"

subsection \<open>Blobs\<close>

text \<open>
  \<^verbatim>\<open>dump\<close>, with its default of 16 columns. Whether \<^verbatim>\<open>char\<close> is signed is up to the compiler: \<open>sc\<close>.
\<close>

definition dump_byte :: "bool \<Rightarrow> u8 \<Rightarrow> string" where
  "dump_byte sc c =
     (let hi = (if sc then word_of_int (sint c div 16) else ucast (drop_bit 4 c) :: u32)
      in '' '' @ hex_nat (unat hi) @ hex_nat (unat (c AND 0x0f)))"

function dump_rows :: "bool \<Rightarrow> string \<Rightarrow> int \<Rightarrow> u8 list \<Rightarrow> string" where
  "dump_rows sc eol addr d =
     (if d = [] then []
      else fmt_0x 4 (word_of_int addr) @ '':'' @ concat (map (dump_byte sc) (take 16 d)) @ eol @
        dump_rows sc eol (addr + 16) (drop 16 d))"
  by pat_completeness auto
termination
  by (relation "measure (\<lambda>(sc, eol, addr, d). length d)") auto

declare dump_rows.simps [simp del]

definition quoted :: "string \<Rightarrow> string" where
  "quoted x = CHR 0x27 # x @ [CHR 0x27]"

text \<open>The memory \<^verbatim>\<open>malloc\<close> returns is overwritten whole before it is read, so it may start as zeros.\<close>

definition blob_get :: "bool \<Rightarrow> string \<Rightarrow> string \<Rightarrow> string \<Rightarrow> shell \<Rightarrow> shell result" where
  "blob_get sc ns key eol s =
     rbind (get_blob (Some ns) (Some key) None (Some 0) (sh_store s)) (\<lambda>(ok, _, n).
       if \<not> ok then Inr (say (''error reading '' @ quoted ns @ '':'' @ quoted key @ eol) s)
       else if n = 0 then Inr (say (''error size==0'' @ eol) s)
       else
         rbind (get_blob (Some ns) (Some key) (Some (replicate n 0)) (Some n) (sh_store s)) (\<lambda>(ok, d, n).
           if \<not> ok then Inr (say (''error getting '' @ quoted ns @ '':'' @ quoted key @ eol) s)
           else Inr (say (dump_rows sc eol 0 (take n (the d))) s)))"

definition NL :: char where
  "NL = CHR 0x0A"

definition cap_new :: "string \<Rightarrow> string \<Rightarrow> nat \<Rightarrow> capture" where
  "cap_new ns key n = \<lparr>c_last = NUL, c_chunk = n, c_size = n, c_ns = ns, c_key = key, c_data = []\<rparr>"

text \<open>
  \<^verbatim>\<open>Capture::process\<close>: \<open>c_data\<close> are the first \<^verbatim>\<open>idx\<close> characters of an array of \<open>c_size\<close>; the character
  and the terminator behind it are stored.
\<close>

definition cap_process :: "char \<Rightarrow> capture \<Rightarrow> (bool \<times> capture) result" where
  "cap_process c p =
     (if c_size p \<le> length (c_data p) then Inl OutOfBounds
      else
        let d = c_data p @ [c];
            p1 = p\<lparr>c_data := d, c_size := (if length d = c_size p then c_size p + c_chunk p else c_size p)\<rparr>
        in if c_size p1 \<le> length d then Inl OutOfBounds
           else Inr (\<not> (c = NL \<and> c_last p1 = NL), p1\<lparr>c_last := c\<rparr>))"

definition captured :: "string \<Rightarrow> char \<Rightarrow> shell \<Rightarrow> shell result" where
  "captured eol c s =
     (case sh_capture s of
        None \<Rightarrow> Inl AssertFailed
      | Some p \<Rightarrow>
          rbind (cap_process c p) (\<lambda>(going, p).
            if going then Inr (s\<lparr>sh_capture := Some p\<rparr>)
            else
              let d = take (length (c_data p) - 1) (c_data p);
                  about = quoted (c_ns p) @ '':'' @ quoted (c_key p) @ '' size='' @ fmt_d (int (length d)) @ eol
              in rbind (set_blob (Some (c_ns p)) (Some (c_key p)) (Some (map of_char d)) (sh_store s)) (\<lambda>(ok, st).
                   Inr ((say ((if ok then ''set blob '' else ''error writing blob '') @ about) s)
                     \<lparr>sh_store := st, sh_capture := None\<rparr>))))"

definition blob_set :: "string \<Rightarrow> string \<Rightarrow> shell \<Rightarrow> shell" where
  "blob_set ns key s = s\<lparr>sh_capture := Some (cap_new ns key 128)\<rparr>"

fun isin :: "string \<Rightarrow> string list \<Rightarrow> bool" where
  "isin x [] = False"
| "isin x (t # ts) = (if x = t then True else isin x ts)"

fun print_table :: "string \<Rightarrow> bool \<Rightarrow> string list \<Rightarrow> string" where
  "print_table sep fst_one [] = []"
| "print_table sep fst_one (t # ts) = (if fst_one then [] else sep) @ t @ print_table sep False ts"

definition cmd_storage_blob :: "bool \<Rightarrow> args \<Rightarrow> string \<Rightarrow> shell \<Rightarrow> shell result" where
  "cmd_storage_blob sc ga eol s =
     (let cmds = [''set'', ''get'']
      in case (ga 0, ga 1, ga 2) of
           (Some cmd, Some ns, Some key) \<Rightarrow>
             if \<not> isin cmd cmds then Inr (say (''expects: '' @ print_table ''|'' True cmds @ '' ns key'' @ eol) s)
             else if cmd = ''get'' then blob_get sc ns key eol s
             else Inr (blob_set ns key s)
         | _ \<Rightarrow> Inr (say (''expects: '' @ print_table ''|'' True cmds @ '' ns key'' @ eol) s))"

text \<open>The characters that arrive while a capture is on; the rest is for the shell.\<close>

fun feed_capture :: "string \<Rightarrow> string \<Rightarrow> shell \<Rightarrow> (shell \<times> string) result" where
  "feed_capture eol [] s = Inr (s, [])"
| "feed_capture eol (c # cs) s =
     (if sh_capture s = None then Inr (s, c # cs)
      else rbind (captured eol c s) (feed_capture eol cs))"

subsection \<open>Reading a dump\<close>

text \<open>A reader, for the theorems: words between blanks, of which those that end in a colon are addresses.\<close>

fun words_of :: "string \<Rightarrow> string \<Rightarrow> string list" where
  "words_of w [] = (if w = [] then [] else [w])"
| "words_of w (c # cs) =
     (if c \<in> {CHR '' '', CHR 0x0D, NL} then (if w = [] then [] else [w]) @ words_of [] cs
      else words_of (w @ [c]) cs)"

definition hex_val :: "char \<Rightarrow> nat" where
  "hex_val c = (let n = of_char c in if n < 58 then n - 48 else n - 87)"

definition read_hex :: "string \<Rightarrow> nat" where
  "read_hex x = foldl (\<lambda>v c. 16 * v + hex_val c) 0 x"

definition read_dump :: "string \<Rightarrow> nat list" where
  "read_dump x = map read_hex (filter (\<lambda>w. last w \<noteq> CHR '':'') (words_of [] x))"

lemma hex_val_digit: "d < 16 \<Longrightarrow> hex_val (hex_digit d) = d"
  by (simp add: hex_val_def hex_digit_def of_char_of Let_def)

lemma read_hex_nat [simp]: "read_hex (hex_nat n) = n"
proof (induction n rule: hex_nat.induct)
  case (1 n)
  then show ?case by (subst hex_nat.simps) (simp add: read_hex_def hex_val_digit)
qed

lemma read_hex_zeros: "read_hex (replicate k (CHR ''0'') @ x) = read_hex x"
proof -
  have "foldl (\<lambda>v c. 16 * v + hex_val c) 0 (replicate k (CHR ''0'')) = 0"
    by (induction k) (simp_all add: hex_val_def)
  then show ?thesis by (simp add: read_hex_def)
qed

text \<open>\<open>0x\<close> in front is read as no digits, as \<^verbatim>\<open>strtol\<close> does.\<close>

definition read_int :: "string \<Rightarrow> nat" where
  "read_int x = (if take 2 x = ''0x'' then read_hex (drop 2 x) else read_hex x)"

lemma set_hex_nat: "set (hex_nat n) \<subseteq> hex_digit ` {..<16}"
proof (induction n rule: hex_nat.induct)
  case (1 n)
  then show ?case by (subst hex_nat.simps) auto
qed

lemma of_char_hex_digit: "d < 16 \<Longrightarrow> of_char (hex_digit d) = (if d < 10 then 48 + d else 87 + d)"
  by (simp add: hex_digit_def of_char_of)

lemma hex_digit_plain: "hex_digit d \<noteq> c" if "d < 16" "c \<in> {CHR '' '', CHR 0x0D, NL, CHR '':'', CHR ''x''}"
proof
  assume "hex_digit d = c"
  with of_char_hex_digit [OF that(1)] have "of_char c = (if d < 10 then 48 + d else 87 + d)" by simp
  then show False using that by (auto simp: NL_def split: if_splits)
qed

lemma hex_digit_0: "hex_digit 0 = CHR ''0''"
  by code_simp

lemma read_int_ax: "read_int (fmt_ax w v) = unat v"
proof (cases "v = 0")
  case True
  have "fmt_ax w v = replicate (w - 1) (CHR ''0'') @ ''0''"
    using True by (simp add: fmt_ax_def fmt_0x_def Let_def hex_nat.simps hex_digit_0)
  moreover have "take 2 (replicate (w - 1) (CHR ''0'') @ ''0'') \<noteq> ''0x''"
    by (cases "w - 1"; cases "w - 2") (auto simp: take_Cons' numeral_2_eq_2 split: if_splits nat.splits)
  ultimately show ?thesis using True by (simp add: read_int_def read_hex_zeros) (simp add: read_hex_def hex_val_def)
next
  case False
  then show ?thesis by (simp add: fmt_ax_def read_int_def fmt_0x_def Let_def read_hex_zeros)
qed


abbreviation blank :: "char \<Rightarrow> bool" where
  "blank c \<equiv> c \<in> {CHR '' '', CHR 0x0D, NL}"

lemma words_blanks: "\<forall>c\<in>set b. blank c \<Longrightarrow> words_of [] (b @ x) = words_of [] x"
  by (induction b) auto

lemma words_word: "\<forall>c\<in>set w. \<not> blank c \<Longrightarrow> a @ w \<noteq> [] \<Longrightarrow> blank b \<Longrightarrow> words_of a (w @ b # x) = (a @ w) # words_of [] (b # x)"
proof (induction w arbitrary: a)
  case Nil
  then show ?case by simp
next
  case (Cons c w)
  then show ?case using Cons.IH [of "a @ [c]"] by simp
qed

lemma hex_nat_plain: "c \<in> set (hex_nat n) \<Longrightarrow> \<not> blank c \<and> c \<noteq> CHR '':''"
  using set_hex_nat [of n] hex_digit_plain by (fastforce simp: subset_iff image_iff)

lemma hex_nat_not_Nil [simp]: "hex_nat n \<noteq> []"
  by (subst hex_nat.simps) simp

definition byte_word :: "u8 \<Rightarrow> string" where
  "byte_word c = hex_nat (unat (drop_bit 4 c)) @ hex_nat (unat (c AND 0x0f))"

definition seven_bit :: "bool \<Rightarrow> u8 \<Rightarrow> bool" where
  "seven_bit sc c \<longleftrightarrow> \<not> sc \<or> c < 0x80"

lemma u8_bounds: "unat c < 256" "0 \<le> uint c" for c :: u8
proof -
  have "unat c < 2 ^ LENGTH(8)" by (rule unsigned_less)
  then show "unat c < 256" by simp
  show "0 \<le> uint c" by simp
qed

lemma below_sint: "c < 0x80 \<Longrightarrow> sint c = uint c" for c :: u8
proof -
  assume "c < 0x80"
  then have "uint c < 2 ^ 7" by (simp add: word_less_alt)
  moreover have "- (2 ^ 7) \<le> uint c" by (rule order_trans [OF _ u8_bounds(2)]) simp
  ultimately show "sint c = uint c" by (simp add: sint_uint signed_take_bit_int_eq_self)
qed

lemma unat_nibble: "unat (drop_bit 4 c) = unat c div 16" "unat (c AND 0x0f) = unat c mod 16" for c :: u8
proof -
  show "unat (drop_bit 4 c) = unat c div 16" by (simp add: unat_drop_bit_eq drop_bit_eq_div unat_div)
  have "c AND 0x0f = take_bit 4 c" by (simp add: take_bit_eq_mask mask_numeral)
  then show "unat (c AND 0x0f) = unat c mod 16" by (simp add: take_bit_eq_mod unat_mod)
qed

lemma dump_byte_word: "dump_byte sc c = CHR '' '' # byte_word c" if "seven_bit sc c"
proof -
  have "unat (if sc then word_of_int (sint c div 16) else ucast (drop_bit 4 c) :: u32) = unat (drop_bit 4 c)"
  proof (cases sc)
    case True
    with that have "sint c = uint c" by (simp add: seven_bit_def below_sint)
    moreover have "word_of_int (uint c div 16) = (of_nat (unat c div 16) :: u32)"
    proof -
      have "uint c div 16 = int (unat c div 16)" by (simp add: zdiv_int)
      then show ?thesis by simp
    qed
    moreover have "unat (of_nat (unat c div 16) :: u32) = unat c div 16"
      using u8_bounds(1) [of c] by (subst unat_of_nat) (rule mod_less, simp)
    ultimately show ?thesis using True by (simp only: if_True unat_nibble)
  next
    case False
    have "uint (ucast (drop_bit 4 c) :: u32) = uint (drop_bit 4 c)" by (rule uint_up_ucast) (simp add: is_up)
    with False show ?thesis by (simp only: unat_eq_nat_uint if_False)
  qed
  then show ?thesis by (simp add: dump_byte_def byte_word_def)
qed

lemma byte_word_reads: "read_hex (byte_word c) = unat c"
proof -
  have "unat c div 16 < 16" using u8_bounds(1) [of c] by (simp add: less_mult_imp_div_less)
  then show ?thesis
    by (simp add: byte_word_def unat_nibble hex_nat.simps read_hex_def hex_val_digit)
qed

lemma byte_word_plain: "\<forall>x\<in>set (byte_word c). \<not> blank x" "byte_word c \<noteq> []" "last (byte_word c) \<noteq> CHR '':''"
proof -
  have "x \<in> set (byte_word c) \<Longrightarrow> \<not> blank x \<and> x \<noteq> CHR '':''" for x
    unfolding byte_word_def set_append using hex_nat_plain by blast
  moreover show "byte_word c \<noteq> []" by (simp add: byte_word_def)
  ultimately show "\<forall>x\<in>set (byte_word c). \<not> blank x" "last (byte_word c) \<noteq> CHR '':''"
    using last_in_set by blast+
qed

lemma words_bytes:
  "\<forall>c\<in>set d. seven_bit sc c \<Longrightarrow> blank b \<Longrightarrow>
   words_of [] (concat (map (dump_byte sc) d) @ b # x) = map byte_word d @ words_of [] (b # x)"
proof (induction d)
  case (Cons c d)
  obtain b' x' where t: "concat (map (dump_byte sc) d) @ b # x = b' # x'" "blank b'"
    using Cons.prems by (cases d) (auto simp: dump_byte_word)
  have "words_of [] (dump_byte sc c @ b' # x') = words_of [] (byte_word c @ b' # x')"
    using Cons.prems by (simp add: dump_byte_word)
  also have "\<dots> = byte_word c # words_of [] (b' # x')"
    using words_word [of "byte_word c" "[]" b' x'] byte_word_plain [of c] t(2) by simp
  finally show ?case using Cons by (simp add: t(1) [symmetric] del: words_of.simps)
qed simp

lemma words_row:
  assumes "d \<noteq> []" "\<forall>c\<in>set d. seven_bit sc c" "eol \<noteq> []" "\<forall>c\<in>set eol. blank c"
  shows "\<exists>a. last a = CHR '':'' \<and>
    words_of [] (fmt_0x 4 v @ '':'' @ concat (map (dump_byte sc) d) @ eol @ x) = a # map byte_word d @ words_of [] x"
proof (intro exI conjI)
  let ?a = "fmt_0x 4 v @ '':''"
  obtain b e where eol: "eol = b # e" "blank b" "\<forall>c\<in>set e. blank c" using assms(3,4) by (cases eol) auto
  obtain y where y: "concat (map (dump_byte sc) d) @ b # e @ x = CHR '' '' # y"
    using assms(1,2) by (cases d) (auto simp: dump_byte_word)
  have "\<forall>c\<in>set ?a. \<not> blank c"
    unfolding fmt_0x_def Let_def using hex_nat_plain by (auto simp: NL_def)
  then have "words_of [] (?a @ CHR '' '' # y) = ?a # words_of [] (CHR '' '' # y)"
    using words_word [of ?a "[]" "CHR '' ''" y] by simp
  also have "words_of [] (CHR '' '' # y) = map byte_word d @ words_of [] (b # e @ x)"
    unfolding y [symmetric] by (rule words_bytes [OF assms(2) eol(2)])
  also have "words_of [] (b # e @ x) = words_of [] x"
    using words_blanks [of "b # e" x] eol by simp
  finally show "words_of [] (fmt_0x 4 v @ '':'' @ concat (map (dump_byte sc) d) @ eol @ x) = ?a # map byte_word d @ words_of [] x"
    unfolding eol(1) by (simp add: y)
  show "last ?a = CHR '':''" by simp
qed

lemma dump_reads:
  "\<forall>c\<in>set d. seven_bit sc c \<Longrightarrow> eol \<noteq> [] \<Longrightarrow> \<forall>c\<in>set eol. blank c \<Longrightarrow>
   read_dump (dump_rows sc eol addr d) = map unat d"
proof (induction sc eol addr d rule: dump_rows.induct)
  case (1 sc eol addr d)
  show ?case
  proof (cases "d = []")
    case True
    then show ?thesis by (simp add: dump_rows.simps read_dump_def)
  next
    case False
    have "\<forall>c\<in>set (take 16 d). seven_bit sc c" "\<forall>c\<in>set (drop 16 d). seven_bit sc c"
      using "1.prems"(1) by (auto dest: in_set_takeD in_set_dropD)
    from words_row [OF _ this(1) "1.prems"(2,3), of "word_of_int addr" "dump_rows sc eol (addr + 16) (drop 16 d)"] False obtain a where
      a: "last a = CHR '':''" "words_of [] (dump_rows sc eol addr d) =
        a # map byte_word (take 16 d) @ words_of [] (dump_rows sc eol (addr + 16) (drop 16 d))"
      by (auto simp: dump_rows.simps [of sc eol addr d])
    have "filter (\<lambda>w. last w \<noteq> CHR '':'') (map byte_word (take 16 d)) = map byte_word (take 16 d)"
      by (rule filter_True) (auto simp: byte_word_plain)
    moreover have "read_dump (dump_rows sc eol (addr + 16) (drop 16 d)) = map unat (drop 16 d)"
      using "1.IH" [OF False \<open>\<forall>c\<in>set (drop 16 d). seven_bit sc c\<close> "1.prems"(2,3)] .
    ultimately have "read_dump (dump_rows sc eol addr d) = map unat (take 16 d) @ map unat (drop 16 d)"
      by (simp add: read_dump_def a o_def byte_word_reads)
    then show ?thesis by (metis append_take_drop_id map_append)
  qed
qed

text \<open>Where \<^verbatim>\<open>char\<close> is signed, the high half of a byte from 128 on is printed with its sign extended.\<close>

lemma dump_of_signed_chars: "read_hex (tl (dump_byte True 0x80)) = 0xFFFFFFF80"
proof -
  have "sint (0x80 :: u8) div 16 = - 8" "(0x80 :: u8) AND 0x0f = 0" by simp_all
  moreover have "unat (word_of_int (- 8) :: u32) = 0xFFFFFFF8" by simp
  ultimately show ?thesis
    by (simp add: dump_byte_def hex_nat.simps [of 0]) (simp add: read_hex_def hex_val_digit read_hex_nat [unfolded read_hex_def])
qed

subsection \<open>What is captured\<close>

definition cap_ok :: "capture \<Rightarrow> bool" where
  "cap_ok p \<longleftrightarrow> length (c_data p) < c_size p \<and> 0 < c_chunk p"

lemma cap_process_ok:
  "cap_ok p \<Longrightarrow> \<exists>p'. cap_process c p = Inr (\<not> (c = NL \<and> c_last p = NL), p') \<and> cap_ok p' \<and>
     c_data p' = c_data p @ [c] \<and> c_last p' = c \<and> c_ns p' = c_ns p \<and> c_key p' = c_key p"
  by (auto simp: cap_process_def cap_ok_def Let_def)

text \<open>No two line ends in a row.\<close>

abbreviation no_gap :: "string \<Rightarrow> bool" where
  "no_gap \<equiv> successively (\<lambda>a b. \<not> (b = NL \<and> a = NL))"

lemma feed_text:
  "sh_capture s = Some p \<Longrightarrow> cap_ok p \<Longrightarrow> no_gap (c_last p # t) \<Longrightarrow>
   \<exists>p'. feed_capture eol (t @ r) s = feed_capture eol r (s\<lparr>sh_capture := Some p'\<rparr>) \<and> cap_ok p' \<and>
     c_data p' = c_data p @ t \<and> c_last p' = last (c_last p # t) \<and> c_ns p' = c_ns p \<and> c_key p' = c_key p"
proof (induction t arbitrary: s p)
  case Nil
  then have "s\<lparr>sh_capture := Some p\<rparr> = s" by (cases s) simp
  then have "feed_capture eol ([] @ r) s = feed_capture eol r (s\<lparr>sh_capture := Some p\<rparr>)" by (simp only: append.simps)
  with Nil show ?case by (intro exI [of _ p] conjI) simp_all
next
  case (Cons c t)
  from cap_process_ok [OF Cons.prems(2), of c] obtain p1 where
    p1: "cap_process c p = Inr (\<not> (c = NL \<and> c_last p = NL), p1)" "cap_ok p1" "c_data p1 = c_data p @ [c]"
      "c_last p1 = c" "c_ns p1 = c_ns p" "c_key p1 = c_key p" by blast
  have "captured eol c s = Inr (s\<lparr>sh_capture := Some p1\<rparr>)"
    using Cons.prems p1(1) by (simp add: captured_def)
  moreover have "no_gap (c_last p1 # t)" using Cons.prems(3) p1(4) by simp
  ultimately show ?case
    using Cons.IH [of "s\<lparr>sh_capture := Some p1\<rparr>" p1] Cons.prems(1) p1(2-6) by auto
qed

lemma feed_end:
  assumes "sh_capture s = Some p" "cap_ok p" "c_last p = NL"
  shows "\<exists>s'. feed_capture eol (NL # r) s = Inr (s', r) \<and> sh_capture s' = None \<and>
    set_blob (Some (c_ns p)) (Some (c_key p)) (Some (map of_char (c_data p))) (sh_store s) = Inr (True, sh_store s')"
proof -
  from cap_process_ok [OF assms(2), of NL] assms(3) obtain p' where
    p': "cap_process NL p = Inr (False, p')" "c_data p' = c_data p @ [NL]" "c_ns p' = c_ns p" "c_key p' = c_key p" by auto
  have "\<exists>st. set_blob (Some (c_ns p)) (Some (c_key p)) (Some (map of_char (c_data p))) (sh_store s) = Inr (True, st)"
    by (auto simp: set_blob_def find_set_def split: option.split)
  then obtain st where st: "set_blob (Some (c_ns p)) (Some (c_key p)) (Some (map of_char (c_data p))) (sh_store s) = Inr (True, st)" ..
  from st p' assms(1) have "\<exists>s'. captured eol NL s = Inr s' \<and> sh_capture s' = None \<and> sh_store s' = st"
    by (simp add: captured_def Let_def)
  then obtain s' where s': "captured eol NL s = Inr s'" "sh_capture s' = None" "sh_store s' = st" by blast
  moreover have "feed_capture eol r s' = Inr (s', r)" using s'(2) by (cases r) simp_all
  ultimately show ?thesis using st assms(1) by auto
qed


subsection \<open>What the commands promise\<close>

lemma unat_of_char: "unat (of_char c :: u8) = of_char c"
proof -
  have "unat (of_nat (of_char c) :: u8) = of_char c" by (subst unat_of_nat) simp
  then show ?thesis by (simp add: of_nat_of_char)
qed

text \<open>What a value typed by the user stands for, and what is shown of a value.\<close>

definition entered :: "ints \<Rightarrow> string \<Rightarrow> val option" where
  "entered pint v =
     (if v \<noteq> [] \<and> hd v = CHR 0x27 then
        (if CHR 0x27 \<in> set (tl v) then Some (VStr (takeWhile (\<lambda>c. c \<noteq> CHR 0x27) (tl v))) else None)
      else case pint (Some v) of None \<Rightarrow> Some (VStr v) | Some i \<Rightarrow> Some (V32 (word_of_int i)))"

fun shown :: "val \<Rightarrow> string" where
  "shown (VStr x) = x"
| "shown (V32 i) = fmt_ax 8 i"
| "shown (V16 i) = fmt_ax 4 (scast i)"
| "shown (V8 i) = fmt_ax 2 (scast i)"
| "shown (VBlob _) = ''Unknown type='' @ fmt_d 5"

lemma cmd_storage_set_enters:
  assumes "ga 0 = Some ns" "ga 1 = Some key" "ga 2 = Some v" "entered pint v = Some x" "store_rep (sh_store s) m"
  shows "\<exists>st. cmd_storage_set ga pint eol s = Inr (s\<lparr>sh_store := st\<rparr>) \<and> store_rep st (m((ns, key) \<mapsto> x))"
proof -
  from find_set_rep [OF assms(5), of "Some ns" "Some key" x] obtain st where
    st: "find_set (Some ns) (Some key) x (sh_store s) = Inr st" "store_rep st (m((ns, key) \<mapsto> x))"
    by (auto simp: put_def)
  from assms(4) st(1) have "cmd_storage_set ga pint eol s = Inr (s\<lparr>sh_store := st\<rparr>)"
    by (auto simp: cmd_storage_set_def entered_def assms(1,3) assms(2) [unfolded One_nat_def] set_done_def set_str_def set_int32_def Let_def
        split: if_splits option.splits)
  with st(2) show ?thesis by blast
qed

lemma get_str_buffer:
  assumes "store_rep st m" "look ns key m = Some (VStr x)" "length junk = 64"
  shows "\<exists>b n. get_str ns key (Some junk) (Some 64) st = Inr (True, b, n) \<and>
    (c_string x \<longrightarrow> fmt_buf b = (if length x < 64 then Inr x else Inl OutOfBounds))"
proof -
  let ?t = "take 64 (x @ [NUL])" and ?d = "drop (length (take 64 (x @ [NUL]))) junk"
  have g: "get_str ns key (Some junk) (Some 64) st = Inr (True, ?t @ ?d, length ?t)"
    using get_str_rep [OF assms(1), of 64 junk ns key] assms(2,3) by simp
  moreover have "fmt_buf (?t @ ?d) = (if length x < 64 then Inr x else Inl OutOfBounds)" if "c_string x"
  proof (cases "length x < 64")
    case True
    then show ?thesis using that takeWhile_c_string [OF that] by (simp add: fmt_buf_def c_str_def)
  next
    case False
    then have "?t @ ?d = take 64 x" using assms(3) by simp
    moreover have "NUL \<notin> set (take 64 x)" using that by (auto simp: c_string_def dest: in_set_takeD)
    ultimately show ?thesis using False by (simp add: fmt_buf_def)
  qed
  ultimately show ?thesis by blast
qed

lemma show_value_shows:
  assumes "store_rep st m" "look ns key m = Some x" "length junk = 64" "\<And>t. x = VStr t \<Longrightarrow> c_string t \<and> length t < 64"
  shows "show_value ns key junk st =
    Inr (case x of VBlob _ \<Rightarrow> False | _ \<Rightarrow> True,
      case x of VStr _ \<Rightarrow> if key = Some ''pw'' then ''********'' else shown x | _ \<Rightarrow> shown x)"
proof (cases x)
  case (VStr t)
  with get_str_buffer [OF assms(1) _ assms(3), of ns key t] assms(2,4) obtain b n where
    "get_str ns key (Some junk) (Some 64) st = Inr (True, b, n)" "fmt_buf b = Inr t" by auto
  with VStr assms(1,2) show ?thesis by (simp add: show_value_def get_type_rep)
qed (use assms(1,2) in \<open>simp_all add: show_value_def get_type_rep get_ints_rep Let_def\<close>)

text \<open>
  what is set is what is got. A value set with \<^verbatim>\<open>db set\<close> is stored under its name space and key and nothing else
  changes; \<^verbatim>\<open>db get\<close> then prints it: a string, quoted or not, as it was typed, and a number in a form that reads
  back as the number modulo 2 to the 32.
\<close>

theorem db_set_then_get:
  assumes "ga 0 = Some ns" "ga 1 = Some key" "ga 2 = Some v" "entered pint v = Some x" "key \<noteq> ''pw''"
    "\<And>t. x = VStr t \<Longrightarrow> c_string t \<and> length t < 64" "store_rep (sh_store s) m" "length junk = 64"
  shows "\<exists>s'. cmd_storage_set ga pint eol s = Inr s' \<and> sh_out s' = sh_out s \<and>
    store_rep (sh_store s') (m((ns, key) \<mapsto> x)) \<and>
    cmd_storage_get ga eol junk s' = Inr (say (shown x @ eol) s') \<and>
    (\<forall>i. x = V32 (word_of_int i) \<longrightarrow> int (read_int (shown x)) = i mod 2 ^ 32)"
proof -
  from cmd_storage_set_enters [OF assms(1-4,7)] obtain st where
    st: "cmd_storage_set ga pint eol s = Inr (s\<lparr>sh_store := st\<rparr>)" "store_rep st (m((ns, key) \<mapsto> x))" by blast
  have "show_value (Some ns) (Some key) junk st = Inr (True, shown x)"
    using show_value_shows [OF st(2), of "Some ns" "Some key" x junk] assms(4,5,6,8)
    by (cases x) (auto simp: look_def entered_def split: if_splits option.splits)
  then have "cmd_storage_get ga eol junk (s\<lparr>sh_store := st\<rparr>) = Inr (say (shown x @ eol) (s\<lparr>sh_store := st\<rparr>))"
    by (simp add: cmd_storage_get_def assms(1) assms(2) [unfolded One_nat_def])
  moreover have "int (read_int (shown x)) = i mod 2 ^ 32" if "x = V32 (word_of_int i)" for i
    by (simp add: that read_int_ax) (simp add: uint_word_of_int)
  ultimately show ?thesis using st by (intro exI [of _ "s\<lparr>sh_store := st\<rparr>"]) auto
qed


definition typed :: "string list \<Rightarrow> args" where
  "typed xs i = (if i < length xs then Some (xs ! i) else None)"

theorem db_set_then_get_witness:
  "\<exists>s'. cmd_storage_set (typed [''net'', ''port'', ''1883'']) (\<lambda>_. Some 1883) [NL] \<lparr>sh_out = [], sh_store = [], sh_capture = None\<rparr> = Inr s' \<and>
     cmd_storage_get (typed [''net'', ''port'', ''1883'']) [NL] (replicate 64 NUL) s' = Inr (say (fmt_ax 8 1883 @ [NL]) s') \<and>
     read_int (fmt_ax 8 1883) = 1883"
proof -
  have "entered (\<lambda>_. Some 1883) ''1883'' = Some (V32 (word_of_int 1883))" by (simp add: entered_def)
  moreover have "store_rep [] Map.empty" by (simp add: store_rep_def store_map_def)
  ultimately obtain s' where
    "cmd_storage_set (typed [''net'', ''port'', ''1883'']) (\<lambda>_. Some 1883) [NL] \<lparr>sh_out = [], sh_store = [], sh_capture = None\<rparr> = Inr s'"
    "cmd_storage_get (typed [''net'', ''port'', ''1883'']) [NL] (replicate 64 NUL) s' = Inr (say (fmt_ax 8 1883 @ [NL]) s')"
    using db_set_then_get [of "typed [''net'', ''port'', ''1883'']" "''net''" "''port''" "''1883''" "\<lambda>_. Some 1883"
      "V32 (word_of_int 1883)" "\<lparr>sh_out = [], sh_store = [], sh_capture = None\<rparr>" Map.empty "replicate 64 NUL" "[NL]"]
    by (auto simp: typed_def)
  moreover have "read_int (fmt_ax 8 1883) = 1883" by (simp add: read_int_ax)
  ultimately show ?thesis by (intro exI conjI)
qed

text \<open>
  a password is not shown. Whatever string is stored under the key \<^verbatim>\<open>pw\<close> of a name space, and however long, what
  \<^verbatim>\<open>db get\<close> prints is the same row of stars.
\<close>

theorem password_stays_hidden:
  assumes "store_rep (sh_store s) m" "m (ns, ''pw'') = Some (VStr x)" "ga 0 = Some ns" "ga 1 = Some ''pw''" "length junk = 64"
  shows "cmd_storage_get ga eol junk s = Inr (say (''********'' @ eol) s)"
proof -
  have l: "look (Some ns) (Some ''pw'') m = Some (VStr x)" using assms(2) by (simp add: look_def)
  obtain b n where "get_str (Some ns) (Some ''pw'') (Some junk) (Some 64) (sh_store s) = Inr (True, b, n)"
    using get_str_buffer [OF assms(1) l assms(5)] by blast
  then have "show_value (Some ns) (Some ''pw'') junk (sh_store s) = Inr (True, ''********'')"
    by (simp add: show_value_def get_type_rep [OF assms(1)] l)
  then show ?thesis using assms(3,4) by (simp add: cmd_storage_get_def)
qed

theorem password_stays_hidden_witness:
  "cmd_storage_get (typed [''wifi'', ''pw'']) [NL] (replicate 64 NUL)
     \<lparr>sh_out = [], sh_store = [\<lparr>pns = ''wifi'', pkey = ''pw'', pval = VStr ''secret''\<rparr>], sh_capture = None\<rparr> =
   Inr (say (''********'' @ [NL]) \<lparr>sh_out = [], sh_store = [\<lparr>pns = ''wifi'', pkey = ''pw'', pval = VStr ''secret''\<rparr>], sh_capture = None\<rparr>)"
proof (rule password_stays_hidden)
  show "store_rep (sh_store \<lparr>sh_out = [], sh_store = [\<lparr>pns = ''wifi'', pkey = ''pw'', pval = VStr ''secret''\<rparr>], sh_capture = None\<rparr>)
      [(''wifi'', ''pw'') \<mapsto> VStr ''secret'']"
    by (simp add: store_rep_def store_map_def)
qed (simp_all add: typed_def)

lemma show_value_fails:
  assumes "store_rep st m" "length junk = 64" "\<forall>k x. m k = Some (VStr x) \<longrightarrow> c_string x"
  shows "(\<exists>ok y. show_value ns key junk st = Inr (ok, y) \<and> (\<not> ok \<or> key \<noteq> None)) \<and>
      \<not> (\<exists>x. look ns key m = Some (VStr x) \<and> 64 \<le> length x \<and> key \<noteq> Some ''pw'') \<or>
    show_value ns key junk st = Inl OutOfBounds \<and> key \<noteq> None \<and>
      (\<exists>x. look ns key m = Some (VStr x) \<and> 64 \<le> length x \<and> key \<noteq> Some ''pw'')"
proof (cases "look ns key m")
  case None
  then show ?thesis by (auto simp: show_value_def get_type_rep [OF assms(1)])
next
  case (Some x)
  then have k: "key \<noteq> None" by (auto simp: look_def split: option.splits)
  show ?thesis
  proof (cases x)
    case (VStr t)
    then have "c_string t" using Some assms(3) by (auto simp: look_def split: option.splits)
    with get_str_buffer [OF assms(1) _ assms(2), of ns key t] Some VStr obtain b n where
      "get_str ns key (Some junk) (Some 64) st = Inr (True, b, n)"
      "fmt_buf b = (if length t < 64 then Inr t else Inl OutOfBounds)" by blast
    with VStr Some k show ?thesis by (auto simp: show_value_def get_type_rep [OF assms(1)])
  qed (use Some k in \<open>auto simp: show_value_def get_type_rep [OF assms(1)] get_ints_rep [OF assms(1)] Let_def\<close>)
qed

text \<open>
  the exact conditions under which the commands on the store fail. With arguments typed from the left, \<^verbatim>\<open>set\<close>
  dereferences null exactly when it has a name space but no value, \<^verbatim>\<open>get\<close> prints a null key exactly when it has
  a name space but no key and reads past its buffer exactly when it prints a string of 64 characters or more,
  and \<^verbatim>\<open>del\<close> prints a null key exactly when it has none. Each tests its arguments with \<^verbatim>\<open>or\<close> where all
  of them are needed.
\<close>

theorem db_commands_fail_exactly:
  assumes "store_rep (sh_store s) m" "\<forall>i. ga i = None \<longrightarrow> ga (Suc i) = None" "length junk = 64"
    "\<forall>k x. m k = Some (VStr x) \<longrightarrow> c_string x"
  shows "(\<exists>e. cmd_storage_set ga pint eol s = Inl e) \<longleftrightarrow> ga 0 \<noteq> None \<and> ga 2 = None"
    "cmd_storage_get ga eol junk s = Inl NullDeref \<longleftrightarrow> ga 0 \<noteq> None \<and> ga 1 = None"
    "cmd_storage_get ga eol junk s = Inl OutOfBounds \<longleftrightarrow>
       (\<exists>x. look (ga 0) (ga 1) m = Some (VStr x) \<and> 64 \<le> length x \<and> ga 1 \<noteq> Some ''pw'')"
    "(\<exists>e. cmd_storage_del ga eol s = Inl e) \<longleftrightarrow> ga 0 \<noteq> None \<and> ga 1 = None"
proof -
  have i: "ga 0 = None \<longrightarrow> ga 1 = None" "ga 1 = None \<longrightarrow> ga 2 = None"
    using assms(2) [rule_format, of 0] assms(2) [rule_format, of 1] by (simp_all add: numeral_2_eq_2)
  have fs: "\<exists>st. find_set (Some a) (Some b) v (sh_store s) = Inr st" for a b v
    by (auto simp: find_set_def split: option.split)
  have set_done: "\<exists>s'. set_done (Some a) (Some b) v eol m' s = Inr s'" if "\<exists>r. m' = Inr r" for a b v m'
    using that by (auto simp: set_done_def fmt_s_def Let_def split: prod.splits)
  have set: "\<exists>r. set_str (Some a) (Some b) (Some v) (sh_store s) = Inr r" "\<exists>r. set_int32 (Some a) (Some b) w (sh_store s) = Inr r"
    for a b v w
    using fs [of a b "VStr v"] fs [of a b "V32 w"] by (auto simp: set_str_def set_int32_def)
  show "(\<exists>e. cmd_storage_set ga pint eol s = Inl e) \<longleftrightarrow> ga 0 \<noteq> None \<and> ga 2 = None"
  proof (cases "ga 2")
    case None
    with i show ?thesis by (cases "ga 0"; cases "ga 1") (simp_all add: cmd_storage_set_def)
  next
    case (Some v)
    with i obtain a b where ab: "ga 0 = Some a" "ga 1 = Some b" by fastforce
    have "\<exists>s'. cmd_storage_set ga pint eol s = Inr s'"
      unfolding cmd_storage_set_def Let_def ab Some option.case if_distrib
      by (auto split: option.split intro!: set_done set)
    with Some show ?thesis by auto
  qed
  note v = show_value_fails [OF assms(1,3,4), of "ga 0" "ga 1"]
  show "cmd_storage_get ga eol junk s = Inl NullDeref \<longleftrightarrow> ga 0 \<noteq> None \<and> ga 1 = None"
    using v i by (cases "ga 0"; cases "ga 1") (auto simp: cmd_storage_get_def fmt_s_def Let_def look_def split: if_splits)
  show "cmd_storage_get ga eol junk s = Inl OutOfBounds \<longleftrightarrow>
       (\<exists>x. look (ga 0) (ga 1) m = Some (VStr x) \<and> 64 \<le> length x \<and> ga 1 \<noteq> Some ''pw'')"
    using v i by (cases "ga 0"; cases "ga 1") (auto simp: cmd_storage_get_def fmt_s_def Let_def look_def split: if_splits)
  show "(\<exists>e. cmd_storage_del ga eol s = Inl e) \<longleftrightarrow> ga 0 \<noteq> None \<and> ga 1 = None"
    using i by (auto simp: cmd_storage_del_def fmt_s_def Let_def erase_def find_pair_def split: option.splits)
qed

theorem db_commands_fail_exactly_witness:
  "cmd_storage_get (typed [''net'']) [NL] (replicate 64 NUL) \<lparr>sh_out = [], sh_store = [], sh_capture = None\<rparr> = Inl NullDeref \<and>
   (\<exists>e. cmd_storage_set (typed [''net'', ''port'']) (\<lambda>_. None) [NL] \<lparr>sh_out = [], sh_store = [], sh_capture = None\<rparr> = Inl e)"
proof -
  have r: "store_rep (sh_store \<lparr>sh_out = [], sh_store = [], sh_capture = None\<rparr>) Map.empty"
    by (simp add: store_rep_def store_map_def)
  have t: "\<forall>i. typed xs i = None \<longrightarrow> typed xs (Suc i) = None" for xs by (simp add: typed_def)
  note w = db_commands_fail_exactly [OF r t, where junk = "replicate 64 NUL"]
  have v: "typed [''net''] 0 \<noteq> None \<and> typed [''net''] 1 = None" "typed [''net'', ''port''] 0 \<noteq> None \<and> typed [''net'', ''port''] 2 = None"
    by (simp_all add: typed_def)
  have "cmd_storage_get (typed [''net'']) [NL] (replicate 64 NUL) \<lparr>sh_out = [], sh_store = [], sh_capture = None\<rparr> = Inl NullDeref"
    by (rule w(2) [THEN iffD2]) (use v(1) in simp_all)
  moreover have "\<exists>e. cmd_storage_set (typed [''net'', ''port'']) (\<lambda>_. None) [NL] \<lparr>sh_out = [], sh_store = [], sh_capture = None\<rparr> = Inl e"
    by (rule w(1) [THEN iffD2]) (use v(2) in simp_all)
  ultimately show ?thesis ..
qed

text \<open>
  C39: a text entered as a blob is kept. After \<^verbatim>\<open>db blob set\<close> the characters up to a first empty line are stored as
  the bytes of the blob, whatever their number, and the array they are collected in is never overrun; what follows is
  left to the shell. \<^verbatim>\<open>db blob get\<close> then prints a dump that reads back as the same bytes (of 7 bits, where
  characters are signed).
\<close>

theorem blob_text_is_kept:
  assumes "t \<noteq> []" "last t = NL" "no_gap t" "\<forall>c\<in>set t. seven_bit sc (of_char c)" "eol \<noteq> []" "\<forall>c\<in>set eol. blank c"
    "ga 0 = Some ''set''" "ga 1 = Some ns" "ga 2 = Some key" "ga' 0 = Some ''get''" "ga' 1 = Some ns" "ga' 2 = Some key"
    "store_rep (sh_store s) m"
  shows "\<exists>s1 s2 x. cmd_storage_blob sc ga eol s = Inr s1 \<and> feed_capture eol (t @ NL # rest) s1 = Inr (s2, rest) \<and>
    sh_capture s2 = None \<and> store_rep (sh_store s2) (m((ns, key) \<mapsto> VBlob (map of_char t))) \<and>
    cmd_storage_blob sc ga' eol s2 = Inr (say x s2) \<and> read_dump x = map of_char t"
proof -
  let ?p = "cap_new ns key 128" and ?b = "map of_char t :: u8 list"
  let ?s1 = "s\<lparr>sh_capture := Some ?p\<rparr>"
  have set: "cmd_storage_blob sc ga eol s = Inr ?s1"
    using assms(7-9) by (simp add: cmd_storage_blob_def blob_set_def)
  have p: "cap_ok ?p" "c_last ?p = NUL" "c_data ?p = []" "c_ns ?p = ns" "c_key ?p = key" by (simp_all add: cap_new_def cap_ok_def)
  have "no_gap (c_last ?p # t)" using assms(1,3) by (cases t) (simp_all add: p(2) NUL_def NL_def)
  from feed_text [OF _ p(1) this, of ?s1 eol "NL # rest"] obtain p' where
    p': "feed_capture eol (t @ NL # rest) ?s1 = feed_capture eol (NL # rest) (?s1\<lparr>sh_capture := Some p'\<rparr>)" "cap_ok p'"
      "c_data p' = t" "c_last p' = NL" "c_ns p' = ns" "c_key p' = key"
    using assms(1,2) p(3-5) by auto
  from feed_end [OF _ p'(2,4), of "?s1\<lparr>sh_capture := Some p'\<rparr>" eol rest] p'(3,5,6) obtain s2 where
    s2: "feed_capture eol (NL # rest) (?s1\<lparr>sh_capture := Some p'\<rparr>) = Inr (s2, rest)" "sh_capture s2 = None"
      "set_blob (Some ns) (Some key) (Some ?b) (sh_store s) = Inr (True, sh_store s2)" by auto
  from find_set_rep [OF assms(13), of "Some ns" "Some key" "VBlob ?b"] s2(3) have
    rep: "store_rep (sh_store s2) (m((ns, key) \<mapsto> VBlob ?b))"
    by (auto simp: set_blob_def put_def)
  have l: "look (Some ns) (Some key) (m((ns, key) \<mapsto> VBlob ?b)) = Some (VBlob ?b)" by (simp add: look_def)
  have "blob_get sc ns key eol s2 = Inr (say (dump_rows sc eol 0 ?b) s2)"
    using assms(1) get_blob_rep [OF rep, of 0 None "Some ns" "Some key"]
      get_blob_rep [OF rep, of "length t" "Some (replicate (length t) 0)" "Some ns" "Some key"]
    by (simp add: blob_get_def l)
  then have get: "cmd_storage_blob sc ga' eol s2 = Inr (say (dump_rows sc eol 0 ?b) s2)"
    using assms(10-12) by (simp add: cmd_storage_blob_def)
  have "read_dump (dump_rows sc eol 0 ?b) = map unat ?b"
    using assms(4) by (intro dump_reads [OF _ assms(5,6)]) auto
  also have "\<dots> = map of_char t" by (simp add: o_def unat_of_char)
  finally show ?thesis using set p'(1) s2(1,2) rep get by (intro exI conjI) simp_all
qed

theorem blob_text_is_kept_witness:
  "\<exists>s1 s2 x. cmd_storage_blob False (typed [''set'', ''web'', ''page'']) [NL] \<lparr>sh_out = [], sh_store = [], sh_capture = None\<rparr> = Inr s1 \<and>
     feed_capture [NL] (''hello'' @ [NL, NL] @ ''db'') s1 = Inr (s2, ''db'') \<and>
     cmd_storage_blob False (typed [''get'', ''web'', ''page'']) [NL] s2 = Inr (say x s2) \<and>
     read_dump x = [104, 101, 108, 108, 111, 10]"
proof -
  have "store_rep (sh_store \<lparr>sh_out = [], sh_store = [], sh_capture = None\<rparr>) Map.empty"
    by (simp add: store_rep_def store_map_def)
  from blob_text_is_kept [OF _ _ _ _ _ _ _ _ _ _ _ _ this, of "''hello'' @ [NL]" False "[NL]" "typed [''set'', ''web'', ''page'']"
      "''web''" "''page''" "typed [''get'', ''web'', ''page'']" "''db''"]
  obtain s1 s2 x where
    r: "cmd_storage_blob False (typed [''set'', ''web'', ''page'']) [NL] \<lparr>sh_out = [], sh_store = [], sh_capture = None\<rparr> = Inr s1"
      "feed_capture [NL] ((''hello'' @ [NL]) @ NL # ''db'') s1 = Inr (s2, ''db'')"
      "cmd_storage_blob False (typed [''get'', ''web'', ''page'']) [NL] s2 = Inr (say x s2)"
      "read_dump x = map of_char (''hello'' @ [NL])"
    by (simp add: typed_def NL_def seven_bit_def) blast
  have "map of_char (''hello'' @ [NL]) = [104, 101, 108, 108, 111, 10 :: nat]" by (simp add: NL_def)
  then show ?thesis using r by (intro exI [of _ s1] exI [of _ s2] exI [of _ x] conjI) (simp_all only: append.simps append_assoc)
qed


end
