(* ===== verification/Commands.thy ===== *)
theory Commands
  imports Settings Devices Dates Spi Tracing
begin

text \<open>
  The other commands of the shell (app/cli_cmd.cpp): help, pins, buses, the clock, switches and the logger. Each is a
  function from its arguments (see \<open>Settings\<close> for the parameters that stand for the command line library) and
  the part it works on to the text printed and the part changed. Objects are found by name in the registry of
  \<open>Devices\<close>; clock, switches, logger and SPI device are those of their theories; a pin is the level an
  implementation of \<^verbatim>\<open>GPIO\<close> holds.
\<close>

subsection \<open>Arguments\<close>

fun get_args :: "args \<Rightarrow> ints \<Rightarrow> nat \<Rightarrow> nat \<Rightarrow> int list option" where
  "get_args ga pint idx 0 = Some []"
| "get_args ga pint idx (Suc n) =
     (case ga idx of
        None \<Rightarrow> None
      | Some a \<Rightarrow>
          (case pint (Some a) of
             None \<Rightarrow> None
           | Some i \<Rightarrow> map_option ((#) i) (get_args ga pint (idx + 1) n)))"

text \<open>\<^verbatim>\<open>pwm\<close>: \<open>pset\<close> is what the device answers to a channel and value.\<close>

definition cmd_pwm :: "objects \<Rightarrow> args \<Rightarrow> ints \<Rightarrow> (int \<Rightarrow> u32 \<Rightarrow> bool) \<Rightarrow> string \<Rightarrow> (string \<times> (int \<times> u32) list) result" where
  "cmd_pwm os ga pint pset eol =
     (if objects_get ''pwm'' os = None then Inl AssertFailed
      else
        case get_args ga pint 0 2 of
          None \<Rightarrow> Inr (''expecting : pwm <idx> <value>'' @ eol, [])
        | Some xs \<Rightarrow>
            let c = xs ! 0; v = xs ! 1
            in Inr (if pset c (word_of_int v) then []
                    else ''error setting chan='' @ fmt_d c @ '' value='' @ fmt_d v @ eol, [(c, word_of_int v)]))"

subsection \<open>Help\<close>

datatype command = Command (cmd_name: string) (cmd_help: string) (cmd_subs: "command list")

definition print_help :: "string \<Rightarrow> command \<Rightarrow> string" where
  "print_help eol c = cmd_name c @ '' : '' @ cmd_help c @ eol"

fun print_help_nest :: "string \<Rightarrow> nat \<Rightarrow> command list \<Rightarrow> string" where
  "print_help_nest eol nest [] = []"
| "print_help_nest eol nest (Command n h subs # cs) =
     replicate nest (CHR '' '') @ print_help eol (Command n h subs) @ print_help_nest eol (nest + 1) subs @
     print_help_nest eol nest cs"

text \<open>\<open>finder\<close> is \<^verbatim>\<open>cli_find\<close> of the library.\<close>

definition cmd_help_do :: "(command list \<Rightarrow> (command \<Rightarrow> bool) \<Rightarrow> command option) \<Rightarrow> command list \<Rightarrow> args \<Rightarrow> string \<Rightarrow> string" where
  "cmd_help_do finder cs ga eol =
     (case ga 0 of
        Some n \<Rightarrow>
          (case finder cs (\<lambda>c. cmd_name c = n) of
             None \<Rightarrow> ''command not found'' @ eol
           | Some c \<Rightarrow> print_help eol c)
      | None \<Rightarrow> print_help_nest eol 0 cs)"

subsection \<open>Serial line\<close>

text \<open>What goes to the line; \<open>mx\<close> is the limit \<^verbatim>\<open>CLI_MAX_ARGS\<close> of the library.\<close>

fun uart_loop :: "args \<Rightarrow> nat \<Rightarrow> nat \<Rightarrow> string" where
  "uart_loop ga i 0 = []"
| "uart_loop ga i (Suc n) = (case ga i of None \<Rightarrow> [] | Some a \<Rightarrow> a @ '' '' @ uart_loop ga (i + 1) n)"

definition cmd_uart :: "objects \<Rightarrow> args \<Rightarrow> nat \<Rightarrow> string result" where
  "cmd_uart os ga mx =
     (if objects_get ''uart'' os = None then Inl AssertFailed else Inr (uart_loop ga 0 mx @ [CHR 0x0D, NL]))"

subsection \<open>Pins\<close>

type_synonym levels = "nat \<Rightarrow> bool"

text \<open>One round of \<^verbatim>\<open>gpio flash\<close>: the pins named from index \<open>i\<close> on, up to the first that is not there.\<close>

partial_function (option) flash_round :: "args \<Rightarrow> objects \<Rightarrow> nat \<Rightarrow> levels \<Rightarrow> levels option" where
  "flash_round ga os i lv =
     (case ga i of
        None \<Rightarrow> Some lv
      | Some n \<Rightarrow>
          (case objects_get n os of
             None \<Rightarrow> Some lv
           | Some p \<Rightarrow> flash_round ga os (i + 1) (lv(p := \<not> lv p))))"

text \<open>
  The loops run until another thread calls \<^verbatim>\<open>gpio_terminate_loop\<close>, which is after \<open>k\<close> rounds. What happens to
  the levels while the command sleeps at the end of a round is \<open>env\<close>.
\<close>

fun flash_loop :: "args \<Rightarrow> objects \<Rightarrow> nat \<Rightarrow> (nat \<Rightarrow> levels \<Rightarrow> levels) \<Rightarrow> nat \<Rightarrow> levels \<Rightarrow> levels option" where
  "flash_loop ga os i env 0 lv = Some lv"
| "flash_loop ga os i env (Suc k) lv =
     (case flash_round ga os i lv of None \<Rightarrow> None | Some lv \<Rightarrow> flash_loop ga os i env k (env k lv))"

definition gpio_flash :: "args \<Rightarrow> ints \<Rightarrow> objects \<Rightarrow> nat \<Rightarrow> string \<Rightarrow> (nat \<Rightarrow> levels \<Rightarrow> levels) \<Rightarrow> nat \<Rightarrow> levels \<Rightarrow>
    (string \<times> levels) option" where
  "gpio_flash ga pint os idx eol env k lv =
     (let (x, idx) = (case pint (ga idx) of
                        Some d \<Rightarrow> (''flash rate='' @ fmt_d d @ '' ms'' @ eol, idx + 1)
                      | None \<Rightarrow> ([], idx))
      in map_option (Pair x) (flash_loop ga os idx env k lv))"

definition level_text :: "levels \<Rightarrow> nat \<Rightarrow> string" where
  "level_text lv p = fmt_d (if lv p then 1 else 0)"

fun show_loop :: "string \<Rightarrow> string \<Rightarrow> nat \<Rightarrow> (nat \<Rightarrow> levels \<Rightarrow> levels) \<Rightarrow> nat \<Rightarrow> levels \<Rightarrow> string \<times> levels" where
  "show_loop n eol p env 0 lv = ([], lv)"
| "show_loop n eol p env (Suc k) lv =
     (let (x, lv') = show_loop n eol p env k (env k lv) in (n @ '' '' @ level_text lv p @ eol @ x, lv'))"

text \<open>The part of \<^verbatim>\<open>cmd_gpio\<close> behind the options: \<open>a\<close> is the argument reached, \<open>idx\<close> the next one.\<close>

definition gpio_on :: "args \<Rightarrow> ints \<Rightarrow> objects \<Rightarrow> string \<Rightarrow> (nat \<Rightarrow> levels \<Rightarrow> levels) \<Rightarrow> nat \<Rightarrow>
    bool \<Rightarrow> bool \<Rightarrow> string option \<Rightarrow> nat \<Rightarrow> levels \<Rightarrow> (string \<times> levels) option" where
  "gpio_on ga pint os eol env k tog shw a idx lv =
     (case a of
        None \<Rightarrow> Some (''expects name of gpio'' @ eol, lv)
      | Some n \<Rightarrow>
          (case objects_get n os of
             None \<Rightarrow> Some (''can'' @ [CHR 0x27] @ ''t find device '' @ n @ [CHR 0x27] @ eol, lv)
           | Some p \<Rightarrow>
               if tog then Some ([], lv(p := \<not> lv p))
               else if shw then Some (show_loop n eol p env k lv)
               else
                 (case ga idx of
                    None \<Rightarrow> Some (''expects state 0|1|?'' @ eol, lv)
                  | Some v \<Rightarrow>
                      if v = ''?'' then Some (level_text lv p @ eol, lv)
                      else
                        (case pint (Some v) of
                           None \<Rightarrow> Some (''expects value [0,1]'' @ eol, lv)
                         | Some i \<Rightarrow> Some ([], lv(p := i \<noteq> 0))))))"

definition cmd_gpio :: "args \<Rightarrow> ints \<Rightarrow> objects \<Rightarrow> string \<Rightarrow> (nat \<Rightarrow> levels \<Rightarrow> levels) \<Rightarrow> nat \<Rightarrow> levels \<Rightarrow> (string \<times> levels) option" where
  "cmd_gpio ga pint os eol env k lv =
     (let a = ga 0; idx = 1;
          (tog, a, idx) = (if a = Some ''toggle'' then (True, ga idx, idx + 1) else (False, a, idx));
          (shw, a, idx) =
            (if a = Some ''show'' then
               let a = ga idx; idx = idx + 1
               in if pint a \<noteq> None then (True, ga idx, idx + 1) else (True, a, idx)
             else (False, a, idx))
      in if a = Some ''flash'' then gpio_flash ga pint os idx eol env k lv
         else gpio_on ga pint os eol env k tog shw a idx lv)"

subsection \<open>Clock\<close>

text \<open>
  The clock is a DS3231, whose registers are the state; the bus may fail. \<^verbatim>\<open>cmd_rtc_set\<close> narrows its numbers to the
  fields before it checks them.
\<close>

definition date_text_of :: "rtc_time \<Rightarrow> string" where
  "date_text_of t =
     fmt_0d 4 (uint (year t)) @ ''-'' @ fmt_0d 2 (uint (month t)) @ ''-'' @ fmt_0d 2 (uint (day t)) @ '' '' @
     fmt_0d 2 (uint (hour t)) @ '':'' @ fmt_0d 2 (uint (minute t)) @ '':'' @ fmt_0d 2 (uint (second t))"

definition cmd_rtc_get :: "objects \<Rightarrow> bool \<Rightarrow> string \<Rightarrow> u8 list \<Rightarrow> string result" where
  "cmd_rtc_get os bus_ok eol regs =
     (if objects_get ''rtc'' os = None then Inl AssertFailed
      else if \<not> bus_ok then Inr (''Error reading RTC'' @ eol)
      else Inr (date_text_of (ds_get regs) @ eol))"

fun rtc_args :: "args \<Rightarrow> ints \<Rightarrow> nat \<Rightarrow> nat \<Rightarrow> string \<Rightarrow> string + int list" where
  "rtc_args ga pint i 0 eol = Inr []"
| "rtc_args ga pint i (Suc n) eol =
     (case ga i of
        None \<Rightarrow> Inl (''error reading arg='' @ fmt_d (int i) @ eol)
      | Some a \<Rightarrow>
          (case pint (Some a) of
             None \<Rightarrow> Inl (''error parsing arg='' @ fmt_d (int i) @ eol)
           | Some v \<Rightarrow> (case rtc_args ga pint (i + 1) n eol of Inl e \<Rightarrow> Inl e | Inr vs \<Rightarrow> Inr (v # vs))))"

definition rtc_of :: "int list \<Rightarrow> rtc_time" where
  "rtc_of a =
     \<lparr>year = word_of_int (a ! 0), month = word_of_int (a ! 1), day = word_of_int (a ! 2), hour = word_of_int (a ! 3),
      minute = word_of_int (a ! 4), second = word_of_int (a ! 5)\<rparr>"

definition cmd_rtc_set :: "objects \<Rightarrow> args \<Rightarrow> ints \<Rightarrow> bool \<Rightarrow> string \<Rightarrow> u8 list \<Rightarrow> (string \<times> u8 list) result" where
  "cmd_rtc_set os ga pint bus_ok eol regs =
     (if objects_get ''rtc'' os = None then Inl AssertFailed
      else
        case rtc_args ga pint 0 6 eol of
          Inl e \<Rightarrow> Inr (e, regs)
        | Inr a \<Rightarrow>
            let t = rtc_of a
            in if \<not> rtc_validate t then Inr (''Invalid date-time'' @ eol, regs)
               else if \<not> bus_ok then Inr (''Error writing RTC'' @ eol, regs)
               else Inr ([], tl (ds_set t)))"

subsection \<open>Switches, banner, devices\<close>

definition verbose_line :: "string \<Rightarrow> verbose \<Rightarrow> string" where
  "verbose_line eol v = vb_name v @ '' '' @ fmt_d (if vb_on v then 1 else 0) @ eol"

text \<open>The loop sets the first switch of the name.\<close>

fun verbose_set :: "string \<Rightarrow> string \<Rightarrow> bool \<Rightarrow> verbose list \<Rightarrow> string \<times> verbose list" where
  "verbose_set eol n b [] = (n @ '' not found'' @ eol, [])"
| "verbose_set eol n b (v # vs) =
     (if vb_name v = n then (verbose_line eol (v\<lparr>vb_on := b\<rparr>), v\<lparr>vb_on := b\<rparr> # vs)
      else let (x, vs) = verbose_set eol n b vs in (x, v # vs))"

definition cmd_verbose :: "args \<Rightarrow> ints \<Rightarrow> string \<Rightarrow> verbose list \<Rightarrow> (string \<times> verbose list) result" where
  "cmd_verbose ga pint eol vs =
     (if ga 0 = Some ''list'' then Inr (concat (map (verbose_line eol) vs), vs)
      else if \<not> (ga 0 \<noteq> None \<or> ga 1 \<noteq> None) then Inr (''expects '' @ [CHR 0x27] @ ''list'' @ [CHR 0x27] @ '' or '' @ [CHR 0x27] @ ''<name> 0|1'' @ [CHR 0x27] @ eol, vs)
      else
        case pint (ga 1) of
          None \<Rightarrow>
            rbind (fmt_s (ga 0)) (\<lambda>a. rbind (fmt_s (ga 1)) (\<lambda>b.
              Inr (''can'' @ [CHR 0x27] @ ''t set verbose '' @ a @ '' to state '' @ b @ eol, vs)))
        | Some i \<Rightarrow> rbind (fmt_s (ga 0)) (\<lambda>n. Inr (verbose_set eol n (i \<noteq> 0) vs)))"

text \<open>\<open>at\<close> is the text at an address, \<open>pr\<close> how an address is printed.\<close>

definition cmd_banner :: "objects \<Rightarrow> (nat \<Rightarrow> string) \<Rightarrow> string \<Rightarrow> string" where
  "cmd_banner os at eol = (case objects_get ''banner'' os of None \<Rightarrow> [] | Some p \<Rightarrow> at p @ eol)"

definition cmd_devices :: "objects \<Rightarrow> (nat \<Rightarrow> string) \<Rightarrow> string \<Rightarrow> string" where
  "cmd_devices os pr eol = concat (map (\<lambda>(n, p). pr p @ '' '' @ n @ eol) os)"

subsection \<open>Buses\<close>

text \<open>\<open>probe\<close> is what the bus answers at each address.\<close>

function i2c_scan :: "(u8 \<Rightarrow> bool) \<Rightarrow> string \<Rightarrow> u8 \<Rightarrow> bool \<Rightarrow> string" where
  "i2c_scan probe eol addr found =
     (if addr < 0x80 then
        (if probe addr then ''found '' @ fmt_ax 0 (ucast addr) @ eol @ i2c_scan probe eol (addr + 1) True
         else i2c_scan probe eol (addr + 1) found)
      else if \<not> found then ''no device found'' @ eol else [])"
  by pat_completeness auto
termination
proof (relation "measure (\<lambda>(_, _, addr :: u8, _). 0x80 - unat addr)", goal_cases)
  case 1
  then show ?case by simp
next
  case (2 probe eol addr found)
  then have "unat addr < 128" by (simp add: word_less_nat_alt)
  then show ?case by (simp add: unat_word_ariths)
next
  case (3 probe eol addr found)
  then have "unat addr < 128" by (simp add: word_less_nat_alt)
  then show ?case by (simp add: unat_word_ariths)
qed

declare i2c_scan.simps [simp del]

definition cmd_i2c :: "objects \<Rightarrow> args \<Rightarrow> ints \<Rightarrow> (u8 \<Rightarrow> bool) \<Rightarrow> string \<Rightarrow> string" where
  "cmd_i2c os ga pint probe eol =
     (if objects_get ''i2c'' os = None then ''no i2c device'' @ eol
      else
        case (if ga 0 = None then None else pint (ga 0)) of
          Some a \<Rightarrow> if probe (word_of_int a) then ''found '' @ fmt_ax 0 (word_of_int a) @ eol else ''no device found'' @ eol
        | None \<Rightarrow> i2c_scan probe eol 0 False)"

text \<open>The words as they stand in memory after \<^verbatim>\<open>htonl\<close>.\<close>

definition be_bytes :: "u32 \<Rightarrow> u8 list" where
  "be_bytes w = [ucast (drop_bit 24 w), ucast (drop_bit 16 w), ucast (drop_bit 8 w), ucast w]"

fun spi_words :: "args \<Rightarrow> ints \<Rightarrow> nat \<Rightarrow> nat \<Rightarrow> string \<Rightarrow> string + u32 list" where
  "spi_words ga plong i 0 eol = Inr []"
| "spi_words ga plong i (Suc n) eol =
     (case ga i of
        None \<Rightarrow> Inr []
      | Some a \<Rightarrow>
          (case plong (Some a) of
             None \<Rightarrow> Inl (''Error parsing value '' @ quoted a @ eol)
           | Some v \<Rightarrow>
               (case spi_words ga plong (i + 1) n eol of Inl e \<Rightarrow> Inl e | Inr ws \<Rightarrow> Inr (word_of_int v # ws))))"

definition cmd_spi :: "objects \<Rightarrow> args \<Rightarrow> ints \<Rightarrow> bool \<Rightarrow> (nat \<Rightarrow> bool) \<Rightarrow> string \<Rightarrow> spi \<Rightarrow> string \<times> spi" where
  "cmd_spi os ga plong has_cipo ins eol s =
     (if objects_get ''spi_dev'' os = None then (''no spi_dev device'' @ eol, s)
      else
        case spi_words ga plong 0 32 eol of
          Inl e \<Rightarrow> (e, s)
        | Inr ws \<Rightarrow>
            let (ok, s) = dev_write has_cipo ins (concat (map be_bytes ws)) s
            in (if \<not> ok then ''Error writing to SPI interface'' @ eol else [], s))"

subsection \<open>Logging\<close>

definition cmd_logging_error :: "string \<Rightarrow> string" where
  "cmd_logging_error eol =
     ''expected '' @ [CHR 0x27] @ ''<?'' @
     concat (map (\<lambda>(n, c). if c \<noteq> sev_code S_NONE then ''|'' @ n else []) Severity_lut) @ ''>'' @ [CHR 0x27] @ '' '' @ eol"

text \<open>The severity of a code, for the conversion to the enumeration.\<close>

definition sev_of :: "int \<Rightarrow> severity" where
  "sev_of c =
     (if c = 2 then S_CRITICAL else if c = 3 then S_ERROR else if c = 4 then S_WARNING else if c = 5 then S_NOTICE
      else if c = 6 then S_INFO else if c = 7 then S_DEBUG else S_NONE)"

definition cmd_logging :: "args \<Rightarrow> string \<Rightarrow> logging option \<Rightarrow> string \<times> logging option" where
  "cmd_logging ga eol l =
     (case l of
        None \<Rightarrow> ([], None)
      | Some lg \<Rightarrow>
          (case ga 0 of
             None \<Rightarrow> (cmd_logging_error eol, l)
           | Some a \<Rightarrow>
               if a = ''?'' then (''severity='' @ lut Severity_lut (sev_code (severity lg)) @ eol, l)
               else
                 let sv = rlut Severity_lut a
                 in if sv = 0 then (cmd_logging_error eol, l)
                    else (''set severity='' @ a @ eol, Some (snd (set_severity (sev_of sv) lg)))))"

subsection \<open>Registration\<close>

text \<open>
  The names \<^verbatim>\<open>add_cli_commands\<close> inserts, in order: those of the table, then those whose part is configured (\<open>cfg\<close>)
  and registered.
\<close>

definition cli_commands :: "bool \<Rightarrow> bool \<Rightarrow> string list" where
  "cli_commands freertos esp32 =
     [''reset'', ''help''] @ (if freertos then [''task''] else []) @ (if esp32 then [''mem''] else []) @
     [''gpio'', ''verbose'', ''banner'', ''db'', ''logging'', ''devices'']"

definition add_cli_commands :: "bool \<Rightarrow> bool \<Rightarrow> (string \<Rightarrow> bool) \<Rightarrow> objects \<Rightarrow> string list" where
  "add_cli_commands freertos esp32 cfg os =
     cli_commands freertos esp32 @
     (if cfg ''PO_PWM'' \<and> objects_get ''pwm'' os \<noteq> None then [''pwm''] else []) @
     (if objects_get ''uart'' os \<noteq> None then [''uart''] else []) @
     (if cfg ''PO_RTC'' \<and> objects_get ''rtc'' os \<noteq> None then [''rtc''] else []) @
     (if cfg ''PO_I2C'' \<and> objects_get ''i2c'' os \<noteq> None then [''i2c''] else []) @
     (if cfg ''PO_SPI'' \<and> objects_get ''spi_dev'' os \<noteq> None then [''spi''] else [])"


subsection \<open>Scanning a bus\<close>

lemma scan_from:
  "n \<le> 128 \<Longrightarrow>
   i2c_scan probe eol (of_nat n) found =
     concat (map (\<lambda>a. ''found '' @ fmt_ax 0 (ucast a) @ eol) (filter probe (map of_nat [n..<128]))) @
     (if found \<or> filter probe (map of_nat [n..<128]) \<noteq> [] then [] else ''no device found'' @ eol)"
proof (induction "128 - n" arbitrary: n found)
  case 0
  then have "n = 128" by simp
  then show ?case by (subst i2c_scan.simps) simp
next
  case (Suc k)
  then have n: "n < 128" "k = 128 - Suc n" by simp_all
  then have u: "[n..<128] = n # [Suc n..<128]" by (simp add: upt_conv_Cons)
  have lt: "(of_nat n :: u8) < 0x80" using n(1) by (simp add: word_less_nat_alt unat_of_nat)
  have "(of_nat n :: u8) + 1 = of_nat (Suc n)" by simp
  then have step: "i2c_scan probe eol (of_nat n) found =
      (if probe (of_nat n) then ''found '' @ fmt_ax 0 (ucast (of_nat n :: u8)) @ eol @ i2c_scan probe eol (of_nat (Suc n)) True
       else i2c_scan probe eol (of_nat (Suc n)) found)"
    by (simp only: i2c_scan.simps [of probe eol "of_nat n" found] lt if_True)
  have IH: "i2c_scan probe eol (of_nat (Suc n)) f =
     concat (map (\<lambda>a. ''found '' @ fmt_ax 0 (ucast a) @ eol) (filter probe (map of_nat [Suc n..<128]))) @
     (if f \<or> filter probe (map of_nat [Suc n..<128]) \<noteq> [] then [] else ''no device found'' @ eol)" for f
    using Suc.hyps(1) [OF n(2)] n(1) by simp
  show ?case
    by (cases "probe (of_nat n)")
      (simp_all only: step IH u list.map filter.simps list.simps concat.simps if_True if_False append_assoc simp_thms)
qed

text \<open>
  a scan of the bus finds what is there. The command without an address probes the 128 addresses once each, in order,
  ends, and prints a line for each that answers, in hexadecimal that reads back as the address; if there is none it says so.
\<close>

theorem i2c_scan_finds:
  assumes "objects_get ''i2c'' os \<noteq> None" "ga 0 = None"
  shows "cmd_i2c os ga pint probe eol =
      (let found = filter probe (map of_nat [0..<128])
       in if found = [] then ''no device found'' @ eol else concat (map (\<lambda>a. ''found '' @ fmt_ax 0 (ucast a) @ eol) found)) \<and>
    (\<forall>a. read_int (fmt_ax 0 (ucast a)) = unat (a :: u8))"
proof
  show "cmd_i2c os ga pint probe eol =
      (let found = filter probe (map of_nat [0..<128])
       in if found = [] then ''no device found'' @ eol else concat (map (\<lambda>a. ''found '' @ fmt_ax 0 (ucast a) @ eol) found))"
    using scan_from [of 0 probe eol False] assms
    by (auto simp: cmd_i2c_def Let_def simp del: upt_rec_numeral filter.simps)
  show "\<forall>a. read_int (fmt_ax 0 (ucast a)) = unat (a :: u8)"
  proof
    fix a :: u8
    have "uint (ucast a :: u32) = uint a" by (rule uint_up_ucast) (simp add: is_up)
    then show "read_int (fmt_ax 0 (ucast a)) = unat a" by (simp only: read_int_ax unat_eq_nat_uint)
  qed
qed

theorem i2c_scan_finds_witness:
  "cmd_i2c [(''i2c'', 1)] (\<lambda>_. None) (\<lambda>_. None) (\<lambda>a. a = 0x12 \<or> a = 0x35) [NL] =
     ''found '' @ fmt_ax 0 0x12 @ [NL] @ ''found '' @ fmt_ax 0 0x35 @ [NL] \<and> read_int (fmt_ax 0 (ucast (0x35 :: u8))) = 0x35"
proof -
  have f: "filter (\<lambda>a :: u8. a = 0x12 \<or> a = 0x35) (map of_nat [0..<128]) = [0x12, 0x35]" by code_simp
  have "objects_get ''i2c'' [(''i2c'', 1)] \<noteq> None" by (simp add: objects_get_def)
  from i2c_scan_finds [OF this, of "\<lambda>_. None" "\<lambda>_. None" "\<lambda>a. a = 0x12 \<or> a = 0x35" "[NL]"]
  show ?thesis unfolding f by (auto dest: spec [of _ "0x35 :: u8"])
qed

subsection \<open>Words on the wire\<close>

lemma be_bytes_bits: "concat (map msb_bits (be_bytes w)) = map (\<lambda>i. bit w (31 - i)) [0..<32]"
proof -
  have b: "msb_bits (ucast (drop_bit n w) :: u8) = map (\<lambda>i. bit w (n + 7 - i)) [0..<8]" for n
    by (auto simp: msb_bits_def bit_ucast_iff bit_drop_bit_eq intro!: map_cong)
  have "[0..<32] = [0..<8] @ map ((+) 8) [0..<8] @ map ((+) 16) [0..<8] @ map ((+) 24) [0..<8]"
    by code_simp
  then have "map (\<lambda>i. bit w (31 - i)) [0..<32] =
      map (\<lambda>i. bit w (24 + 7 - i)) [0..<8] @ map (\<lambda>i. bit w (16 + 7 - i)) [0..<8] @
      map (\<lambda>i. bit w (8 + 7 - i)) [0..<8] @ map (\<lambda>i. bit w (0 + 7 - i)) [0..<8]"
    by (simp add: o_def del: upt_rec_numeral)
  then show ?thesis using b [of 24] b [of 16] b [of 8] b [of 0] by (simp add: be_bytes_def del: upt_rec_numeral)
qed


lemma dev_write_sends:
  assumes "\<not> sel (spi_decode (spi_trace s))" "\<not> ck (spi_decode (spi_trace s))" "dev_write c ins xs s = (ok, s')"
  shows "frames (spi_decode (spi_trace s')) = frames (spi_decode (spi_trace s)) @ [concat (map msb_bits xs)] \<and>
    \<not> sel (spi_decode (spi_trace s')) \<and> \<not> ck (spi_decode (spi_trace s')) \<and> ok = (xs \<noteq> [])"
proof -
  let ?d = "(spi_decode (spi_trace s))\<lparr>sel := True, shifted := []\<rparr>"
  obtain v where v: "fold spi_decode_step (concat (map (\<lambda>b. [Copi b, Ck True, Ck False]) (concat (map msb_bits xs)))) ?d =
      ?d\<lparr>copi := v, ck := False, shifted := concat (map msb_bits xs)\<rparr>"
    using spi_decode_bits [of ?d "concat (map msb_bits xs)"] assms(2) by auto
  have "spi_trace s' = spi_trace s @ [Cs False] @
      concat (map (\<lambda>b. [Copi b, Ck True, Ck False]) (concat (map msb_bits xs))) @ [Copi False, Cs True]"
    using assms(3) by (auto simp: dev_write_def spi_write_def spi_bytes_result spi_set_def)
  then have "spi_decode (spi_trace s') =
      fold spi_decode_step [Copi False, Cs True] (?d\<lparr>copi := v, ck := False, shifted := concat (map msb_bits xs)\<rparr>)"
    using v assms(1) by (simp add: spi_decode_def)
  with assms show ?thesis by (auto simp: dev_write_def spi_write_def spi_bytes_result)
qed

lemma spi_words_list:
  "\<forall>a\<in>set xs. plong (Some a) \<noteq> None \<Longrightarrow> length xs \<le> n \<Longrightarrow> (\<And>j. ga (i + j) = typed xs j) \<Longrightarrow>
   spi_words ga plong i n eol = Inr (map (\<lambda>a. word_of_int (the (plong (Some a)))) xs)"
proof (induction xs arbitrary: i n)
  case Nil
  with Nil(3) [of 0] show ?case by (cases n) (simp_all add: typed_def)
next
  case (Cons x xs)
  then obtain m where m: "n = Suc m" "length xs \<le> m" by (cases n) auto
  have "ga (i + 1 + j) = typed xs j" for j using Cons.prems(3) [of "Suc j"] by (simp add: typed_def)
  with Cons m have "spi_words ga plong (i + 1) m eol = Inr (map (\<lambda>a. word_of_int (the (plong (Some a)))) xs)" by simp
  moreover have "ga i = Some x" using Cons.prems(3) [of 0] by (simp add: typed_def)
  moreover obtain v where "plong (Some x) = Some v" using Cons.prems(1) by auto
  ultimately show ?case by (simp add: m)
qed

text \<open>
  numbers typed go over the wire as typed. Up to 32 numbers given to the \<^verbatim>\<open>spi\<close> command reach the device as one frame, each
  as 32 bits from bit 31 down, under one chip select; nothing is printed unless there were none.
\<close>

theorem spi_words_on_the_wire:
  assumes "\<not> sel (spi_decode (spi_trace s))" "\<not> ck (spi_decode (spi_trace s))" "objects_get ''spi_dev'' os \<noteq> None"
    "length xs \<le> 32" "\<forall>a\<in>set xs. plong (Some a) \<noteq> None"
  shows "\<exists>s'. cmd_spi os (typed xs) plong c ins eol s = (if xs = [] then ''Error writing to SPI interface'' @ eol else [], s') \<and>
    frames (spi_decode (spi_trace s')) = frames (spi_decode (spi_trace s)) @
      [concat (map (\<lambda>a. map (\<lambda>i. bit (word_of_int (the (plong (Some a))) :: u32) (31 - i)) [0..<32]) xs)]"
proof -
  let ?ws = "map (\<lambda>a. word_of_int (the (plong (Some a)))) xs :: u32 list"
  have w: "spi_words (typed xs) plong 0 32 eol = Inr ?ws"
    using spi_words_list [OF assms(5,4), of "typed xs" 0] by simp
  obtain ok s' where d: "dev_write c ins (concat (map be_bytes ?ws)) s = (ok, s')" by fastforce
  have "concat (map msb_bits (concat (map be_bytes ws))) = concat (map (\<lambda>w. map (\<lambda>i. bit w (31 - i)) [0..<32]) ws)" for ws
    by (induction ws) (simp_all only: list.map concat.simps map_append concat_append be_bytes_bits)
  note b = this [of ?ws, unfolded map_map comp_def]
  have "(concat (map be_bytes ?ws) \<noteq> []) = (xs \<noteq> [])" by (cases xs) (simp_all add: be_bytes_def)
  with dev_write_sends [OF assms(1,2) d] have
    "frames (spi_decode (spi_trace s')) = frames (spi_decode (spi_trace s)) @
      [concat (map (\<lambda>a. map (\<lambda>i. bit (word_of_int (the (plong (Some a))) :: u32) (31 - i)) [0..<32]) xs)]"
    "ok = (xs \<noteq> [])"
    using b by (simp_all only: map_map comp_def)
  moreover have "cmd_spi os (typed xs) plong c ins eol s = (if \<not> ok then ''Error writing to SPI interface'' @ eol else [], s')"
    using assms(3) w d by (auto simp: cmd_spi_def)
  ultimately show ?thesis by auto
qed

theorem spi_words_on_the_wire_witness:
  "\<exists>s'. cmd_spi [(''spi_dev'', 3)] (typed [''5'']) (\<lambda>_. Some 5) False (\<lambda>_. False) [NL] \<lparr>spi_trace = [], spi_sampled = 0\<rparr> = ([], s') \<and>
     frames (spi_decode (spi_trace s')) = [map (\<lambda>i. bit (5 :: u32) (31 - i)) [0..<32]]"
proof -
  have "\<not> sel (spi_decode (spi_trace \<lparr>spi_trace = [], spi_sampled = 0\<rparr>))" "\<not> ck (spi_decode (spi_trace \<lparr>spi_trace = [], spi_sampled = 0\<rparr>))"
    "frames (spi_decode (spi_trace \<lparr>spi_trace = [], spi_sampled = 0\<rparr>)) = []"
    by (simp_all add: spi_decode_def spi_idle_def)
  with spi_words_on_the_wire [of "\<lparr>spi_trace = [], spi_sampled = 0\<rparr>" "[(''spi_dev'', 3)]" "[''5'']" "\<lambda>_. Some 5" False "\<lambda>_. False" "[NL]"]
  show ?thesis by (simp add: objects_get_def del: upt_rec_numeral)
qed

subsection \<open>The clock keeps what is typed\<close>

lemma rtc_args_list:
  "\<forall>a\<in>set xs. pint (Some a) \<noteq> None \<Longrightarrow> (\<And>j. ga (i + j) = typed xs j) \<Longrightarrow>
   rtc_args ga pint i (length xs) eol = Inr (map (\<lambda>a. the (pint (Some a))) xs)"
proof (induction xs arbitrary: i)
  case (Cons x xs)
  have "ga (i + 1 + j) = typed xs j" for j using Cons.prems(2) [of "Suc j"] by (simp add: typed_def)
  with Cons have "rtc_args ga pint (i + 1) (length xs) eol = Inr (map (\<lambda>a. the (pint (Some a))) xs)" by simp
  moreover have "ga i = Some x" using Cons.prems(2) [of 0] by (simp add: typed_def)
  moreover obtain v where "pint (Some x) = Some v" using Cons.prems(1) by auto
  ultimately show ?case by simp
qed simp

text \<open>
  the clock shows what it was set to. When the six numbers typed are a date and time of 2000 to 2099, \<^verbatim>\<open>rtc set\<close> says
  nothing and \<^verbatim>\<open>rtc get\<close> then prints exactly these numbers; when they are not valid, the registers stay as they were.
\<close>

theorem rtc_shows_what_was_set:
  assumes "objects_get ''rtc'' os \<noteq> None" "length xs = 6" "\<forall>a\<in>set xs. pint (Some a) \<noteq> None"
    "t = rtc_of (map (\<lambda>a. the (pint (Some a))) xs)"
  shows "if rtc_validate t then
      (\<exists>regs'. cmd_rtc_set os (typed xs) pint True eol regs = Inr ([], regs') \<and>
        cmd_rtc_get os True eol regs' = Inr (date_text_of t @ eol))
    else cmd_rtc_set os (typed xs) pint True eol regs = Inr (''Invalid date-time'' @ eol, regs)"
proof -
  have a: "rtc_args (typed xs) pint 0 6 eol = Inr (map (\<lambda>a. the (pint (Some a))) xs)"
    using rtc_args_list [OF assms(3), of "typed xs" 0] assms(2) by simp
  show ?thesis
    using assms(1) a ds3231_keeps_time [of t] by (auto simp: cmd_rtc_set_def cmd_rtc_get_def Let_def assms(4) [symmetric])
qed

text \<open>The numbers are narrowed before they are checked: month 257 is taken for January.\<close>

lemma rtc_set_narrows: "rtc_validate (rtc_of [2024, 257, 1, 0, 0, 0])"
  by (simp add: rtc_of_def rtc_validate_def days_in_month_def)


theorem rtc_shows_what_was_set_witness:
  "\<exists>regs'. cmd_rtc_set [(''rtc'', 2)] (typed [''2026'', ''6'', ''6'', ''6'', ''6'', ''6'']) (\<lambda>a. Some (if a = Some ''6'' then 6 else 2026)) True [NL] [] = Inr ([], regs') \<and>
     cmd_rtc_get [(''rtc'', 2)] True [NL] regs' =
       Inr (date_text_of \<lparr>year = 2026, month = 6, day = 6, hour = 6, minute = 6, second = 6\<rparr> @ [NL])"
proof -
  let ?pint = "\<lambda>a. Some (if a = Some ''6'' then 6 else 2026 :: int)" and ?xs = "[''2026'', ''6'', ''6'', ''6'', ''6'', ''6'']"
  have t: "\<lparr>year = 2026, month = 6, day = 6, hour = 6, minute = 6, second = 6\<rparr> = rtc_of (map (\<lambda>a. the (?pint (Some a))) ?xs)"
    by (simp add: rtc_of_def)
  have v: "rtc_validate \<lparr>year = 2026, month = 6, day = 6, hour = 6, minute = 6, second = 6\<rparr>" by code_simp
  show ?thesis
    using rtc_shows_what_was_set [OF _ _ _ t, of "[(''rtc'', 2)]" "[NL]" "[]"] v by (simp add: objects_get_def)
qed

subsection \<open>Switches and severities\<close>

lemma verbose_set_all:
  "distinct (map vb_name vs) \<Longrightarrow>
   snd (verbose_set eol n b vs) = map (\<lambda>v. if vb_name v = n then v\<lparr>vb_on := b\<rparr> else v) vs"
proof (induction vs)
  case (Cons v vs)
  then have "vb_name v = n \<Longrightarrow> map (\<lambda>v. if vb_name v = n then v\<lparr>vb_on := b\<rparr> else v) vs = vs"
    by (intro map_idI) (auto simp: image_iff)
  with Cons show ?case by (auto simp: split_beta)
qed simp

text \<open>
  a switch is set alone. With switches of different names, \<^verbatim>\<open>verbose\<close> with a name and a number sets that switch to
  whether the number is not 0 and no other, and \<^verbatim>\<open>verbose list\<close> prints one line for each with its name and state.
\<close>

theorem verbose_sets_one:
  assumes "distinct (map vb_name vs)" "ga 0 = Some n" "n \<noteq> ''list''" "pint (ga 1) = Some i" "ga' 0 = Some ''list''"
  shows "\<exists>x vs'. cmd_verbose ga pint eol vs = Inr (x, vs') \<and>
    vs' = map (\<lambda>v. if vb_name v = n then v\<lparr>vb_on := (i \<noteq> 0)\<rparr> else v) vs \<and>
    cmd_verbose ga' pint eol vs' =
      Inr (concat (map (\<lambda>v. vb_name v @ '' '' @ (if (if vb_name v = n then i \<noteq> 0 else vb_on v) then fmt_d 1 else fmt_d 0) @ eol) vs), vs')"
proof -
  obtain x vs' where v: "verbose_set eol n (i \<noteq> 0) vs = (x, vs')" by fastforce
  have "vs' = map (\<lambda>v. if vb_name v = n then v\<lparr>vb_on := (i \<noteq> 0)\<rparr> else v) vs"
    using verbose_set_all [OF assms(1), of eol n "i \<noteq> 0"] v by simp
  moreover have "cmd_verbose ga pint eol vs = Inr (x, vs')"
    using assms(2-4) v by (auto simp: cmd_verbose_def fmt_s_def)
  ultimately show ?thesis
    using assms(5) by (auto simp: cmd_verbose_def verbose_line_def o_def intro!: arg_cong [of _ _ concat] map_cong)
qed

theorem verbose_sets_one_witness:
  "\<exists>x vs'. cmd_verbose (typed [''mqtt'', ''1'']) (\<lambda>_. Some 1) [NL] [\<lparr>vb_name = ''io'', vb_on = False\<rparr>, \<lparr>vb_name = ''mqtt'', vb_on = False\<rparr>] = Inr (x, vs') \<and>
     vs' = [\<lparr>vb_name = ''io'', vb_on = False\<rparr>, \<lparr>vb_name = ''mqtt'', vb_on = True\<rparr>]"
proof -
  let ?vs = "[\<lparr>vb_name = ''io'', vb_on = False\<rparr>, \<lparr>vb_name = ''mqtt'', vb_on = False\<rparr>]"
  have "distinct (map vb_name ?vs)" "typed [''mqtt'', ''1''] 0 = Some ''mqtt''" "''mqtt'' \<noteq> ''list''"
    "(\<lambda>_. Some 1) (typed [''mqtt'', ''1''] 1) = Some (1 :: int)" "typed [''list''] 0 = Some ''list''"
    by (simp_all add: typed_def)
  from verbose_sets_one [where pint = "\<lambda>_. Some 1" and eol = "[NL]" and ga = "typed [''mqtt'', ''1'']" and ga' = "typed [''list'']", OF this] show ?thesis by auto
qed

lemma sev_of_code: "sev_of (sev_code s) = s"
  by (cases s) (simp_all add: sev_of_def)

text \<open>
  the severity typed is the one in force. \<^verbatim>\<open>logging\<close> with the name of a severity other than \<^verbatim>\<open>NONE\<close> sets it,
  \<^verbatim>\<open>logging ?\<close> then names it, a message of a lesser severity makes no output at all, and one at least as severe is
  treated as before by a logger that took everything.
\<close>

theorem logging_sets_severity:
  assumes "s \<noteq> S_NONE" "ga 0 = Some (lut Severity_lut (sev_code s))" "ga' 0 = Some ''?''"
  shows "\<exists>l'. cmd_logging ga eol (Some l) = (''set severity='' @ lut Severity_lut (sev_code s) @ eol, Some l') \<and>
    cmd_logging ga' eol (Some l') = (''severity='' @ lut Severity_lut (sev_code s) @ eol, Some l') \<and>
    (\<forall>irq sv x. log_msg irq sv x l' = (if sev_code sv > sev_code s then [] else log_msg irq sv x (l\<lparr>severity := S_DEBUG\<rparr>)))"
proof -
  have r: "rlut Severity_lut (lut Severity_lut (sev_code s)) = sev_code s" by (rule severity_names)
  have n: "lut Severity_lut (sev_code s) \<noteq> ''?''" "sev_code s \<noteq> 0"
    using assms(1) by (cases s; simp add: Severity_lut_def)+
  have d: "\<not> sev_code sv > sev_code S_DEBUG" for sv by (cases sv) simp_all
  have "cmd_logging ga eol (Some l) = (''set severity='' @ lut Severity_lut (sev_code s) @ eol, Some (l\<lparr>severity := s\<rparr>))"
    using assms(2) n by (simp add: cmd_logging_def r sev_of_code set_severity_def Let_def)
  moreover have "cmd_logging ga' eol (Some (l\<lparr>severity := s\<rparr>)) =
      (''severity='' @ lut Severity_lut (sev_code s) @ eol, Some (l\<lparr>severity := s\<rparr>))"
    using assms(3) by (simp add: cmd_logging_def)
  moreover have "log_msg irq sv x (l\<lparr>severity := s\<rparr>) =
      (if sev_code sv > sev_code s then [] else log_msg irq sv x (l\<lparr>severity := S_DEBUG\<rparr>))" for irq sv x
    using d [of sv] by (simp add: log_msg_def)
  ultimately show ?thesis by blast
qed

theorem logging_sets_severity_witness:
  "\<exists>l'. cmd_logging (typed [''ERROR'']) [NL] (Some (log_new S_DEBUG None)) = (''set severity=ERROR'' @ [NL], Some l') \<and>
     log_msg False S_INFO (\<lambda>_. ''x'') l' = []"
proof -
  have e: "lut Severity_lut (sev_code S_ERROR) = ''ERROR''" by (simp add: Severity_lut_def)
  have "typed [''ERROR''] 0 = Some (lut Severity_lut (sev_code S_ERROR))" "typed [''?''] 0 = Some ''?''"
    by (simp_all add: typed_def e del: sev_code.simps)
  from logging_sets_severity [where ga = "typed [''ERROR'']" and ga' = "typed [''?'']" and eol = "[NL]" and l = "log_new S_DEBUG None", OF _ this] obtain l' where
    l: "cmd_logging (typed [''ERROR'']) [NL] (Some (log_new S_DEBUG None)) = (''set severity='' @ ''ERROR'' @ [NL], Some l')"
      "log_msg False S_INFO (\<lambda>_. ''x'') l' = (if sev_code S_INFO > sev_code S_ERROR then [] else log_msg False S_INFO (\<lambda>_. ''x'') ((log_new S_DEBUG None)\<lparr>severity := S_DEBUG\<rparr>))"
    unfolding e by blast
  then show ?thesis by simp
qed


subsection \<open>Pins\<close>

text \<open>How often a pin is named before the first name that is not a pin.\<close>

definition named_pins :: "objects \<Rightarrow> string list \<Rightarrow> nat list" where
  "named_pins os xs = map (\<lambda>n. the (objects_get n os)) (takeWhile (\<lambda>n. objects_get n os \<noteq> None) xs)"

lemma flash_round_ends:
  "(\<And>j. ga (i + j) = typed xs j) \<Longrightarrow>
   flash_round ga os i lv = Some (\<lambda>p. lv p \<noteq> odd (count_list (named_pins os xs) p))"
proof (induction xs arbitrary: i lv)
  case Nil
  from Nil [of 0] show ?case by (simp add: flash_round.simps typed_def named_pins_def)
next
  case (Cons x xs)
  have x: "ga i = Some x" using Cons.prems [of 0] by (simp add: typed_def)
  have "ga (i + 1 + j) = typed xs j" for j using Cons.prems [of "Suc j"] by (simp add: typed_def)
  note IH = Cons.IH [OF this]
  show ?case
  proof (cases "objects_get x os")
    case None
    with x show ?thesis by (simp add: flash_round.simps [of ga os i] named_pins_def)
  next
    case (Some p)
    with x IH [of "lv(p := \<not> lv p)"] have
      "flash_round ga os i lv = Some (\<lambda>q. (lv(p := \<not> lv p)) q \<noteq> odd (count_list (named_pins os xs) q))"
      by (subst flash_round.simps) (simp only: x Some option.case)
    also have "(\<lambda>q. (lv(p := \<not> lv p)) q \<noteq> odd (count_list (named_pins os xs) q)) =
        (\<lambda>q. lv q \<noteq> odd (count_list (named_pins os (x # xs)) q))"
      using Some by (auto simp: named_pins_def)
    finally show ?thesis .
  qed
qed

lemma flash_loop_ends:
  assumes "\<And>j. ga (i + j) = typed xs j"
  shows "flash_loop ga os i (\<lambda>_ lv. lv) k lv = Some (\<lambda>p. lv p \<noteq> odd (k * count_list (named_pins os xs) p))"
proof (induction k arbitrary: lv)
  case (Suc k)
  then show ?case by (simp add: flash_round_ends [OF assms] fun_eq_iff) blast
qed simp

text \<open>
  \<^verbatim>\<open>gpio\<close> commands act on the pin named. Setting a pin and asking for it prints what was set; toggling flips it
  and nothing else; flashing with a rate ends once it is told to, and leaves each of the pins named flipped exactly
  when the rounds times the times it is named are odd.
\<close>

theorem gpio_acts_on_named_pins:
  assumes "objects_get n os = Some p" "n \<notin> {''toggle'', ''show'', ''flash''}" "pint (Some v) = Some i" "v \<noteq> ''?''" "pint (Some r) = Some d"
  shows "cmd_gpio (typed [n, v]) pint os eol env k lv = Some ([], lv(p := i \<noteq> 0))"
    "cmd_gpio (typed [n, ''?'']) pint os eol env k lv = Some (fmt_d (if lv p then 1 else 0) @ eol, lv)"
    "cmd_gpio (typed [''toggle'', n]) pint os eol env k lv = Some ([], lv(p := \<not> lv p))"
    "cmd_gpio (typed (''flash'' # r # xs)) pint os eol (\<lambda>_ lv. lv) k lv =
       Some (''flash rate='' @ fmt_d d @ '' ms'' @ eol, \<lambda>q. lv q \<noteq> odd (k * count_list (named_pins os xs) q))"
proof -
  show "cmd_gpio (typed [n, v]) pint os eol env k lv = Some ([], lv(p := i \<noteq> 0))"
    "cmd_gpio (typed [n, ''?'']) pint os eol env k lv = Some (fmt_d (if lv p then 1 else 0) @ eol, lv)"
    "cmd_gpio (typed [''toggle'', n]) pint os eol env k lv = Some ([], lv(p := \<not> lv p))"
    using assms by (simp_all add: cmd_gpio_def gpio_on_def typed_def level_text_def)
  have "typed (''flash'' # r # xs) (Suc (Suc 0) + j) = typed xs j" for j by (simp add: typed_def)
  note loop = flash_loop_ends [of "typed (''flash'' # r # xs)", OF this]
  have t: "typed (''flash'' # r # xs) 0 = Some ''flash''" "typed (''flash'' # r # xs) (Suc 0) = Some r" by (simp_all add: typed_def)
  show "cmd_gpio (typed (''flash'' # r # xs)) pint os eol (\<lambda>_ lv. lv) k lv =
       Some (''flash rate='' @ fmt_d d @ '' ms'' @ eol, \<lambda>q. lv q \<noteq> odd (k * count_list (named_pins os xs) q))"
    using assms(5) by (simp add: cmd_gpio_def gpio_flash_def t loop)
qed

theorem gpio_acts_on_named_pins_witness:
  "cmd_gpio (typed [''led'', ''1'']) (\<lambda>_. Some 1) [(''led'', 7)] [NL] (\<lambda>_ lv. lv) 0 (\<lambda>_. False) = Some ([], (\<lambda>_. False)(7 := True)) \<and>
   (\<exists>x. cmd_gpio (typed [''flash'', ''10'', ''led'']) (\<lambda>_. Some 1) [(''led'', 7)] [NL] (\<lambda>_ lv. lv) 3 (\<lambda>_. False) = Some (x, \<lambda>q. q = 7))"
proof -
  have g: "objects_get ''led'' [(''led'', 7)] = Some 7" by (simp add: objects_get_def)
  note t = gpio_acts_on_named_pins [where n = "''led''" and os = "[(''led'', 7)]" and p = 7 and pint = "\<lambda>_. Some 1" and v = "''1''"
      and i = 1 and r = "''10''" and d = 1 and eol = "[NL]"]
  have "(\<lambda>q. False \<noteq> odd (3 * count_list (named_pins [(''led'', 7)] [''led'']) q)) = (\<lambda>q. q = 7)"
    by (auto simp: named_pins_def g)
  then show ?thesis using t(1) [where env = "\<lambda>_ lv. lv" and k = 0 and lv = "\<lambda>_. False"] t(4) [where xs = "[''led'']" and k = 3 and lv = "\<lambda>_. False"] g by simp
qed


end
