(* ===== verification/HeapTools.thy ===== *)
theory HeapTools
  imports Settings Threads "HOL-Library.Multiset"
begin

text \<open>
  The memory and task commands of the shell on FreeRTOS and the ESP32 (app/cli_cmd.cpp): snapshots of the heap, their
  difference, and the table of tasks.

  The walk over the heap is a call of the ESP-IDF. What it visits is a parameter, a list of blocks; it is called twice for
  a snapshot, and may see different heaps (\<open>h1\<close> to count, \<open>h2\<close> to save).
\<close>

subsection \<open>Snapshots\<close>

record block =
  b_ptr :: nat
  b_size :: nat
  b_used :: bool

definition no_block :: block where
  "no_block = \<lparr>b_ptr = 0, b_size = 0, b_used = False\<rparr>"

text \<open>The arrays are there or null; \<open>h_idx\<close> counts what was saved.\<close>

record heap_state =
  h_idx :: nat
  h_size :: nat
  h_snap :: "block list option"
  h_other_size :: nat
  h_other :: "block list option"

datatype heap_fn = FN_COUNT | FN_SAVE

text \<open>\<^verbatim>\<open>heap_visit\<close>: a block is counted, or stored while there is room.\<close>

definition heap_visit :: "heap_fn \<Rightarrow> block \<Rightarrow> heap_state \<Rightarrow> heap_state result" where
  "heap_visit fn b h =
     (case fn of
        FN_COUNT \<Rightarrow> Inr (h\<lparr>h_idx := h_idx h + 1\<rparr>)
      | FN_SAVE \<Rightarrow>
          if h_size h \<le> h_idx h then Inr h
          else
            case h_snap h of
              None \<Rightarrow> Inl NullDeref
            | Some a \<Rightarrow>
                if length a \<le> h_idx h then Inl OutOfBounds
                else Inr (h\<lparr>h_snap := Some (a[h_idx h := b]), h_idx := h_idx h + 1\<rparr>))"

fun heap_walk :: "heap_fn \<Rightarrow> block list \<Rightarrow> heap_state \<Rightarrow> heap_state result" where
  "heap_walk fn [] h = Inr h"
| "heap_walk fn (b # bs) h = rbind (heap_visit fn b h) (heap_walk fn bs)"

definition heap_snapshot :: "block list \<Rightarrow> block list \<Rightarrow> heap_state \<Rightarrow> heap_state result" where
  "heap_snapshot h1 h2 h =
     rbind (heap_walk FN_COUNT h1 (h\<lparr>h_snap := None, h_idx := 0\<rparr>)) (\<lambda>h.
       let blocks = h_idx h + 8
       in heap_walk FN_SAVE h2 (h\<lparr>h_snap := Some (replicate blocks no_block), h_size := blocks, h_idx := 0\<rparr>))"

subsection \<open>Their difference\<close>

text \<open>
  \<^verbatim>\<open>HeapItem\<close> is the rest of an array from its pointer on and of its count; it is valid while it stands on a block.
  What is printed: a block that is new, one that is gone, one of another size.
\<close>

datatype diff = New block | Gone block | Resized block nat

definition item_valid :: "block list \<Rightarrow> bool" where
  "item_valid bs \<longleftrightarrow> bs \<noteq> [] \<and> b_ptr (hd bs) \<noteq> 0"

function cmp_heaps :: "block list \<Rightarrow> block list \<Rightarrow> diff list" where
  "cmp_heaps nw was =
     (if \<not> (item_valid nw \<and> item_valid was) then []
      else if \<not> b_used (hd nw) then cmp_heaps (tl nw) was
      else if \<not> b_used (hd was) then cmp_heaps nw (tl was)
      else if b_ptr (hd nw) = b_ptr (hd was) then
        (if b_size (hd nw) \<noteq> b_size (hd was) then [Resized (hd nw) (b_size (hd was))] else []) @
        cmp_heaps (tl nw) (tl was)
      else if b_ptr (hd nw) < b_ptr (hd was) then New (hd nw) # cmp_heaps (tl nw) was
      else Gone (hd was) # cmp_heaps nw (tl was))"
  by pat_completeness auto
termination
  by (relation "measure (\<lambda>(nw, was). length nw + length was)") (auto simp: item_valid_def neq_Nil_conv)

declare cmp_heaps.simps [simp del]

datatype heap_cmd = CMD_MARK | CMD_SHOW | CMD_DIFF | CMD_RELEASE

text \<open>What a command prints: lines of text, blocks, differences.\<close>

datatype heap_line = HText string | HBlock block | HDiff diff

text \<open>The loop of \<^verbatim>\<open>CMD_SHOW\<close> over the first \<open>n\<close> entries.\<close>

definition show_blocks :: "nat \<Rightarrow> block list \<Rightarrow> heap_line list result" where
  "show_blocks n a = (if length a < n then Inl OutOfBounds else Inr (map HBlock (take n a)))"

fun cmd_heap_walk :: "block list \<Rightarrow> block list \<Rightarrow> heap_cmd \<Rightarrow> heap_state \<Rightarrow> (heap_line list \<times> heap_state) result" where
  "cmd_heap_walk h1 h2 CMD_MARK h = rbind (heap_snapshot h1 h2 h) (\<lambda>h. Inr ([HText ''make snapshot''], h))"
| "cmd_heap_walk h1 h2 CMD_RELEASE h =
     Inr ([HText (if h_snap h \<noteq> None then ''heap state released'' else ''no heap state allocated'')], h\<lparr>h_snap := None\<rparr>)"
| "cmd_heap_walk h1 h2 CMD_SHOW h =
     (case h_snap h of
        None \<Rightarrow> Inr ([HText ''no snapshot''], h)
      | Some a \<Rightarrow> rbind (show_blocks (h_idx h) a) (\<lambda>ls. Inr (ls, h)))"
| "cmd_heap_walk h1 h2 CMD_DIFF h =
     (case h_snap h of
        None \<Rightarrow> Inr ([HText ''no snapshot''], h)
      | Some a \<Rightarrow>
          rbind (heap_snapshot h1 h2 (h\<lparr>h_other := Some a, h_other_size := h_size h, h_snap := None\<rparr>)) (\<lambda>h.
            case h_snap h of
              None \<Rightarrow> Inl NullDeref
            | Some b \<Rightarrow>
                Inr (HText ''make snapshot'' # map HDiff (cmp_heaps (take (h_size h) b) (take (h_other_size h) a)),
                  h\<lparr>h_snap := h_other h, h_size := h_other_size h\<rparr>)))"

text \<open>The command: \<open>walk\<close> is a mark and a show.\<close>

definition cmd_heap :: "string list \<Rightarrow> block list \<Rightarrow> block list \<Rightarrow> args \<Rightarrow> heap_state \<Rightarrow> (heap_line list \<times> heap_state) result" where
  "cmd_heap dump h1 h2 ga h =
     (case ga 0 of
        None \<Rightarrow> Inr (map HText dump, h)
      | Some a \<Rightarrow>
          if a = ''dump'' then Inr (map HText dump, h)
          else if a = ''walk'' then
            rbind (cmd_heap_walk h1 h2 CMD_MARK h) (\<lambda>(l1, h).
            rbind (cmd_heap_walk h1 h2 CMD_SHOW h) (\<lambda>(l2, h). Inr (l1 @ l2, h)))
          else if a = ''mark'' then cmd_heap_walk h1 h2 CMD_MARK h
          else if a = ''show'' then cmd_heap_walk h1 h2 CMD_SHOW h
          else if a = ''diff'' then cmd_heap_walk h1 h2 CMD_DIFF h
          else if a = ''release'' then cmd_heap_walk h1 h2 CMD_RELEASE h
          else Inr ([HText (''unknown option '' @ quoted a)], h))"

subsection \<open>A snapshot fits\<close>

lemma walk_count: "heap_walk FN_COUNT bs h = Inr (h\<lparr>h_idx := h_idx h + length bs\<rparr>)"
  by (induction bs arbitrary: h) (simp_all add: heap_visit_def)

lemma walk_save:
  "h_snap h = Some a \<Longrightarrow> length a = h_size h \<Longrightarrow> h_idx h \<le> length a \<Longrightarrow>
   heap_walk FN_SAVE bs h = Inr (h\<lparr>h_snap := Some (take (length a) (take (h_idx h) a @ bs) @ drop (h_idx h + length bs) a),
     h_idx := min (length a) (h_idx h + length bs)\<rparr>)"
proof (induction bs arbitrary: h a)
  case Nil
  then have "h\<lparr>h_snap := Some a, h_idx := h_idx h\<rparr> = h" by (cases h) simp
  with Nil show ?case by (simp add: min_def)
next
  case (Cons b bs)
  show ?case
  proof (cases "h_idx h = length a")
    case True
    then have v: "heap_visit FN_SAVE b h = Inr h" using Cons.prems by (simp add: heap_visit_def)
    from Cons.IH [OF Cons.prems] v True show ?thesis by simp
  next
    case False
    let ?a = "a[h_idx h := b]" and ?h = "h\<lparr>h_snap := Some (a[h_idx h := b]), h_idx := h_idx h + 1\<rparr>"
    have v: "heap_visit FN_SAVE b h = Inr ?h" using Cons.prems False by (simp add: heap_visit_def)
    have "take (h_idx h + 1) ?a = take (h_idx h) a @ [b]"
      using Cons.prems False by (simp add: take_update_nth)
    moreover have "drop (h_idx h + 1 + length bs) ?a = drop (h_idx h + 1 + length bs) a" by simp
    ultimately show ?thesis
      using v Cons.IH [of ?h ?a] Cons.prems False by (simp del: drop_update_cancel)
  qed
qed

lemma heap_snapshot_result:
  "heap_snapshot h1 h2 h =
     (let n = length h1 + 8
      in Inr (h\<lparr>h_idx := min n (length h2), h_size := n,
           h_snap := Some (take n h2 @ replicate (n - length h2) no_block)\<rparr>))"
  by (simp add: heap_snapshot_def walk_count walk_save Let_def)

subsection \<open>What the difference shows\<close>
















text \<open>What is saved of a heap \<open>h2\<close> when \<open>h1\<close> was counted before, in an array with room for eight blocks more.\<close>

definition saved :: "block list \<Rightarrow> block list \<Rightarrow> block list" where
  "saved h1 h2 = take (length h1 + 8) h2"



definition padded :: "block list \<Rightarrow> block list \<Rightarrow> block list" where
  "padded h1 h2 = saved h1 h2 @ replicate (length h1 + 8 - length h2) no_block"

lemma heap_snapshot_padded:
  "heap_snapshot h1 h2 h = Inr (h\<lparr>h_idx := length (saved h1 h2), h_size := length h1 + 8, h_snap := Some (padded h1 h2)\<rparr>)"
  by (simp add: heap_snapshot_result padded_def saved_def min_def Let_def)

lemma length_padded [simp]: "length (padded h1 h2) = length h1 + 8"
  by (simp add: padded_def saved_def)



definition blk :: "nat \<Rightarrow> nat \<Rightarrow> block" where
  "blk p n = \<lparr>b_ptr = p, b_size = n, b_used = True\<rparr>"


text \<open>
  after a difference, \<^verbatim>\<open>mem show\<close> goes wrong: the count of the second heap is left with the array of the first. It shows
  as many entries of the old snapshot as the new one had blocks, and reads past its end exactly when these are more than
  its array has room for.
\<close>

theorem heap_show_after_diff:
  assumes "cmd_heap_walk x1 x2 CMD_MARK h = Inr (l1, h1)" "cmd_heap_walk y1 y2 CMD_DIFF h1 = Inr (l2, h2)"
  shows "cmd_heap_walk z1 z2 CMD_SHOW h2 =
    (if length (saved y1 y2) > length x1 + 8 then Inl OutOfBounds
     else Inr (map HBlock (take (length (saved y1 y2)) (padded x1 x2)), h2))"
proof -
  have "h_snap h1 = Some (padded x1 x2)" "h_size h1 = length x1 + 8"
    using assms(1) by (auto simp: heap_snapshot_padded)
  then have "h_idx h2 = length (saved y1 y2)" "h_snap h2 = Some (padded x1 x2)"
    using assms(2) by (auto simp: heap_snapshot_padded)
  then show ?thesis by (simp add: show_blocks_def)
qed

theorem heap_show_after_diff_witness:
  "\<exists>h1 l1 l2 h2. cmd_heap_walk [] [] CMD_MARK \<lparr>h_idx = 0, h_size = 0, h_snap = None, h_other_size = 0, h_other = None\<rparr> = Inr (l1, h1) \<and>
     cmd_heap_walk (replicate 9 (blk 16 4)) (replicate 9 (blk 16 4)) CMD_DIFF h1 = Inr (l2, h2) \<and>
     cmd_heap_walk [] [] CMD_SHOW h2 = Inl OutOfBounds"
proof -
  let ?h = "\<lparr>h_idx = 0, h_size = 0, h_snap = None, h_other_size = 0, h_other = None\<rparr>"
  obtain l1 h1 where 1: "cmd_heap_walk [] [] CMD_MARK ?h = Inr (l1, h1)" by (simp add: heap_snapshot_result Let_def)
  moreover obtain l2 h2 where 2: "cmd_heap_walk (replicate 9 (blk 16 4)) (replicate 9 (blk 16 4)) CMD_DIFF h1 = Inr (l2, h2)"
    using 1 by (auto simp: heap_snapshot_result Let_def)
  moreover have "cmd_heap_walk [] [] CMD_SHOW h2 = Inl OutOfBounds"
    using heap_show_after_diff [OF 1 2, of "[]" "[]"] by (simp add: saved_def)
  ultimately show ?thesis by blast
qed


subsection \<open>Tables\<close>

text \<open>\<^verbatim>\<open>%-*s\<close> and \<^verbatim>\<open>%*s\<close>.\<close>

definition pad_after :: "nat \<Rightarrow> string \<Rightarrow> string" where
  "pad_after w x = x @ replicate (w - length x) (CHR '' '')"

definition pad_before :: "nat \<Rightarrow> string \<Rightarrow> string" where
  "pad_before w x = replicate (w - length x) (CHR '' '') @ x"

text \<open>\<^verbatim>\<open>_cmd_heap_dump\<close>: the seven figures of the two kinds of memory, in the order of their labels.\<close>

definition heap_labels :: "string list" where
  "heap_labels = [''total_allocated_bytes'', ''total_free_bytes'', ''largest_free_block'', ''minimum_free_bytes'', ''total_blocks'',
     ''allocated_blocks'', ''free_blocks'']"

definition heap_dump :: "nat list \<Rightarrow> nat list \<Rightarrow> string list" where
  "heap_dump internal spiram =
     (let len = foldl (\<lambda>m l. if m > length l then m else length l) 0 heap_labels
      in (pad_after len ''Value'' @ '' '' @ pad_after 8 ''Internal'' @ '' '' @ pad_after 8 ''SPI_RAM'') #
         map (\<lambda>(l, i, x). pad_after len l @ '' '' @ pad_after 8 (fmt_d (int i)) @ '' '' @ pad_after 8 (fmt_d (int x)))
           (zip heap_labels (zip internal spiram)))"

text \<open>
  Tasks: what FreeRTOS reports of each is a parameter, and so is the \<^verbatim>\<open>qsort_r\<close> of the C library. The numbers are unsigned,
  and their difference is what \<^verbatim>\<open>task_cmp\<close> returns as an \<^verbatim>\<open>int\<close>.
\<close>

record task =
  t_num :: u32
  task_name :: string
  task_state :: int
  t_hwm :: u32
  t_pri :: u32
  t_core :: "int option"

definition task_cmp :: "(string \<Rightarrow> string \<Rightarrow> int) \<Rightarrow> string option \<Rightarrow> task \<Rightarrow> task \<Rightarrow> int" where
  "task_cmp casecmp s a b =
     (case s of
        None \<Rightarrow> 0
      | Some s \<Rightarrow>
          if s = ''id'' then sint (t_num a - t_num b)
          else if s = ''pri'' then sint (t_pri a - t_pri b)
          else if s = ''hwm'' then sint (t_hwm a - t_hwm b)
          else if s = ''name'' then casecmp (task_name a) (task_name b)
          else 0)"

definition task_line :: "(string \<times> int) list \<Rightarrow> (nat \<Rightarrow> string) \<Rightarrow> threads \<Rightarrow> task \<Rightarrow> string" where
  "task_line states name_of ts t =
     pad_after 3 (fmt_d (uint (t_num t))) @ '' '' @ pad_after 20 (task_name t) @ '' '' @
     pad_after 10 (lut states (task_state t)) @ '' '' @ pad_after 10 (fmt_d (uint (t_hwm t))) @ '' '' @
     pad_after 5 (case t_core t of None \<Rightarrow> ''*'' | Some c \<Rightarrow> take 15 (fmt_d c)) @ '' '' @
     pad_after 5 (fmt_d (uint (t_pri t))) @ '' '' @
     pad_after 5 (if get_by_name name_of (task_name t) ts \<noteq> None then ''*'' else '' '') @ '' ''"

definition cmd_task :: "((task \<Rightarrow> task \<Rightarrow> int) \<Rightarrow> task list \<Rightarrow> task list) \<Rightarrow> (string \<Rightarrow> string \<Rightarrow> int) \<Rightarrow> (string \<times> int) list \<Rightarrow>
    (nat \<Rightarrow> string) \<Rightarrow> threads \<Rightarrow> args \<Rightarrow> task list \<Rightarrow> string list" where
  "cmd_task sorter casecmp states name_of ts ga tasks =
     (pad_before 3 ''#'' @ '' '' @ pad_after 20 ''Task'' @ '' '' @ pad_after 10 ''State'' @ '' '' @ pad_after 10 ''Stack_HWM'' @ '' '' @
      pad_after 5 ''Core'' @ '' '' @ pad_after 5 ''Pri.'' @ '' '' @ pad_after 5 ''POS'' @ '' '') #
     map (task_line states name_of ts) (sorter (task_cmp casecmp (ga 0)) tasks)"

lemma sint_diff_small:
  fixes x y :: u32
  assumes "uint x < 2 ^ 31" "uint y < 2 ^ 31"
  shows "sint (x - y) = uint x - uint y"
proof -
  have b: "0 \<le> uint x" "0 \<le> uint y" by simp_all
  have "x - y = word_of_int (uint x - uint y)" by simp
  then have "sint (x - y) = sint (word_of_int (uint x - uint y) :: u32)" by (simp only:)
  also have "\<dots> = signed_take_bit 31 (uint x - uint y)" by (simp only: sint_sbintrunc') simp
  also have "\<dots> = uint x - uint y"
    by (rule signed_take_bit_int_eq_self) (use b assms in linarith)+
  finally show ?thesis .
qed

text \<open>
  when sorting tasks is meaningful. For numbers below 2 to the 31 the comparison of \<^verbatim>\<open>task\<close> by id, priority or stack is the
  order of the numbers, a total order, so that what a sort by it returns is ordered; the lines printed are those of the
  tasks, one each.
\<close>

theorem task_table_sorted:
  assumes "\<forall>t\<in>set tasks. uint (t_num t) < 2 ^ 31" "ga 0 = Some ''id''"
    "\<And>cmp. (\<forall>a\<in>set tasks. \<forall>b\<in>set tasks. \<forall>c\<in>set tasks. (cmp a b \<le> 0 \<or> cmp b a \<le> 0) \<and> (cmp a b \<le> 0 \<and> cmp b c \<le> 0 \<longrightarrow> cmp a c \<le> 0)) \<Longrightarrow>
       sorted_wrt (\<lambda>a b. cmp a b \<le> 0) (sorter cmp tasks) \<and> mset (sorter cmp tasks) = mset tasks"
  shows "\<exists>ts'. mset ts' = mset tasks \<and> sorted (map t_num ts') \<and>
    tl (cmd_task sorter casecmp states name_of ts ga tasks) = map (task_line states name_of ts) ts'"
proof -
  let ?cmp = "task_cmp casecmp (ga 0)"
  have c: "?cmp a b \<le> 0 \<longleftrightarrow> t_num a \<le> t_num b" if "a \<in> set tasks" "b \<in> set tasks" for a b
    using that assms(1,2) by (simp add: task_cmp_def sint_diff_small word_le_def)
  have "\<forall>a\<in>set tasks. \<forall>b\<in>set tasks. \<forall>d\<in>set tasks. (?cmp a b \<le> 0 \<or> ?cmp b a \<le> 0) \<and> (?cmp a b \<le> 0 \<and> ?cmp b d \<le> 0 \<longrightarrow> ?cmp a d \<le> 0)"
    by (auto simp: c)
  from assms(3) [OF this] have s: "sorted_wrt (\<lambda>a b. ?cmp a b \<le> 0) (sorter ?cmp tasks)" "mset (sorter ?cmp tasks) = mset tasks" by auto
  have "set (sorter ?cmp tasks) = set tasks" using s(2) by (rule mset_eq_setD)
  then have "t_num a \<le> t_num b" if "a \<in> set (sorter ?cmp tasks)" "b \<in> set (sorter ?cmp tasks)" "?cmp a b \<le> 0" for a b
    using that c by simp
  then have "sorted_wrt (\<lambda>a b. t_num a \<le> t_num b) (sorter ?cmp tasks)"
    by (rule sorted_wrt_mono_rel [OF _ s(1)])
  then have "sorted (map t_num (sorter ?cmp tasks))" by (simp add: sorted_map)
  with s(2) show ?thesis by (auto simp: cmd_task_def)
qed

text \<open>Larger numbers are compared in a circle.\<close>

lemma task_cmp_circle:
  assumes "t_num a = 0" "t_num b = 0x60000000" "t_num c = 0xC0000000"
  shows "task_cmp f (Some ''id'') a b < 0 \<and> task_cmp f (Some ''id'') b c < 0 \<and> task_cmp f (Some ''id'') c a < 0"
  using assms by (simp add: task_cmp_def)


definition demo_task :: "u32 \<Rightarrow> task" where
  "demo_task n = \<lparr>t_num = n, task_name = ''t'', task_state = 0, t_hwm = 9, t_pri = 1, t_core = None\<rparr>"

theorem task_table_sorted_witness:
  "\<exists>ts'. mset ts' = mset [demo_task 2, demo_task 1] \<and> sorted (map t_num ts') \<and>
    tl (cmd_task (\<lambda>cmp ts. if cmp (ts ! 0) (ts ! 1) \<le> 0 then ts else [ts ! 1, ts ! 0]) (\<lambda>_ _. 0) [] (\<lambda>_. []) threads_init (typed [''id''])
      [demo_task 2, demo_task 1]) = map (task_line [] (\<lambda>_. []) threads_init) ts'"
proof (rule task_table_sorted)
  show "\<forall>t\<in>set [demo_task 2, demo_task 1]. uint (t_num t) < 2 ^ 31" by (simp add: demo_task_def)
  show "typed [''id''] 0 = Some ''id''" by (simp add: typed_def)
next
  fix cmp :: "task \<Rightarrow> task \<Rightarrow> int"
  let ?ts = "[demo_task 2, demo_task 1]"
  assume "\<forall>a\<in>set ?ts. \<forall>b\<in>set ?ts. \<forall>c\<in>set ?ts. (cmp a b \<le> 0 \<or> cmp b a \<le> 0) \<and> (cmp a b \<le> 0 \<and> cmp b c \<le> 0 \<longrightarrow> cmp a c \<le> 0)"
  then show "sorted_wrt (\<lambda>a b. cmp a b \<le> 0) (if cmp (?ts ! 0) (?ts ! 1) \<le> 0 then ?ts else [?ts ! 1, ?ts ! 0]) \<and>
    mset (if cmp (?ts ! 0) (?ts ! 1) \<le> 0 then ?ts else [?ts ! 1, ?ts ! 0]) = mset ?ts"
    by auto
qed


end
