(* ===== verification/ArmTimer.thy ===== *)
theory ArmTimer
  imports Prelude
begin

text \<open>
  The timers of the STM32 port (stm32/timer.cpp): the allocation of the hardware timers, the class \<^verbatim>\<open>Arm_Timer\<close>, the
  free-running clock behind \<^verbatim>\<open>timer_now\<close> and the one-shot timer that wakes the task that waits for events.

  The hardware library is not part of the repository: each call of it is an entry of a trace, and the status it
  returns is a parameter \<open>ok\<close> of the trace so far and the call. The macros that enable clocks, interrupts or DMA
  return nothing and are entries of the trace too. The hardware's counter is seen through its readings.
\<close>

subsection \<open>Calls of the hardware library\<close>

datatype timer_id =
  TIMER_1 | TIMER_2 | TIMER_3 | TIMER_4 | TIMER_5 | TIMER_6 | TIMER_7 | TIMER_8 | TIMER_9 | TIMER_10 | TIMER_11
| TIMER_12 | TIMER_13 | TIMER_14 | TIMER_15

datatype tim_chan = CHAN_NONE | CHAN_1 | CHAN_2 | CHAN_3 | CHAN_4

datatype tim_trigger = TRIG_NONE | TRIG_UPDATE | TRIG_1 | TRIG_2 | TRIG_3 | TRIG_4

datatype trgo = TRGO_RESET | TRGO_UPDATE | TRGO_OC1REF | TRGO_OC2REF | TRGO_OC3REF | TRGO_OC4REF

datatype dma_request = DMA_UPDATE | DMA_CC1 | DMA_CC2 | DMA_CC3 | DMA_CC4

text \<open>The first argument is the number of the hardware timer, the \<^verbatim>\<open>Instance\<close> of the handle.\<close>

datatype tim_call =
  CLK_ENABLE nat
| NVIC_Enable nat
| OnePulse_MspInit nat
| ConfigClockSource nat
| OnePulse_Init nat
| MasterConfig nat trgo bool
| Base_Init nat u32 u32
| PWM_Init nat u32 u32
| Base_Start nat
| Base_Start_IT nat
| Base_Stop nat
| Base_Stop_IT nat
| Set_Autoreload nat u32
| Set_Counter nat u32
| Enable_DMA nat dma_request
| OC_Start nat nat
| PWM_ConfigChannel nat nat u32
| PWM_Start nat nat
| GenerateEvent nat

fun call_tim :: "tim_call \<Rightarrow> nat" where
  "call_tim (CLK_ENABLE n) = n" | "call_tim (NVIC_Enable n) = n" | "call_tim (OnePulse_MspInit n) = n"
| "call_tim (ConfigClockSource n) = n" | "call_tim (OnePulse_Init n) = n" | "call_tim (MasterConfig n _ _) = n"
| "call_tim (Base_Init n _ _) = n" | "call_tim (PWM_Init n _ _) = n" | "call_tim (Base_Start n) = n"
| "call_tim (Base_Start_IT n) = n" | "call_tim (Base_Stop n) = n" | "call_tim (Base_Stop_IT n) = n"
| "call_tim (Set_Autoreload n _) = n" | "call_tim (Set_Counter n _) = n" | "call_tim (Enable_DMA n _) = n"
| "call_tim (OC_Start n _) = n" | "call_tim (PWM_ConfigChannel n _ _) = n" | "call_tim (PWM_Start n _) = n"
| "call_tim (GenerateEvent n) = n"

type_synonym tim_trace = "tim_call list"

type_synonym tim_ok = "tim_trace \<Rightarrow> tim_call \<Rightarrow> bool"

text \<open>A call with \<^verbatim>\<open>ASSERT(status == HAL_OK)\<close> behind it, and one whose status nobody looks at.\<close>

definition hal :: "tim_ok \<Rightarrow> tim_call \<Rightarrow> tim_trace \<Rightarrow> tim_trace result" where
  "hal ok c tr = (if ok tr c then Inr (tr @ [c]) else Inl AssertFailed)"

fun hals :: "tim_ok \<Rightarrow> tim_call list \<Rightarrow> tim_trace \<Rightarrow> tim_trace result" where
  "hals ok [] tr = Inr tr"
| "hals ok (c # cs) tr = rbind (hal ok c tr) (hals ok cs)"

lemma hals_trace: "hals ok cs tr = Inr tr' \<Longrightarrow> tr' = tr @ cs"
  by (induction cs arbitrary: tr) (fastforce simp: hal_def rbind_Inr_conv split: if_splits)+

subsection \<open>Allocation\<close>

record tim_state =
  allocated :: "bool list"
  hal_trace :: tim_trace

definition tim_reset :: tim_state where
  "tim_reset = \<lparr>allocated = replicate 20 False, hal_trace = []\<rparr>"

primrec timer_index :: "timer_id \<Rightarrow> nat" where
  "timer_index TIMER_1 = 0" | "timer_index TIMER_2 = 1" | "timer_index TIMER_3 = 2" | "timer_index TIMER_4 = 3"
| "timer_index TIMER_5 = 4" | "timer_index TIMER_6 = 5" | "timer_index TIMER_7 = 6" | "timer_index TIMER_8 = 7"
| "timer_index TIMER_9 = 8" | "timer_index TIMER_10 = 9" | "timer_index TIMER_11 = 10" | "timer_index TIMER_12 = 11"
| "timer_index TIMER_13 = 12" | "timer_index TIMER_14 = 13" | "timer_index TIMER_15 = 14"

definition timer_alloc :: "timer_id \<Rightarrow> tim_state \<Rightarrow> tim_state result" where
  "timer_alloc i s =
     (if length (allocated s) \<le> timer_index i then Inl AssertFailed
      else if allocated s ! timer_index i then Inl AssertFailed
      else Inr (s\<lparr>allocated := (allocated s)[timer_index i := True]\<rparr>))"

definition on_trace :: "(tim_trace \<Rightarrow> tim_trace result) \<Rightarrow> tim_state \<Rightarrow> tim_state result" where
  "on_trace f s = rbind (f (hal_trace s)) (\<lambda>tr. Inr (s\<lparr>hal_trace := tr\<rparr>))"

definition quiet :: "tim_call list \<Rightarrow> tim_state \<Rightarrow> tim_state result" where
  "quiet cs s = Inr (s\<lparr>hal_trace := hal_trace s @ cs\<rparr>)"

subsection \<open>The clock and the wake-up timer\<close>

datatype family = F4 | F1

text \<open>\<^verbatim>\<open>TIM_CLOCK\<close> and \<^verbatim>\<open>TIM_TIMER\<close>.\<close>

fun tim_clock :: "family \<Rightarrow> nat" where "tim_clock F4 = 2" | "tim_clock F1 = 4"
fun tim_timer :: "family \<Rightarrow> nat" where "tim_timer F4 = 5" | "tim_timer F1 = 2"

fun Init_Clock :: "family \<Rightarrow> tim_state \<Rightarrow> tim_state result" where
  "Init_Clock F4 s = rbind (timer_alloc TIMER_2 s) (quiet [CLK_ENABLE 2])"
| "Init_Clock F1 s = rbind (timer_alloc TIMER_4 s) (quiet [CLK_ENABLE 4, NVIC_Enable 4, Base_Start_IT (tim_clock F1)])"


definition prescaler :: u32 where "prescaler = 800"


definition hw_clock_init :: "family \<Rightarrow> tim_ok \<Rightarrow> tim_state \<Rightarrow> tim_state result" where
  "hw_clock_init fam ok s =
     rbind (Init_Clock fam s)
       (on_trace (hals ok [Base_Init (tim_clock fam) prescaler 0xFFFFFFFF, Base_Start (tim_clock fam)]))"



subsection \<open>The class\<close>













subsection \<open>Waiting for events\<close>

text \<open>
  The state of the wake-up: \<^verbatim>\<open>last_dt\<close> of the source, and of the world the time in ticks, the time the timer will
  interrupt, and the notifications of the waiting task. \<open>period\<close> is the number of ticks from a counter of 0 to
  the interrupt, as a function of the auto-reload register.
\<close>

record wake =
  last_dt :: u32
  clock_at :: nat
  due :: "nat option"
  notified :: nat
  wake_trace :: tim_trace

definition timer_clip :: "family \<Rightarrow> u32 \<Rightarrow> u32" where
  "timer_clip fam dt = (if fam = F1 \<and> sint dt > 0xFFFF then 0xFFFF else dt)"

definition timer_set :: "family \<Rightarrow> tim_ok \<Rightarrow> (u32 \<Rightarrow> nat) \<Rightarrow> u32 \<Rightarrow> wake \<Rightarrow> wake result" where
  "timer_set fam ok period dt0 w =
     (let dt = timer_clip fam dt0; n = tim_timer fam in
      if last_dt w \<noteq> 0 \<and> sint (last_dt w) < sint dt then Inr w
      else rbind (hals ok [Base_Stop n, Base_Stop_IT n] (wake_trace w)) (\<lambda>tr.
           rbind (hal ok (Base_Start_IT n) (tr @ [Set_Autoreload n dt, Set_Counter n 0])) (\<lambda>tr.
             Inr (w\<lparr>last_dt := dt, due := Some (clock_at w + period dt), wake_trace := tr\<rparr>))))"

definition timer_irq :: "bool \<Rightarrow> wake \<Rightarrow> wake" where
  "timer_irq has_task w = w\<lparr>last_dt := 0, due := None, notified := notified w + (if has_task then 1 else 0)\<rparr>"

text \<open>\<^verbatim>\<open>ulTaskNotifyTake(pdTRUE, \<dots>)\<close> waits for a notification and takes all there are.\<close>

definition notify_take :: "wake \<Rightarrow> wake option" where
  "notify_take w = (if notified w = 0 then None else Some (w\<lparr>notified := 0\<rparr>))"

definition timer_wait :: "family \<Rightarrow> tim_ok \<Rightarrow> (u32 \<Rightarrow> nat) \<Rightarrow> u32 \<Rightarrow> wake \<Rightarrow> (bool \<times> wake) result" where
  "timer_wait fam ok period dt w =
     (if dt = 0 then Inr (False, w) else rbind (timer_set fam ok period dt w) (\<lambda>w. Inr (True, w)))"

subsection \<open>The time\<close>

text \<open>
  On the F4 the counter has 32 bits. On the F1 it has 16, and an interrupt counts its overflows: \<open>o1\<close> and \<open>o2\<close> are
  the readings of \<^verbatim>\<open>clock_overflow\<close> and \<open>t1\<close> and \<open>t2\<close> those of the counter, in the order \<open>o1\<close>, \<open>t1\<close>, \<open>o2\<close>, \<open>t2\<close>.
\<close>

definition timer_now_f4 :: "u32 \<Rightarrow> u32" where
  "timer_now_f4 counter = counter"

definition timer_now_f1 :: "u16 \<Rightarrow> u32 \<Rightarrow> u16 \<Rightarrow> u32 \<Rightarrow> u32" where
  "timer_now_f1 o1 t1 o2 t2 =
     (if o1 = o2 then t1 + push_bit 16 (ucast o1) else t2 + push_bit 16 (ucast o2))"

definition clock_irq :: "u16 \<Rightarrow> u16" where
  "clock_irq o1 = o1 + 1"

text \<open>The counter at a time, and the overflows counted at a time when \<open>late\<close> of the interrupts are still pending.\<close>

definition f1_counter :: "nat \<Rightarrow> u32" where
  "f1_counter t = of_nat (t mod 65536)"

definition f1_overflow :: "nat \<Rightarrow> nat \<Rightarrow> u16" where
  "f1_overflow late t = (clock_irq ^^ (t div 65536 - late)) 0"

lemma clock_irq_pow: "(clock_irq ^^ n) 0 = of_nat n"
  by (induction n) (auto simp: clock_irq_def)

lemma push_ucast_of_nat: "push_bit 16 (ucast (of_nat q :: u16) :: u32) = of_nat (65536 * q)"
proof -
  have "(ucast (of_nat q :: u16) :: u32) = of_nat (take_bit 16 q)"
    by (simp add: unsigned_of_nat)
  moreover have "push_bit 16 (of_nat (take_bit 16 q) :: u32) = of_nat (push_bit 16 (take_bit 16 q))"
    by (simp only: push_bit_of_nat)
  moreover have "take_bit 32 (push_bit 16 (take_bit 16 q)) = take_bit 32 (push_bit 16 q)"
    by (simp add: take_bit_push_bit)
  then have "(of_nat (push_bit 16 (take_bit 16 q)) :: u32) = of_nat (push_bit 16 q)"
    by (simp add: word_of_nat_eq_iff)
  ultimately show ?thesis by (simp add: push_bit_eq_mult mult.commute)
qed

lemma f1_join:
  "f1_counter t + push_bit 16 (ucast (f1_overflow late t')) = of_nat (t mod 65536 + 65536 * (t' div 65536 - late))"
  unfolding f1_counter_def f1_overflow_def clock_irq_pow push_ucast_of_nat of_nat_add ..

text \<open>
  on the F1 the time read is the true time, modulo 32 bits, of one of the two moments the counter was read, as
  long as overflows are counted at once and the whole reading takes less than one round of the counter.
\<close>

theorem timer_now_reads_one_moment:
  assumes "a \<le> b" "b \<le> c" "c \<le> d" "d < a + 65536"
  shows "\<exists>t \<in> {b, d}. timer_now_f1 (f1_overflow 0 a) (f1_counter b) (f1_overflow 0 c) (f1_counter d) = of_nat t"
proof (cases "a div 65536 = c div 65536")
  case True
  moreover have "a div 65536 \<le> b div 65536" "b div 65536 \<le> c div 65536" using assms by (auto intro: div_le_mono)
  ultimately have "b div 65536 = c div 65536" by simp
  moreover have "f1_overflow 0 a = f1_overflow 0 c" using True by (simp add: f1_overflow_def)
  ultimately have "timer_now_f1 (f1_overflow 0 a) (f1_counter b) (f1_overflow 0 c) (f1_counter d)
      = of_nat (b mod 65536 + 65536 * (b div 65536 - 0))"
    by (simp only: timer_now_f1_def f1_join refl if_True)
  then show ?thesis by simp
next
  case False
  have le: "a div 65536 \<le> c div 65536" "c div 65536 \<le> d div 65536"
    using assms by (auto intro: div_le_mono)
  have "d div 65536 \<le> (a + 65536) div 65536" using assms(4) by (intro div_le_mono) simp
  moreover have "(a + 65536) div 65536 = a div 65536 + 1" by (rule div_add_self2) simp
  ultimately have q: "c div 65536 = a div 65536 + 1" "d div 65536 = c div 65536" using False le by simp_all
  have "f1_overflow 0 a \<noteq> f1_overflow 0 c"
    by (simp add: f1_overflow_def clock_irq_pow q(1) clock_irq_def)
  then have "timer_now_f1 (f1_overflow 0 a) (f1_counter b) (f1_overflow 0 c) (f1_counter d)
      = of_nat (d mod 65536 + 65536 * (d div 65536 - 0))"
    by (simp only: timer_now_f1_def f1_join if_False q(2))
  then show ?thesis by simp
qed

theorem timer_now_reads_one_moment_witness:
  "\<exists>t \<in> {65535 :: nat, 65540}. timer_now_f1 (f1_overflow 0 65534) (f1_counter 65535) (f1_overflow 0 65537)
     (f1_counter 65540) = of_nat t"
  by (rule timer_now_reads_one_moment) simp_all

text \<open>
  An interrupt that is still pending, because the reader runs at the same priority or with interrupts off, makes the
  time go back by a whole round of the counter.
\<close>

lemma timer_now_goes_back:
  assumes "0 < q"
  shows "timer_now_f1 (f1_overflow 1 (65536 * q)) (f1_counter (65536 * q)) (f1_overflow 1 (65536 * q))
           (f1_counter (65536 * q)) = of_nat (65536 * q - 65536)"
  using assms unfolding timer_now_f1_def f1_join by (simp add: right_diff_distrib')

subsection \<open>Waking in time\<close>

text \<open>
  The steps of the world: the task sets the timer, a tick passes (the interrupt is not late), the timer interrupts, and
  the task takes its notifications.
\<close>

datatype wake_ev = ESet u32 | ETick | EIrq | ETake

fun wake_step :: "family \<Rightarrow> tim_ok \<Rightarrow> (u32 \<Rightarrow> nat) \<Rightarrow> wake_ev \<Rightarrow> wake \<Rightarrow> wake option" where
  "wake_step fam ok period (ESet dt) w =
     (if sint dt \<le> 0 then None
      else case timer_wait fam ok period dt w of Inr (_, w) \<Rightarrow> Some w | Inl _ \<Rightarrow> None)"
| "wake_step fam ok period ETick w = (if due w = Some (clock_at w) then None else Some (w\<lparr>clock_at := clock_at w + 1\<rparr>))"
| "wake_step fam ok period EIrq w = (if due w = Some (clock_at w) then Some (timer_irq True w) else None)"
| "wake_step fam ok period ETake w = notify_take w"

fun wake_run :: "family \<Rightarrow> tim_ok \<Rightarrow> (u32 \<Rightarrow> nat) \<Rightarrow> wake_ev list \<Rightarrow> wake \<Rightarrow> wake option" where
  "wake_run fam ok period [] w = Some w"
| "wake_run fam ok period (e # es) w =
     (case wake_step fam ok period e w of None \<Rightarrow> None | Some w \<Rightarrow> wake_run fam ok period es w)"

text \<open>After \<^verbatim>\<open>timer_init\<close>, which started the timer for \<open>first_due\<close>.\<close>

definition wake_init :: "nat \<Rightarrow> wake" where
  "wake_init first_due = \<lparr>last_dt = 0, clock_at = 0, due = Some first_due, notified = 0, wake_trace = []\<rparr>"

definition wake_inv :: "(u32 \<Rightarrow> nat) \<Rightarrow> wake \<Rightarrow> bool" where
  "wake_inv period w \<longleftrightarrow>
     0 \<le> sint (last_dt w) \<and>
     (case due w of None \<Rightarrow> last_dt w = 0
      | Some d \<Rightarrow> clock_at w \<le> d \<and> (last_dt w \<noteq> 0 \<longrightarrow> d \<le> clock_at w + period (last_dt w)))"

lemma clip_pos: "0 < sint dt \<Longrightarrow> 0 < sint (timer_clip fam dt) \<and> sint (timer_clip fam dt) \<le> sint dt"
  by (simp add: timer_clip_def)

lemma timer_set_cases:
  assumes "timer_set fam ok period dt w = Inr w'"
  shows "(last_dt w \<noteq> 0 \<and> sint (last_dt w) < sint (timer_clip fam dt) \<and> w' = w) \<or>
    ((last_dt w = 0 \<or> sint (timer_clip fam dt) \<le> sint (last_dt w)) \<and>
     (\<exists>tr. w' = w\<lparr>last_dt := timer_clip fam dt, due := Some (clock_at w + period (timer_clip fam dt)), wake_trace := tr\<rparr>))"
  using assms by (auto simp: timer_set_def Let_def rbind_Inr_conv not_less split: if_splits)

lemma timer_set_inv [inv_intros]:
  assumes "wake_inv period w" "0 < sint dt" "timer_set fam ok period dt w = Inr w'"
  shows "wake_inv period w'"
  using timer_set_cases [OF assms(3)] assms(1) clip_pos [OF assms(2), of fam]
  by (auto simp: wake_inv_def)

lemma wake_step_inv [inv_intros]:
  assumes "wake_inv period w" "wake_step fam ok period e w = Some w'"
  shows "wake_inv period w'"
proof (cases e)
  case (ESet dt)
  with assms show ?thesis
    by (auto simp: timer_wait_def rbind_Inr_conv not_le split: if_splits sum.splits intro: timer_set_inv)
qed (use assms in \<open>auto simp: wake_inv_def timer_irq_def notify_take_def split: if_splits option.splits\<close>)

lemma wake_run_inv: "wake_inv period w \<Longrightarrow> wake_run fam ok period es w = Some w' \<Longrightarrow> wake_inv period w'"
  by (induction es arbitrary: w) (auto split: option.splits dest: wake_step_inv)

text \<open>Steps other than an interrupt and a setting leave the time of the interrupt, and never pass it.\<close>

lemma wake_run_due:
  assumes "wake_run fam ok period es w = Some w'" "EIrq \<notin> set es" "\<And>dt. ESet dt \<notin> set es" "due w = Some d" "clock_at w \<le> d"
  shows "due w' = Some d \<and> clock_at w' \<le> d"
  using assms
proof (induction es arbitrary: w)
  case (Cons e es)
  from Cons.prems(2,3) have e: "e = ETick \<or> e = ETake" by (cases e) auto
  from Cons.prems(1) obtain v where v: "wake_step fam ok period e w = Some v" "wake_run fam ok period es v = Some w'"
    by (auto split: option.splits)
  have "due v = Some d \<and> clock_at v \<le> d" using v(1) e Cons.prems(4,5)
    by (auto simp: notify_take_def split: if_splits)
  then show ?case using Cons.IH [OF v(2)] Cons.prems(2,3) by auto
qed simp

text \<open>As long as no interrupt comes, no setting makes the period in force longer than one that was asked for.\<close>

lemma timer_set_period:
  assumes "0 < sint dt" "timer_set fam ok period dt w = Inr w'"
  shows "last_dt w' \<noteq> 0 \<and> sint (last_dt w') \<le> sint dt \<and> (last_dt w \<noteq> 0 \<longrightarrow> sint (last_dt w') \<le> sint (last_dt w))"
  using timer_set_cases [OF assms(2)] clip_pos [OF assms(1), of fam] by auto

lemma wake_run_period:
  assumes "wake_run fam ok period es w = Some w'" "EIrq \<notin> set es" "last_dt w \<noteq> 0"
  shows "last_dt w' \<noteq> 0 \<and> sint (last_dt w') \<le> sint (last_dt w)"
  using assms
proof (induction es arbitrary: w)
  case (Cons e es)
  from Cons.prems(1) obtain v where v: "wake_step fam ok period e w = Some v" "wake_run fam ok period es v = Some w'"
    by (auto split: option.splits)
  have "last_dt v \<noteq> 0 \<and> sint (last_dt v) \<le> sint (last_dt w)"
  proof (cases e)
    case (ESet dt)
    with v(1) have "0 < sint dt" "timer_set fam ok period dt w = Inr v"
      by (auto simp: timer_wait_def rbind_Inr_conv split: if_splits sum.splits)
    from timer_set_period [OF this] Cons.prems(3) show ?thesis by blast
  qed (use v(1) Cons.prems(2,3) in \<open>auto simp: notify_take_def split: if_splits\<close>)
  with Cons.IH [OF v(2)] Cons.prems(2) show ?case by auto
qed simp

lemma wake_inv_due: "wake_inv period w \<Longrightarrow> last_dt w \<noteq> 0 \<Longrightarrow> \<exists>d. due w = Some d \<and> clock_at w \<le> d \<and> d \<le> clock_at w + period (last_dt w)"
  by (auto simp: wake_inv_def split: option.splits)

text \<open>
  C36: a task that waits is woken in time. Whatever was set before, and whatever is set after (\<open>es1\<close>; \<open>v\<close> is the state at
  the last of these settings), the interrupt comes before the period asked for has passed since the timer was last set: with
  no later setting, since this one. A later one can put the interrupt off (\<open>timer_set_postpones\<close>), but however long it
  asks, not by more than this.
\<close>

theorem timer_wakes_in_time:
  assumes mono: "\<And>a b. sint a \<le> sint b \<Longrightarrow> period a \<le> period b"
    and w: "wake_run fam ok period es (wake_init first_due) = Some w"
    and set: "0 < sint dt" "timer_set fam ok period dt w = Inr w'"
    and later: "wake_run fam ok period es1 w' = Some v"
    and run: "wake_run fam ok period es2 v = Some w''" "\<And>dt. ESet dt \<notin> set es2"
    and late: "clock_at v + period dt < clock_at w''"
  shows "EIrq \<in> set (es1 @ es2)"
proof (rule ccontr)
  assume no: "EIrq \<notin> set (es1 @ es2)"
  have "wake_inv period (wake_init first_due)" by (simp add: wake_inv_def wake_init_def)
  then have "wake_inv period w" using w by (rule wake_run_inv)
  then have "wake_inv period w'" using set by (rule timer_set_inv)
  then have inv: "wake_inv period v" using later by (rule wake_run_inv)
  have l: "last_dt w' \<noteq> 0" "sint (last_dt w') \<le> sint dt" using timer_set_period [OF set] by blast+
  then have p: "last_dt v \<noteq> 0" "sint (last_dt v) \<le> sint dt"
    using wake_run_period [OF later _ l(1)] no by auto
  from wake_inv_due [OF inv p(1)] obtain d where
    d: "due v = Some d" "clock_at v \<le> d" "d \<le> clock_at v + period (last_dt v)" by blast
  have "clock_at w'' \<le> d" using wake_run_due [OF run(1) _ run(2) d(1,2)] no by simp
  with d(3) mono [OF p(2)] late show False by simp
qed

theorem timer_wakes_in_time_witness:
  "EIrq \<in> set ([ETick, ESet 4] @ [ETick, ETick, ETick, ETick, EIrq, ETick] :: wake_ev list)"
proof -
  let ?ok = "\<lambda>_ _. True" and ?p = "\<lambda>a :: u32. nat (sint a) + 1"
  obtain w where w: "wake_run F4 ?ok ?p [ETick] (wake_init 1000) = Some w" "clock_at w = 1" "last_dt w = 0"
    by (simp add: wake_init_def)
  obtain w' where w': "timer_set F4 ?ok ?p 3 w = Inr w'" "due w' = Some 5" "clock_at w' = 1" "last_dt w' = 3"
    using w(2,3) by (simp add: timer_set_def hal_def timer_clip_def)
  obtain v where v: "wake_run F4 ?ok ?p [ETick, ESet 4] w' = Some v" "due v = Some 5" "clock_at v = 2"
    using w'(2-4) by (simp add: timer_wait_def timer_set_def timer_clip_def)
  obtain w'' where w'': "wake_run F4 ?ok ?p [ETick, ETick, ETick, EIrq, ETick, ETick] v = Some w''" "clock_at w'' = 7"
    using v(2,3) by (simp add: timer_irq_def)
  have "EIrq \<in> set ([ETick, ESet 4] @ [ETick, ETick, ETick, EIrq, ETick, ETick])"
    by (rule timer_wakes_in_time [where period = ?p, OF _ w(1) _ w'(1) v(1) w''(1)]) (simp_all add: v(3) w''(2))
  then show ?thesis by simp
qed

text \<open>
  \<^verbatim>\<open>timer_set\<close> compares with the period last set, not with what is left of it: a wake-up that was 10 ticks away
  is put off to 500.
\<close>

lemma timer_set_postpones:
  "timer_set F4 (\<lambda>_ _. True) (\<lambda>a. nat (sint a)) 500 \<lparr>last_dt = 1000, clock_at = 990, due = Some 1000, notified = 0, wake_trace = []\<rparr>
   = Inr \<lparr>last_dt = 500, clock_at = 990, due = Some 1490, notified = 0,
       wake_trace = [Base_Stop 5, Base_Stop_IT 5, Set_Autoreload 5 500, Set_Counter 5 0, Base_Start_IT 5]\<rparr>"
  by (simp add: timer_set_def hal_def timer_clip_def)

subsection \<open>Clocks first, and one user for each timer\<close>



definition no_enable :: "tim_call \<Rightarrow> bool" where
  "no_enable c \<longleftrightarrow> (\<forall>n. c \<noteq> CLK_ENABLE n)"





text \<open>The users of the timers: the board's start, and whoever creates an \<^verbatim>\<open>Arm_Timer\<close> and works with it.\<close>

datatype tim_op =
  Start_Board | Start_Events bool | Create timer_id | Init nat u32 u32 | MsMode nat bool tim_trigger | Start nat
| Dma nat | DmaChan nat tim_chan | StartOc nat tim_chan | StartPwm nat tim_chan u32 | Event nat





text \<open>What a group of calls does: it adds calls for timers whose clock is enabled, and takes nothing.\<close>

definition uses_only :: "nat set \<Rightarrow> tim_state \<Rightarrow> tim_state \<Rightarrow> bool" where
  "uses_only E s s' \<longleftrightarrow> allocated s' = allocated s \<and>
     (\<exists>cs. hal_trace s' = hal_trace s @ cs \<and> (\<forall>c \<in> set cs. no_enable c \<and> call_tim c \<in> E))"

lemma uses_only_refl [intro]: "uses_only E s s"
  by (auto simp: uses_only_def)


lemma quiet_uses: "quiet cs s = Inr s' \<Longrightarrow> \<forall>c \<in> set cs. no_enable c \<and> call_tim c \<in> E \<Longrightarrow> uses_only E s s'"
  by (auto simp: quiet_def uses_only_def)

lemma hals_uses: "on_trace (hals ok cs) s = Inr s' \<Longrightarrow> \<forall>c \<in> set cs. no_enable c \<and> call_tim c \<in> E \<Longrightarrow> uses_only E s s'"
  by (auto simp: on_trace_def rbind_Inr_conv uses_only_def dest!: hals_trace)

lemma hal_uses: "on_trace (hal ok c) s = Inr s' \<Longrightarrow> no_enable c \<and> call_tim c \<in> E \<Longrightarrow> uses_only E s s'"
  by (auto simp: on_trace_def hal_def rbind_Inr_conv uses_only_def split: if_splits)

lemmas call_uses = quiet_uses hals_uses hal_uses
















text \<open>On the F1 the clock is started before it is initialised, and nobody looks at what that call returned.\<close>

lemma f1_clock_started_early:
  assumes "hw_clock_init F1 ok tim_reset = Inr s"
  shows "hal_trace s = [CLK_ENABLE 4, NVIC_Enable 4, Base_Start_IT 4, Base_Init 4 prescaler 0xFFFFFFFF, Base_Start 4]"
  using assms
  by (auto simp: hw_clock_init_def rbind_Inr_conv timer_alloc_def tim_reset_def quiet_def on_trace_def hal_def
      split: if_splits)

end
