(* ===== verification/EspTimer.thy ===== *)
theory EspTimer
  imports Prelude
begin

text \<open>
  The timers of the ESP32 port (esp32/timer.cpp): \<^verbatim>\<open>ESP_Timer\<close> over the timer task of ESP-IDF, and \<^verbatim>\<open>HR_Timer\<close> over
  the hardware timers, once for the driver of ESP-IDF 4 and once for that of ESP-IDF 5.

  ESP-IDF is not part of the repository: its calls are entries of a trace, and what a call returns is a parameter
  \<open>err\<close> of the trace so far and the call. A handler is a number, none is \<open>0\<close>, and so is its argument, as for any
  pointer of the source.
\<close>

subsection \<open>Calls and checks\<close>

datatype esp_err = ESP_OK | ESP_ERR_INVALID_STATE | ESP_ERR_OTHER nat

datatype esp_call =
  esp_timer_create nat
| esp_timer_start_periodic u64
| esp_timer_start_once u64
| esp_timer_stop
| esp_timer_delete
| timer_init_call nat nat
| timer_deinit nat nat
| timer_set_auto_reload nat nat bool
| timer_start nat nat
| timer_pause nat nat
| timer_set_alarm_value nat nat u64
| timer_set_alarm nat nat
| timer_isr_callback_add nat nat nat
| timer_isr_callback_remove nat nat
| gptimer_new_timer
| gptimer_del_timer
| gptimer_set_alarm_action "u64 option" "u64 option" bool
| gptimer_enable
| gptimer_disable
| gptimer_start
| gptimer_register_event_callbacks "nat option"

type_synonym esp_trace = "esp_call list"

type_synonym esp_driver = "esp_trace \<Rightarrow> esp_call \<Rightarrow> esp_err"

text \<open>\<^verbatim>\<open>esp_check\<close> behind a call, and a sequence of such calls.\<close>

definition esp_check :: "esp_driver \<Rightarrow> esp_call \<Rightarrow> esp_trace \<Rightarrow> esp_trace result" where
  "esp_check err c tr = (if err tr c = ESP_OK then Inr (tr @ [c]) else Inl AssertFailed)"

fun esp_checks :: "esp_driver \<Rightarrow> esp_call list \<Rightarrow> esp_trace \<Rightarrow> esp_trace result" where
  "esp_checks err [] tr = Inr tr"
| "esp_checks err (c # cs) tr = rbind (esp_check err c tr) (esp_checks err cs)"

lemma esp_check_Inr: "esp_check err c tr = Inr tr' \<longleftrightarrow> err tr c = ESP_OK \<and> tr' = tr @ [c]"
  by (auto simp: esp_check_def)

lemma esp_checks_trace: "esp_checks err cs tr = Inr tr' \<Longrightarrow> tr' = tr @ cs"
  by (induction cs arbitrary: tr) (fastforce simp: esp_check_Inr rbind_Inr_conv)+

subsection \<open>The timer of the timer task\<close>

record esp_timer =
  period :: u64
  handler :: nat
  harg :: nat
  etrace :: esp_trace

definition ESP_Timer :: "esp_driver \<Rightarrow> nat \<Rightarrow> esp_timer result" where
  "ESP_Timer err this =
     rbind (esp_check err (esp_timer_create this) []) (\<lambda>tr.
       Inr \<lparr>period = 0, handler = 0, harg = 0, etrace = tr\<rparr>)"

definition esp_start :: "esp_driver \<Rightarrow> bool \<Rightarrow> esp_timer \<Rightarrow> esp_timer result" where
  "esp_start err periodic t =
     (if period t = 0 then Inl AssertFailed
      else rbind (esp_check err (if periodic then esp_timer_start_periodic (period t) else esp_timer_start_once (period t))
                   (etrace t))
             (\<lambda>tr. Inr (t\<lparr>etrace := tr\<rparr>)))"

definition esp_stop :: "esp_driver \<Rightarrow> esp_timer \<Rightarrow> esp_timer result" where
  "esp_stop err t =
     (let e = err (etrace t) esp_timer_stop in
      if e \<noteq> ESP_ERR_INVALID_STATE \<and> e \<noteq> ESP_OK then Inl AssertFailed
      else Inr (t\<lparr>etrace := etrace t @ [esp_timer_stop]\<rparr>))"

definition esp_set_period :: "u64 \<Rightarrow> esp_timer \<Rightarrow> esp_timer" where
  "esp_set_period p t = t\<lparr>period := p\<rparr>"

definition esp_set_handler :: "nat \<Rightarrow> nat \<Rightarrow> esp_timer \<Rightarrow> esp_timer" where
  "esp_set_handler fn a t = t\<lparr>handler := fn, harg := a\<rparr>"

text \<open>The call back of the driver: the handler, the timer and the argument it is called with, if there is a handler.\<close>

definition esp_event_cb :: "nat \<Rightarrow> esp_timer \<Rightarrow> (nat \<times> nat \<times> nat) option result" where
  "esp_event_cb this t =
     (if this = 0 then Inl AssertFailed
      else if handler t \<noteq> 0 then Inr (Some (handler t, this, harg t)) else Inr None)"

definition esp_get :: "esp_timer \<Rightarrow> u64 result" where
  "esp_get t = Inl AssertFailed"

definition esp_destroy :: "esp_driver \<Rightarrow> esp_timer \<Rightarrow> esp_trace result" where
  "esp_destroy err t = rbind (esp_stop err t) (\<lambda>t. esp_check err esp_timer_delete (etrace t))"

subsection \<open>Scripts of a timer's user\<close>

datatype timer_op = Start bool | Stop | Set_Period u64 | Set_Handler nat nat

fun esp_op :: "esp_driver \<Rightarrow> timer_op \<Rightarrow> esp_timer \<Rightarrow> esp_timer result" where
  "esp_op err (Start b) t = esp_start err b t"
| "esp_op err Stop t = esp_stop err t"
| "esp_op err (Set_Period p) t = Inr (esp_set_period p t)"
| "esp_op err (Set_Handler fn a) t = Inr (esp_set_handler fn a t)"

fun esp_ops :: "esp_driver \<Rightarrow> timer_op list \<Rightarrow> esp_timer \<Rightarrow> esp_timer result" where
  "esp_ops err [] t = Inr t"
| "esp_ops err (op # ops) t = rbind (esp_op err op t) (esp_ops err ops)"

definition esp_life :: "esp_driver \<Rightarrow> nat \<Rightarrow> timer_op list \<Rightarrow> esp_trace result" where
  "esp_life err this ops = rbind (rbind (ESP_Timer err this) (esp_ops err ops)) (esp_destroy err)"

text \<open>What the driver should see: each start with the period that was set last.\<close>

fun script_calls :: "u64 \<Rightarrow> timer_op list \<Rightarrow> esp_call list" where
  "script_calls p [] = []"
| "script_calls p (Start b # ops) = (if b then esp_timer_start_periodic p else esp_timer_start_once p) # script_calls p ops"
| "script_calls p (Stop # ops) = esp_timer_stop # script_calls p ops"
| "script_calls p (Set_Period q # ops) = script_calls q ops"
| "script_calls p (Set_Handler fn a # ops) = script_calls p ops"

text \<open>A start with no period, or with the period 0.\<close>

fun starts_unset :: "u64 \<Rightarrow> timer_op list \<Rightarrow> bool" where
  "starts_unset p [] \<longleftrightarrow> False"
| "starts_unset p (Start b # ops) \<longleftrightarrow> p = 0 \<or> starts_unset p ops"
| "starts_unset p (Set_Period q # ops) \<longleftrightarrow> starts_unset q ops"
| "starts_unset p (op # ops) \<longleftrightarrow> starts_unset p ops"

lemma esp_op_cases:
  assumes "\<And>tr c. c \<noteq> esp_timer_stop \<Longrightarrow> err tr c = ESP_OK" "\<And>tr. err tr esp_timer_stop \<in> {ESP_OK, ESP_ERR_INVALID_STATE}"
  shows "esp_start err b t = (if period t = 0 then Inl AssertFailed
      else Inr (t\<lparr>etrace := etrace t @ [if b then esp_timer_start_periodic (period t) else esp_timer_start_once (period t)]\<rparr>))"
    and "esp_stop err t = Inr (t\<lparr>etrace := etrace t @ [esp_timer_stop]\<rparr>)"
  using assms(1) assms(2) [of "etrace t"] by (auto simp: esp_start_def esp_check_def esp_stop_def Let_def)

lemma esp_ops_calls:
  assumes "\<And>tr c. c \<noteq> esp_timer_stop \<Longrightarrow> err tr c = ESP_OK" "\<And>tr. err tr esp_timer_stop \<in> {ESP_OK, ESP_ERR_INVALID_STATE}"
  shows "rbind (esp_ops err ops t) (\<lambda>t. Inr (etrace t)) =
    (if starts_unset (period t) ops then Inl AssertFailed else Inr (etrace t @ script_calls (period t) ops))"
proof (induction ops arbitrary: t)
  case (Cons op ops)
  then show ?case
    by (cases op) (auto simp: esp_op_cases [where err = err, OF assms] esp_set_period_def esp_set_handler_def)
qed simp

text \<open>
  with a driver that refuses nothing but to stop a timer that does not run, the life of an \<^verbatim>\<open>ESP_Timer\<close> gives
  the driver its creation, each start with the period set last, each stop, and at the end a stop and the deletion,
  unless a start comes before a period other than 0 was set: that one asserts, and nothing else does.
\<close>

theorem esp_timer_life:
  assumes "\<And>tr c. c \<noteq> esp_timer_stop \<Longrightarrow> err tr c = ESP_OK" "\<And>tr. err tr esp_timer_stop \<in> {ESP_OK, ESP_ERR_INVALID_STATE}"
  shows "esp_life err this ops =
    (if starts_unset 0 ops then Inl AssertFailed
     else Inr (esp_timer_create this # script_calls 0 ops @ [esp_timer_stop, esp_timer_delete]))"
proof -
  let ?t = "\<lparr>period = 0, handler = 0, harg = 0, etrace = [esp_timer_create this]\<rparr>"
  have "ESP_Timer err this = Inr ?t" using assms(1) by (simp add: ESP_Timer_def esp_check_def)
  moreover have "esp_destroy err t = Inr (etrace t @ [esp_timer_stop, esp_timer_delete])" for t
    using assms(1) by (simp add: esp_destroy_def esp_op_cases [where err = err, OF assms] esp_check_def)
  ultimately show ?thesis using esp_ops_calls [where err = err and ops = ops and t = ?t, OF assms]
    by (cases "esp_ops err ops ?t") (auto simp: esp_life_def split: if_splits)
qed

theorem esp_timer_life_witness:
  "esp_life (\<lambda>tr c. if c = esp_timer_stop \<and> last tr = esp_timer_create 7 then ESP_ERR_INVALID_STATE else ESP_OK) 7
     [Stop, Set_Period 100, Set_Handler 4 5, Start True, Set_Period 30, Stop, Start False]
   = Inr [esp_timer_create 7, esp_timer_stop, esp_timer_start_periodic 100, esp_timer_stop, esp_timer_start_once 30,
          esp_timer_stop, esp_timer_delete]"
  by (subst esp_timer_life) simp_all

lemma esp_event_calls_handler:
  "this \<noteq> 0 \<Longrightarrow> fn \<noteq> 0 \<Longrightarrow> esp_event_cb this (esp_set_handler fn a t) = Inr (Some (fn, this, a))"
  by (simp add: esp_event_cb_def esp_set_handler_def)

subsection \<open>The hardware timers: what the interrupt calls\<close>

text \<open>
  An \<^verbatim>\<open>HR_Timer\<close> in memory: the pointer to its table of virtual functions, then \<^verbatim>\<open>irq\<close> with the timer, the handler
  and its argument. The call back is given an address: that of the object is word 0, that of \<^verbatim>\<open>irq\<close> is word 1.
\<close>

record hr_object =
  this_addr :: nat
  vtable :: nat
  irq_timer :: nat
  irq_fn :: nat
  irq_arg :: nat

definition object_words :: "hr_object \<Rightarrow> nat list" where
  "object_words ob = [vtable ob, irq_timer ob, irq_fn ob, irq_arg ob]"

definition word_at :: "hr_object \<Rightarrow> nat \<Rightarrow> nat result" where
  "word_at ob a = (if a < length (object_words ob) then Inr (object_words ob ! a) else Inl OutOfBounds)"

text \<open>\<^verbatim>\<open>irq_handler\<close>: what it calls, with which timer and which argument.\<close>

definition irq_handler :: "hr_object \<Rightarrow> nat \<Rightarrow> (nat \<times> nat \<times> nat) result" where
  "irq_handler ob ctx =
     rbind (word_at ob (ctx + 1)) (\<lambda>fn.
       if fn = 0 then Inl AssertFailed
       else rbind (word_at ob ctx) (\<lambda>timer. rbind (word_at ob (ctx + 2)) (\<lambda>a. Inr (fn, timer, a))))"

subsection \<open>ESP-IDF 4\<close>

record hr4 =
  ob4 :: hr_object
  grp :: nat
  num :: nat
  tr4 :: esp_trace

definition hr4_do :: "esp_driver \<Rightarrow> esp_call list \<Rightarrow> hr4 \<Rightarrow> hr4 result" where
  "hr4_do err cs t = rbind (esp_checks err cs (tr4 t)) (\<lambda>tr. Inr (t\<lparr>tr4 := tr\<rparr>))"

definition hr4_start :: "esp_driver \<Rightarrow> bool \<Rightarrow> hr4 \<Rightarrow> hr4 result" where
  "hr4_start err periodic t = hr4_do err [timer_set_auto_reload (grp t) (num t) periodic, timer_start (grp t) (num t)] t"

definition hr4_stop :: "esp_driver \<Rightarrow> hr4 \<Rightarrow> hr4 result" where
  "hr4_stop err t = hr4_do err [timer_pause (grp t) (num t)] t"

definition hr4_set_period :: "esp_driver \<Rightarrow> u64 \<Rightarrow> hr4 \<Rightarrow> hr4 result" where
  "hr4_set_period err p t = hr4_do err [timer_set_alarm_value (grp t) (num t) p, timer_set_alarm (grp t) (num t)] t"

definition hr4_set_handler :: "esp_driver \<Rightarrow> nat \<Rightarrow> nat \<Rightarrow> hr4 \<Rightarrow> hr4 result" where
  "hr4_set_handler err fn a t =
     rbind (if irq_fn (ob4 t) \<noteq> 0 then hr4_do err [timer_isr_callback_remove (grp t) (num t)] t else Inr t) (\<lambda>t.
       let t = t\<lparr>ob4 := (ob4 t)\<lparr>irq_fn := fn, irq_arg := a\<rparr>\<rparr> in
       if fn \<noteq> 0 then hr4_do err [timer_isr_callback_add (grp t) (num t) 1] t else Inr t)"

definition hr4_get :: "(esp_trace \<Rightarrow> esp_err \<times> u64) \<Rightarrow> hr4 \<Rightarrow> u64 result" where
  "hr4_get read t = (if fst (read (tr4 t)) = ESP_OK then Inr (snd (read (tr4 t))) else Inl AssertFailed)"

definition hr4_create :: "esp_driver \<Rightarrow> nat \<Rightarrow> nat \<Rightarrow> nat \<Rightarrow> nat \<Rightarrow> nat \<Rightarrow> hr4 result" where
  "hr4_create err group_max this vt g n =
     (if group_max \<le> g then Inl AssertFailed
      else hr4_do err [timer_init_call g n]
        \<lparr>ob4 = \<lparr>this_addr = this, vtable = vt, irq_timer = this, irq_fn = 0, irq_arg = 0\<rparr>, grp = g, num = n, tr4 = []\<rparr>)"

definition hr4_destroy :: "esp_driver \<Rightarrow> hr4 \<Rightarrow> esp_trace result" where
  "hr4_destroy err t = rbind (hr4_set_handler err 0 0 t) (\<lambda>t. esp_check err (timer_deinit (grp t) (num t)) (tr4 t))"

subsection \<open>ESP-IDF 5\<close>

text \<open>The constructor sets no member of the alarm's configuration; \<^verbatim>\<open>None\<close> is a value never set.\<close>

record hr5 =
  ob5 :: hr_object
  alarm_count :: "u64 option"
  reload_count :: "u64 option"
  auto_reload :: "bool option"
  running :: bool
  tr5 :: esp_trace

definition hr5_do :: "esp_driver \<Rightarrow> esp_call list \<Rightarrow> hr5 \<Rightarrow> hr5 result" where
  "hr5_do err cs t = rbind (esp_checks err cs (tr5 t)) (\<lambda>tr. Inr (t\<lparr>tr5 := tr\<rparr>))"

definition hr5_start :: "esp_driver \<Rightarrow> bool \<Rightarrow> hr5 \<Rightarrow> hr5 result" where
  "hr5_start err periodic t0 =
     (let t = t0\<lparr>auto_reload := Some periodic\<rparr> in
      rbind (hr5_do err [gptimer_set_alarm_action (alarm_count t) (reload_count t) periodic, gptimer_enable] t)
        (\<lambda>t. Inr (t\<lparr>running := True\<rparr>)))"

definition hr5_stop :: "esp_driver \<Rightarrow> hr5 \<Rightarrow> hr5 result" where
  "hr5_stop err t = rbind (hr5_do err [gptimer_disable] t) (\<lambda>t. Inr (t\<lparr>running := False\<rparr>))"

definition hr5_set_period :: "esp_driver \<Rightarrow> u64 \<Rightarrow> hr5 \<Rightarrow> hr5 result" where
  "hr5_set_period err p t0 =
     (let t = t0\<lparr>alarm_count := Some p, reload_count := Some 0\<rparr> in
      if running t \<and> auto_reload t = Some True
      then hr5_do err [gptimer_set_alarm_action (alarm_count t) (reload_count t) True] t
      else Inr t)"

text \<open>\<^verbatim>\<open>alarm_cb\<close> hands the context it was registered with to \<^verbatim>\<open>irq_handler\<close>.\<close>

definition alarm_cb :: "hr_object \<Rightarrow> nat \<Rightarrow> (nat \<times> nat \<times> nat) result" where
  "alarm_cb ob user_ctx = irq_handler ob user_ctx"

definition hr5_set_handler :: "esp_driver \<Rightarrow> nat \<Rightarrow> nat \<Rightarrow> hr5 \<Rightarrow> hr5 result" where
  "hr5_set_handler err fn a t =
     rbind (if irq_fn (ob5 t) \<noteq> 0 then hr5_do err [gptimer_register_event_callbacks None] t else Inr t) (\<lambda>t.
       let t = t\<lparr>ob5 := (ob5 t)\<lparr>irq_fn := fn, irq_arg := a\<rparr>\<rparr> in
       if fn \<noteq> 0 then hr5_do err [gptimer_register_event_callbacks (Some 0)] t else Inr t)"

definition hr5_get :: "(esp_trace \<Rightarrow> esp_err \<times> u64) \<Rightarrow> hr5 \<Rightarrow> u64 result" where
  "hr5_get read t = (if fst (read (tr5 t)) = ESP_OK then Inr (snd (read (tr5 t))) else Inl AssertFailed)"

definition hr5_create :: "esp_driver \<Rightarrow> nat \<Rightarrow> nat \<Rightarrow> hr5 result" where
  "hr5_create err this vt =
     hr5_do err [gptimer_new_timer]
       \<lparr>ob5 = \<lparr>this_addr = this, vtable = vt, irq_timer = this, irq_fn = 0, irq_arg = 0\<rparr>,
        alarm_count = None, reload_count = None, auto_reload = None, running = False, tr5 = []\<rparr>"

definition hr5_destroy :: "esp_driver \<Rightarrow> hr5 \<Rightarrow> esp_trace result" where
  "hr5_destroy err t = rbind (hr5_set_handler err 0 0 t) (\<lambda>t. esp_check err gptimer_del_timer (tr5 t))"

subsection \<open>The interrupt calls the handler\<close>

fun hr4_op :: "esp_driver \<Rightarrow> timer_op \<Rightarrow> hr4 \<Rightarrow> hr4 result" where
  "hr4_op err (Start b) t = hr4_start err b t"
| "hr4_op err Stop t = hr4_stop err t"
| "hr4_op err (Set_Period p) t = hr4_set_period err p t"
| "hr4_op err (Set_Handler fn a) t = hr4_set_handler err fn a t"

fun hr4_ops :: "esp_driver \<Rightarrow> timer_op list \<Rightarrow> hr4 \<Rightarrow> hr4 result" where
  "hr4_ops err [] t = Inr t"
| "hr4_ops err (op # ops) t = rbind (hr4_op err op t) (hr4_ops err ops)"

fun hr5_op :: "esp_driver \<Rightarrow> timer_op \<Rightarrow> hr5 \<Rightarrow> hr5 result" where
  "hr5_op err (Start b) t = hr5_start err b t"
| "hr5_op err Stop t = hr5_stop err t"
| "hr5_op err (Set_Period p) t = hr5_set_period err p t"
| "hr5_op err (Set_Handler fn a) t = hr5_set_handler err fn a t"

fun hr5_ops :: "esp_driver \<Rightarrow> timer_op list \<Rightarrow> hr5 \<Rightarrow> hr5 result" where
  "hr5_ops err [] t = Inr t"
| "hr5_ops err (op # ops) t = rbind (hr5_op err op t) (hr5_ops err ops)"

text \<open>
  The context registered with the driver after the calls of a trace, \<^verbatim>\<open>None\<close> as a whole if a call back was added
  while there was one, or taken away while there was none.
\<close>

fun registered :: "nat option \<Rightarrow> esp_trace \<Rightarrow> nat option option" where
  "registered r [] = Some r"
| "registered r (timer_isr_callback_add _ _ c # cs) = (if r = None then registered (Some c) cs else None)"
| "registered r (timer_isr_callback_remove _ _ # cs) = (if r \<noteq> None then registered None cs else None)"
| "registered r (gptimer_register_event_callbacks (Some c) # cs) = (if r = None then registered (Some c) cs else None)"
| "registered r (gptimer_register_event_callbacks None # cs) = (if r \<noteq> None then registered None cs else None)"
| "registered r (c # cs) = registered r cs"

fun last_handler :: "nat \<times> nat \<Rightarrow> timer_op list \<Rightarrow> nat \<times> nat" where
  "last_handler h [] = h"
| "last_handler h (Set_Handler fn a # ops) = last_handler (fn, a) ops"
| "last_handler h (_ # ops) = last_handler h ops"

lemma registered_append:
  "registered r (xs @ ys) = (case registered r xs of None \<Rightarrow> None | Some r \<Rightarrow> registered r ys)"
  by (induction r xs rule: registered.induct) auto

definition hr_inv :: "nat \<Rightarrow> nat \<Rightarrow> nat \<Rightarrow> nat \<times> nat \<Rightarrow> hr_object \<Rightarrow> esp_trace \<Rightarrow> bool" where
  "hr_inv this vt ctx h ob tr \<longleftrightarrow>
     ob = \<lparr>this_addr = this, vtable = vt, irq_timer = this, irq_fn = fst h, irq_arg = snd h\<rparr> \<and>
     registered None tr = Some (if fst h = 0 then None else Some ctx)"

lemma hr4_op_inv [inv_intros]:
  assumes "hr_inv this vt 1 h (ob4 t) (tr4 t)" "hr4_op err op t = Inr t'"
  shows "hr_inv this vt 1 (last_handler h [op]) (ob4 t') (tr4 t')"
proof (cases op)
  case (Set_Handler fn a)
  with assms show ?thesis
    by (auto simp: hr4_set_handler_def hr4_do_def rbind_Inr_conv esp_check_Inr hr_inv_def Let_def registered_append
        split: if_splits)
qed (use assms in \<open>auto simp: hr4_start_def hr4_stop_def hr4_set_period_def hr4_do_def rbind_Inr_conv esp_check_Inr
       hr_inv_def registered_append\<close>)

lemma hr5_op_inv [inv_intros]:
  assumes "hr_inv this vt 0 h (ob5 t) (tr5 t)" "hr5_op err op t = Inr t'"
  shows "hr_inv this vt 0 (last_handler h [op]) (ob5 t') (tr5 t')"
proof (cases op)
  case (Set_Handler fn a)
  with assms show ?thesis
    by (auto simp: hr5_set_handler_def hr5_do_def rbind_Inr_conv esp_check_Inr hr_inv_def Let_def registered_append
        split: if_splits)
qed (use assms in \<open>auto simp: hr5_start_def hr5_stop_def hr5_set_period_def hr5_do_def rbind_Inr_conv esp_check_Inr
       hr_inv_def registered_append Let_def split: if_splits\<close>)

lemma last_handler_Cons: "last_handler h (op # ops) = last_handler (last_handler h [op]) ops"
  by (cases op) auto

lemma hr4_ops_inv:
  "hr_inv this vt 1 h (ob4 t) (tr4 t) \<Longrightarrow> hr4_ops err ops t = Inr t' \<Longrightarrow>
   hr_inv this vt 1 (last_handler h ops) (ob4 t') (tr4 t')"
proof (induction ops arbitrary: h t)
  case (Cons op ops)
  from Cons.prems(2) obtain v where v: "hr4_op err op t = Inr v" "hr4_ops err ops v = Inr t'"
    by (auto simp: rbind_Inr_conv)
  from Cons.IH [OF hr4_op_inv [OF Cons.prems(1) v(1)] v(2)] show ?case by (simp only: last_handler_Cons [of h op ops])
qed simp

lemma hr5_ops_inv:
  "hr_inv this vt 0 h (ob5 t) (tr5 t) \<Longrightarrow> hr5_ops err ops t = Inr t' \<Longrightarrow>
   hr_inv this vt 0 (last_handler h ops) (ob5 t') (tr5 t')"
proof (induction ops arbitrary: h t)
  case (Cons op ops)
  from Cons.prems(2) obtain v where v: "hr5_op err op t = Inr v" "hr5_ops err ops v = Inr t'"
    by (auto simp: rbind_Inr_conv)
  from Cons.IH [OF hr5_op_inv [OF Cons.prems(1) v(1)] v(2)] show ?case by (simp only: last_handler_Cons [of h op ops])
qed simp

lemma hr4_create_inv: "hr4_create err gmax this vt g n = Inr t \<Longrightarrow> hr_inv this vt 1 (0, 0) (ob4 t) (tr4 t)"
  by (auto simp: hr4_create_def hr4_do_def rbind_Inr_conv esp_check_Inr hr_inv_def split: if_splits)

lemma hr5_create_inv: "hr5_create err this vt = Inr t \<Longrightarrow> hr_inv this vt 0 (0, 0) (ob5 t) (tr5 t)"
  by (auto simp: hr5_create_def hr5_do_def rbind_Inr_conv esp_check_Inr hr_inv_def)

text \<open>
  with the driver of ESP-IDF 4, after any operations that did not assert, a call back is registered exactly
  when the last handler set is not null, it was never added twice nor removed without being there, and its interrupt
  calls that handler with the timer and the argument.
\<close>

theorem hr4_interrupt_calls_handler:
  assumes "hr4_create err gmax this vt g n = Inr t" "hr4_ops err ops t = Inr t'" "last_handler (0, 0) ops = (fn, a)"
  shows "registered None (tr4 t') = Some (if fn = 0 then None else Some 1) \<and>
    (fn \<noteq> 0 \<longrightarrow> irq_handler (ob4 t') 1 = Inr (fn, this, a))"
  using hr4_ops_inv [OF hr4_create_inv [OF assms(1)] assms(2)] assms(3)
  by (simp add: hr_inv_def irq_handler_def word_at_def object_words_def)

theorem hr4_interrupt_calls_handler_witness:
  "\<exists>t. rbind (hr4_create (\<lambda>_ _. ESP_OK) 2 50 60 0 0) (hr4_ops (\<lambda>_ _. ESP_OK) [Set_Handler 70 80, Set_Period 9, Start True, Set_Handler 71 81])
     = Inr t \<and> irq_handler (ob4 t) 1 = Inr (71, 50, 81)"
proof -
  let ?e = "\<lambda>_ _. ESP_OK" and ?ops = "[Set_Handler 70 80, Set_Period 9, Start True, Set_Handler 71 81]"
  obtain t where t: "hr4_create ?e 2 50 60 0 0 = Inr t" and f: "irq_fn (ob4 t) = 0" by (simp add: hr4_create_def hr4_do_def esp_check_def)
  obtain t' where t': "hr4_ops ?e ?ops t = Inr t'"
    using f by (simp add: hr4_set_handler_def hr4_set_period_def hr4_start_def hr4_do_def esp_check_def Let_def)
  from hr4_interrupt_calls_handler [OF t t', of 71 81] t t' show ?thesis by simp
qed

text \<open>
  With the driver of ESP-IDF 5 the same operations register the object, not its \<^verbatim>\<open>irq\<close>: the interrupt takes the
  object's own address for the handler, its table of virtual functions for the timer and the handler for the argument.
\<close>

lemma hr5_interrupt_calls_object:
  assumes "hr5_create err this vt = Inr t" "hr5_ops err ops t = Inr t'" "last_handler (0, 0) ops = (fn, a)"
    and "fn \<noteq> 0" "this \<noteq> 0"
  shows "registered None (tr5 t') = Some (Some 0) \<and> alarm_cb (ob5 t') 0 = Inr (this, vt, fn)"
  using hr5_ops_inv [OF hr5_create_inv [OF assms(1)] assms(2)] assms(3-5)
  by (simp add: hr_inv_def irq_handler_def word_at_def object_words_def alarm_cb_def)

text \<open>
  That driver counts only after \<^verbatim>\<open>gptimer_start\<close>, which is never called; and a start with no period hands it
  an alarm that was never set.
\<close>

lemma hr5_op_never_starts: "gptimer_start \<notin> set (tr5 t) \<Longrightarrow> hr5_op err op t = Inr t' \<Longrightarrow> gptimer_start \<notin> set (tr5 t')"
  by (cases op) (auto simp: hr5_start_def hr5_stop_def hr5_set_period_def hr5_set_handler_def hr5_do_def rbind_Inr_conv
      esp_check_Inr Let_def split: if_splits)

lemma hr5_never_counts:
  assumes "hr5_create err this vt = Inr t" "hr5_ops err ops t = Inr t'"
  shows "gptimer_start \<notin> set (tr5 t')"
proof -
  have "gptimer_start \<notin> set (tr5 t)" using assms(1)
    by (auto simp: hr5_create_def hr5_do_def rbind_Inr_conv esp_check_Inr)
  then show ?thesis using assms(2)
    by (induction ops arbitrary: t) (auto simp: rbind_Inr_conv dest: hr5_op_never_starts)
qed

lemma hr5_starts_unset:
  "hr5_create err this vt = Inr t \<Longrightarrow> hr5_start err b t = Inr t' \<Longrightarrow>
   gptimer_set_alarm_action None None b \<in> set (tr5 t')"
  by (auto simp: hr5_create_def hr5_do_def hr5_start_def rbind_Inr_conv esp_check_Inr Let_def)

end
