(* ===== verification/NvsStorage.thy ===== *)
theory NvsStorage
  imports Storage
begin

text \<open>
  The parameters of the ESP32 port (esp32/storage.cpp), which has the interface of the Linux one (\<open>Storage\<close>) over the
  non-volatile storage library of ESP-IDF.

  That library is not part of the repository: it is a record of functions on a state of its own. The contract
  \<open>nvs_keeps\<close> states what its documentation promises, a typed map from keys to values for each open handle.
\<close>

subsection \<open>The library\<close>

datatype nvs_type =
  NVS_TYPE_U8 | NVS_TYPE_I8 | NVS_TYPE_U16 | NVS_TYPE_I16 | NVS_TYPE_U32 | NVS_TYPE_I32 | NVS_TYPE_U64 | NVS_TYPE_I64
| NVS_TYPE_STR | NVS_TYPE_BLOB | NVS_TYPE_ANY

type_synonym nvs_val = "nvs_type \<times> u8 list"

record entry_info =
  info_ns :: string
  info_key :: string
  info_type :: nvs_type

record ('n, 'i) nvs =
  nvs_open :: "string \<Rightarrow> 'n \<Rightarrow> nat option \<times> 'n"
  nvs_close :: "nat \<Rightarrow> 'n \<Rightarrow> 'n"
  nvs_commit :: "nat \<Rightarrow> 'n \<Rightarrow> bool \<times> 'n"
  nvs_set :: "nat \<Rightarrow> string \<Rightarrow> nvs_val \<Rightarrow> 'n \<Rightarrow> bool \<times> 'n"
  nvs_get :: "nat \<Rightarrow> string \<Rightarrow> nvs_type \<Rightarrow> nat \<Rightarrow> 'n \<Rightarrow> u8 list option"
  nvs_find_key :: "nat \<Rightarrow> string \<Rightarrow> 'n \<Rightarrow> nvs_type option"
  nvs_erase_key :: "nat \<Rightarrow> string \<Rightarrow> 'n \<Rightarrow> bool \<times> 'n"
  nvs_entry_find :: "string option \<Rightarrow> 'n \<Rightarrow> 'i option"
  nvs_entry_info :: "'i \<Rightarrow> entry_info"
  nvs_entry_next :: "'i \<Rightarrow> 'i option"

text \<open>
  A map \<open>seen\<close> of typed values: a set that succeeds is seen, one that fails changes nothing; a get finds a value of
  its type when the buffer, whose size is the last argument but one, has room for it.
\<close>

definition nvs_keeps :: "('n, 'i) nvs \<Rightarrow> ('n \<Rightarrow> nat \<Rightarrow> string \<rightharpoonup> nvs_val) \<Rightarrow> bool" where
  "nvs_keeps N seen \<longleftrightarrow>
     (\<forall>h k v n. seen (snd (nvs_set N h k v n)) h = (if fst (nvs_set N h k v n) then (seen n h)(k \<mapsto> v) else seen n h)) \<and>
     (\<forall>h k n. seen (snd (nvs_erase_key N h k n)) h =
        (if fst (nvs_erase_key N h k n) then (seen n h)(k := None) else seen n h)) \<and>
     (\<forall>h k t sz n. nvs_get N h k t sz n =
        (case seen n h k of None \<Rightarrow> None
         | Some (t', bs) \<Rightarrow> if t' = t \<and> length bs \<le> sz then Some bs else None)) \<and>
     (\<forall>h k n. nvs_find_key N h k n = map_option fst (seen n h k))"

subsection \<open>The class\<close>

fun totype :: "nvs_type \<Rightarrow> stype" where
  "totype NVS_TYPE_BLOB = VAL_BLOB"
| "totype NVS_TYPE_STR = VAL_STR"
| "totype NVS_TYPE_U8 = VAL_INT8"
| "totype NVS_TYPE_I8 = VAL_INT8"
| "totype NVS_TYPE_U16 = VAL_INT16"
| "totype NVS_TYPE_I16 = VAL_INT16"
| "totype NVS_TYPE_U32 = VAL_INT32"
| "totype NVS_TYPE_I32 = VAL_INT32"
| "totype _ = VAL_OTHER"

text \<open>The bytes of an integer in memory, lowest first, and back.\<close>

definition int_bytes :: "u32 \<Rightarrow> u8 list" where
  "int_bytes v = [ucast v, ucast (drop_bit 8 v), ucast (drop_bit 16 v), ucast (drop_bit 24 v)]"

fun bytes_int :: "u8 list \<Rightarrow> u32" where
  "bytes_int [] = 0"
| "bytes_int (b # bs) = or (ucast b) (push_bit 8 (bytes_int bs))"

record 'n nvs_storage =
  sns :: string
  sh :: nat
  lib :: 'n

definition nvs_storage :: "('n, 'i) nvs \<Rightarrow> string \<Rightarrow> 'n \<Rightarrow> 'n nvs_storage" where
  "nvs_storage N ns n =
     (case nvs_open N ns n of
        (None, n) \<Rightarrow> \<lparr>sns = ns, sh = 0, lib = n\<rparr>
      | (Some h, n) \<Rightarrow> \<lparr>sns = ns, sh = h, lib = n\<rparr>)"

definition nvs_destroy :: "('n, 'i) nvs \<Rightarrow> 'n nvs_storage \<Rightarrow> 'n" where
  "nvs_destroy N s = nvs_close N (sh s) (lib s)"

definition nvs_save :: "('n, 'i) nvs \<Rightarrow> 'n nvs_storage \<Rightarrow> bool \<times> 'n nvs_storage" where
  "nvs_save N s = (let (ok, n) = nvs_commit N (sh s) (lib s) in (ok, s\<lparr>lib := n\<rparr>))"

definition nvs_put :: "('n, 'i) nvs \<Rightarrow> string \<Rightarrow> nvs_val \<Rightarrow> 'n nvs_storage \<Rightarrow> bool \<times> 'n nvs_storage" where
  "nvs_put N k v s = (let (ok, n) = nvs_set N (sh s) k v (lib s) in (ok, s\<lparr>lib := n\<rparr>))"

text \<open>A string is kept with its terminator.\<close>

definition str_bytes :: "string \<Rightarrow> u8 list" where
  "str_bytes cs = map of_char cs @ [0]"

definition nvs_set_str :: "('n, 'i) nvs \<Rightarrow> string option \<Rightarrow> string option \<Rightarrow> 'n nvs_storage \<Rightarrow> (bool \<times> 'n nvs_storage) result" where
  "nvs_set_str N key value s =
     (case (key, value) of
        (Some k, Some v) \<Rightarrow> Inr (nvs_put N k (NVS_TYPE_STR, str_bytes v) s)
      | _ \<Rightarrow> Inl AssertFailed)"

definition nvs_set_int32 :: "('n, 'i) nvs \<Rightarrow> string option \<Rightarrow> u32 \<Rightarrow> 'n nvs_storage \<Rightarrow> (bool \<times> 'n nvs_storage) result" where
  "nvs_set_int32 N key value s =
     (case key of
        None \<Rightarrow> Inl AssertFailed
      | Some k \<Rightarrow> if value = 0 then Inl AssertFailed else Inr (nvs_put N k (NVS_TYPE_I32, int_bytes value) s))"

definition nvs_get_int8 :: "('n, 'i) nvs \<Rightarrow> string \<Rightarrow> 'n nvs_storage \<Rightarrow> u32 option" where
  "nvs_get_int8 N k s = map_option bytes_int (nvs_get N (sh s) k NVS_TYPE_I8 1 (lib s))"

definition nvs_get_int16 :: "('n, 'i) nvs \<Rightarrow> string \<Rightarrow> 'n nvs_storage \<Rightarrow> u32 option" where
  "nvs_get_int16 N k s = map_option bytes_int (nvs_get N (sh s) k NVS_TYPE_I16 2 (lib s))"

definition nvs_get_int32 :: "('n, 'i) nvs \<Rightarrow> string \<Rightarrow> 'n nvs_storage \<Rightarrow> u32 option" where
  "nvs_get_int32 N k s = map_option bytes_int (nvs_get N (sh s) k NVS_TYPE_I32 4 (lib s))"

definition nvs_get_str :: "('n, 'i) nvs \<Rightarrow> string \<Rightarrow> nat \<Rightarrow> 'n nvs_storage \<Rightarrow> u8 list option" where
  "nvs_get_str N k room s = nvs_get N (sh s) k NVS_TYPE_STR room (lib s)"

definition nvs_set_blob :: "('n, 'i) nvs \<Rightarrow> string \<Rightarrow> u8 list \<Rightarrow> 'n nvs_storage \<Rightarrow> bool \<times> 'n nvs_storage" where
  "nvs_set_blob N k data s = nvs_put N k (NVS_TYPE_BLOB, data) s"

definition nvs_get_blob :: "('n, 'i) nvs \<Rightarrow> string \<Rightarrow> nat \<Rightarrow> 'n nvs_storage \<Rightarrow> u8 list option" where
  "nvs_get_blob N k room s = nvs_get N (sh s) k NVS_TYPE_BLOB room (lib s)"

definition nvs_erase :: "('n, 'i) nvs \<Rightarrow> string \<Rightarrow> 'n nvs_storage \<Rightarrow> bool \<times> 'n nvs_storage" where
  "nvs_erase N k s = (let (ok, n) = nvs_erase_key N (sh s) k (lib s) in (ok, s\<lparr>lib := n\<rparr>))"

text \<open>\<^verbatim>\<open>get_type\<close> with an ESP-IDF that has \<^verbatim>\<open>nvs_find_key\<close>.\<close>

definition nvs_get_type :: "('n, 'i) nvs \<Rightarrow> string \<Rightarrow> 'n nvs_storage \<Rightarrow> stype" where
  "nvs_get_type N k s =
     (case nvs_find_key N (sh s) k (lib s) of None \<Rightarrow> VAL_NONE | Some t \<Rightarrow> totype t)"

subsection \<open>The list\<close>

text \<open>
  The iterator of a list: nothing once it was deleted, and within it nothing when the library has no more entries.
  On ESP-IDF 4 it stays, on ESP-IDF 5 it is deleted with its last entry.
\<close>

type_synonym 'i nvs_list = "'i option option"

definition NVS_KEY_NAME_MAX_SIZE :: nat where "NVS_KEY_NAME_MAX_SIZE = 16"

definition nvs_list :: "('n, 'i) nvs \<Rightarrow> string option \<Rightarrow> 'n \<Rightarrow> 'i nvs_list" where
  "nvs_list N ns n = Some (nvs_entry_find N ns n)"

definition del_iter :: "'i nvs_list \<Rightarrow> 'i nvs_list" where
  "del_iter it = None"

definition nvs_list_get ::
    "bool \<Rightarrow> ('n, 'i) nvs \<Rightarrow> string option \<Rightarrow> string \<Rightarrow> nat \<Rightarrow> 'i nvs_list \<Rightarrow>
     ((string option \<times> string \<times> stype) option \<times> 'i nvs_list) result" where
  "nvs_list_get v5 N nb kb max_sz it =
     (let mx = min max_sz NVS_KEY_NAME_MAX_SIZE in
      case it of
        Some (Some i) \<Rightarrow>
          (let info = nvs_entry_info N i in
           rbind (c_strncpy kb (info_key info) mx) (\<lambda>kb.
           rbind (case nb of None \<Rightarrow> Inr None | Some b \<Rightarrow> rbind (c_strncpy b (info_ns info) mx) (\<lambda>b. Inr (Some b))) (\<lambda>nb.
             Inr (Some (nb, kb, totype (info_type info)),
                  case nvs_entry_next N i of
                    None \<Rightarrow> if v5 then del_iter it else Some None
                  | Some i \<Rightarrow> Some (Some i)))))
      | _ \<Rightarrow> Inr (None, it))"
subsection \<open>Values come back\<close>

lemma bytes_int4: "bytes_int (int_bytes v) = v"
proof (rule bit_word_eqI)
  fix n
  show "bit (bytes_int (int_bytes v)) n = bit v n" if "n < LENGTH(32)"
    by (insert that, cases "24 \<le> n"; cases "16 \<le> n"; cases "8 \<le> n") (auto simp: int_bytes_def bit_simps)
qed

lemma length_int_bytes [simp]: "length (int_bytes v) = 4"
  by (simp add: int_bytes_def)

lemma nvs_put_seen:
  assumes "nvs_keeps N seen" "nvs_put N k v s = (ok, s')"
  shows "sh s' = sh s" "seen (lib s') (sh s) = (if ok then (seen (lib s) (sh s))(k \<mapsto> v) else seen (lib s) (sh s))"
  using assms(2) assms(1)[unfolded nvs_keeps_def, THEN conjunct1, rule_format, of "sh s" k v "lib s"]
  by (auto simp: nvs_put_def split: prod.splits)

lemma nvs_get_seen:
  assumes "nvs_keeps N seen"
  shows "nvs_get N h k t sz n = (case seen n h k of None \<Rightarrow> None | Some (t', bs) \<Rightarrow> if t' = t \<and> length bs \<le> sz then Some bs else None)"
    and "nvs_find_key N h k n = map_option fst (seen n h k)"
    and "fst (nvs_erase_key N h k n) \<Longrightarrow> seen (snd (nvs_erase_key N h k n)) h = (seen n h)(k := None)"
  using assms by (simp_all add: nvs_keeps_def)

text \<open>Two states that hold the same for a key answer the same about it.\<close>

definition same_key :: "('n, 'i) nvs \<Rightarrow> string \<Rightarrow> 'n nvs_storage \<Rightarrow> 'n nvs_storage \<Rightarrow> bool" where
  "same_key N k s s' \<longleftrightarrow> nvs_get_int8 N k s' = nvs_get_int8 N k s \<and> nvs_get_int16 N k s' = nvs_get_int16 N k s \<and>
     nvs_get_int32 N k s' = nvs_get_int32 N k s \<and> (\<forall>n. nvs_get_str N k n s' = nvs_get_str N k n s) \<and>
     (\<forall>n. nvs_get_blob N k n s' = nvs_get_blob N k n s) \<and> nvs_get_type N k s' = nvs_get_type N k s"

lemma same_keyI: "nvs_keeps N seen \<Longrightarrow> sh s' = sh s \<Longrightarrow> seen (lib s') (sh s) k = seen (lib s) (sh s) k \<Longrightarrow> same_key N k s s'"
  by (simp add: same_key_def nvs_get_seen nvs_get_int8_def nvs_get_int16_def nvs_get_int32_def nvs_get_str_def
      nvs_get_blob_def nvs_get_type_def)

text \<open>
  over a library that keeps its contract, a 32-bit integer other than 0 that was stored is read back with its
  type, no other key is touched, and a failure touches none; and the value 0 cannot be stored at all: it asserts.
\<close>

theorem nvs_int_round_trip:
  assumes "nvs_keeps N seen"
  shows "(nvs_set_int32 N (Some k) v s = Inl AssertFailed \<longleftrightarrow> v = 0) \<and>
    (\<forall>s'. nvs_set_int32 N (Some k) v s = Inr (True, s') \<longrightarrow>
       nvs_get_int32 N k s' = Some v \<and> nvs_get_type N k s' = VAL_INT32 \<and> (\<forall>k'. k' \<noteq> k \<longrightarrow> same_key N k' s s')) \<and>
    (\<forall>s'. nvs_set_int32 N (Some k) v s = Inr (False, s') \<longrightarrow> (\<forall>k'. same_key N k' s s'))"
proof (intro conjI allI impI)
  show "nvs_set_int32 N (Some k) v s = Inl AssertFailed \<longleftrightarrow> v = 0" by (simp add: nvs_set_int32_def)
next
  fix s' assume "nvs_set_int32 N (Some k) v s = Inr (True, s')"
  then have p: "nvs_put N k (NVS_TYPE_I32, int_bytes v) s = (True, s')" by (simp add: nvs_set_int32_def split: if_splits)
  note q = nvs_put_seen [OF assms p]
  show "nvs_get_int32 N k s' = Some v"
    using q by (simp add: nvs_get_int32_def nvs_get_seen(1) [OF assms] bytes_int4)
  show "nvs_get_type N k s' = VAL_INT32" using q by (simp add: nvs_get_type_def nvs_get_seen(2) [OF assms])
  show "same_key N k' s s'" if "k' \<noteq> k" for k' using q that by (auto intro: same_keyI [OF assms])
next
  fix s' k' assume "nvs_set_int32 N (Some k) v s = Inr (False, s')"
  then have p: "nvs_put N k (NVS_TYPE_I32, int_bytes v) s = (False, s')" by (simp add: nvs_set_int32_def split: if_splits)
  from nvs_put_seen [OF assms p] show "same_key N k' s s'" by (auto intro: same_keyI [OF assms])
qed

text \<open>
  A library that keeps the contract: an association from handles and keys, and the list of the entries for the
  iterators.
\<close>

definition map_nvs :: "((nat \<times> string) \<Rightarrow> nvs_val option, entry_info list) nvs" where
  "map_nvs =
     \<lparr>nvs_open = (\<lambda>_ n. (Some 1, n)), nvs_close = (\<lambda>_ n. n), nvs_commit = (\<lambda>_ n. (True, n)),
      nvs_set = (\<lambda>h k v n. (True, n((h, k) \<mapsto> v))),
      nvs_get = (\<lambda>h k t sz n. case n (h, k) of None \<Rightarrow> None | Some (t', bs) \<Rightarrow> if t' = t \<and> length bs \<le> sz then Some bs else None),
      nvs_find_key = (\<lambda>h k n. map_option fst (n (h, k))),
      nvs_erase_key = (\<lambda>h k n. (n (h, k) \<noteq> None, n((h, k) := None))),
      nvs_entry_find = (\<lambda>_ _. Some [\<lparr>info_ns = ''a'', info_key = ''x'', info_type = NVS_TYPE_I32\<rparr>,
        \<lparr>info_ns = ''a'', info_key = ''yy'', info_type = NVS_TYPE_STR\<rparr>]),
      nvs_entry_info = hd, nvs_entry_next = (\<lambda>es. if tl es = [] then None else Some (tl es))\<rparr>"

lemma map_nvs_keeps: "nvs_keeps map_nvs (\<lambda>n h k. n (h, k))"
  by (auto simp: nvs_keeps_def map_nvs_def fun_eq_iff) (metis option.exhaust surj_pair)

lemma map_nvs_list:
  "nvs_entry_info map_nvs = hd" "nvs_entry_next map_nvs = (\<lambda>es. if tl es = [] then None else Some (tl es))"
  "nvs_entry_find map_nvs ns n = Some [\<lparr>info_ns = ''a'', info_key = ''x'', info_type = NVS_TYPE_I32\<rparr>,
     \<lparr>info_ns = ''a'', info_key = ''yy'', info_type = NVS_TYPE_STR\<rparr>]"
  by (simp_all add: map_nvs_def)

theorem nvs_int_round_trip_witness:
  "\<exists>s'. nvs_set_int32 map_nvs (Some ''x'') 7 (nvs_storage map_nvs ''a'' Map.empty) = Inr (True, s') \<and>
     nvs_get_int32 map_nvs ''x'' s' = Some 7"
proof -
  obtain s' where s': "nvs_set_int32 map_nvs (Some ''x'') 7 (nvs_storage map_nvs ''a'' Map.empty) = Inr (True, s')"
    by (simp add: nvs_set_int32_def nvs_put_def map_nvs_def)
  with nvs_int_round_trip [OF map_nvs_keeps, of "''x''" 7 "nvs_storage map_nvs ''a'' Map.empty"] show ?thesis by blast
qed

lemma nvs_blob_round_trip:
  assumes "nvs_keeps N seen" "nvs_set_blob N k data s = (True, s')"
  shows "nvs_get_blob N k room s' = (if length data \<le> room then Some data else None) \<and> nvs_get_type N k s' = VAL_BLOB"
  using nvs_put_seen [OF assms(1) assms(2)[unfolded nvs_set_blob_def]]
  by (simp add: nvs_get_blob_def nvs_get_type_def nvs_get_seen [OF assms(1)])

lemma nvs_erase_forgets:
  assumes "nvs_keeps N seen" "nvs_erase N k s = (True, s')"
  shows "nvs_get_type N k s' = VAL_NONE \<and> nvs_get_int32 N k s' = None"
proof -
  from assms(2) have s': "s' = s\<lparr>lib := snd (nvs_erase_key N (sh s) k (lib s))\<rparr>" "fst (nvs_erase_key N (sh s) k (lib s))"
    by (auto simp: nvs_erase_def split: prod.splits)
  with nvs_get_seen [OF assms(1)] show ?thesis by (simp add: nvs_get_type_def nvs_get_int32_def)
qed

subsection \<open>The list is complete\<close>

text \<open>The entries an iterator of the library has still to give.\<close>

inductive gives :: "('n, 'i) nvs \<Rightarrow> 'i option \<Rightarrow> entry_info list \<Rightarrow> bool" for N where
  "gives N None []"
| "gives N (nvs_entry_next N i) es \<Longrightarrow> gives N (Some i) (nvs_entry_info N i # es)"

text \<open>A caller that asks for keys until there are no more, with a limit on the number of calls.\<close>

fun nvs_list_all ::
    "nat \<Rightarrow> bool \<Rightarrow> ('n, 'i) nvs \<Rightarrow> string \<Rightarrow> nat \<Rightarrow> 'i nvs_list \<Rightarrow> (string \<times> stype) list option result" where
  "nvs_list_all 0 v5 N kb mx it = Inr None"
| "nvs_list_all (Suc k) v5 N kb mx it =
     rbind (nvs_list_get v5 N None kb mx it) (\<lambda>(r, it).
       case r of
         None \<Rightarrow> Inr (Some [])
       | Some (_, kb, t) \<Rightarrow> rbind (nvs_list_all k v5 N kb mx it) (\<lambda>rs. Inr (map_option ((#) (c_str kb, t)) rs)))"

definition ends :: "bool \<Rightarrow> 'i option \<Rightarrow> 'i nvs_list" where
  "ends v5 o' = (case o' of None \<Rightarrow> if v5 then None else Some None | Some i \<Rightarrow> Some (Some i))"

lemma nvs_list_all_gives:
  assumes "gives N oi es" "length es < k" "16 \<le> mx" "16 \<le> length kb"
    "\<forall>e \<in> set es. length (info_key e) < 16 \<and> c_string (info_key e)" "it \<in> {Some oi, ends v5 oi}"
  shows "nvs_list_all k v5 N kb mx it = Inr (Some (map (\<lambda>e. (info_key e, totype (info_type e))) es))"
  using assms
proof (induction arbitrary: k kb it rule: gives.induct)
  case 1
  then obtain k' where "k = Suc k'" by (cases k) auto
  with 1 show ?case by (auto simp: nvs_list_get_def ends_def Let_def)
next
  case (2 i es)
  then obtain k' where k: "k = Suc k'" by (cases k) auto
  let ?e = "nvs_entry_info N i"
  from 2 have e: "length (info_key ?e) < 16" "c_string (info_key ?e)" by auto
  from strncpy_fits [OF e(1) 2(5) e(2)] obtain b where b: "c_strncpy kb (info_key ?e) 16 = Inr b" "length b = length kb"
      "c_str b = info_key ?e" by blast
  have it: "it = Some (Some i)" using 2(7) by (auto simp: ends_def)
  have mx: "min mx NVS_KEY_NAME_MAX_SIZE = 16" using 2(4) by (simp add: NVS_KEY_NAME_MAX_SIZE_def)
  have get: "nvs_list_get v5 N None kb mx it = Inr (Some (None, b, totype (info_type ?e)), ends v5 (nvs_entry_next N i))"
    by (simp add: it nvs_list_get_def mx b(1) ends_def del_iter_def split: option.splits)
  have "nvs_list_all k' v5 N b mx (ends v5 (nvs_entry_next N i))
      = Inr (Some (map (\<lambda>e. (info_key e, totype (info_type e))) es))"
    by (rule 2(2)) (use 2 b(2) k in auto)
  then show ?case using b(3) by (simp add: k get)
qed

text \<open>
  with either version of the library, a caller with buffers of 16 characters who asks until the answer is no gets
  every key of the name space once, in the order of the library, with its type, and then the answer is no.
\<close>

theorem nvs_list_complete:
  assumes "gives N (nvs_entry_find N ns n) es" "16 \<le> mx" "16 \<le> length kb"
    "\<forall>e \<in> set es. length (info_key e) < 16 \<and> c_string (info_key e)"
  shows "nvs_list_all (Suc (length es)) v5 N kb mx (nvs_list N ns n)
    = Inr (Some (map (\<lambda>e. (info_key e, totype (info_type e))) es))"
  using assms by (intro nvs_list_all_gives) (auto simp: nvs_list_def)

theorem nvs_list_complete_witness:
  "nvs_list_all 3 True map_nvs (replicate 16 CHR ''.'') 16 (nvs_list map_nvs None Map.empty)
   = Inr (Some [(''x'', VAL_INT32), (''yy'', VAL_STR)])"
proof -
  let ?es = "[\<lparr>info_ns = ''a'', info_key = ''x'', info_type = NVS_TYPE_I32\<rparr>,
    \<lparr>info_ns = ''a'', info_key = ''yy'', info_type = NVS_TYPE_STR\<rparr>]"
  have "gives map_nvs (nvs_entry_find map_nvs None Map.empty) ?es"
    using gives.intros(2) [of map_nvs ?es "[?es ! 1]"] gives.intros(2) [of map_nvs "[?es ! 1]" "[]"] gives.intros(1) [of map_nvs]
    by (simp add: map_nvs_list)
  from nvs_list_complete [OF this, of 16 "replicate 16 CHR ''.''" True] show ?thesis
    by (simp add: c_string_def NUL_def eval_nat_numeral)
qed

end
