(* ===== verification/ArmGpio.thy ===== *)
theory ArmGpio
  imports Prelude
begin

text \<open>
  The pins of the STM32 port: the configuration registers of the F1 (stm32/gpio_f1.cpp), and the pins over the
  hardware library with the table of their interrupts (stm32/gpio.cpp).

  Registers are words. Calls of the hardware library, none of which returns a status, are entries of a trace.
\<close>

unbundle bit_operations_syntax

subsection \<open>The F1: clock of the port, configuration of the pin\<close>

datatype f1_port = PortA | PortB | PortC | PortD | NoPort

record f1_regs =
  CRL :: u32
  CRH :: u32
  IDR :: u32
  writes :: "(bool \<times> u32) list"

record f1_state =
  ck_enabled :: u32
  APB2ENR :: u32
  regs :: "f1_port \<Rightarrow> f1_regs"

text \<open>The bits of \<^verbatim>\<open>RCC->APB2ENR\<close> for the ports.\<close>

fun iop_en :: "f1_port \<Rightarrow> u32 option" where
  "iop_en PortA = Some 0x04"
| "iop_en PortB = Some 0x08"
| "iop_en PortC = Some 0x10"
| "iop_en PortD = Some 0x20"
| "iop_en NoPort = None"

definition enable_port_power :: "f1_port \<Rightarrow> f1_state \<Rightarrow> f1_state result" where
  "enable_port_power base s =
     (case iop_en base of
        None \<Rightarrow> Inl AssertFailed
      | Some pwr \<Rightarrow>
          if ck_enabled s AND pwr = 0
          then Inr (s\<lparr>APB2ENR := APB2ENR s OR pwr, ck_enabled := ck_enabled s OR pwr\<rparr>)
          else Inr s)"

definition IO_INPUT :: u32 where "IO_INPUT = 0x01"
definition IO_OUTPUT :: u32 where "IO_OUTPUT = 0x02"
definition IO_PULL_UP :: u32 where "IO_PULL_UP = 0x04"
definition IO_PULL_DOWN :: u32 where "IO_PULL_DOWN = 0x08"
definition IO_OPEN_DRAIN :: u32 where "IO_OPEN_DRAIN = 0x10"
definition IO_ALT :: u32 where "IO_ALT = 0x20"
definition IO_INIT_ONLY :: u32 where "IO_INIT_ONLY = 0x40"

lemmas io_defs = IO_INPUT_def IO_OUTPUT_def IO_PULL_UP_def IO_PULL_DOWN_def IO_OPEN_DRAIN_def IO_ALT_def IO_INIT_ONLY_def

text \<open>The four bits of a pin: \<^verbatim>\<open>cfg << 2 | mode\<close>.\<close>

definition f1_config :: "u32 \<Rightarrow> u8" where
  "f1_config io =
     (let mode = (if io AND IO_INPUT \<noteq> 0 then 0 else 0x3);
          cfg = (if io AND IO_INPUT \<noteq> 0
                 then (0x01 :: u8) OR (if io AND (IO_PULL_UP OR IO_PULL_DOWN) \<noteq> 0 then 0x02 else 0) else 0);
          cfg = (if io AND IO_OUTPUT \<noteq> 0
                 then cfg OR (if io AND IO_OPEN_DRAIN \<noteq> 0 then 0x01 else 0) OR (if io AND IO_ALT \<noteq> 0 then 0x02 else 0) else cfg)
      in push_bit 2 cfg OR mode)"

definition set_nibble :: "nat \<Rightarrow> u8 \<Rightarrow> u32 \<Rightarrow> u32" where
  "set_nibble shift d r = (r AND NOT (push_bit shift 0xf)) OR push_bit shift (ucast d)"

definition f1_init :: "f1_port \<Rightarrow> nat \<Rightarrow> u32 \<Rightarrow> f1_state \<Rightarrow> f1_state result" where
  "f1_init base pin io s =
     rbind (enable_port_power base s) (\<lambda>s.
       let d = f1_config io; shift = (pin mod 8) * 4; r = regs s base in
       Inr (s\<lparr>regs := (regs s)(base :=
         (if pin < 8 then r\<lparr>CRL := set_nibble shift d (CRL r)\<rparr> else r\<lparr>CRH := set_nibble shift d (CRH r)\<rparr>))\<rparr>))"

record f1_gpio =
  f1_base :: f1_port
  f1_mask :: u32

text \<open>With \<^verbatim>\<open>INIT_ONLY\<close> no object is made.\<close>

definition f1_create :: "f1_port \<Rightarrow> nat \<Rightarrow> u32 \<Rightarrow> f1_state \<Rightarrow> (f1_gpio option \<times> f1_state) result" where
  "f1_create base pin io s =
     rbind (f1_init base pin io s) (\<lambda>s.
       if io AND IO_INIT_ONLY \<noteq> 0 then Inr (None, s)
       else Inr (Some \<lparr>f1_base = base, f1_mask = push_bit pin 1\<rparr>, s))"

text \<open>A write of \<^verbatim>\<open>BSRR\<close> (\<open>True\<close>) or of \<^verbatim>\<open>BRR\<close>.\<close>

definition f1_set :: "f1_gpio \<Rightarrow> bool \<Rightarrow> f1_state \<Rightarrow> f1_state" where
  "f1_set g on s = s\<lparr>regs := (regs s)(f1_base g := (regs s (f1_base g))\<lparr>writes := writes (regs s (f1_base g)) @ [(on, f1_mask g)]\<rparr>)\<rparr>"

definition f1_get :: "f1_gpio \<Rightarrow> f1_state \<Rightarrow> bool" where
  "f1_get g s \<longleftrightarrow> IDR (regs s (f1_base g)) AND f1_mask g \<noteq> 0"

definition f1_toggle :: "f1_gpio \<Rightarrow> f1_state \<Rightarrow> f1_state" where
  "f1_toggle g s = f1_set g (\<not> f1_get g s) s"

subsection \<open>A pin's configuration is its own\<close>

definition pin_config :: "f1_regs \<Rightarrow> nat \<Rightarrow> u32" where
  "pin_config r pin = drop_bit ((pin mod 8) * 4) (if pin < 8 then CRL r else CRH r) AND 0xF"

lemma word_0xf: "(0xf :: u32) = mask 4"
  by (simp add: mask_eq_exp_minus_1)

lemma f1_config_nibble: "take_bit 4 (f1_config io) = f1_config io"
  by (simp add: f1_config_def Let_def)

lemma bit_nibble: "take_bit 4 d = d \<Longrightarrow> bit (d :: u8) n \<Longrightarrow> n < 4"
  by (metis bit_take_bit_iff)

lemma nibble_same: "s + 4 \<le> 32 \<Longrightarrow> take_bit 4 d = d \<Longrightarrow> drop_bit s (set_nibble s d r) AND 0xF = ucast d"
  unfolding word_0xf set_nibble_def
  by (rule bit_word_eqI) (auto simp del: mask_numeral simp: bit_simps dest: bit_nibble)

lemma nibble_other:
  assumes "s' + 4 \<le> s \<or> s + 4 \<le> s'" "s + 4 \<le> 32" "s' + 4 \<le> 32" "take_bit 4 d = d"
  shows "drop_bit s' (set_nibble s d r) AND 0xF = drop_bit s' r AND 0xF"
  unfolding word_0xf set_nibble_def
  by (rule bit_word_eqI) (use assms in \<open>auto simp del: mask_numeral simp: bit_simps dest: bit_nibble\<close>)

fun f1_creates :: "(f1_port \<times> nat \<times> u32) list \<Rightarrow> f1_state \<Rightarrow> f1_state result" where
  "f1_creates [] s = Inr s"
| "f1_creates ((base, pin, io) # ps) s = rbind (f1_create base pin io s) (\<lambda>(_, s). f1_creates ps s)"

fun last_io :: "f1_port \<Rightarrow> nat \<Rightarrow> (f1_port \<times> nat \<times> u32) list \<Rightarrow> u32 option" where
  "last_io b p [] = None"
| "last_io b p ((base, pin, io) # ps) =
     (case last_io b p ps of Some io' \<Rightarrow> Some io' | None \<Rightarrow> if base = b \<and> pin = p then Some io else None)"

lemma port_power_regs: "enable_port_power base s = Inr s' \<Longrightarrow> regs s' = regs s"
  by (auto simp: enable_port_power_def split: option.splits if_splits)

lemma f1_init_config:
  assumes "f1_init base pin io s = Inr s'" "pin < 16" "p < 16"
  shows "pin_config (regs s' b) p = (if b = base \<and> p = pin then ucast (f1_config io) else pin_config (regs s b) p)"
proof -
  let ?d = "f1_config io" and ?r = "regs s base"
  have s': "regs s' = (regs s)(base := (if pin < 8 then ?r\<lparr>CRL := set_nibble (pin mod 8 * 4) ?d (CRL ?r)\<rparr>
      else ?r\<lparr>CRH := set_nibble (pin mod 8 * 4) ?d (CRH ?r)\<rparr>))"
    using assms(1) by (auto simp: f1_init_def rbind_Inr_conv Let_def dest: port_power_regs)
  have m: "pin mod 8 < 8" "p mod 8 < 8" by simp_all
  consider "b \<noteq> base" | "b = base" "p = pin" | "b = base" "p \<noteq> pin" "(p < 8) = (pin < 8)" | "b = base" "(p < 8) \<noteq> (pin < 8)"
    by blast
  then show ?thesis
  proof cases
    case 3
    then have "p mod 8 \<noteq> pin mod 8" using assms(2,3) by (cases "p < 8") (auto simp: mod_if)
    then have "p mod 8 * 4 + 4 \<le> pin mod 8 * 4 \<or> pin mod 8 * 4 + 4 \<le> p mod 8 * 4" by linarith
    with nibble_other [OF this _ _ f1_config_nibble [of io]] m 3 s' show ?thesis by (auto simp: pin_config_def)
  qed (use nibble_same [OF _ f1_config_nibble [of io]] m s' in \<open>auto simp: pin_config_def\<close>)
qed

text \<open>
  however many pins of the F1 are created, each pin is configured as it was last asked for, and a pin nobody
  asked for keeps its configuration, on every port.
\<close>

theorem f1_pins_keep_their_config:
  assumes "f1_creates ps s = Inr s'" "\<forall>(b, p, io) \<in> set ps. p < 16" "p < 16"
  shows "pin_config (regs s' b) p =
    (case last_io b p ps of Some io \<Rightarrow> ucast (f1_config io) | None \<Rightarrow> pin_config (regs s b) p)"
  using assms
proof (induction ps arbitrary: s)
  case (Cons q ps)
  obtain base pin io where q: "q = (base, pin, io)" by (cases q)
  with Cons.prems(1) obtain t where t: "f1_init base pin io s = Inr t" "f1_creates ps t = Inr s'"
    by (auto simp: rbind_Inr_conv f1_create_def split: if_splits)
  from f1_init_config [OF t(1) _ Cons.prems(3)] Cons.prems(2) q
  have "pin_config (regs t b) p = (if b = base \<and> p = pin then ucast (f1_config io) else pin_config (regs s b) p)" by simp
  with Cons.IH [OF t(2)] Cons.prems(2,3) q show ?case by (auto split: option.splits)
qed simp

definition f1_reset :: f1_state where
  "f1_reset = \<lparr>ck_enabled = 0, APB2ENR = 0,
     regs = (\<lambda>_. \<lparr>CRL = 0x44444444, CRH = 0x44444444, IDR = 0, writes = []\<rparr>)\<rparr>"

theorem f1_pins_keep_their_config_witness:
  "\<exists>s. f1_creates [(PortA, 3, IO_OUTPUT), (PortA, 11, IO_OUTPUT OR IO_OPEN_DRAIN), (PortA, 3, IO_INPUT)] f1_reset = Inr s \<and>
     pin_config (regs s PortA) 3 = 0x4 \<and> pin_config (regs s PortA) 11 = 0x7 \<and> pin_config (regs s PortB) 3 = 0x4"
proof -
  let ?ps = "[(PortA, 3, IO_OUTPUT), (PortA, 11, IO_OUTPUT OR IO_OPEN_DRAIN), (PortA, 3, IO_INPUT)]"
  have "isl (f1_creates ?ps f1_reset) = False"
    by (simp add: f1_create_def f1_init_def enable_port_power_def f1_reset_def Let_def io_defs)
  then obtain s where s: "f1_creates ?ps f1_reset = Inr s" by (cases "f1_creates ?ps f1_reset") auto
  note c = f1_pins_keep_their_config [OF s]
  from c [of 3 PortA] c [of 11 PortA] c [of 3 PortB] s show ?thesis
    by (simp add: f1_config_def io_defs Let_def) (simp add: pin_config_def f1_reset_def)
qed

text \<open>
  An input with a pull-up or a pull-down gets the two configuration bits \<^verbatim>\<open>11\<close>, which the manual of the STM32F1
  reserves; a pull-up or pull-down is \<^verbatim>\<open>10\<close>. The output data bit that selects between the two is never written.
\<close>

lemma f1_pull_is_reserved:
  "f1_config (IO_INPUT OR IO_PULL_UP) = 0b1100 \<and> f1_config (IO_INPUT OR IO_PULL_DOWN) = 0b1100"
  by (simp add: f1_config_def io_defs Let_def)

subsection \<open>Pins over the hardware library\<close>

datatype gpio_port = GPIOA | GPIOB | GPIOC | GPIOD | GPIOE | GPIOF | GPIOG | GPIOH | GPIOI | GPIOJ | OtherPort

datatype gpio_mode = MODE_IT_RISING | MODE_IT_FALLING | MODE_IT_RISING_FALLING | MODE_OTHER nat

datatype irqn = EXTI0 | EXTI1 | EXTI2 | EXTI3 | EXTI4 | EXTI9_5 | EXTI15_10

datatype gpio_call =
  GPIO_CLK_ENABLE gpio_port
| HAL_GPIO_Init gpio_port u16 gpio_mode "u32 option"
| HAL_GPIO_WritePin gpio_port u16 bool
| HAL_GPIO_TogglePin gpio_port u16
| NVIC_SetPriority irqn nat
| NVIC_EnableIRQ irqn

definition GPIO_PIN :: "nat \<Rightarrow> u16" where
  "GPIO_PIN n = push_bit n 1"

text \<open>The cases of the two \<^verbatim>\<open>switch\<close> statements: the pin that is exactly one of the sixteen masks.\<close>

definition pin_to_idx :: "u16 \<Rightarrow> nat result" where
  "pin_to_idx pin = (case find (\<lambda>n. pin = GPIO_PIN n) [0..<16] of Some n \<Rightarrow> Inr n | None \<Rightarrow> Inl AssertFailed)"

definition irq_of_idx :: "nat \<Rightarrow> irqn" where
  "irq_of_idx n =
     (if n = 0 then EXTI0 else if n = 1 then EXTI1 else if n = 2 then EXTI2 else if n = 3 then EXTI3
      else if n = 4 then EXTI4 else if n \<le> 9 then EXTI9_5 else EXTI15_10)"

definition pin_to_irq :: "u16 \<Rightarrow> irqn result" where
  "pin_to_irq pin = (case find (\<lambda>n. pin = GPIO_PIN n) [0..<16] of Some n \<Rightarrow> Inr (irq_of_idx n) | None \<Rightarrow> Inl AssertFailed)"

record arm_gpio =
  gport :: gpio_port
  gpin :: u16
  gfn :: nat
  garg :: nat
  irq_enabled :: bool

record gpio_state =
  busy_map :: "gpio_port \<Rightarrow> u16"
  interrupt_table :: "nat \<Rightarrow> nat option"
  objs :: "arm_gpio list"
  gtrace :: "gpio_call list"

definition busy :: "gpio_port \<Rightarrow> u16 \<Rightarrow> bool \<Rightarrow> gpio_state \<Rightarrow> gpio_state result" where
  "busy p pin on s =
     (if p \<noteq> GPIOA \<and> p \<noteq> GPIOB \<and> p \<noteq> GPIOC then Inl AssertFailed
      else if on then
        (if busy_map s p AND pin \<noteq> 0 then Inl AssertFailed
         else Inr (s\<lparr>busy_map := (busy_map s)(p := busy_map s p OR pin)\<rparr>))
      else Inr (s\<lparr>busy_map := (busy_map s)(p := busy_map s p AND NOT pin)\<rparr>))"

text \<open>\<open>hi\<close> and \<open>hj\<close>: the processor has the ports I and J.\<close>

definition gpio_enable_clock :: "bool \<Rightarrow> bool \<Rightarrow> gpio_port \<Rightarrow> gpio_state \<Rightarrow> gpio_state result" where
  "gpio_enable_clock hi hj p s =
     (if p = OtherPort \<or> p = GPIOI \<and> \<not> hi \<or> p = GPIOJ \<and> \<not> hj then Inl AssertFailed
      else Inr (s\<lparr>gtrace := gtrace s @ [GPIO_CLK_ENABLE p]\<rparr>))"

definition gpio_init :: "bool \<Rightarrow> bool \<Rightarrow> bool \<Rightarrow> gpio_port \<Rightarrow> u16 \<Rightarrow> gpio_mode \<Rightarrow> u32 \<Rightarrow> gpio_state \<Rightarrow> gpio_state result" where
  "gpio_init f4 hi hj p pin mode alt_fn s =
     rbind (busy p pin True s) (\<lambda>s.
     rbind (gpio_enable_clock hi hj p s) (\<lambda>s.
       Inr (s\<lparr>gtrace := gtrace s @ [HAL_GPIO_Init p pin mode (if f4 then Some alt_fn else None)]\<rparr>)))"

definition arm_gpio_set :: "arm_gpio \<Rightarrow> bool \<Rightarrow> gpio_state \<Rightarrow> gpio_state" where
  "arm_gpio_set g on s = s\<lparr>gtrace := gtrace s @ [HAL_GPIO_WritePin (gport g) (gpin g) on]\<rparr>"

definition arm_gpio_toggle :: "arm_gpio \<Rightarrow> gpio_state \<Rightarrow> gpio_state" where
  "arm_gpio_toggle g s = s\<lparr>gtrace := gtrace s @ [HAL_GPIO_TogglePin (gport g) (gpin g)]\<rparr>"

definition arm_gpio_get :: "(gpio_port \<Rightarrow> u16 \<Rightarrow> bool) \<Rightarrow> arm_gpio \<Rightarrow> bool" where
  "arm_gpio_get read g = read (gport g) (gpin g)"

text \<open>The constructor; the object is the number of it among all made so far.\<close>

definition ARM_GPIO ::
    "bool \<Rightarrow> bool \<Rightarrow> bool \<Rightarrow> gpio_port \<Rightarrow> u16 \<Rightarrow> gpio_mode \<Rightarrow> u32 \<Rightarrow> gpio_state \<Rightarrow> (nat \<times> gpio_state) result" where
  "ARM_GPIO f4 hi hj p pin mode alt_fn s =
     (let g = \<lparr>gport = p, gpin = pin, gfn = 0, garg = 0, irq_enabled = False\<rparr>; this = length (objs s) in
      rbind (gpio_init f4 hi hj p pin mode alt_fn (arm_gpio_set g False s)) (\<lambda>s.
        case mode of
          MODE_OTHER _ \<Rightarrow> Inr (this, s\<lparr>objs := objs s @ [g]\<rparr>)
        | _ \<Rightarrow>
            rbind (pin_to_irq pin) (\<lambda>irq.
            let s = s\<lparr>gtrace := gtrace s @ [NVIC_SetPriority irq 6, NVIC_EnableIRQ irq]\<rparr> in
            rbind (pin_to_idx pin) (\<lambda>idx.
              if interrupt_table s idx \<noteq> None then Inl AssertFailed
              else Inr (this, s\<lparr>interrupt_table := (interrupt_table s)(idx := Some this),
                                objs := objs s @ [g\<lparr>irq_enabled := True\<rparr>]\<rparr>)))))"

definition gpio_destroy :: "arm_gpio \<Rightarrow> gpio_state \<Rightarrow> gpio_state result" where
  "gpio_destroy g s = rbind (busy (gport g) (gpin g) False s) (\<lambda>_. Inl AssertFailed)"

definition gpio_alloc :: "gpio_port \<Rightarrow> u16 \<Rightarrow> gpio_state \<Rightarrow> gpio_state result" where
  "gpio_alloc p pin = busy p pin True"

definition gpio_set_handler :: "nat \<Rightarrow> nat \<Rightarrow> nat \<Rightarrow> gpio_state \<Rightarrow> gpio_state result" where
  "gpio_set_handler i fn a s =
     (if \<not> irq_enabled (objs s ! i) then Inl AssertFailed
      else Inr (s\<lparr>objs := (objs s)[i := (objs s ! i)\<lparr>gfn := fn, garg := a\<rparr>]\<rparr>))"

text \<open>The handler called, and its argument, if there is one.\<close>

definition gpio_on_interrupt :: "arm_gpio \<Rightarrow> (nat \<times> nat) option" where
  "gpio_on_interrupt g = (if gfn g \<noteq> 0 then Some (gfn g, garg g) else None)"

definition HAL_GPIO_EXTI_Callback :: "u16 \<Rightarrow> gpio_state \<Rightarrow> (nat \<times> nat) option result" where
  "HAL_GPIO_EXTI_Callback pin s =
     rbind (pin_to_idx pin) (\<lambda>idx.
       case interrupt_table s idx of
         None \<Rightarrow> Inl AssertFailed
       | Some g \<Rightarrow> Inr (gpio_on_interrupt (objs s ! g)))"

text \<open>The pins of an interrupt, and those of them that it hands to the library for a word of pending flags.\<close>

fun irq_pins :: "irqn \<Rightarrow> nat list" where
  "irq_pins EXTI0 = [0]"
| "irq_pins EXTI1 = [1]"
| "irq_pins EXTI2 = [2]"
| "irq_pins EXTI3 = [3]"
| "irq_pins EXTI4 = [4]"
| "irq_pins EXTI9_5 = [5, 6, 7, 8, 9]"
| "irq_pins EXTI15_10 = [10, 11, 12, 13, 14, 15]"

definition exti_handler :: "irqn \<Rightarrow> u16 \<Rightarrow> u16 list" where
  "exti_handler irq pending = map GPIO_PIN (filter (\<lambda>n. pending AND GPIO_PIN n \<noteq> 0) (irq_pins irq))"

subsection \<open>An interrupt reaches its pin\<close>

lemma bit_GPIO_PIN: "bit (GPIO_PIN n) m \<longleftrightarrow> m = n \<and> n < 16"
  by (auto simp: GPIO_PIN_def bit_simps)

lemma GPIO_PIN_inj: "m < 16 \<Longrightarrow> GPIO_PIN m = GPIO_PIN n \<longleftrightarrow> m = n"
  by (metis bit_GPIO_PIN)

lemma find_pin: "n < 16 \<Longrightarrow> find (\<lambda>m. GPIO_PIN n = GPIO_PIN m) [0..<16] = Some n"
  unfolding find_Some_iff by (rule exI [of _ n]) (auto simp: GPIO_PIN_inj)

lemma pin_to_idx_eq: "pin_to_idx pin = Inr n \<longleftrightarrow> n < 16 \<and> pin = GPIO_PIN n"
proof
  show "pin_to_idx pin = Inr n \<Longrightarrow> n < 16 \<and> pin = GPIO_PIN n"
    by (auto simp: pin_to_idx_def find_Some_iff split: option.splits)
qed (auto simp: pin_to_idx_def find_pin)

datatype gpio_op = OCreate gpio_port u16 gpio_mode u32 | OAlloc gpio_port u16 | OHandler nat nat nat | OSet nat bool | OToggle nat

text \<open>\<open>OCreate\<close> stands for \<^verbatim>\<open>gpio_create\<close>; the other operations need an object that was made.\<close>

fun gpio_do :: "bool \<Rightarrow> bool \<Rightarrow> bool \<Rightarrow> gpio_op \<Rightarrow> gpio_state \<Rightarrow> gpio_state result" where
  "gpio_do f4 hi hj (OCreate p pin mode alt) s = rbind (ARM_GPIO f4 hi hj p pin mode alt s) (\<lambda>(_, s). Inr s)"
| "gpio_do f4 hi hj (OAlloc p pin) s = gpio_alloc p pin s"
| "gpio_do f4 hi hj (OHandler i fn a) s = (if i < length (objs s) then gpio_set_handler i fn a s else Inr s)"
| "gpio_do f4 hi hj (OSet i on) s = Inr (if i < length (objs s) then arm_gpio_set (objs s ! i) on s else s)"
| "gpio_do f4 hi hj (OToggle i) s = Inr (if i < length (objs s) then arm_gpio_toggle (objs s ! i) s else s)"

fun gpio_ops :: "bool \<Rightarrow> bool \<Rightarrow> bool \<Rightarrow> gpio_op list \<Rightarrow> gpio_state \<Rightarrow> gpio_state result" where
  "gpio_ops f4 hi hj [] s = Inr s"
| "gpio_ops f4 hi hj (op # ops) s = rbind (gpio_do f4 hi hj op s) (gpio_ops f4 hi hj ops)"

definition gpio_reset :: gpio_state where
  "gpio_reset = \<lparr>busy_map = (\<lambda>_. 0), interrupt_table = (\<lambda>_. None), objs = [], gtrace = []\<rparr>"

definition gpio_inv :: "gpio_state \<Rightarrow> bool" where
  "gpio_inv s \<longleftrightarrow>
     (\<forall>g \<in> set (objs s). gpin g AND busy_map s (gport g) = gpin g) \<and>
     (\<forall>i < length (objs s). \<forall>j < i. gport (objs s ! i) = gport (objs s ! j) \<longrightarrow> gpin (objs s ! i) AND gpin (objs s ! j) = 0) \<and>
     (\<forall>n i. interrupt_table s n = Some i \<longrightarrow> i < length (objs s)) \<and>
     (\<forall>i < length (objs s). irq_enabled (objs s ! i) \<longrightarrow>
        (\<exists>n < 16. gpin (objs s ! i) = GPIO_PIN n \<and> interrupt_table s n = Some i))"

lemma busy_ok:
  "busy p pin True s = Inr s' \<Longrightarrow> busy_map s p AND pin = 0 \<and> s' = s\<lparr>busy_map := (busy_map s)(p := busy_map s p OR pin)\<rparr>"
  by (auto simp: busy_def split: if_splits)

lemma gpio_init_ok:
  "gpio_init f4 hi hj p pin mode alt s = Inr s' \<Longrightarrow> busy_map s p AND pin = 0 \<and>
    busy_map s' = (busy_map s)(p := busy_map s p OR pin) \<and> objs s' = objs s \<and> interrupt_table s' = interrupt_table s"
  by (auto simp: gpio_init_def gpio_enable_clock_def rbind_Inr_conv dest!: busy_ok split: if_splits)

lemma gpio_create_ok:
  assumes "ARM_GPIO f4 hi hj p pin mode alt s = Inr (i, s')"
  shows "i = length (objs s) \<and> busy_map s p AND pin = 0 \<and> busy_map s' = (busy_map s)(p := busy_map s p OR pin) \<and>
    (\<exists>e. objs s' = objs s @ [\<lparr>gport = p, gpin = pin, gfn = 0, garg = 0, irq_enabled = e\<rparr>] \<and>
       (if e then \<exists>n < 16. pin = GPIO_PIN n \<and> interrupt_table s n = None \<and> interrupt_table s' = (interrupt_table s)(n := Some i)
        else interrupt_table s' = interrupt_table s))"
proof -
  let ?g = "\<lparr>gport = p, gpin = pin, gfn = 0, garg = 0, irq_enabled = False\<rparr>"
  obtain t where t: "gpio_init f4 hi hj p pin mode alt (arm_gpio_set ?g False s) = Inr t"
    using assms by (auto simp: ARM_GPIO_def Let_def rbind_Inr_conv)
  have o: "busy_map s p AND pin = 0" "busy_map t = (busy_map s)(p := busy_map s p OR pin)" "objs t = objs s"
      "interrupt_table t = interrupt_table s"
    using gpio_init_ok [OF t] by (simp_all add: arm_gpio_set_def)
  show ?thesis
  proof (cases "\<exists>m. mode = MODE_OTHER m")
    case True
    with assms t have "i = length (objs s) \<and> s' = t\<lparr>objs := objs t @ [?g]\<rparr>" by (auto simp: ARM_GPIO_def Let_def)
    with o show ?thesis by (auto intro: exI [of _ False])
  next
    case False
    then have "rbind (pin_to_irq pin) (\<lambda>irq. rbind (pin_to_idx pin) (\<lambda>idx.
        if interrupt_table t idx \<noteq> None then Inl AssertFailed
        else Inr (length (objs s), t\<lparr>gtrace := gtrace t @ [NVIC_SetPriority irq 6, NVIC_EnableIRQ irq],
               interrupt_table := (interrupt_table t)(idx := Some (length (objs s))), objs := objs t @ [?g\<lparr>irq_enabled := True\<rparr>]\<rparr>)))
      = Inr (i, s')"
      using assms t by (cases mode) (simp_all add: ARM_GPIO_def Let_def cong: if_cong)
    then obtain irq idx where x: "pin_to_idx pin = Inr idx" "interrupt_table t idx = None" "i = length (objs s)"
      "s' = t\<lparr>gtrace := gtrace t @ [NVIC_SetPriority irq 6, NVIC_EnableIRQ irq],
               interrupt_table := (interrupt_table t)(idx := Some (length (objs s))), objs := objs t @ [?g\<lparr>irq_enabled := True\<rparr>]\<rparr>"
      by (auto simp: rbind_Inr_conv split: if_splits)
    with o show ?thesis by (auto simp: pin_to_idx_eq)
  qed
qed

lemma count_distinct: "distinct xs \<Longrightarrow> x \<in> set xs \<Longrightarrow> count_list xs x = 1"
  by (induction xs) (auto simp: count_list_0_iff)

lemma word_subset_bit: "a AND m = a \<Longrightarrow> bit a n \<Longrightarrow> bit (m :: 'a :: len word) n"
  by (metis bit_and_iff)

lemma and_or_subset:
  assumes "a AND m = a"
  shows "a AND (m OR p) = (a :: 'a :: len word)"
proof (rule bit_word_eqI)
  fix n
  from word_subset_bit [OF assms, of n] show "bit (a AND (m OR p)) n = bit a n" by (auto simp: bit_simps)
qed

lemma and_disjoint: "a AND m = a \<Longrightarrow> m AND p = 0 \<Longrightarrow> p AND a = (0 :: 'a :: len word)"
  by (metis and.assoc and.commute and_zero_eq)

lemma gpio_do_inv [inv_intros]:
  assumes inv: "gpio_inv s" and op: "gpio_do f4 hi hj op s = Inr s'"
  shows "gpio_inv s'"
proof (cases op)
  case (OCreate p pin mode alt)
  with op obtain i where c: "ARM_GPIO f4 hi hj p pin mode alt s = Inr (i, s')" by (auto simp: rbind_Inr_conv)
  note d = gpio_create_ok [OF c]
  then obtain e where e: "objs s' = objs s @ [\<lparr>gport = p, gpin = pin, gfn = 0, garg = 0, irq_enabled = e\<rparr>]"
    "if e then \<exists>n < 16. pin = GPIO_PIN n \<and> interrupt_table s n = None \<and> interrupt_table s' = (interrupt_table s)(n := Some i)
     else interrupt_table s' = interrupt_table s" by blast
  have i: "i = length (objs s)" and b: "busy_map s p AND pin = 0" "busy_map s' = (busy_map s)(p := busy_map s p OR pin)"
    using d by blast+
  have sub: "\<forall>g \<in> set (objs s). gpin g AND busy_map s (gport g) = gpin g" using inv by (simp add: gpio_inv_def)
  have "\<forall>g \<in> set (objs s'). gpin g AND busy_map s' (gport g) = gpin g"
    using sub by (auto simp: e(1) b(2) and_or_subset bit.conj_disj_distrib)
  moreover have "gpin (objs s' ! k) AND gpin (objs s' ! j) = 0"
    if "k < length (objs s')" "j < k" "gport (objs s' ! k) = gport (objs s' ! j)" for k j
  proof (cases "k < length (objs s)")
    case True
    with that inv show ?thesis by (simp add: gpio_inv_def e(1) nth_append)
  next
    case False
    then have "k = length (objs s)" using that(1) by (simp add: e(1))
    with that e(1) have j: "j < length (objs s)" "gport (objs s ! j) = p" "gpin (objs s' ! k) = pin" "objs s' ! j = objs s ! j"
      by (simp_all add: nth_append)
    then have "gpin (objs s ! j) AND busy_map s p = gpin (objs s ! j)" using sub by (metis nth_mem)
    with and_disjoint b(1) j show ?thesis by metis
  qed
  moreover have "\<forall>n k. interrupt_table s' n = Some k \<longrightarrow> k < length (objs s')"
    using inv e i by (auto simp: gpio_inv_def less_Suc_eq split: if_splits)
  moreover have "\<exists>n < 16. gpin (objs s' ! k) = GPIO_PIN n \<and> interrupt_table s' n = Some k"
    if "k < length (objs s')" "irq_enabled (objs s' ! k)" for k
  proof (cases "k < length (objs s)")
    case True
    then have "irq_enabled (objs s ! k)" using that(2) by (simp add: e(1) nth_append)
    then obtain n where n: "n < 16" "gpin (objs s ! k) = GPIO_PIN n" "interrupt_table s n = Some k"
      using inv True by (auto simp: gpio_inv_def)
    with e True show ?thesis by (intro exI [of _ n]) (auto simp: nth_append split: if_splits)
  next
    case False
    then have "k = length (objs s)" using that(1) by (simp add: e(1))
    with that e i show ?thesis by (auto simp: split: if_splits)
  qed
  ultimately show ?thesis by (auto simp: gpio_inv_def)
next
  case (OAlloc p pin)
  with op have "busy_map s' = (busy_map s)(p := busy_map s p OR pin) \<and> objs s' = objs s \<and> interrupt_table s' = interrupt_table s"
    by (auto simp: gpio_alloc_def dest!: busy_ok)
  with inv show ?thesis by (auto simp: gpio_inv_def and_or_subset)
next
  case (OHandler i fn a)
  with op inv show ?thesis
    by (auto simp: gpio_set_handler_def gpio_inv_def nth_list_update split: if_splits dest!: set_update_subset_insert [THEN subsetD])
next
  case (OSet i on)
  with op inv show ?thesis by (auto simp: arm_gpio_set_def gpio_inv_def split: if_splits)
next
  case (OToggle i)
  with op inv show ?thesis by (auto simp: arm_gpio_toggle_def gpio_inv_def split: if_splits)
qed

lemma gpio_ops_inv: "gpio_inv s \<Longrightarrow> gpio_ops f4 hi hj ops s = Inr s' \<Longrightarrow> gpio_inv s'"
  by (induction ops arbitrary: s) (auto simp: rbind_Inr_conv dest: gpio_do_inv)

lemma irq_pins_self: "n < 16 \<Longrightarrow> n \<in> set (irq_pins (irq_of_idx n))"
  by (auto simp: irq_of_idx_def)

lemma irq_pins_less: "n \<in> set (irq_pins irq) \<Longrightarrow> n < 16"
  by (cases irq) auto

lemma exti_handler_distinct: "distinct (exti_handler irq pending)"
proof -
  have "distinct (irq_pins irq)" by (cases irq) simp_all
  moreover have "inj_on GPIO_PIN (set (irq_pins irq))" by (auto simp: inj_on_def GPIO_PIN_inj dest: irq_pins_less)
  ultimately show ?thesis by (auto simp: exti_handler_def distinct_map intro: inj_on_subset)
qed

text \<open>
  C37: after any operations on the pins that did not assert, a pin that was made for interrupts belongs to one object:
  when its flag is pending, its interrupt hands it to the library exactly once, and the call back finds the object
  and calls its handler with its argument; and no two objects share a pin.
\<close>

theorem gpio_interrupt_reaches_owner:
  assumes "gpio_ops f4 hi hj ops gpio_reset = Inr s" "i < length (objs s)" "irq_enabled (objs s ! i)"
  shows "\<exists>n < 16. gpin (objs s ! i) = GPIO_PIN n \<and> pin_to_irq (gpin (objs s ! i)) = Inr (irq_of_idx n) \<and>
    (\<forall>pending. pending AND GPIO_PIN n \<noteq> 0 \<longrightarrow>
       count_list (exti_handler (irq_of_idx n) pending) (GPIO_PIN n) = 1) \<and>
    HAL_GPIO_EXTI_Callback (GPIO_PIN n) s = Inr (gpio_on_interrupt (objs s ! i)) \<and>
    (\<forall>j < length (objs s). j \<noteq> i \<and> gport (objs s ! j) = gport (objs s ! i) \<longrightarrow> gpin (objs s ! j) AND gpin (objs s ! i) = 0)"
proof -
  have inv: "gpio_inv s"
    by (rule gpio_ops_inv [OF _ assms(1)]) (simp add: gpio_inv_def gpio_reset_def)
  with assms(2,3) obtain n where n: "n < 16" "gpin (objs s ! i) = GPIO_PIN n" "interrupt_table s n = Some i"
    by (auto simp: gpio_inv_def)
  have "count_list (exti_handler (irq_of_idx n) pending) (GPIO_PIN n) = 1" if "pending AND GPIO_PIN n \<noteq> 0" for pending
  proof -
    have "GPIO_PIN n \<in> set (exti_handler (irq_of_idx n) pending)"
      using that irq_pins_self [OF n(1)] by (auto simp: exti_handler_def)
    with exti_handler_distinct show ?thesis by (rule count_distinct)
  qed
  moreover have "HAL_GPIO_EXTI_Callback (GPIO_PIN n) s = Inr (gpio_on_interrupt (objs s ! i))"
  proof -
    have "pin_to_idx (GPIO_PIN n) = Inr n" using n(1) by (simp add: pin_to_idx_eq)
    with n(3) show ?thesis by (simp add: HAL_GPIO_EXTI_Callback_def)
  qed
  moreover have "gpin (objs s ! j) AND gpin (objs s ! i) = 0"
    if "j < length (objs s)" "j \<noteq> i" "gport (objs s ! j) = gport (objs s ! i)" for j
    using inv that assms(2) unfolding gpio_inv_def by (metis and.commute linorder_neqE_nat)
  ultimately show ?thesis using n by (intro exI [of _ n]) (simp add: pin_to_irq_def find_pin)
qed

definition gpio_script :: "gpio_op list" where
  "gpio_script = [OCreate GPIOA (GPIO_PIN 3) (MODE_OTHER 1) 0, OCreate GPIOB (GPIO_PIN 7) MODE_IT_RISING 0,
     OCreate GPIOC (GPIO_PIN 8) MODE_IT_FALLING 0, OHandler 1 40 41, OHandler 2 50 51]"

theorem gpio_interrupt_reaches_owner_witness:
  "\<exists>s. gpio_ops True True False gpio_script gpio_reset = Inr s \<and> HAL_GPIO_EXTI_Callback (GPIO_PIN 7) s = Inr (Some (40, 41))"
proof -
  obtain s where s: "gpio_ops True True False gpio_script gpio_reset = Inr s" "length (objs s) = 3" "irq_enabled (objs s ! 1)"
      "gpio_on_interrupt (objs s ! 1) = Some (40, 41)" "gpin (objs s ! 1) = GPIO_PIN 7"
    by (simp add: gpio_script_def gpio_reset_def ARM_GPIO_def gpio_init_def busy_def gpio_enable_clock_def arm_gpio_set_def Let_def
        pin_to_irq_def pin_to_idx_def find_pin gpio_set_handler_def gpio_on_interrupt_def)
  from gpio_interrupt_reaches_owner [OF s(1), of 1] s show ?thesis by (auto simp: GPIO_PIN_inj)
qed

text \<open>
  The constructor writes the pin before it asks whether the pin is taken and before the clock of the port is on: a
  pin in use is pulled low by whoever fails to get it.
\<close>

lemma gpio_create_writes_first:
  assumes "busy_map s p AND pin \<noteq> 0"
  shows "ARM_GPIO f4 hi hj p pin mode alt s = Inl AssertFailed"
  using assms by (simp add: ARM_GPIO_def gpio_init_def busy_def arm_gpio_set_def Let_def)

lemma gpio_create_writes_unclocked:
  assumes "ARM_GPIO f4 hi hj p pin (MODE_OTHER m) alt s = Inr (i, s')"
  shows "gtrace s' = gtrace s @ [HAL_GPIO_WritePin p pin False, GPIO_CLK_ENABLE p,
    HAL_GPIO_Init p pin (MODE_OTHER m) (if f4 then Some alt else None)]"
  using assms
  by (auto simp: ARM_GPIO_def gpio_init_def gpio_enable_clock_def arm_gpio_set_def rbind_Inr_conv Let_def busy_def split: if_splits)

end
