(* ===== verification/ArmUart.thy ===== *)
theory ArmUart
  imports Prelude
begin

text \<open>
  The serial port of the STM32F1 (stm32/uart_f1.cpp): power of the port, the ring of received characters that the
  interrupt fills, and the transmission that waits for the hardware.

  The status register is a stream of readings; the other registers are words.
\<close>

unbundle bit_operations_syntax

subsection \<open>The ports\<close>

datatype usart = USART1 | USART2 | USART3 | OtherUsart

text \<open>\<^verbatim>\<open>get_info\<close>: the bit that powers the port, whether it is in \<^verbatim>\<open>APB2ENR\<close>, and the interrupt.\<close>

fun get_info :: "usart \<Rightarrow> (u32 \<times> bool \<times> nat) option" where
  "get_info USART1 = Some (0x4000, True, 37)"
| "get_info USART2 = Some (0x20000, False, 38)"
| "get_info USART3 = Some (0x40000, False, 39)"
| "get_info OtherUsart = None"

fun usart_idx :: "usart \<Rightarrow> nat option" where
  "usart_idx USART1 = Some 0"
| "usart_idx USART2 = Some 1"
| "usart_idx USART3 = Some 2"
| "usart_idx OtherUsart = None"

text \<open>A ring that was not made has no counters: the constructor sets them only together with the buffer.\<close>

record rx_ring =
  rx_buff :: "u8 list"
  rx_wr :: u32
  rx_rd :: u32
  rx_mask :: u32

record f1_uart =
  ubase :: usart
  rx_size :: u32
  ring :: "rx_ring option"
  BRR :: u32
  CR1 :: u32

record uart_state =
  uck_enabled :: u32
  APB1ENR :: u32
  APB2ENR :: u32
  uarts :: "nat \<Rightarrow> f1_uart option"
  nvic :: "nat set"

definition uart_port_power :: "usart \<Rightarrow> uart_state \<Rightarrow> uart_state result" where
  "uart_port_power base s =
     (case get_info base of
        None \<Rightarrow> Inl AssertFailed
      | Some (pwr, apb2, _) \<Rightarrow>
          if uck_enabled s AND pwr \<noteq> 0 then Inr s
          else Inr ((if apb2 then s\<lparr>APB2ENR := APB2ENR s OR pwr\<rparr> else s\<lparr>APB1ENR := APB1ENR s OR pwr\<rparr>)
                      \<lparr>uck_enabled := uck_enabled s OR pwr\<rparr>))"

text \<open>The loop that counts the bits of the size.\<close>

function count_bits :: "u32 \<Rightarrow> nat" where
  "count_bits s = (if s = 0 then 0 else (if s AND 1 \<noteq> 0 then 1 else 0) + count_bits (drop_bit 1 s))"
  by pat_completeness auto
termination
  by (relation "measure unat") (simp_all add: drop_bit_eq_div unat_div word_greater_zero_iff unat_gt_0)

declare count_bits.simps [simp del]

definition make_buffer :: "u32 \<Rightarrow> rx_ring option result" where
  "make_buffer sz =
     (if sz = 0 then Inr None
      else if count_bits sz \<noteq> 1 then Inl AssertFailed
      else Inr (Some \<lparr>rx_buff = replicate (unat sz) 0, rx_wr = 0, rx_rd = 0, rx_mask = sz - 1\<rparr>))"

definition uart_create :: "usart \<Rightarrow> u32 \<Rightarrow> uart_state \<Rightarrow> (f1_uart \<times> uart_state) result" where
  "uart_create base sz s =
     rbind (uart_port_power base s) (\<lambda>s.
     rbind (make_buffer sz) (\<lambda>r.
       let cr1 = 0x8 OR 0x2000; u = \<lparr>ubase = base, rx_size = sz, ring = r, BRR = 0x45,
             CR1 = (if sz \<noteq> 0 then cr1 OR (0x20 OR 0x4) else cr1)\<rparr> in
       case (usart_idx base, get_info base) of
         (Some i, Some (_, _, irq)) \<Rightarrow> Inr (u, s\<lparr>uarts := (uarts s)(i := Some u), nvic := insert irq (nvic s)\<rparr>)
       | _ \<Rightarrow> Inl AssertFailed))"

subsection \<open>Receiving\<close>

definition buff_write :: "u8 \<Rightarrow> rx_ring \<Rightarrow> rx_ring" where
  "buff_write c r =
     (if rx_wr r + 1 = rx_rd r then r
      else r\<lparr>rx_buff := (rx_buff r)[unat (rx_mask r AND rx_wr r) := c], rx_wr := rx_wr r + 1\<rparr>)"

fun uart_rx :: "nat \<Rightarrow> rx_ring \<Rightarrow> u8 list \<times> rx_ring" where
  "uart_rx 0 r = ([], r)"
| "uart_rx (Suc n) r =
     (if rx_wr r = rx_rd r then ([], r)
      else let c = rx_buff r ! unat (rx_mask r AND rx_rd r); (cs, r') = uart_rx n (r\<lparr>rx_rd := rx_rd r + 1\<rparr>) in (c # cs, r'))"

definition uart_interrupt :: "bool \<Rightarrow> u8 \<Rightarrow> rx_ring \<Rightarrow> rx_ring" where
  "uart_interrupt rxne dr r = (if rxne then buff_write dr r else r)"

definition usart_irq :: "nat \<Rightarrow> bool \<Rightarrow> u8 \<Rightarrow> uart_state \<Rightarrow> uart_state result" where
  "usart_irq i rxne dr s =
     (case uarts s i of
        None \<Rightarrow> Inl AssertFailed
      | Some u \<Rightarrow>
          (case ring u of
             None \<Rightarrow> if rxne then Inl NullDeref else Inr s
           | Some r \<Rightarrow> Inr (s\<lparr>uarts := (uarts s)(i := Some (u\<lparr>ring := Some (uart_interrupt rxne dr r)\<rparr>))\<rparr>)))"

subsection \<open>Sending\<close>

text \<open>\<open>txe t\<close> is what the \<open>t\<close>th reading of the status register says; the result is the number of the next reading.\<close>

partial_function (option) wait_txe :: "(nat \<Rightarrow> bool) \<Rightarrow> nat \<Rightarrow> nat option" where
  "wait_txe txe t = (if txe t then Some (t + 1) else wait_txe txe (t + 1))"

text \<open>The characters written to the data register.\<close>

fun uart_tx :: "(nat \<Rightarrow> bool) \<Rightarrow> u8 list \<Rightarrow> nat \<Rightarrow> (u8 list \<times> nat) option" where
  "uart_tx txe [] t = Some ([], t)"
| "uart_tx txe (c # cs) t =
     (case wait_txe txe t of
        None \<Rightarrow> None
      | Some t \<Rightarrow> (case uart_tx txe cs t of None \<Rightarrow> None | Some (out, t) \<Rightarrow> Some (c # out, t)))"

lemma wait_txe_ready: "txe t' \<Longrightarrow> t \<le> t' \<Longrightarrow> \<exists>u. wait_txe txe t = Some u"
proof (induction "t' - t" arbitrary: t)
  case (Suc n)
  show ?case
  proof (cases "txe t")
    case False
    with Suc have "Suc t \<le> t'" by (metis le_eq_less_or_eq Suc_leI)
    with Suc.hyps(1) [of "t + 1"] Suc.hyps(2) Suc.prems False show ?thesis
      by (simp add: wait_txe.simps [of txe t])
  qed (simp add: wait_txe.simps)
qed (simp add: wait_txe.simps)

text \<open>
  a port whose hardware gets ready again and again sends every character, in order, and returns.
\<close>

theorem uart_sends_all:
  assumes "\<And>t. \<exists>t' \<ge> t. txe t'"
  shows "\<exists>t'. uart_tx txe cs t = Some (cs, t')"
proof (induction cs arbitrary: t)
  case (Cons c cs)
  obtain t' where "txe t'" "t \<le> t'" using assms by blast
  from wait_txe_ready [of txe, OF this] obtain u where u: "wait_txe txe t = Some u" by blast
  from Cons.IH [of u] show ?case by (auto simp: u)
qed simp

theorem uart_sends_all_witness: "\<exists>t'. uart_tx (\<lambda>t. t mod 3 = 2) [104, 105] 0 = Some ([104, 105], t')"
proof (rule uart_sends_all)
  fix t :: nat
  have "(3 * t + 2) mod 3 = 2" by presburger
  then show "\<exists>t' \<ge> t. t' mod 3 = 2" by (intro exI [of _ "3 * t + 2"]) simp
qed

subsection \<open>Characters come out in the order they came in\<close>

definition unread :: "rx_ring \<Rightarrow> u8 list \<Rightarrow> bool" where
  "unread r q \<longleftrightarrow> (\<exists>k \<le> 31. rx_mask r = of_nat (2 ^ k - 1) \<and> length (rx_buff r) = 2 ^ k \<and> length q \<le> 2 ^ k \<and>
     rx_wr r = rx_rd r + of_nat (length q) \<and>
     (\<forall>i < length q. rx_buff r ! ((unat (rx_rd r) + i) mod 2 ^ k) = q ! i))"

lemma ring_index:
  assumes "k \<le> 31"
  shows "unat ((of_nat (2 ^ k - 1) :: u32) AND w) = unat w mod 2 ^ k"
proof -
  have "(of_nat (2 ^ k - 1) :: u32) = mask k" by (simp add: mask_eq_exp_minus_1 of_nat_diff)
  then have "(of_nat (2 ^ k - 1) :: u32) AND w = take_bit k w" by (simp add: take_bit_eq_mask and.commute)
  then have "unat ((of_nat (2 ^ k - 1) :: u32) AND w) = unat (take_bit k w)" by (rule arg_cong)
  also have "\<dots> = take_bit k (unat w)" by (rule unsigned_take_bit_eq)
  also have "\<dots> = unat w mod 2 ^ k" by (rule take_bit_eq_mod)
  finally show ?thesis .
qed

lemma ring_index_add:
  assumes "k \<le> 31"
  shows "unat ((w :: u32) + of_nat n) mod 2 ^ k = (unat w + n) mod 2 ^ k"
proof -
  have d: "(2 :: nat) ^ k dvd 2 ^ 32" using assms by (intro le_imp_power_dvd) simp
  have "unat (w + of_nat n) = (unat w + n) mod 2 ^ 32"
    by (simp add: unat_word_ariths unat_of_nat mod_add_right_eq)
  then show ?thesis using d by (simp add: mod_mod_cancel)
qed

lemma mod_add_inj_le: "(a + i) mod m = (a + j) mod m \<Longrightarrow> j \<le> i \<Longrightarrow> i < m \<Longrightarrow> i = (j :: nat)"
  using mod_eq_dvd_iff_nat [of "a + j" "a + i" m] dvd_imp_le [of m "i - j"] by force

lemma mod_add_inj: "(a + i) mod m = (a + j) mod m \<Longrightarrow> i < m \<Longrightarrow> j < m \<Longrightarrow> i = (j :: nat)"
  by (metis mod_add_inj_le nle_le)

lemma of_nat_nonzero:
  assumes "0 < n" "n < 2 ^ 32"
  shows "(of_nat n :: u32) \<noteq> 0"
proof -
  have "unat (of_nat n :: u32) = n" using assms(2) by (simp add: unat_of_nat)
  with assms(1) show ?thesis by (metis less_irrefl unat_0)
qed

lemma unread_write:
  assumes "unread r q" "length q < 2 ^ k" "length (rx_buff r) = 2 ^ k"
  shows "unread (buff_write c r) (q @ [c])"
proof -
  from assms obtain k' where k': "k' \<le> 31" "rx_mask r = of_nat (2 ^ k' - 1)" "length (rx_buff r) = 2 ^ k'"
    "rx_wr r = rx_rd r + of_nat (length q)" "\<forall>i < length q. rx_buff r ! ((unat (rx_rd r) + i) mod 2 ^ k') = q ! i"
    by (auto simp: unread_def)
  with assms(3) have [simp]: "k' = k" by simp
  have le: "length q + 1 \<le> 2 ^ 31" using assms(2) k'(1) power_increasing [of k 31 "2 :: nat"] by simp
  have "(of_nat (length q + 1) :: u32) \<noteq> 0" by (rule of_nat_nonzero) (use le in simp_all)
  then have full: "rx_wr r + 1 \<noteq> rx_rd r" by (simp add: k'(4) add.assoc add.commute)
  let ?p = "\<lambda>i. (unat (rx_rd r) + i) mod 2 ^ k"
  have idx: "unat (rx_mask r AND rx_wr r) = ?p (length q)"
    using k'(1) by (simp only: k'(2) ring_index \<open>k' = k\<close> k'(4) ring_index_add)
  have other: "?p i \<noteq> ?p (length q)" if "i < length q" for i
    using mod_add_inj [of "unat (rx_rd r)" i "2 ^ k" "length q"] that assms(2) by auto
  have "(rx_buff r)[?p (length q) := c] ! ?p i = (q @ [c]) ! i" if "i < length (q @ [c])" for i
  proof (cases "i = length q")
    case True
    then show ?thesis by (simp add: assms(3))
  next
    case False
    with that have "i < length q" by simp
    with other [OF this] k'(5) show ?thesis by (simp add: nth_append)
  qed
  then show ?thesis unfolding unread_def
    by (intro exI [of _ k]) (use k' assms(2,3) full idx in \<open>simp add: buff_write_def\<close>)
qed

lemma unread_rx:
  "unread r q \<Longrightarrow> \<exists>r'. uart_rx n r = (take n q, r') \<and> unread r' (drop n q) \<and> length (rx_buff r') = length (rx_buff r)"
proof (induction n arbitrary: r q)
  case (Suc n)
  from Suc.prems obtain k where k: "k \<le> 31" "rx_mask r = of_nat (2 ^ k - 1)" "length (rx_buff r) = 2 ^ k" "length q \<le> 2 ^ k"
    "rx_wr r = rx_rd r + of_nat (length q)" "\<forall>i < length q. rx_buff r ! ((unat (rx_rd r) + i) mod 2 ^ k) = q ! i"
    by (auto simp: unread_def)
  show ?case
  proof (cases q)
    case Nil
    with Suc.prems k(5) show ?thesis by simp
  next
    case (Cons c q')
    have "length q \<le> 2 ^ 31" using k(1,4) power_increasing [of k 31 "2 :: nat"] by simp
    then have "(of_nat (length q) :: u32) \<noteq> 0" by (intro of_nat_nonzero) (use Cons in simp_all)
    then have ne: "rx_wr r \<noteq> rx_rd r" using k(5) by simp
    have c: "rx_buff r ! unat (rx_mask r AND rx_rd r) = c"
      using k(6)[rule_format, of 0] Cons by (simp only: k(2) ring_index [OF k(1)]) simp
    let ?r = "r\<lparr>rx_rd := rx_rd r + 1\<rparr>"
    have "unread ?r q'" unfolding unread_def
    proof (intro exI [of _ k] conjI allI impI)
      show "rx_buff ?r ! ((unat (rx_rd ?r) + i) mod 2 ^ k) = q' ! i" if "i < length q'" for i
      proof -
        have "(unat (rx_rd r + 1) + i) mod 2 ^ k = (unat (rx_rd r) + Suc i) mod 2 ^ k"
          using ring_index_add [OF k(1), of "rx_rd r + 1" i] ring_index_add [OF k(1), of "rx_rd r" "Suc i"]
          by (simp add: add.assoc)
        with k(6)[rule_format, of "Suc i"] that Cons show ?thesis by simp
      qed
    qed (use k Cons in simp_all)
    from Suc.IH [OF this] ne c Cons show ?thesis by (auto simp: Let_def)
  qed
qed simp

datatype uart_op = UIrq bool u8 | URx nat

fun uart_step :: "uart_op \<Rightarrow> rx_ring \<Rightarrow> (u8 list \<times> rx_ring) result option" where
  "uart_step (UIrq rxne c) r = Some (Inr ([], uart_interrupt rxne c r))"
| "uart_step (URx n) r = Some (Inr (uart_rx n r))"

text \<open>The queue of characters not yet read, with the size of the buffer.\<close>

fun uart_spec :: "uart_op \<Rightarrow> nat \<times> u8 list \<Rightarrow> u8 list \<times> nat \<times> u8 list" where
  "uart_spec (UIrq rxne c) (m, q) = ([], m, if rxne then q @ [c] else q)"
| "uart_spec (URx n) (m, q) = (take n q, m, drop n q)"

fun uart_ok :: "uart_op \<Rightarrow> nat \<times> u8 list \<Rightarrow> bool" where
  "uart_ok (UIrq rxne c) (m, q) \<longleftrightarrow> rxne \<longrightarrow> length q < m"
| "uart_ok (URx n) (m, q) \<longleftrightarrow> True"

definition uart_rep :: "rx_ring \<Rightarrow> nat \<times> u8 list \<Rightarrow> bool" where
  "uart_rep r a \<longleftrightarrow> unread r (snd a) \<and> length (rx_buff r) = fst a"

lemma write_length [simp]: "length (rx_buff (buff_write c r)) = length (rx_buff r)"
  by (simp add: buff_write_def)

lemma uart_step_sim:
  assumes "uart_rep r a" "uart_ok c a"
  shows "\<exists>r'. uart_step c r = Some (Inr (fst (uart_spec c a), r')) \<and> uart_rep r' (snd (uart_spec c a))"
proof -
  obtain m q where a: "a = (m, q)" by (cases a)
  with assms(1) have u: "unread r q" "length (rx_buff r) = m" by (simp_all add: uart_rep_def)
  show ?thesis
  proof (cases c)
    case (UIrq rxne ch)
    obtain k where "length (rx_buff r) = 2 ^ k" using u(1) by (auto simp: unread_def)
    with u UIrq a assms(2) unread_write [OF u(1), of k ch] show ?thesis
      by (auto simp: uart_interrupt_def uart_rep_def)
  next
    case (URx n)
    with unread_rx [OF u(1), of n] u(2) a show ?thesis by (auto simp: uart_rep_def)
  qed
qed

interpretation uart_queue: simulation uart_rep uart_step uart_spec uart_ok
  by unfold_locales (rule uart_step_sim)

text \<open>The sizes that \<^verbatim>\<open>make_buffer\<close> lets pass are the powers of two.\<close>

lemma unat_drop1: "unat (drop_bit 1 (s :: u32)) = unat s div 2"
proof -
  have "unat (drop_bit 1 s) = drop_bit 1 (unat s)" by (rule unat_drop_bit_eq)
  also have "\<dots> = unat s div 2" by (simp add: drop_bit_eq_div)
  finally show ?thesis .
qed

lemma and_one_odd: "(s :: u32) AND 1 \<noteq> 0 \<longleftrightarrow> odd (unat s)"
proof -
  have "unat (s AND 1) = unat s AND unat (1 :: u32)" by (rule unsigned_and_eq)
  also have "\<dots> = unat s mod 2" by (simp add: and_one_eq)
  finally have "unat (s AND 1) = unat s mod 2" .
  then show ?thesis by (metis odd_iff_mod_2_eq_one even_iff_mod_2_eq_zero unat_eq_0)
qed

lemma count_bits_0: "count_bits s = 0 \<longleftrightarrow> s = 0"
proof (induction s rule: count_bits.induct)
  case (1 s)
  show ?case
  proof (cases "s = 0")
    case False
    have "drop_bit 1 s = 0 \<Longrightarrow> s AND 1 \<noteq> 0"
    proof -
      assume "drop_bit 1 s = 0"
      then have "unat s div 2 = 0" by (metis unat_drop1 unat_0)
      moreover have "unat s \<noteq> 0" using False by (simp add: unat_eq_0)
      ultimately have "unat s = 1" by linarith
      then show ?thesis by (simp add: and_one_odd)
    qed
    with 1 False show ?thesis by (subst count_bits.simps) auto
  qed (simp add: count_bits.simps)
qed

lemma count_bits_1: "count_bits s = 1 \<Longrightarrow> \<exists>k \<le> 31. unat s = 2 ^ k"
proof -
  assume "count_bits s = 1"
  then have "\<exists>k. unat s = 2 ^ k"
  proof (induction s rule: count_bits.induct)
    case (1 s)
    then have s: "s \<noteq> 0" "(if s AND 1 \<noteq> 0 then 1 else 0) + count_bits (drop_bit 1 s) = 1"
      by (auto simp: count_bits.simps [of s] split: if_splits)
    have d: "unat (drop_bit 1 s) = unat s div 2" by (rule unat_drop1)
    show ?case
    proof (cases "s AND 1 \<noteq> 0")
      case True
      with s have "drop_bit 1 s = 0" by (simp add: count_bits_0)
      then have "unat s div 2 = 0" using d by simp
      moreover have "odd (unat s)" using True by (simp add: and_one_odd)
      ultimately have "unat s = 1" by presburger
      then have "unat s = 2 ^ 0" by simp
      then show ?thesis by blast
    next
      case False
      with s(2) have "count_bits (drop_bit 1 s) = 1" by simp
      with 1(1) s(1) obtain k where "unat (drop_bit 1 s) = 2 ^ k" by blast
      then have "unat s div 2 = 2 ^ k" by (simp only: d)
      moreover have "even (unat s)" using False and_one_odd by blast
      ultimately have "unat s = 2 ^ Suc k" by auto
      then show ?thesis by blast
    qed
  qed
  then obtain k where k: "unat s = 2 ^ k" by blast
  have "unat s < 2 ^ LENGTH(32)" by (rule unsigned_less)
  then have "(2 :: nat) ^ k < 2 ^ 32" using k by simp
  then have "k < 32" by (rule power_less_imp_less_exp [rotated]) simp
  with k show ?thesis by (intro exI [of _ k]) simp
qed

lemma make_buffer_rep:
  assumes "make_buffer sz = Inr (Some r)"
  shows "uart_rep r (unat sz, [])"
proof -
  from assms have r: "count_bits sz = 1" "r = \<lparr>rx_buff = replicate (unat sz) 0, rx_wr = 0, rx_rd = 0, rx_mask = sz - 1\<rparr>"
    by (auto simp: make_buffer_def split: if_splits)
  from count_bits_1 [OF r(1)] obtain k where k: "k \<le> 31" "unat sz = 2 ^ k" by blast
  have "sz = of_nat (2 ^ k)" using k(2) by (metis of_nat_unat ucast_id)
  then have "sz - 1 = of_nat (2 ^ k - 1)" by (simp add: of_nat_diff)
  with r k show ?thesis by (auto simp: uart_rep_def unread_def intro!: exI [of _ k])
qed

text \<open>
  C35: a port made with a buffer gives the characters out in the order they came in, across any number of interrupts
  and readings and the wrap-around of the two counters, as long as no more wait than the buffer holds.
\<close>

theorem uart_receives_in_order:
  assumes "make_buffer sz = Inr (Some r)" "run_ok uart_spec uart_ok ops (unat sz, [])"
  shows "\<exists>r'. run_impl uart_step ops r = Some (Inr (fst (run_spec uart_spec ops (unat sz, [])), r'))"
  using uart_queue.run_sim [OF make_buffer_rep [OF assms(1)] assms(2)] by blast

theorem uart_receives_in_order_witness:
  "\<exists>r r'. make_buffer 2 = Inr (Some r) \<and>
     run_impl uart_step [UIrq True 7, UIrq False 0, UIrq True 8, URx 1, UIrq True 9, URx 5] r = Some (Inr ([[], [], [], [7], [], [8, 9]], r'))"
proof -
  have "count_bits 2 = 1" by (simp add: count_bits.simps)
  then obtain r where r: "make_buffer 2 = Inr (Some r)" by (simp add: make_buffer_def)
  with uart_receives_in_order [OF r, of "[UIrq True 7, UIrq False 0, UIrq True 8, URx 1, UIrq True 9, URx 5]"] show ?thesis
    by simp
qed

text \<open>
  The test for a full buffer compares counters that run freely, so a full buffer is not seen: the next character
  overwrites the oldest, and the reader gets it first and then once more.
\<close>

lemma full_is_not_seen:
  "fst (uart_rx 3 (buff_write 9 (buff_write 8 (buff_write 7 \<lparr>rx_buff = [0, 0], rx_wr = 0, rx_rd = 0, rx_mask = 1\<rparr>)))) = [9, 8, 9]"
  by (simp add: buff_write_def numeral_3_eq_3)

text \<open>Without a buffer a reader looks at counters that were never set.\<close>

lemma no_buffer_no_counters: "uart_create USART1 0 s = Inr (u, s') \<Longrightarrow> ring u = None \<and> CR1 u = 0x2008"
  by (auto simp: uart_create_def make_buffer_def rbind_Inr_conv Let_def)

text \<open>A created port's interrupt finds it.\<close>

lemma uart_irq_finds_port:
  assumes "uart_create base sz s = Inr (u, s')" "sz \<noteq> 0"
  shows "\<exists>i irq. usart_idx base = Some i \<and> irq \<in> nvic s' \<and> (\<exists>t. usart_irq i rxne c s' = Inr t)"
proof -
  from assms obtain t r where t: "uart_port_power base s = Inr t" "make_buffer sz = Inr (Some r)"
    by (auto simp: uart_create_def rbind_Inr_conv make_buffer_def split: if_splits)
  with assms(1) show ?thesis by (cases base) (auto simp: uart_create_def Let_def usart_irq_def)
qed

end
