(* ===== verification/EspPort.thy ===== *)
theory EspPort
  imports Prelude
begin

text \<open>
  Pins, pulses, buses and serial ports of the ESP32 port: esp32/gpio.cpp with its map of pins in use, esp32/pwm.cpp,
  esp32/adc.cpp, esp32/i2c.cpp with its list of devices, and esp32/uart.cpp.

  ESP-IDF is a trace of calls and a parameter \<open>ok\<close> that says of each whether it returns \<^verbatim>\<open>ESP_OK\<close>.
\<close>

unbundle bit_operations_syntax

subsection \<open>Pins in use\<close>

datatype idf_call =
  gpio_config u64 nat bool bool
| gpio_set_level int bool
| gpio_install_isr_service
| gpio_isr_handler_add int
| gpio_isr_handler_remove int
| gpio_set_intr_type int nat
| ledc_timer_config int int
| ledc_channel_config int nat int
| ledc_set_duty nat u32
| ledc_update_duty nat
| i2c_new_master_bus int int
| i2c_del_master_bus
| i2c_add_device u8 nat
| i2c_rm_device nat
| i2c_master_probe u8 u32
| i2c_transmit nat "u8 list"
| i2c_transmit_receive nat "u8 list" nat
| i2c_receive nat nat
| uart_param_config nat u32
| uart_set_pin nat u32 u32
| uart_driver_install nat nat
| uart_set_select_notif_callback nat
| uart_write_bytes nat "u8 list"

record esp_state =
  used :: u64
  has_irqs :: bool
  calls :: "idf_call list"

type_synonym esp_ok = "idf_call list \<Rightarrow> idf_call \<Rightarrow> bool"

definition esp_do :: "esp_ok \<Rightarrow> idf_call \<Rightarrow> esp_state \<Rightarrow> esp_state result" where
  "esp_do ok c s = (if ok (calls s) c then Inr (s\<lparr>calls := calls s @ [c]\<rparr>) else Inl AssertFailed)"

text \<open>A call whose status the caller looks at.\<close>

definition esp_try :: "esp_ok \<Rightarrow> idf_call \<Rightarrow> esp_state \<Rightarrow> bool \<times> esp_state" where
  "esp_try ok c s = (ok (calls s) c, s\<lparr>calls := calls s @ [c]\<rparr>)"

text \<open>A shift by 64 or more is undefined.\<close>

definition pin_mask :: "int \<Rightarrow> u64 result" where
  "pin_mask pin = (if pin < 0 then Inl AssertFailed else if 64 \<le> pin then Inl OutOfBounds else Inr (push_bit (nat pin) 1))"

definition mark_used :: "int \<Rightarrow> esp_state \<Rightarrow> esp_state result" where
  "mark_used pin s =
     rbind (pin_mask pin) (\<lambda>m. if m AND used s \<noteq> 0 then Inl AssertFailed else Inr (s\<lparr>used := used s OR m\<rparr>))"

definition mark_unused :: "int \<Rightarrow> esp_state \<Rightarrow> esp_state result" where
  "mark_unused pin s = rbind (pin_mask pin) (\<lambda>m. Inr (s\<lparr>used := used s AND NOT m\<rparr>))"

subsection \<open>A pin\<close>

datatype interrupt = OFF | RISE | FALL | CHANGE

record esp_gpio =
  pin :: int
  is_output :: bool
  state :: bool
  gfn :: nat
  garg :: nat

definition IP :: u32 where "IP = 1"
definition OP :: u32 where "OP = 2"
definition OD :: u32 where "OD = 4"
definition PU :: u32 where "PU = 8"
definition PD :: u32 where "PD = 16"

lemmas mode_defs = IP_def OP_def OD_def PU_def PD_def

text \<open>The modes of the library: disable, input, output, output and input with open drain, output with open drain.\<close>

definition xmode :: "u32 \<Rightarrow> nat" where
  "xmode mode =
     (let m = mode AND NOT (PU OR PD) in
      if m = IP then 1 else if m = OP then 2 else if m = OP + OD then 6 else if m = IP + OP + OD then 7
      else if m = IP + OP then 3 else 0)"

definition esp_gpio_set :: "esp_ok \<Rightarrow> bool \<Rightarrow> esp_gpio \<Rightarrow> esp_state \<Rightarrow> (esp_gpio \<times> esp_state) result" where
  "esp_gpio_set ok on g s = rbind (esp_do ok (gpio_set_level (pin g) on) s) (\<lambda>s. Inr (g\<lparr>state := on\<rparr>, s))"

definition ESP_GPIO :: "esp_ok \<Rightarrow> int \<Rightarrow> u32 \<Rightarrow> bool \<Rightarrow> esp_state \<Rightarrow> (esp_gpio \<times> esp_state) result" where
  "ESP_GPIO ok p mode initial s =
     rbind (mark_used p s) (\<lambda>s.
     rbind (esp_gpio_set ok initial
              \<lparr>pin = p, is_output = (mode AND OP \<noteq> 0 \<and> mode AND IP = 0), state = False, gfn = 0, garg = 0\<rparr> s) (\<lambda>(g, s).
     rbind (esp_do ok (gpio_config (push_bit (nat p) 1) (xmode mode) (mode AND PU \<noteq> 0) (mode AND PD \<noteq> 0)) s) (\<lambda>s.
       Inr (g, s))))"

definition esp_gpio_destroy :: "esp_gpio \<Rightarrow> esp_state \<Rightarrow> esp_state result" where
  "esp_gpio_destroy g = mark_unused (pin g)"

text \<open>\<open>level\<close> is what the library reads at the pin.\<close>

definition esp_gpio_get :: "(int \<Rightarrow> bool) \<Rightarrow> esp_gpio \<Rightarrow> bool" where
  "esp_gpio_get level g = (if is_output g then state g else level (pin g))"

definition esp_gpio_toggle :: "esp_ok \<Rightarrow> (int \<Rightarrow> bool) \<Rightarrow> esp_gpio \<Rightarrow> esp_state \<Rightarrow> (esp_gpio \<times> esp_state) result" where
  "esp_gpio_toggle ok level g = esp_gpio_set ok (\<not> esp_gpio_get level g) g"

fun intr_type :: "interrupt \<Rightarrow> nat" where
  "intr_type OFF = 0" | "intr_type RISE = 1" | "intr_type FALL = 2" | "intr_type CHANGE = 3"

definition esp_set_interrupt ::
    "esp_ok \<Rightarrow> interrupt \<Rightarrow> nat \<Rightarrow> nat \<Rightarrow> esp_gpio \<Rightarrow> esp_state \<Rightarrow> (esp_gpio \<times> esp_state) result" where
  "esp_set_interrupt ok irq fn a g0 s =
     (let g = g0\<lparr>gfn := fn, garg := a\<rparr> in
      rbind
        (if fn \<noteq> 0 \<and> irq \<noteq> OFF then
           rbind (if has_irqs s then Inr s
                  else rbind (esp_do ok gpio_install_isr_service s) (\<lambda>s. Inr (s\<lparr>has_irqs := True\<rparr>))) (\<lambda>s.
           rbind (esp_do ok (gpio_isr_handler_add (pin g)) s)
             (esp_do ok (gpio_set_intr_type (pin g) (intr_type irq))))
         else esp_do ok (gpio_isr_handler_remove (pin g)) s)
        (\<lambda>s. Inr (g, s)))"

definition esp_on_interrupt :: "esp_gpio \<Rightarrow> (nat \<times> nat) result" where
  "esp_on_interrupt g = (if gfn g = 0 then Inl AssertFailed else Inr (gfn g, garg g))"

subsection \<open>Pulses and conversions\<close>

record pwm_timer =
  ptimer :: int
  npins :: nat

text \<open>The pins end with \<open>-1\<close> or after the six channels; reading past their end is out of bounds.\<close>

fun pwm_pins :: "esp_ok \<Rightarrow> int \<Rightarrow> nat \<Rightarrow> nat \<Rightarrow> int list \<Rightarrow> esp_state \<Rightarrow> (nat \<times> esp_state) result" where
  "pwm_pins ok tm idx 0 ps s = Inr (idx, s)"
| "pwm_pins ok tm idx (Suc k) [] s = Inl OutOfBounds"
| "pwm_pins ok tm idx (Suc k) (p # ps) s =
     (if p = -1 then Inr (idx, s)
      else rbind (mark_used p s) (\<lambda>s. rbind (esp_do ok (ledc_channel_config p idx tm) s) (pwm_pins ok tm (idx + 1) k ps)))"

definition PWM_Timer :: "esp_ok \<Rightarrow> int \<Rightarrow> int \<Rightarrow> int list \<Rightarrow> esp_state \<Rightarrow> (pwm_timer \<times> esp_state) result" where
  "PWM_Timer ok tm freq ps s =
     rbind (esp_do ok (ledc_timer_config tm freq) s) (\<lambda>s.
     rbind (pwm_pins ok tm 0 6 ps s) (\<lambda>(n, s). Inr (\<lparr>ptimer = tm, npins = n\<rparr>, s)))"

definition pwm_set :: "esp_ok \<Rightarrow> int \<Rightarrow> u32 \<Rightarrow> pwm_timer \<Rightarrow> esp_state \<Rightarrow> (bool \<times> esp_state) result" where
  "pwm_set ok idx v t s =
     (if idx < 0 \<or> int (npins t) \<le> idx then Inr (False, s)
      else rbind (esp_do ok (ledc_set_duty (nat idx) v) s) (\<lambda>s.
           rbind (esp_do ok (ledc_update_duty (nat idx)) s) (\<lambda>s. Inr (True, s))))"

text \<open>The converter's channel on a processor that has the second converter, and on one that has not.\<close>

definition adc_chan :: "bool \<Rightarrow> nat \<Rightarrow> nat result" where
  "adc_chan has_adc2 chan = (if has_adc2 \<and> chan < 10 then Inr chan else Inl AssertFailed)"

definition adc_set_atten :: "bool \<Rightarrow> (nat \<Rightarrow> nat \<Rightarrow> bool) \<Rightarrow> nat \<Rightarrow> nat \<Rightarrow> unit result" where
  "adc_set_atten h config chan atten = rbind (adc_chan h chan) (\<lambda>c. if config c atten then Inr () else Inl AssertFailed)"

definition adc_read :: "bool \<Rightarrow> (nat \<Rightarrow> u16 option) \<Rightarrow> nat \<Rightarrow> u16 result" where
  "adc_read h raw chan = rbind (adc_chan h chan) (\<lambda>c. case raw c of Some v \<Rightarrow> Inr v | None \<Rightarrow> Inl AssertFailed)"
subsection \<open>The two-wire bus\<close>

text \<open>
  The devices of a bus, the one pushed last first: the number of the library's handle and the address. \<^verbatim>\<open>match\<close>
  assigns the address it should compare, so it changes the device it visits and is true of the first one.
\<close>

record i2c_dev =
  dhandle :: nat
  daddr :: u8

definition i2c_match :: "u8 \<Rightarrow> i2c_dev \<Rightarrow> (bool \<times> i2c_dev) result" where
  "i2c_match addr d =
     (if addr = 0 then Inl AssertFailed else let d = d\<lparr>daddr := addr\<rparr> in Inr (daddr d \<noteq> 0, d))"

text \<open>\<^verbatim>\<open>devices.find\<close>: the devices after the visit and the place of the one that matched.\<close>

fun i2c_find :: "u8 \<Rightarrow> i2c_dev list \<Rightarrow> (nat option \<times> i2c_dev list) result" where
  "i2c_find addr [] = Inr (None, [])"
| "i2c_find addr (d # ds) =
     rbind (i2c_match addr d) (\<lambda>(hit, d).
       if hit then Inr (Some 0, d # ds)
       else rbind (i2c_find addr ds) (\<lambda>(i, ds). Inr (map_option Suc i, d # ds)))"

record esp_i2c =
  scl :: int
  sda :: int
  devs :: "i2c_dev list"
  handles :: nat

definition ESP_I2C :: "esp_ok \<Rightarrow> int \<Rightarrow> int \<Rightarrow> esp_state \<Rightarrow> (esp_i2c \<times> esp_state) result" where
  "ESP_I2C ok c d s =
     rbind (mark_used c s) (\<lambda>s.
     rbind (mark_used d s) (\<lambda>s.
     rbind (esp_do ok (i2c_new_master_bus c d) s) (\<lambda>s.
       Inr (\<lparr>scl = c, sda = d, devs = [], handles = 0\<rparr>, s))))"

fun i2c_rm_all :: "esp_ok \<Rightarrow> i2c_dev list \<Rightarrow> esp_state \<Rightarrow> esp_state result" where
  "i2c_rm_all ok [] s = Inr s"
| "i2c_rm_all ok (d # ds) s = rbind (esp_do ok (i2c_rm_device (dhandle d)) s) (i2c_rm_all ok ds)"

definition esp_i2c_destroy :: "esp_ok \<Rightarrow> esp_i2c \<Rightarrow> esp_state \<Rightarrow> esp_state result" where
  "esp_i2c_destroy ok b s =
     rbind (esp_do ok i2c_del_master_bus s) (\<lambda>s.
     rbind (mark_unused (scl b) s) (\<lambda>s.
     rbind (mark_unused (sda b) s) (i2c_rm_all ok (devs b))))"

text \<open>The handle of the device for an address; the library's handles are numbered.\<close>

definition get_device :: "esp_ok \<Rightarrow> u8 \<Rightarrow> esp_i2c \<Rightarrow> esp_state \<Rightarrow> (nat \<times> esp_i2c \<times> esp_state) result" where
  "get_device ok addr b0 s =
     rbind (i2c_find addr (devs b0)) (\<lambda>(i, ds). let b = b0\<lparr>devs := ds\<rparr> in
       case i of
         Some i \<Rightarrow> Inr (dhandle (ds ! i), b, s)
       | None \<Rightarrow>
           let h = handles b + 1; b = b\<lparr>devs := \<lparr>dhandle = h, daddr = addr\<rparr> # devs b, handles := h\<rparr> in
           rbind (esp_do ok (i2c_add_device addr h) s) (\<lambda>s. Inr (h, b, s)))"

definition esp_i2c_probe :: "esp_ok \<Rightarrow> u8 \<Rightarrow> u32 \<Rightarrow> esp_state \<Rightarrow> bool \<times> esp_state" where
  "esp_i2c_probe ok addr timeout s = esp_try ok (i2c_master_probe addr (timeout * 10)) s"

definition esp_i2c_write :: "esp_ok \<Rightarrow> u8 \<Rightarrow> u8 list \<Rightarrow> esp_i2c \<Rightarrow> esp_state \<Rightarrow> (nat \<times> esp_i2c \<times> esp_state) result" where
  "esp_i2c_write ok addr wr b s =
     rbind (get_device ok addr b s) (\<lambda>(h, b, s).
       let (good, s) = esp_try ok (i2c_transmit h wr) s in Inr (if good then length wr else 0, b, s))"

definition esp_i2c_write_read ::
    "esp_ok \<Rightarrow> u8 \<Rightarrow> u8 list \<Rightarrow> nat \<Rightarrow> esp_i2c \<Rightarrow> esp_state \<Rightarrow> (nat \<times> esp_i2c \<times> esp_state) result" where
  "esp_i2c_write_read ok addr wr rd_len b s =
     rbind (get_device ok addr b s) (\<lambda>(h, b, s).
       let (good, s) = esp_try ok (i2c_transmit_receive h wr rd_len) s in Inr (if good then rd_len else 0, b, s))"

definition esp_i2c_read :: "esp_ok \<Rightarrow> u8 \<Rightarrow> nat \<Rightarrow> esp_i2c \<Rightarrow> esp_state \<Rightarrow> (nat \<times> esp_i2c \<times> esp_state) result" where
  "esp_i2c_read ok addr len b s =
     rbind (get_device ok addr b s) (\<lambda>(h, b, s).
       let (good, s) = esp_try ok (i2c_receive h len) s in Inr (if good then len else 0, b, s))"

subsection \<open>The serial port\<close>

text \<open>A port is known by its number: the table \<^verbatim>\<open>xuarts\<close> holds at most one object for each.\<close>

record xuart =
  port :: nat
  pin_rx :: u32
  pin_tx :: u32
  xfn :: nat
  xarg :: nat

type_synonym xuarts = "nat \<rightharpoonup> xuart"

definition get_port :: "nat \<Rightarrow> int \<Rightarrow> nat result" where
  "get_port num_max p = (if p < int num_max \<and> 0 \<le> p then Inr (nat p) else Inl AssertFailed)"

definition XUART ::
    "nat \<Rightarrow> esp_ok \<Rightarrow> int \<Rightarrow> u32 \<Rightarrow> u32 \<Rightarrow> u32 \<Rightarrow> xuarts \<Rightarrow> esp_state \<Rightarrow> (nat \<times> xuarts \<times> esp_state) result" where
  "XUART num_max ok i rx tx baud us s =
     rbind (get_port num_max i) (\<lambda>p.
     rbind (if rx \<noteq> -1 then mark_used (sint rx) s else Inr s) (\<lambda>s.
     rbind (if tx \<noteq> -1 then mark_used (sint tx) s else Inr s) (\<lambda>s.
       if us p \<noteq> None then Inl AssertFailed
       else let u = \<lparr>port = p, pin_rx = rx, pin_tx = tx, xfn = 0, xarg = 0\<rparr> in
         rbind (esp_do ok (uart_param_config p baud) s) (\<lambda>s.
         rbind (esp_do ok (uart_set_pin p tx rx) s) (\<lambda>s.
         rbind (esp_do ok (uart_driver_install p 2048) s) (\<lambda>s.
           Inr (p, us(p \<mapsto> u), s\<lparr>calls := calls s @ [uart_set_select_notif_callback p]\<rparr>)))))))"

definition xuart_destroy :: "xuart \<Rightarrow> esp_state \<Rightarrow> esp_state result" where
  "xuart_destroy u s = rbind (mark_unused (sint (pin_rx u)) s) (mark_unused (sint (pin_tx u)))"

datatype notif = READ_NOTIF | WRITE_NOTIF | ERROR_NOTIF | OtherNotif

datatype xuart_ev = READ | WRITE | ERROR

text \<open>The event given to the handler, with the handler and its argument.\<close>

definition on_cb :: "notif \<Rightarrow> xuart \<Rightarrow> (nat \<times> xuart_ev \<times> nat) option result" where
  "on_cb n u =
     (if xfn u = 0 then Inr None
      else case n of
        READ_NOTIF \<Rightarrow> Inr (Some (xfn u, READ, xarg u))
      | WRITE_NOTIF \<Rightarrow> Inr (Some (xfn u, WRITE, xarg u))
      | ERROR_NOTIF \<Rightarrow> Inr (Some (xfn u, ERROR, xarg u))
      | OtherNotif \<Rightarrow> Inl AssertFailed)"

definition uart_cb :: "nat \<Rightarrow> notif \<Rightarrow> xuarts \<Rightarrow> (nat \<times> xuart_ev \<times> nat) option result" where
  "uart_cb p n us = (case us p of None \<Rightarrow> Inl AssertFailed | Some u \<Rightarrow> on_cb n u)"

definition xuart_set_handler :: "nat \<Rightarrow> nat \<Rightarrow> nat \<Rightarrow> xuarts \<Rightarrow> xuarts" where
  "xuart_set_handler p fn a us = us(p := map_option (\<lambda>u. u\<lparr>xfn := fn, xarg := a\<rparr>) (us p))"

definition xuart_tx :: "(u8 list \<Rightarrow> int) \<Rightarrow> u8 list \<Rightarrow> int" where
  "xuart_tx write_bytes data = write_bytes data"

text \<open>
  The characters the library holds, those it hands out and those it keeps; \<^verbatim>\<open>n > size\<close> compares as unsigned, so a
  negative number asks for all.
\<close>

definition xuart_rx :: "bool \<Rightarrow> u8 list \<Rightarrow> int \<Rightarrow> (u8 list \<times> u8 list) result" where
  "xuart_rx ok buffered n0 =
     (if \<not> ok then Inl AssertFailed
      else let n = (if n0 < 0 \<or> int (length buffered) < n0 then length buffered else nat n0) in Inr (take n buffered, drop n buffered))"

partial_function (option) xuart_tx_flush :: "(nat \<Rightarrow> bool) \<Rightarrow> nat \<Rightarrow> unit result option" where
  "xuart_tx_flush ok t = (if ok t then xuart_tx_flush ok (t + 1) else Some (Inl AssertFailed))"

subsection \<open>A pin has one user\<close>

datatype pin_op = Mark int | Unmark int

fun pin_step :: "pin_op \<Rightarrow> esp_state \<Rightarrow> (unit \<times> esp_state) result option" where
  "pin_step (Mark p) s = Some (rbind (mark_used p s) (\<lambda>s. Inr ((), s)))"
| "pin_step (Unmark p) s = Some (rbind (mark_unused p s) (\<lambda>s. Inr ((), s)))"

fun pin_spec :: "pin_op \<Rightarrow> int set \<Rightarrow> unit \<times> int set" where
  "pin_spec (Mark p) A = ((), insert p A)"
| "pin_spec (Unmark p) A = ((), A - {p})"

fun pin_ok :: "pin_op \<Rightarrow> int set \<Rightarrow> bool" where
  "pin_ok (Mark p) A \<longleftrightarrow> 0 \<le> p \<and> p < 64 \<and> p \<notin> A"
| "pin_ok (Unmark p) A \<longleftrightarrow> 0 \<le> p \<and> p < 64"

definition pin_rep :: "esp_state \<Rightarrow> int set \<Rightarrow> bool" where
  "pin_rep s A \<longleftrightarrow> A \<subseteq> {0..<64} \<and> (\<forall>n < 64. bit (used s) n \<longleftrightarrow> int n \<in> A)"

lemma and_pin: "push_bit n 1 AND (w :: u64) \<noteq> 0 \<longleftrightarrow> n < 64 \<and> bit w n"
proof -
  have "bit (push_bit n 1 AND w) m \<longleftrightarrow> m = n \<and> n < 64 \<and> bit w n" for m
    by (auto simp: bit_simps)
  then show ?thesis by (auto simp: bit_eq_iff)
qed

lemma mark_used_ok:
  assumes "pin_rep s A" "0 \<le> p" "p < 64"
  shows "mark_used p s = (if p \<in> A then Inl AssertFailed else Inr (s\<lparr>used := used s OR push_bit (nat p) 1\<rparr>))"
proof -
  have "push_bit (nat p) 1 AND used s \<noteq> 0 \<longleftrightarrow> p \<in> A"
    by (subst and_pin) (use assms in \<open>auto simp: pin_rep_def\<close>)
  with assms(2,3) show ?thesis by (simp add: mark_used_def pin_mask_def)
qed

lemma pin_step_sim:
  assumes "pin_rep s A" "pin_ok c A"
  shows "\<exists>s'. pin_step c s = Some (Inr (fst (pin_spec c A), s')) \<and> pin_rep s' (snd (pin_spec c A))"
proof (cases c)
  case (Mark p)
  with assms have "mark_used p s = Inr (s\<lparr>used := used s OR push_bit (nat p) 1\<rparr>)" by (simp add: mark_used_ok)
  with Mark assms show ?thesis by (auto simp: pin_rep_def bit_simps)
next
  case (Unmark p)
  with assms show ?thesis by (auto simp: mark_unused_def pin_mask_def pin_rep_def bit_simps)
qed

interpretation pin_set: simulation pin_rep pin_step pin_spec pin_ok
  by unfold_locales (rule pin_step_sim)

text \<open>
  the map of the pins in use is a set: whoever marks a pin that somebody holds is stopped, and after any marks and
  releases a pin is held exactly when it was marked and not released since.
\<close>

theorem esp_pins_have_one_user:
  assumes "used s = 0" "run_ok pin_spec pin_ok ops {}" "0 \<le> p" "p < 64"
  shows "\<exists>rs s'. run_impl pin_step ops s = Some (Inr (rs, s')) \<and>
    (mark_used p s' = Inl AssertFailed \<longleftrightarrow> p \<in> snd (run_spec pin_spec ops {}))"
proof -
  have "pin_rep s {}" using assms(1) by (simp add: pin_rep_def)
  from pin_set.run_sim [OF this assms(2)] obtain s' where
    s': "run_impl pin_step ops s = Some (Inr (fst (run_spec pin_spec ops {}), s'))" "pin_rep s' (snd (run_spec pin_spec ops {}))"
    by blast
  with mark_used_ok [OF s'(2) assms(3,4)] show ?thesis by auto
qed

theorem esp_pins_have_one_user_witness:
  "\<exists>rs s'. run_impl pin_step [Mark 4, Mark 5, Unmark 4, Mark 33] \<lparr>used = 0, has_irqs = False, calls = []\<rparr> = Some (Inr (rs, s')) \<and>
     mark_used 5 s' = Inl AssertFailed"
  using esp_pins_have_one_user [of "\<lparr>used = 0, has_irqs = False, calls = []\<rparr>" "[Mark 4, Mark 5, Unmark 4, Mark 33]" 5] by simp

subsection \<open>Pins, buses and ports at work\<close>

text \<open>An output pin tells what it was set to, and changes when it is toggled.\<close>

lemma output_pin_reads_back:
  assumes "ESP_GPIO ok p OP initial s = Inr (g, s')"
  shows "esp_gpio_get level g = initial \<and>
    (\<forall>on g' s''. esp_gpio_set ok on g s' = Inr (g', s'') \<longrightarrow> esp_gpio_get level g' = on) \<and>
    (\<forall>g' s''. esp_gpio_toggle ok level g s' = Inr (g', s'') \<longrightarrow> esp_gpio_get level g' = (\<not> initial))"
  using assms
  by (auto simp: ESP_GPIO_def rbind_Inr_conv esp_gpio_set_def esp_gpio_get_def esp_gpio_toggle_def mode_defs)

text \<open>The service for interrupts is installed once, before the first handler.\<close>

lemma interrupt_service_once:
  assumes "esp_set_interrupt ok irq fn a g s = Inr (g', s')" "fn \<noteq> 0" "irq \<noteq> OFF"
  shows "has_irqs s' \<and> esp_on_interrupt g' = Inr (fn, a) \<and>
    calls s' = calls s @ (if has_irqs s then [] else [gpio_install_isr_service]) @
      [gpio_isr_handler_add (pin g), gpio_set_intr_type (pin g) (intr_type irq)]"
  using assms
  by (auto simp: esp_set_interrupt_def Let_def rbind_Inr_conv esp_do_def esp_on_interrupt_def split: if_splits)

text \<open>
  Whatever address is asked for, the bus uses the handle of the device it made first, whose own address was given to
  the library once; the address 0 asserts.
\<close>

lemma i2c_all_addresses_share_a_handle:
  assumes "devs b = \<lparr>dhandle = h, daddr = a\<rparr> # ds"
  shows "get_device ok addr b s =
    (if addr = 0 then Inl AssertFailed else Inr (h, b\<lparr>devs := \<lparr>dhandle = h, daddr = addr\<rparr> # ds\<rparr>, s))"
  using assms by (simp add: get_device_def i2c_match_def Let_def)

lemma i2c_two_devices:
  "\<exists>b s. get_device (\<lambda>_ _. True) 0x50 \<lparr>scl = 1, sda = 2, devs = [], handles = 0\<rparr> \<lparr>used = 0, has_irqs = False, calls = []\<rparr> = Inr (1, b, s) \<and>
     calls s = [i2c_add_device 0x50 1] \<and> get_device (\<lambda>_ _. True) 0x68 b s = Inr (1, b\<lparr>devs := [\<lparr>dhandle = 1, daddr = 0x68\<rparr>]\<rparr>, s)"
  by (simp add: get_device_def esp_do_def i2c_match_def Let_def)

text \<open>
  what a serial port receives comes out in order and without loss, however the reader asks: two readings give what
  one of both lengths gives.
\<close>

theorem xuart_reads_in_order:
  assumes "0 \<le> n" "0 \<le> m"
  shows "\<exists>xs ys zs. xuart_rx True q n = Inr (xs, ys) \<and> xuart_rx True ys m = Inr (zs, drop (nat (n + m)) q) \<and> xs @ zs = take (nat (n + m)) q \<and>
    xuart_rx True q (n + m) = Inr (xs @ zs, drop (nat (n + m)) q)"
proof -
  have r: "xuart_rx True l k = Inr (take (nat k) l, drop (nat k) l)" if "0 \<le> k" for l k
    using that by (simp add: xuart_rx_def Let_def)
  from assms show ?thesis by (simp add: r take_add [symmetric] nat_add_distrib add.commute)
qed

theorem xuart_reads_in_order_witness:
  "\<exists>xs ys zs. xuart_rx True [1, 2, 3] 2 = Inr (xs, ys) \<and> xuart_rx True ys 5 = Inr (zs, []) \<and> xs @ zs = [1, 2, 3]"
  using xuart_reads_in_order [of 2 5 "[1, 2, 3]"] by auto

text \<open>A handler that was set is called with the event and its argument; a port that was never made asserts.\<close>

lemma xuart_event_delivered:
  "us p = Some u \<Longrightarrow> fn \<noteq> 0 \<Longrightarrow> uart_cb p READ_NOTIF (xuart_set_handler p fn a us) = Inr (Some (fn, READ, a))"
  by (simp add: uart_cb_def xuart_set_handler_def on_cb_def)

text \<open>
  The wait for the last character has no end: it asserts at the first error and never returns otherwise. A port
  without one of its pins cannot be destroyed, and no port can be made again after that.
\<close>

lemma xuart_flush_never_returns: "xuart_tx_flush ok t \<noteq> Some (Inr ())"
proof -
  have "r \<noteq> Inr ()" if "xuart_tx_flush ok t = Some r" for r
    using that by (rule xuart_tx_flush.raw_induct [rotated]) (auto split: if_splits)
  then show ?thesis by blast
qed

lemma xuart_without_pin_asserts: "pin_rx u = -1 \<Longrightarrow> xuart_destroy u s = Inl AssertFailed"
  by (simp add: xuart_destroy_def mark_unused_def pin_mask_def)

lemma xuart_not_made_again:
  assumes "XUART m ok i rx tx baud us s = Inr (p, us', s')"
  shows "\<exists>e. XUART m ok' i rx' tx' baud' us' s'' = Inl e"
proof -
  from assms have "get_port m i = Inr p" "us' p \<noteq> None"
    by (auto simp: XUART_def rbind_Inr_conv Let_def split: if_splits)
  then show ?thesis
    by (cases "XUART m ok' i rx' tx' baud' us' s''") (auto simp: XUART_def rbind_Inr_conv split: if_splits)
qed

text \<open>Only the channels that have a pin can be set, with the value given, and the others are refused.\<close>

lemma pwm_set_channel:
  assumes "PWM_Timer ok tm freq ps s = Inr (t, s1)" "pwm_set ok idx v t s1 = Inr (r, s2)"
  shows "npins t \<le> 6 \<and> r = (0 \<le> idx \<and> idx < int (npins t)) \<and>
    calls s2 = calls s1 @ (if r then [ledc_set_duty (nat idx) v, ledc_update_duty (nat idx)] else [])"
proof -
  have "pwm_pins ok tm i k ps s = Inr (n, s') \<Longrightarrow> n \<le> i + k" for i k ps s n s'
    by (induction ok tm i k ps s rule: pwm_pins.induct) (fastforce simp: rbind_Inr_conv split: if_splits)+
  with assms(1) have "npins t \<le> 6" by (fastforce simp: PWM_Timer_def rbind_Inr_conv)
  with assms(2) show ?thesis by (auto simp: pwm_set_def rbind_Inr_conv esp_do_def split: if_splits)
qed

end
