(* ===== verification/Spec2Isabelle.thy ===== *)
theory Spec2Isabelle
  imports LinuxQueue Dispatcher Buffers TimeEvents JsonMatch JsonFmt Motor Mcp23s17 Spi Storage StreamIO Devices
    WatchdogModel Sensors NmeaModel Displays Panels Barometer Converters Logger Networks Threads Handlers Batches
    Servers CliNet Keyboards Tracing Settings Commands HeapTools ArmTimer EspTimer NvsStorage ArmGpio ArmUart EspPort
begin

text \<open>
  A verification library for \<^emph>\<open>panglos\<close>, a C++ framework for small devices: drivers, queues, timers and parsers that
  run on FreeRTOS, ESP32, STM32 and Linux. All paths below are under \<^verbatim>\<open>src/src\<close>.

  \<^bold>\<open>The program.\<close> A device starts by bringing its parts up in the order of their needs
  (\<^verbatim>\<open>device.cpp\<close>) and registers them by name (\<^verbatim>\<open>object.cpp\<close>). Threads pass each other messages
  and callbacks (\<^verbatim>\<open>linux/queue.cpp\<close>, \<^verbatim>\<open>dispatch.cpp\<close>) and bytes
  (\<^verbatim>\<open>panglos/buffer.h\<close>, \<^verbatim>\<open>panglos/ring_buffer.h\<close>) and wait for points in time
  (\<^verbatim>\<open>event.cpp\<close>, \<^verbatim>\<open>panglos/event_queue.h\<close>, \<^verbatim>\<open>time.cpp\<close>, \<^verbatim>\<open>watchdog.cpp\<close>), all over
  intrusive lists (\<^verbatim>\<open>list.cpp\<close>, \<^verbatim>\<open>panglos/deque.h\<close>). Text comes in and goes out by line and as JSON
  (\<^verbatim>\<open>io.cpp\<close>, \<^verbatim>\<open>json.cpp\<close>, \<^verbatim>\<open>json_fmt.cpp\<close>); settings are kept by name space and key
  (\<^verbatim>\<open>linux/storage.cpp\<close>, \<^verbatim>\<open>storage.cpp\<close>). Below these are the drivers: buses bit by bit on pins
  (\<^verbatim>\<open>drivers/i2c_bitbang.cpp\<close>, \<^verbatim>\<open>drivers/2_wire_bitbang.cpp\<close>, \<^verbatim>\<open>drivers/spi_bitbang.cpp\<close>) and what
  hangs on them: a port expander, stepper motors, clocks, sensors, a GPS receiver, displays, strips of
  lamps. Above them are the parts an application sees: threads and batches of jobs
  (\<^verbatim>\<open>linux/thread.cpp\<close>, \<^verbatim>\<open>freertos/thread.cpp\<close>, \<^verbatim>\<open>batch.cpp\<close>), a
  logger (\<^verbatim>\<open>logger.cpp\<close>), events and their handlers (\<^verbatim>\<open>app/event.cpp\<close>), networks with
  their sessions (\<^verbatim>\<open>network.cpp\<close>, \<^verbatim>\<open>esp32/mqtt.cpp\<close>, \<^verbatim>\<open>socket.cpp\<close>,
  \<^verbatim>\<open>cli_net.cpp\<close>).

  \<^bold>\<open>How the model is laid out.\<close> One theory per component, in the order in which the components build on each
  other.

  \<^item> \<open>Prelude\<close>: the machine integers \<open>u8\<close> \<dots> \<open>u32\<close>; errors as values (\<open>error\<close>, with an
    assertion, a null pointer and an access outside an array as its constructors) and the result type with its
    \<open>rbind\<close>; the locale \<open>simulation\<close> (an implementation step, a specification step, a relation between
    their states; scripts of steps then answer alike), which every refinement below interprets.
  \<^item> \<open>IntrusiveList\<close> (\<^verbatim>\<open>list.cpp\<close>): lists threaded through the items. A store maps slots (a head or the
    \<^verbatim>\<open>next\<close> member of an item) to items, so that two lists may share it and a stale link would be seen. Loops are
    \<open>partial_function (option)\<close>: \<open>None\<close> is a loop that does not end, as it does on a circular list.
  \<^item> \<open>DequeModel\<close> (\<^verbatim>\<open>panglos/deque.h\<close>): the same with a cached tail.
  \<^item> \<open>QueueSpec\<close>: the contract of a bounded first-in first-out queue as a locale, interpreted by
    \<open>RingBuffers\<close> (\<^verbatim>\<open>panglos/buffer.h\<close> and \<^verbatim>\<open>panglos/ring_buffer.h\<close>, whose counters wrap) and by
    \<open>LinuxQueue\<close> (\<^verbatim>\<open>linux/queue.cpp\<close>, with its two semaphores as counts).
  \<^item> \<open>Dispatcher\<close> (\<^verbatim>\<open>dispatch.cpp\<close>): threads that put callbacks and the loop that runs them as one step
    relation over interleavings and over the deque of \<open>DequeModel\<close>, in which a callback can be once only; the semaphore is a
    parameter, so that counting and binary ones are both covered.
  \<^item> \<open>Buffers\<close> (the chain of blocks in \<^verbatim>\<open>panglos/buffer.h\<close>) and \<open>TimeEvents\<close> (\<^verbatim>\<open>time.cpp\<close>,
    \<^verbatim>\<open>event.cpp\<close>, \<^verbatim>\<open>panglos/event_queue.h\<close>): times are 32-bit words and their order is that of the signed
    difference, so the order is only one within half the range; the lemmas state that window.
  \<^item> \<open>Json\<close>, \<open>JsonMatch\<close> (\<^verbatim>\<open>json.cpp\<close>) and \<open>JsonFmt\<close> (\<^verbatim>\<open>json_fmt.cpp\<close>): the parser
    works on positions of a text of which it may read the terminator, and not more. It carries fuel, one unit for each
    nested value or element; the length of the text is enough, which is the theorem \<open>json_parse_returns\<close>. The
    grammar is the inductive \<open>gvalue\<close>; soundness and completeness relate the two.
  \<^item> \<open>Storage\<close> (\<^verbatim>\<open>linux/storage.cpp\<close>, \<^verbatim>\<open>storage.cpp\<close>), \<open>StreamIO\<close> (\<^verbatim>\<open>io.cpp\<close>),
    \<open>Devices\<close> (\<^verbatim>\<open>device.cpp\<close>, \<^verbatim>\<open>object.cpp\<close>), \<open>WatchdogModel\<close>
    (\<^verbatim>\<open>watchdog.cpp\<close>). The recursion of \<open>init_device\<close> is bounded by the code's own \<^verbatim>\<open>nest\<close>
    argument, so it needs no fuel.
  \<^item> \<open>Motor\<close> (\<^verbatim>\<open>drivers/motor.cpp\<close>): coils, acceleration table and position of a stepper; \<open>poll\<close> is
    one turn of its loop.
  \<^item> \<open>Mcp23s17\<close> (\<^verbatim>\<open>drivers/mcp23s17.cpp\<close>): registers of the chip, the write-back cache over them, pins.
  \<^item> \<open>Buses\<close> and \<open>Spi\<close> (\<^verbatim>\<open>drivers/i2c_bitbang.cpp\<close>, \<^verbatim>\<open>drivers/2_wire_bitbang.cpp\<close>,
    \<^verbatim>\<open>drivers/spi_bitbang.cpp\<close>, \<^verbatim>\<open>drivers/spi.cpp\<close>): the code drives pins; the model records every level
    it sets, and a decoder written from the bus specification says what a listener sees. What the line returns at
    each sample is a parameter.
  \<^item> \<open>Dates\<close> (\<^verbatim>\<open>date.cpp\<close>, \<^verbatim>\<open>drivers/rtc.cpp\<close>, \<^verbatim>\<open>drivers/ds3231.cpp\<close>), \<open>Sensors\<close>
    (\<^verbatim>\<open>drivers/pzem004t.cpp\<close>, \<^verbatim>\<open>drivers/aht25.cpp\<close>, \<^verbatim>\<open>drivers/mhz19b.cpp\<close>) and \<open>NmeaModel\<close>
    (\<^verbatim>\<open>drivers/nmea.cpp\<close>): calendars, registers, check sums, sentences. The locale \<open>byte_check\<close> states what a
    byte-wise check promises and is interpreted by all three check sums. \<^verbatim>\<open>strtod\<close> is a parameter.

  \<^item> \<open>Displays\<close> (\<^verbatim>\<open>drivers/7-segment.cpp\<close>, \<^verbatim>\<open>drivers/max7219.cpp\<close>,
    \<^verbatim>\<open>drivers/tm1637.cpp\<close>), \<open>Panels\<close> (\<^verbatim>\<open>drivers/oled_GC9A01A.cpp\<close>,
    \<^verbatim>\<open>drivers/led_strip.cpp\<close>, \<^verbatim>\<open>esp32/rmt_strip.cpp\<close>) and \<open>Keyboards\<close>
    (\<^verbatim>\<open>drivers/keyboard.cpp\<close>, over \<open>Mcp23s17\<close>): what is sent, and what a reader of the data sheet sees.
  \<^item> \<open>Barometer\<close> (\<^verbatim>\<open>drivers/bmp280.cpp\<close>: the integer compensation with its wrap-around) and
    \<open>Converters\<close> (\<^verbatim>\<open>drivers/mcp3002.cpp\<close>, \<^verbatim>\<open>drivers/mcp6s91.cpp\<close>,
    \<^verbatim>\<open>drivers/amg88xx.cpp\<close>, \<^verbatim>\<open>drivers/ds18b20.cpp\<close>, \<^verbatim>\<open>esp32/one_wire.cpp\<close>).
  \<^item> \<open>Logger\<close> (\<^verbatim>\<open>logger.cpp\<close>) and \<open>Tracing\<close> (\<^verbatim>\<open>vcd.cpp\<close>,
    \<^verbatim>\<open>verbose.cpp\<close>): who hears which message (its text is certain on the first output
    only, since the arguments are passed on uncopied); dumps of signals and a reader of them.
  \<^item> \<open>Threads\<close> (\<^verbatim>\<open>linux/thread.cpp\<close>, \<^verbatim>\<open>freertos/thread.cpp\<close>,
    \<^verbatim>\<open>thread.cpp\<close>), \<open>Batches\<close> (\<^verbatim>\<open>batch.cpp\<close>), \<open>Servers\<close>
    (\<^verbatim>\<open>socket.cpp\<close>): step relations over interleavings, each lock a step of its own. \<open>CliNet\<close> (\<^verbatim>\<open>cli_net.cpp\<close>,
    \<^verbatim>\<open>tx_net.cpp\<close>): sessions and the transmitter on top of them.
  \<^item> \<open>Networks\<close> (\<^verbatim>\<open>network.cpp\<close>, \<^verbatim>\<open>esp32/network.cpp\<close>,
    \<^verbatim>\<open>esp32/mqtt.cpp\<close>) and \<open>Handlers\<close> (\<^verbatim>\<open>app/event.cpp\<close>,
    \<^verbatim>\<open>app/cli.cpp\<close>): what the system reports is an event of the model, and the handlers are its functions.

  \<^item> \<open>Settings\<close>, \<open>Commands\<close>, \<open>HeapTools\<close> (\<^verbatim>\<open>app/cli_cmd.cpp\<close>): the commands of the shell,
    each a function from its arguments and the part it works on to the text printed and the part changed. The command
    line library is a git submodule: how it reads arguments and numbers is a parameter.
  \<^item> The ports to processors. \<open>ArmTimer\<close> (\<^verbatim>\<open>stm32/timer.cpp\<close>), \<open>ArmGpio\<close>
    (\<^verbatim>\<open>stm32/gpio.cpp\<close>, \<^verbatim>\<open>stm32/gpio_f1.cpp\<close>), \<open>ArmUart\<close> (\<^verbatim>\<open>stm32/uart_f1.cpp\<close>),
    \<open>EspTimer\<close> (\<^verbatim>\<open>esp32/timer.cpp\<close>), \<open>NvsStorage\<close> (\<^verbatim>\<open>esp32/storage.cpp\<close>) and \<open>EspPort\<close>
    (\<^verbatim>\<open>esp32/gpio.cpp\<close>, \<^verbatim>\<open>esp32/pwm.cpp\<close>, \<^verbatim>\<open>esp32/adc.cpp\<close>, \<^verbatim>\<open>esp32/i2c.cpp\<close>,
    \<^verbatim>\<open>esp32/uart.cpp\<close>). The vendors' libraries are not in the repository: their calls are entries of a trace, in
    the order the code makes them, and what each returns is a parameter. Interrupts are functions or steps.

  \<^bold>\<open>What is shown.\<close> Invariants and refinements come first: lists, deque, storage, registry, watchdog and JSON
  matching refine sequences, maps and sets under arbitrary scripts of operations; queues lose, duplicate and reorder
  nothing; timers stay in order across the wrap of the clock. Then termination and liveness: the parser returns on every
  text, callbacks are not stranded, seeks arrive, devices come up. Round trips relate writers to readers (JSON, lines,
  dates, registers). Bounds and error theorems say which inputs stay inside their buffers, and exactly when the code
  would dereference null or leave an array. Where modelling showed the code to differ from its intent, a theorem states
  the exact behaviour (for instance \<open>json_number_at_end\<close>, \<open>storage_list_overruns\<close>, \<open>mcp_write_cache_loses_update\<close>).

  \<^bold>\<open>What is abstracted.\<close> Mutexes: an operation under a lock is one step. Allocation always succeeds. Memory is
  the arrays the code owns; reading outside one is the error \<open>OutOfBounds\<close>. The debug messages that the other
  components write to the logger are not recorded. Floating point values are left as the integers they are computed
  from, or are reals where a theorem is about their accuracy.

  \<^bold>\<open>Not modelled.\<close> The drivers of \<^verbatim>\<open>esp32\<close> and \<^verbatim>\<open>stm32\<close> that only pass values to registers or
    to one call of a vendor's library (converters, DMA, sound, SPI), mutexes and semaphores, opening sockets, since what
    they compute is in headers and silicon that are not part of the repository; the programs of \<^verbatim>\<open>app\<close> that put the
    parts together; and the unit tests.
\<close>

end
